(* ===== verification/CLib.thy ===== *)
theory CLib
  imports Main "HOL-Library.Char_ord" "HOL-Library.List_Lexorder" "HOL-Library.Word"
begin

text \<open>
  The part of the C library that the programs of this development use, on C strings.

  A C string is a value of type \<^typ>\<open>string\<close> that holds its bytes up to, and without, the
  terminating NUL; raw bytes (a file, a pipe) are a \<^typ>\<open>string\<close> in which NUL may occur, and
  \<open>cstr\<close> is what C sees of such bytes. Character classification is that of the C locale: no
  program here calls \<open>setlocale\<close>. The theory also holds the lemmas about these functions that
  every component uses, and the collections \<open>cstr_simps\<close> and \<open>buf_bounds\<close> that carry them.
\<close>

named_theorems cstr_simps "equations for C strings, tokens and lines"
named_theorems buf_bounds "length bounds of what the library writes to fixed buffers"

subsection \<open>Characters\<close>

definition NUL :: char where
  "NUL = CHR 0x00"

abbreviation newline :: char where
  "newline \<equiv> CHR 0x0A"

definition cstr :: "string \<Rightarrow> string" where
  "cstr bs = takeWhile (\<lambda>c. c \<noteq> NUL) bs"

definition isspace :: "char \<Rightarrow> bool" where
  "isspace c \<longleftrightarrow> c = CHR 0x20 \<or> c = CHR 0x09 \<or> c = CHR 0x0A \<or> c = CHR 0x0B \<or> c = CHR 0x0C \<or> c = CHR 0x0D"

definition isdigit :: "char \<Rightarrow> bool" where
  "isdigit c \<longleftrightarrow> (let n = (of_char c :: nat) in 48 \<le> n \<and> n \<le> 57)"

definition isupper :: "char \<Rightarrow> bool" where
  "isupper c \<longleftrightarrow> (let n = (of_char c :: nat) in 65 \<le> n \<and> n \<le> 90)"

definition islower :: "char \<Rightarrow> bool" where
  "islower c \<longleftrightarrow> (let n = (of_char c :: nat) in 97 \<le> n \<and> n \<le> 122)"

definition isalnum :: "char \<Rightarrow> bool" where
  "isalnum c \<longleftrightarrow> isdigit c \<or> isupper c \<or> islower c"

definition tolower :: "char \<Rightarrow> char" where
  "tolower c = (if isupper c then char_of ((of_char c :: nat) + 32) else c)"

text \<open>\<open>!strcasecmp(s, t)\<close>; \<open>!strcmp(s, t)\<close> is equality of C strings.\<close>

definition strcaseeq :: "string \<Rightarrow> string \<Rightarrow> bool" where
  "strcaseeq s t \<longleftrightarrow> map tolower s = map tolower t"

lemma strcaseeq_refl [simp]: "strcaseeq s s"
  by (simp add: strcaseeq_def)

lemma strcaseeq_length: "length s \<noteq> length t \<Longrightarrow> \<not> strcaseeq s t"
  by (auto simp: strcaseeq_def dest: map_eq_imp_length_eq)

subsection \<open>Fixed buffers\<close>

text \<open>\<open>snprintf(dst, n, "%s", s)\<close>, \<open>n > 0\<close>: what \<open>dst\<close> holds afterwards.\<close>

definition snprintf_s :: "nat \<Rightarrow> string \<Rightarrow> string" where
  "snprintf_s n s = take (n - 1) s"

lemma length_snprintf_s [buf_bounds]: "0 < n \<Longrightarrow> length (snprintf_s n s) < n"
  by (auto simp: snprintf_s_def)

lemma snprintf_s_fits [simp]: "length s < n \<Longrightarrow> snprintf_s n s = s"
  by (simp add: snprintf_s_def)

lemma set_snprintf_s: "set (snprintf_s n s) \<subseteq> set s"
  by (simp add: snprintf_s_def set_take_subset)

subsection \<open>Decimal numbers: \<open>%d\<close>\<close>

fun dec_nat :: "nat \<Rightarrow> string" where
  "dec_nat n = (if n < 10 then [char_of (48 + n)] else dec_nat (n div 10) @ [char_of (48 + n mod 10)])"

declare dec_nat.simps [simp del]

definition dec_int :: "int \<Rightarrow> string" where
  "dec_int i = (if i < 0 then ''-'' @ dec_nat (nat (- i)) else dec_nat (nat i))"

subsection \<open>Hexadecimal numbers: \<open>%X\<close>\<close>

definition hex_digit :: "nat \<Rightarrow> char" where
  "hex_digit d = (if d < 10 then char_of (48 + d) else char_of (55 + d))"

fun hex_nat :: "nat \<Rightarrow> string" where
  "hex_nat n = (if n < 16 then [hex_digit n] else hex_nat (n div 16) @ [hex_digit (n mod 16)])"

declare hex_nat.simps [simp del]

text \<open>\<open>%0wX\<close>: at least \<open>w\<close> digits.\<close>

definition hex_pad :: "nat \<Rightarrow> nat \<Rightarrow> string" where
  "hex_pad w n = replicate (w - length (hex_nat n)) CHR ''0'' @ hex_nat n"

text \<open>\<open>%x\<close> and \<open>%0wx\<close>.\<close>

definition hex_lower :: "nat \<Rightarrow> string" where
  "hex_lower n = map tolower (hex_nat n)"

definition hex_lower_pad :: "nat \<Rightarrow> nat \<Rightarrow> string" where
  "hex_lower_pad w n = map tolower (hex_pad w n)"

subsection \<open>Reading numbers: strtoul\<close>

definition digit_value :: "char \<Rightarrow> nat option" where
  "digit_value c =
     (let n = (of_char c :: nat) in
      if isdigit c then Some (n - 48)
      else if isupper c then Some (n - 55)
      else if islower c then Some (n - 87)
      else None)"

definition is_digit_in :: "nat \<Rightarrow> char \<Rightarrow> bool" where
  "is_digit_in base c \<longleftrightarrow> (case digit_value c of None \<Rightarrow> False | Some d \<Rightarrow> d < base)"

definition digits_value :: "nat \<Rightarrow> string \<Rightarrow> nat" where
  "digits_value base ds = foldl (\<lambda>acc c. acc * base + the (digit_value c)) 0 ds"

text \<open>
  \<open>strtoul\<close>/\<open>strtoull\<close> of width \<open>w\<close> with base 10, 16 or 0 (the base from the prefix), clamped to the
  maximum.
\<close>

definition hex_prefix :: "string \<Rightarrow> bool" where
  "hex_prefix s \<longleftrightarrow> 3 \<le> length s \<and> s ! 0 = CHR ''0'' \<and> (s ! 1 = CHR ''x'' \<or> s ! 1 = CHR ''X'') \<and> is_digit_in 16 (s ! 2)"

definition strtou_base :: "nat \<Rightarrow> string \<Rightarrow> nat" where
  "strtou_base base s =
     (if base \<noteq> 0 then base
      else if hex_prefix s then 16
      else if s \<noteq> [] \<and> hd s = CHR ''0'' then 8 else 10)"

definition strtou :: "nat \<Rightarrow> nat \<Rightarrow> string \<Rightarrow> nat" where
  "strtou w base s =
     (let s1 = dropWhile isspace s;
          neg = (s1 \<noteq> [] \<and> hd s1 = CHR ''-'');
          s2 = (if s1 \<noteq> [] \<and> (hd s1 = CHR ''-'' \<or> hd s1 = CHR ''+'') then tl s1 else s1);
          b = strtou_base base s2;
          s3 = (if b = 16 \<and> hex_prefix s2 then drop 2 s2 else s2);
          v = digits_value b (takeWhile (is_digit_in b) s3)
      in if 2 ^ w \<le> v then 2 ^ w - 1 else if neg then (2 ^ w - v) mod 2 ^ w else v)"

text \<open>What \<open>*endptr\<close> points to: the whole string when there are no digits.\<close>

definition strtou_end :: "nat \<Rightarrow> string \<Rightarrow> string" where
  "strtou_end base s =
     (let s1 = dropWhile isspace s;
          s2 = (if s1 \<noteq> [] \<and> (hd s1 = CHR ''-'' \<or> hd s1 = CHR ''+'') then tl s1 else s1);
          b = strtou_base base s2;
          s3 = (if b = 16 \<and> hex_prefix s2 then drop 2 s2 else s2)
      in if s3 = [] \<or> \<not> is_digit_in b (hd s3) then s else dropWhile (is_digit_in b) s3)"

lemma strtou_bound [buf_bounds]: "strtou w base s < 2 ^ w"
  by (simp add: strtou_def Let_def)

subsection \<open>Tokens: strtok_r with one delimiter\<close>

fun split_on :: "char \<Rightarrow> string \<Rightarrow> string list" where
  "split_on d [] = [[]]"
| "split_on d (c # cs) =
     (if c = d then [] # split_on d cs
      else (case split_on d cs of [] \<Rightarrow> [[c]] | w # ws \<Rightarrow> (c # w) # ws))"

text \<open>
  The tokens the successive calls of \<open>strtok_r(s, d, &save)\<close> return: the non-empty runs
  between delimiters.
\<close>

definition strtok_all :: "char \<Rightarrow> string \<Rightarrow> string list" where
  "strtok_all d s = filter (\<lambda>w. w \<noteq> []) (split_on d s)"

lemma split_on_not_Nil [simp]: "split_on d s \<noteq> []"
  by (induction s) (auto split: list.splits)

lemma split_on_free: "d \<notin> set s \<Longrightarrow> split_on d s = [s]"
  by (induction s) auto

lemma split_on_append: "split_on d (s @ d # t) = split_on d s @ split_on d t"
proof (induction s)
  case (Cons c s)
  then show ?case by (cases "split_on d s") auto
qed simp

lemma split_on_append_free:
  "d \<notin> set t \<Longrightarrow> split_on d (t @ s) = (t @ hd (split_on d s)) # tl (split_on d s)"
proof (induction t)
  case Nil
  then show ?case by (cases "split_on d s") auto
qed auto

lemma split_on_delim_free: "w \<in> set (split_on d s) \<Longrightarrow> d \<notin> set w"
proof (induction s arbitrary: w)
  case (Cons c s)
  then show ?case by (cases "split_on d s") (auto split: if_splits)
qed simp

lemma split_on_subset: "w \<in> set (split_on d s) \<Longrightarrow> set w \<subseteq> set s"
proof (induction s arbitrary: w)
  case (Cons c s)
  then show ?case by (cases "split_on d s") (fastforce split: if_splits)+
qed simp

lemma strtok_all_Nil [simp]: "strtok_all d [] = []"
  by (simp add: strtok_all_def)

lemma strtok_all_single [cstr_simps]: "d \<notin> set s \<Longrightarrow> s \<noteq> [] \<Longrightarrow> strtok_all d s = [s]"
  by (simp add: strtok_all_def split_on_free)

lemma strtok_all_append [cstr_simps]: "strtok_all d (s @ d # t) = strtok_all d s @ strtok_all d t"
  by (simp add: strtok_all_def split_on_append)

lemma strtok_all_mem: "w \<in> set (strtok_all d s) \<Longrightarrow> w \<noteq> [] \<and> d \<notin> set w \<and> set w \<subseteq> set s"
  by (auto simp: strtok_all_def dest: split_on_delim_free split_on_subset)

subsection \<open>Lines: fgets\<close>

text \<open>One call of \<open>fgets\<close> that may store \<open>n\<close> bytes: the bytes stored and the rest of the file.\<close>

fun fgets1 :: "nat \<Rightarrow> string \<Rightarrow> string \<times> string" where
  "fgets1 n [] = ([], [])"
| "fgets1 n (c # cs) =
     (if n = 0 then ([], c # cs)
      else if c = newline then ([c], cs)
      else let (l, r) = fgets1 (n - 1) cs in (c # l, r))"

lemma fgets1_split: "fgets1 n s = (l, r) \<Longrightarrow> s = l @ r"
  by (induction n s arbitrary: l r rule: fgets1.induct) (auto split: if_splits prod.splits)

lemma fgets1_bound: "fgets1 n s = (l, r) \<Longrightarrow> length l \<le> n"
  by (induction n s arbitrary: l r rule: fgets1.induct) (auto split: if_splits prod.splits)

lemma fgets1_progress: "fgets1 n (c # cs) = (l, r) \<Longrightarrow> 0 < n \<Longrightarrow> length r \<le> length cs"
proof -
  assume a: "fgets1 n (c # cs) = (l, r)" and n: "0 < n"
  from a n have "l \<noteq> []" by (auto split: if_splits prod.splits)
  with fgets1_split [OF a] show "length r \<le> length cs" by (cases l) auto
qed

text \<open>\<open>while (fgets(line, sz, f))\<close>: the contents of \<open>line\<close> in each iteration.\<close>

function fgets_all :: "nat \<Rightarrow> string \<Rightarrow> string list" where
  "fgets_all sz s =
     (if s = [] \<or> sz \<le> 1 then []
      else let (l, r) = fgets1 (sz - 1) s in l # fgets_all sz r)"
  by pat_completeness auto
termination
proof (relation "measure (\<lambda>(sz, s). length s)", simp, goal_cases)
  case (1 sz s x l r)
  then have "fgets1 (sz - 1) s = (l, r)" "0 < sz - 1" by auto
  moreover from 1 obtain c cs where "s = c # cs" by (cases s) auto
  ultimately show ?case using fgets1_progress [of "sz - 1" c cs l r] by simp
qed

declare fgets_all.simps [simp del]

text \<open>The lines as the loop body sees them, as C strings.\<close>

definition fgets_lines :: "nat \<Rightarrow> string \<Rightarrow> string list" where
  "fgets_lines sz s = map cstr (fgets_all sz s)"

lemma fgets_all_concat: "1 < sz \<Longrightarrow> concat (fgets_all sz s) = s"
proof (induction sz s rule: fgets_all.induct)
  case (1 sz s)
  then show ?case
    by (subst fgets_all.simps) (auto split: prod.splits dest: fgets1_split)
qed

lemma fgets_all_bound: "l \<in> set (fgets_all sz s) \<Longrightarrow> length l < sz"
proof (induction sz s rule: fgets_all.induct)
  case (1 sz s)
  obtain l' r where eq: "fgets1 (sz - 1) s = (l', r)" by fastforce
  have "length l' \<le> sz - 1" using eq by (rule fgets1_bound)
  with "1.prems" "1.IH" eq show ?case
    by (auto simp: fgets_all.simps [of sz s] split: if_splits)
qed

lemma fgets1_line: "newline \<notin> set l \<Longrightarrow> length l < n \<Longrightarrow> fgets1 n (l @ newline # r) = (l @ [newline], r)"
  by (induction l arbitrary: n) (auto simp: Let_def)

lemma fgets_all_line:
  "newline \<notin> set l \<Longrightarrow> length l + 2 \<le> sz \<Longrightarrow> fgets_all sz (l @ newline # r) = (l @ [newline]) # fgets_all sz r"
  by (subst fgets_all.simps) (simp add: fgets1_line)

lemma cstr_Nil [simp]: "cstr [] = []"
  by (simp add: cstr_def)

lemma cstr_id: "NUL \<notin> set s \<Longrightarrow> cstr s = s"
  by (induction s) (auto simp: cstr_def)

lemma NUL_cstr [simp]: "NUL \<notin> set (cstr s)"
  by (auto simp: cstr_def dest: set_takeWhileD)

lemma length_cstr: "length (cstr s) \<le> length s"
  by (simp add: cstr_def length_takeWhile_le)

lemma length_fgets_lines [buf_bounds]: "l \<in> set (fgets_lines sz s) \<Longrightarrow> length l < sz"
  by (auto simp: fgets_lines_def dest!: fgets_all_bound intro: le_less_trans length_cstr)

lemma fgets_lines_Nil [simp]: "fgets_lines sz [] = []"
  by (simp add: fgets_lines_def fgets_all.simps)

lemma fgets_lines_line [cstr_simps]:
  "newline \<notin> set l \<Longrightarrow> NUL \<notin> set l \<Longrightarrow> length l + 2 \<le> sz \<Longrightarrow>
   fgets_lines sz (l @ newline # r) = (l @ [newline]) # fgets_lines sz r"
  by (simp add: fgets_lines_def fgets_all_line cstr_id NUL_def)

subsection \<open>Trimming\<close>

text \<open>
  Both programs that parse text files bring their own trimming function, over different sets of
  blanks. What they promise is the same, so the facts the parsers use are proved once here and
  obtained by interpretation where the functions are defined.
\<close>

locale trimmer =
  fixes ws :: "char \<Rightarrow> bool"
    and trm :: "string \<Rightarrow> string"
  assumes trm_law: "trm s = rev (dropWhile ws (rev (dropWhile ws s)))"
begin

lemma trm_Nil [simp]: "trm [] = []"
  by (simp add: trm_law)

lemma trm_subset: "set (trm s) \<subseteq> set s"
  by (auto simp: trm_law dest!: set_dropWhileD)

lemma length_trm: "length (trm s) \<le> length s"
proof -
  have "length (trm s) \<le> length (dropWhile ws s)"
    by (simp add: trm_law) (metis length_dropWhile_le length_rev)
  then show ?thesis using length_dropWhile_le [of ws s] by simp
qed

lemma trm_no_lead: "trm s \<noteq> [] \<Longrightarrow> \<not> ws (hd (trm s))"
proof -
  assume ne: "trm s \<noteq> []"
  let ?d = "dropWhile ws s"
  from ne have d: "?d \<noteq> []" by (metis dropWhile.simps(1) rev.simps(1) trm_law)
  have "\<not> ws (hd ?d)" using d by (rule hd_dropWhile)
  moreover obtain t where "?d = trm s @ t"
  proof -
    have "rev ?d = takeWhile ws (rev ?d) @ dropWhile ws (rev ?d)" by simp
    then have "?d = rev (dropWhile ws (rev ?d)) @ rev (takeWhile ws (rev ?d))"
      by (metis rev_append rev_rev_ident)
    then show ?thesis using that by (simp add: trm_law)
  qed
  ultimately show ?thesis using ne by (metis hd_append)
qed

lemma trm_no_trail: "trm s \<noteq> [] \<Longrightarrow> \<not> ws (last (trm s))"
  by (simp add: trm_law last_rev hd_dropWhile)

lemma trm_id: "(s = [] \<or> (\<not> ws (hd s) \<and> \<not> ws (last s))) \<Longrightarrow> trm s = s"
proof -
  assume a: "s = [] \<or> (\<not> ws (hd s) \<and> \<not> ws (last s))"
  have lead: "x = [] \<or> \<not> ws (hd x) \<Longrightarrow> dropWhile ws x = x" for x
    by (cases x) auto
  from a have "dropWhile ws s = s" by (intro lead) auto
  moreover from a have "dropWhile ws (rev s) = rev s" by (intro lead) (auto simp: hd_rev)
  ultimately show ?thesis by (simp add: trm_law)
qed

lemma trm_idem [simp]: "trm (trm s) = trm s"
  by (rule trm_id) (auto simp: trm_no_lead trm_no_trail)

lemma trm_free: "(\<And>c. c \<in> set s \<Longrightarrow> \<not> ws c) \<Longrightarrow> trm s = s"
  by (rule trm_id) (cases s, auto)

lemma trm_blank: "(\<And>c. c \<in> set s \<Longrightarrow> ws c) \<Longrightarrow> trm s = []"
  by (simp add: trm_law dropWhile_eq_Nil_conv) (meson set_dropWhileD)

lemma trm_pad: "(\<And>c. c \<in> set p \<union> set q \<Longrightarrow> ws c) \<Longrightarrow> trm (p @ s @ q) = trm s"
proof -
  assume pq: "\<And>c. c \<in> set p \<union> set q \<Longrightarrow> ws c"
  have left: "dropWhile ws (p @ x) = dropWhile ws x" for x
    using pq by (simp add: dropWhile_append2)
  have right: "dropWhile ws (rev q @ x) = dropWhile ws x" for x
    using pq by (subst dropWhile_append2) auto
  show ?thesis
  proof (cases "dropWhile ws s = []")
    case True
    then have "dropWhile ws (s @ q) = []"
      using pq by (simp only: dropWhile_eq_Nil_conv) auto
    with True show ?thesis by (simp only: trm_law left)
  next
    case False
    then have "dropWhile ws (s @ q) = dropWhile ws s @ q"
      by (metis dropWhile_append1 dropWhile_eq_Nil_conv)
    then show ?thesis by (simp add: trm_law left right)
  qed
qed

end

subsection \<open>Options\<close>

lemma all_Some_iff: "None \<notin> f ` set cs \<longleftrightarrow> (\<exists>xs. map f cs = map Some xs)"
proof (induction cs)
  case (Cons c cs)
  show ?case
  proof
    assume "None \<notin> f ` set (c # cs)"
    then obtain x xs where "f c = Some x" "map f cs = map Some xs" using Cons.IH by (cases "f c") auto
    then have "map f (c # cs) = map Some (x # xs)" by simp
    then show "\<exists>xs. map f (c # cs) = map Some xs" by blast
  next
    assume "\<exists>xs. map f (c # cs) = map Some xs"
    then obtain xs where "map f (c # cs) = map Some xs" ..
    then have "f c \<noteq> None" "\<exists>ys. map f cs = map Some ys" by (cases xs; auto)+
    with Cons.IH show "None \<notin> f ` set (c # cs)" by auto
  qed
qed simp

subsection \<open>Effect traces\<close>

text \<open>
  An operation that takes a trace of effects and returns it extended; \<open>extends P tr tr'\<close> says that
  it only appended, and only effects that satisfy \<open>P\<close>.
\<close>

definition extends :: "('e \<Rightarrow> bool) \<Rightarrow> 'e list \<Rightarrow> 'e list \<Rightarrow> bool" where
  "extends P tr tr' \<longleftrightarrow> (\<exists>new. tr' = tr @ new \<and> list_all P new)"

lemma extends_refl [simp, intro]: "extends P tr tr"
  by (simp add: extends_def)

lemma extends_snoc [intro]: "P e \<Longrightarrow> extends P tr (tr @ [e])"
  by (simp add: extends_def)

lemma extends_trans [trans]: "extends P tr tr' \<Longrightarrow> extends P tr' tr'' \<Longrightarrow> extends P tr tr''"
  by (auto simp: extends_def)

lemma extends_mono: "extends P tr tr' \<Longrightarrow> (\<And>e. P e \<Longrightarrow> Q e) \<Longrightarrow> extends Q tr tr'"
  by (auto simp: extends_def list_all_iff)

lemma extends_append: "list_all P new \<Longrightarrow> extends P tr (tr @ new)"
  by (auto simp: extends_def)

lemma extends_filter: "extends P tr tr' \<Longrightarrow> (\<And>e. P e \<Longrightarrow> \<not> Q e) \<Longrightarrow> filter Q tr' = filter Q tr"
  by (auto simp: extends_def list_all_iff filter_empty_conv)

subsection \<open>Conversions and unsigned differences\<close>

text \<open>An \<open>int\<close> compared with or stored in an unsigned 32 bit number, and an unsigned 32 bit number stored in an \<open>int\<close>.\<close>

definition as_u32 :: "int \<Rightarrow> nat" where
  "as_u32 i = nat (i mod 2 ^ 32)"

definition as_s32 :: "nat \<Rightarrow> int" where
  "as_s32 n = (if n mod 2 ^ 32 < 2 ^ 31 then int (n mod 2 ^ 32) else int (n mod 2 ^ 32) - 2 ^ 32)"

lemma as_s32_small: "n < 2 ^ 31 \<Longrightarrow> as_s32 n = int n"
  by (simp add: as_s32_def)

text \<open>Subtraction of unsigned numbers of \<open>w\<close> bits, which wraps below zero.\<close>

definition usub :: "nat \<Rightarrow> nat \<Rightarrow> nat \<Rightarrow> nat" where
  "usub w a b = nat ((int a - int b) mod 2 ^ w)"

lemma usub_le: "b \<le> a \<Longrightarrow> a < 2 ^ w \<Longrightarrow> usub w a b = a - b"
  by (simp add: usub_def of_nat_diff [symmetric] nat_mod_distrib nat_power_eq flip: of_nat_diff)

lemma usub_less: "usub w a b < 2 ^ w"
  by (simp add: usub_def nat_less_iff)

end
