(* ===== verification/NeonUci.thy ===== *)
theory NeonUci
  imports CLib "HOL-Library.Multiset"
begin

unbundle bit_operations_syntax

text \<open>
  The daemon \<open>neon-uci\<close> (src/package/system/neon-uci/src/neon-uci.c): it reads translator
  manifests, runs the translators whose UCI packages changed, asks systemd to reload the affected
  units, and watches the configuration directory with inotify.

  The operating system is the parameter \<open>uci_os\<close>. Each of its answers may depend on the trace
  of effects produced so far, so an instance can describe any sequential environment; every
  operation takes a trace and returns it extended by its own effects. Messages on standard error
  (\<open>log_msg\<close>) are not part of the trace.
\<close>

subsection \<open>Limits\<close>

abbreviation (input) PATH_MAX :: nat where "PATH_MAX \<equiv> 4096"
abbreviation (input) MAX_LINE :: nat where "MAX_LINE \<equiv> 2048"
abbreviation (input) MAX_TRANSLATORS :: nat where "MAX_TRANSLATORS \<equiv> 128"
abbreviation (input) MAX_CSV :: nat where "MAX_CSV \<equiv> 4096"
abbreviation (input) TOKBUF :: nat where "TOKBUF \<equiv> 2048" \<comment> \<open>the local \<open>char buf[2048]\<close> of the tokenisers\<close>

subsection \<open>Strings\<close>

text \<open>The backward loop of \<open>trim\<close>, on the reversed string: it stops at the first byte (\<open>end > s\<close>).\<close>

fun trim_end :: "string \<Rightarrow> string" where
  "trim_end (c # d # r) = (if isspace c then trim_end (d # r) else c # d # r)"
| "trim_end s = s"

definition trim :: "string \<Rightarrow> string" where
  "trim s = (let s' = dropWhile isspace s in if s' = [] then s' else rev (trim_end (rev s')))"

definition parse_bool :: "string \<Rightarrow> bool \<Rightarrow> bool" where
  "parse_bool s def =
     (if s = [] then def
      else if strcaseeq s ''1'' \<or> strcaseeq s ''yes'' \<or> strcaseeq s ''true'' \<or> strcaseeq s ''on'' then True
      else if strcaseeq s ''0'' \<or> strcaseeq s ''no'' \<or> strcaseeq s ''false'' \<or> strcaseeq s ''off'' then False
      else def)"

definition safe_token :: "string \<Rightarrow> bool" where
  "safe_token s \<longleftrightarrow> s \<noteq> [] \<and>
     list_all (\<lambda>c. isalnum c \<or> c = CHR ''_'' \<or> c = CHR ''-'' \<or> c = CHR ''.'' \<or> c = CHR ''@'') s"

definition package_name_valid :: "string \<Rightarrow> bool" where
  "package_name_valid s \<longleftrightarrow> s \<noteq> [] \<and> list_all (\<lambda>c. isalnum c \<or> c = CHR ''_'' \<or> c = CHR ''-'') s"

definition actions :: "string list" where
  "actions = [''none'', ''reload'', ''restart'', ''try-reload-or-restart'', ''reload-or-restart'', ''daemon-reload'']"

definition action_valid :: "string \<Rightarrow> bool" where
  "action_valid s \<longleftrightarrow> List.member actions s"

subsection \<open>Manifests\<close>

record translator =
  t_manifest_path :: string
  t_name :: string
  t_packages :: string
  t_command :: string
  t_units :: string
  t_action :: string
  t_enabled :: bool
  t_unit_optional :: bool

definition manifest_assign :: "translator \<Rightarrow> string \<Rightarrow> string \<Rightarrow> translator" where
  "manifest_assign t key val =
     (if key = ''name'' then t\<lparr>t_name := snprintf_s 128 val\<rparr>
      else if key = ''packages'' then t\<lparr>t_packages := snprintf_s 1024 val\<rparr>
      else if key = ''command'' then t\<lparr>t_command := snprintf_s PATH_MAX val\<rparr>
      else if key = ''units'' then t\<lparr>t_units := snprintf_s 1024 val\<rparr>
      else if key = ''action'' then t\<lparr>t_action := snprintf_s 64 val\<rparr>
      else if key = ''enabled'' then t\<lparr>t_enabled := parse_bool val True\<rparr>
      else if key = ''unit_optional'' then t\<lparr>t_unit_optional := parse_bool val True\<rparr>
      else t)"

text \<open>One iteration of the line loop, on (\<open>in_translator\<close>, \<open>*t\<close>).\<close>

definition manifest_line :: "bool \<times> translator \<Rightarrow> string \<Rightarrow> bool \<times> translator" where
  "manifest_line st line =
     (let (in_translator, t) = st; p = trim line in
      if p = [] \<or> hd p = CHR ''#'' \<or> hd p = CHR '';'' then st
      else if hd p = CHR ''['' then (p = ''[translator]'', t)
      else if \<not> in_translator then st
      else if CHR ''='' \<notin> set p then st
      else (in_translator,
            manifest_assign t (trim (takeWhile (\<lambda>c. c \<noteq> CHR ''='') p))
              (trim (tl (dropWhile (\<lambda>c. c \<noteq> CHR ''='') p)))))"

definition manifest_init :: "string \<Rightarrow> translator" where
  "manifest_init path =
     \<lparr>t_manifest_path = snprintf_s PATH_MAX path, t_name = [], t_packages = [], t_command = [],
      t_units = [], t_action = ''none'', t_enabled = True, t_unit_optional = True\<rparr>"

definition manifest_ok :: "translator \<Rightarrow> bool" where
  "manifest_ok t \<longleftrightarrow>
     \<not> (t_name t = [] \<or> \<not> safe_token (t_name t)) \<and> t_packages t \<noteq> [] \<and>
     \<not> (t_command t = [] \<or> hd (t_command t) \<noteq> CHR ''/'') \<and> action_valid (t_action t)"

text \<open>\<open>None\<close> is the return value -1; \<open>file\<close> is what \<open>fopen\<close> and the reads give for a path.\<close>

definition parse_manifest :: "(string \<Rightarrow> string option) \<Rightarrow> string \<Rightarrow> translator option" where
  "parse_manifest file path =
     (case file path of
        None \<Rightarrow> None
      | Some text \<Rightarrow>
          (let t = snd (foldl manifest_line (False, manifest_init path) (fgets_lines MAX_LINE text))
           in if manifest_ok t then Some t else None))"

definition conf_entry :: "string \<Rightarrow> bool" where
  "conf_entry d \<longleftrightarrow> \<not> (d \<noteq> [] \<and> hd d = CHR ''.'') \<and>
     \<not> (length d < 6 \<or> drop (length d - 5) d \<noteq> ''.conf'')"

fun load_loop :: "(string \<Rightarrow> string option) \<Rightarrow> string \<Rightarrow> translator list \<Rightarrow> string list \<Rightarrow> translator list option" where
  "load_loop file dir ts [] = Some ts"
| "load_loop file dir ts (d # ds) =
     (if \<not> conf_entry d then load_loop file dir ts ds
      else if MAX_TRANSLATORS \<le> length ts then None
      else if PATH_MAX \<le> length (dir @ ''/'' @ d) then load_loop file dir ts ds
      else (case parse_manifest file (dir @ ''/'' @ d) of
              None \<Rightarrow> None
            | Some t \<Rightarrow> load_loop file dir (ts @ [t]) ds))"

text \<open>
  \<open>translator_cmp\<close> compares the paths by \<open>strcmp\<close>, which is the lexicographic order of the
  byte values. Two entries of one directory have different paths, so the order \<open>qsort\<close> gives is
  unique.
\<close>

definition load_translators :: "(string \<Rightarrow> string option) \<Rightarrow> string \<Rightarrow> string list option \<Rightarrow> translator list option" where
  "load_translators file dir entries =
     (case entries of
        None \<Rightarrow> None
      | Some ds \<Rightarrow> map_option (sort_key t_manifest_path) (load_loop file dir [] ds))"

subsection \<open>Package lists\<close>

definition csv_contains :: "string \<Rightarrow> string \<Rightarrow> bool" where
  "csv_contains csv needle \<longleftrightarrow>
     (if TOKBUF \<le> length csv then False
      else list_ex (\<lambda>tok. trim tok = needle) (strtok_all (CHR '','') csv))"

definition translator_matches_packages :: "translator \<Rightarrow> string \<Rightarrow> bool" where
  "translator_matches_packages t changed_csv \<longleftrightarrow>
     (if changed_csv = [] \<or> changed_csv = ''*'' then True
      else if TOKBUF \<le> length (t_packages t) then False
      else list_ex (\<lambda>tok. csv_contains changed_csv (trim tok)) (strtok_all (CHR '','') (t_packages t)))"

definition csv_add_unique :: "string \<Rightarrow> nat \<Rightarrow> string \<Rightarrow> bool \<times> string" where
  "csv_add_unique csv sz val =
     (if \<not> package_name_valid val then (False, csv)
      else if csv_contains csv val then (True, csv)
      else let used = length csv;
               need = length val + (if used \<noteq> 0 then 1 else 0) + 1
           in if used + need > sz then (False, csv)
              else (True, (if used \<noteq> 0 then csv @ '','' else csv) @ val))"

subsection \<open>The operating system\<close>

text \<open>What \<open>fork\<close> and \<open>waitpid\<close> (retried on EINTR) report about a child.\<close>

datatype wait_outcome = Exited nat | Signaled nat | ForkFailed | WaitFailed

text \<open>\<open>unit_exists\<close>: no pipe or child; or the bytes of the single \<open>read\<close> and the child's end.\<close>

datatype capture_outcome = NoChild | Captured "string option" wait_outcome

text \<open>
  \<open>Spawn argv envp\<close> is one call of \<open>spawn_wait\<close> (\<open>None\<close>: the inherited environment),
  \<open>Capture argv\<close> a child whose output \<open>unit_exists\<close> reads.
\<close>

datatype uci_effect =
    Spawn "string list" "string list option"
  | Capture "string list"
  | SetHostname string
  | Stdout string

type_synonym uci_trace = "uci_effect list"

text \<open>An option found by libuci's \<open>uci_lookup_ptr\<close>; a NULL string or element name is \<open>None\<close>.\<close>

datatype uci_option = UciString "string option" | UciList "string option list" | UciOther

record uci_os =
  os_readdir :: "uci_trace \<Rightarrow> string \<Rightarrow> string list option"
  os_file :: "uci_trace \<Rightarrow> string \<Rightarrow> string option"
  os_access_x :: "uci_trace \<Rightarrow> string \<Rightarrow> bool"
  os_calloc :: "uci_trace \<Rightarrow> bool"
  os_environ :: "string list"
  os_spawn :: "uci_trace \<Rightarrow> string list \<Rightarrow> string list option \<Rightarrow> wait_outcome"
  os_capture :: "uci_trace \<Rightarrow> string list \<Rightarrow> capture_outcome"
  os_host_name_max :: int
  os_sethostname :: "uci_trace \<Rightarrow> string \<Rightarrow> bool"
  os_uci_alloc :: "bool \<times> bool"
  os_uci_lookup :: "string \<Rightarrow> string \<Rightarrow> uci_option option"

record uci_globals =
  g_config_dir :: string
  g_translator_dir :: string
  g_systemctl :: string
  g_verbose :: bool

definition spawn_status :: "wait_outcome \<Rightarrow> int" where
  "spawn_status w =
     (case w of Exited n \<Rightarrow> int n | Signaled n \<Rightarrow> 128 + int n | ForkFailed \<Rightarrow> -1 | WaitFailed \<Rightarrow> -1)"

definition spawn_wait :: "uci_os \<Rightarrow> string list \<Rightarrow> string list option \<Rightarrow> uci_trace \<Rightarrow> int \<times> uci_trace" where
  "spawn_wait os argv envp tr = (spawn_status (os_spawn os tr argv envp), tr @ [Spawn argv envp])"

subsection \<open>Running translators\<close>

definition env_changed :: "string \<Rightarrow> string" where
  "env_changed changed_csv =
     snprintf_s (MAX_CSV + 64)
       (''NEON_UCI_CHANGED_PACKAGES='' @ (if changed_csv \<noteq> [] then changed_csv else ''*''))"

definition run_handler :: "uci_os \<Rightarrow> translator \<Rightarrow> string \<Rightarrow> uci_trace \<Rightarrow> int \<times> uci_trace" where
  "run_handler os t changed_csv tr =
     (if \<not> os_access_x os tr (t_command t) then (-1, tr)
      else if \<not> os_calloc os tr then (-1, tr)
      else let (rc, tr') = spawn_wait os [t_command t, ''apply'']
                             (Some (os_environ os @ [env_changed changed_csv])) tr
           in if rc \<noteq> 0 then (-1, tr') else (0, tr'))"

text \<open>
  A \<open>waitpid\<close> that fails for another reason than EINTR leaves \<open>status = 0\<close>, which the test of
  \<open>unit_exists\<close> takes for a normal exit.
\<close>

definition unit_exists :: "uci_globals \<Rightarrow> uci_os \<Rightarrow> string \<Rightarrow> uci_trace \<Rightarrow> bool \<times> uci_trace" where
  "unit_exists g os un tr =
     (let argv = [g_systemctl g, ''show'', ''--property=LoadState'', ''--value'', un] in
      case os_capture os tr argv of
        NoChild \<Rightarrow> (False, tr)
      | Captured out st \<Rightarrow>
          (let p = trim (cstr (take 63 (case out of None \<Rightarrow> [] | Some b \<Rightarrow> b)))
           in ((out \<noteq> None \<and> out \<noteq> Some [] \<and> (st = Exited 0 \<or> st = WaitFailed)) \<and> p \<noteq> ''not-found'' \<and> p \<noteq> [],
               tr @ [Capture argv])))"

text \<open>The loop over the unit names; the first component counts \<open>failures\<close>.\<close>

fun systemctl_units :: "uci_globals \<Rightarrow> uci_os \<Rightarrow> translator \<Rightarrow> string list \<Rightarrow> nat \<Rightarrow> uci_trace \<Rightarrow> nat \<times> uci_trace" where
  "systemctl_units g os t [] failures tr = (failures, tr)"
| "systemctl_units g os t (tok # toks) failures tr =
     (let un = trim tok in
      if \<not> safe_token un then systemctl_units g os t toks (failures + 1) tr
      else let (missing, tr1) = (if t_unit_optional t
                                 then (let (ex, tr') = unit_exists g os un tr in (\<not> ex, tr'))
                                 else (False, tr))
           in if missing then systemctl_units g os t toks failures tr1
              else let (rc, tr2) = spawn_wait os [g_systemctl g, t_action t, un] None tr1
                   in systemctl_units g os t toks (if rc \<noteq> 0 then failures + 1 else failures) tr2)"

definition run_systemctl_action :: "uci_globals \<Rightarrow> uci_os \<Rightarrow> translator \<Rightarrow> uci_trace \<Rightarrow> int \<times> uci_trace" where
  "run_systemctl_action g os t tr =
     (if t_action t = ''none'' then (0, tr)
      else if t_action t = ''daemon-reload'' then
        (let (rc, tr') = spawn_wait os [g_systemctl g, ''daemon-reload''] None tr
         in (if rc = 0 then 0 else -1, tr'))
      else if t_units t = [] then (-1, tr)
      else if TOKBUF \<le> length (t_units t) then (-1, tr)
      else let (failures, tr') = systemctl_units g os t (strtok_all (CHR '','') (t_units t)) 0 tr
           in (if failures \<noteq> 0 then -1 else 0, tr'))"

text \<open>The body of the loop of \<open>apply_translators\<close> for one translator: failures added, trace.\<close>

definition apply_one :: "uci_globals \<Rightarrow> uci_os \<Rightarrow> string \<Rightarrow> translator \<Rightarrow> uci_trace \<Rightarrow> nat \<times> uci_trace" where
  "apply_one g os changed_csv t tr =
     (if \<not> t_enabled t then (0, tr)
      else if \<not> translator_matches_packages t changed_csv then (0, tr)
      else let (hrc, tr1) = run_handler os t changed_csv tr
           in if hrc \<noteq> 0 then (1, tr1)
              else let (src, tr2) = run_systemctl_action g os t tr1
                   in (if src \<noteq> 0 then 1 else 0, tr2))"

fun apply_loop :: "uci_globals \<Rightarrow> uci_os \<Rightarrow> string \<Rightarrow> translator list \<Rightarrow> nat \<Rightarrow> uci_trace \<Rightarrow> nat \<times> uci_trace" where
  "apply_loop g os changed_csv [] failures tr = (failures, tr)"
| "apply_loop g os changed_csv (t # ts) failures tr =
     (let (f, tr') = apply_one g os changed_csv t tr
      in apply_loop g os changed_csv ts (failures + f) tr')"

definition loaded :: "uci_globals \<Rightarrow> uci_os \<Rightarrow> uci_trace \<Rightarrow> translator list option" where
  "loaded g os tr = load_translators (os_file os tr) (g_translator_dir g) (os_readdir os tr (g_translator_dir g))"

definition apply_translators :: "uci_globals \<Rightarrow> uci_os \<Rightarrow> string \<Rightarrow> uci_trace \<Rightarrow> int \<times> uci_trace" where
  "apply_translators g os changed_csv tr =
     (case loaded g os tr of
        None \<Rightarrow> (-1, tr)
      | Some ts \<Rightarrow> (let (failures, tr') = apply_loop g os changed_csv ts 0 tr
                    in (if failures \<noteq> 0 then -1 else 0, tr')))"

subsection \<open>Watching the configuration directory\<close>

datatype signal = SIGTERM | SIGINT | SIGHUP

record watch_state =
  w_fd :: bool \<comment> \<open>\<open>fd >= 0\<close>\<close>
  w_pending :: string
  w_stop :: bool
  w_reload :: bool
  w_trace :: uci_trace

definition on_signal :: "signal \<Rightarrow> watch_state \<Rightarrow> watch_state" where
  "on_signal sig s = (if sig = SIGHUP then s\<lparr>w_reload := True\<rparr> else s\<lparr>w_stop := True\<rparr>)"

record inotify_event =
  ev_mask :: "32 word"
  ev_name :: "string option" \<comment> \<open>\<open>None\<close> for \<open>ev->len == 0\<close>\<close>

definition IN_GONE :: "32 word" where
  "IN_GONE = 0x400 OR 0x800 OR 0x8000" \<comment> \<open>\<open>IN_DELETE_SELF | IN_MOVE_SELF | IN_IGNORED\<close>\<close>

datatype poll_outcome = PollEintr | PollError | PollTimeout | PollReady bool
datatype read_outcome = ReadRetry | ReadError | ReadEvents "inotify_event list"

text \<open>
  What one iteration of the loop meets: signals delivered before the test of \<open>g_stop\<close> and before
  the test of \<open>g_reload\<close>, and the results of the system calls it makes.
\<close>

record watch_input =
  i_sigs_head :: "signal list"
  i_sigs_reload :: "signal list"
  i_init_ok :: bool
  i_watch_ok :: bool
  i_poll :: poll_outcome
  i_read :: read_outcome

text \<open>The loop over the events of one \<open>read\<close>, on (\<open>fd >= 0\<close>, \<open>pending\<close>).\<close>

fun watch_events :: "inotify_event list \<Rightarrow> string \<Rightarrow> bool \<times> string" where
  "watch_events [] pending = (True, pending)"
| "watch_events (ev # evs) pending =
     (if ev_mask ev AND IN_GONE \<noteq> 0 then (False, pending)
      else case ev_name ev of
             None \<Rightarrow> watch_events evs pending
           | Some n \<Rightarrow>
               (if \<not> (n \<noteq> [] \<and> hd n = CHR ''.'') \<and> package_name_valid n
                then watch_events evs (snd (csv_add_unique pending MAX_CSV n))
                else watch_events evs pending))"

text \<open>\<open>if (fd < 0)\<close>: open the watch; \<open>None\<close> is the \<open>continue\<close> after a failure.\<close>

definition watch_open :: "watch_input \<Rightarrow> watch_state \<Rightarrow> watch_state option" where
  "watch_open i s =
     (if w_fd s then Some s
      else if \<not> i_init_ok i then None
      else if \<not> i_watch_ok i then None
      else Some (s\<lparr>w_fd := True\<rparr>))"

definition watch_reload :: "uci_globals \<Rightarrow> uci_os \<Rightarrow> watch_state \<Rightarrow> watch_state" where
  "watch_reload g os s =
     (if w_reload s
      then s\<lparr>w_reload := False, w_trace := snd (apply_translators g os ''*'' (w_trace s))\<rparr>
      else s)"

definition watch_flush :: "uci_globals \<Rightarrow> uci_os \<Rightarrow> watch_state \<Rightarrow> watch_state" where
  "watch_flush g os s =
     (if w_pending s \<noteq> []
      then s\<lparr>w_pending := [],
             w_trace := snd (apply_translators g os (snprintf_s MAX_CSV (w_pending s)) (w_trace s))\<rparr>
      else s)"

definition watch_body :: "uci_globals \<Rightarrow> uci_os \<Rightarrow> watch_input \<Rightarrow> watch_state \<Rightarrow> watch_state" where
  "watch_body g os i s0 =
     (case watch_open i s0 of
        None \<Rightarrow> s0
      | Some s1 \<Rightarrow>
          (let s = watch_reload g os (fold on_signal (i_sigs_reload i) s1) in
           case i_poll i of
             PollEintr \<Rightarrow> s
           | PollError \<Rightarrow> s\<lparr>w_fd := False\<rparr>
           | PollTimeout \<Rightarrow> watch_flush g os s
           | PollReady False \<Rightarrow> s
           | PollReady True \<Rightarrow>
               (case i_read i of
                  ReadRetry \<Rightarrow> s
                | ReadError \<Rightarrow> s\<lparr>w_fd := False\<rparr>
                | ReadEvents evs \<Rightarrow>
                    (let (open_fd, pending) = watch_events evs (w_pending s)
                     in s\<lparr>w_fd := open_fd, w_pending := pending\<rparr>))))"

text \<open>
  \<open>watch_loop\<close> over the inputs of its iterations. The loop has no bound of its own: it ends when
  \<open>g_stop\<close> is set, and \<open>Inl\<close> is a run that is still going when the inputs end; \<open>Inr\<close> is
  the state in which it returned 0.
\<close>

fun watch_loop :: "uci_globals \<Rightarrow> uci_os \<Rightarrow> watch_input list \<Rightarrow> watch_state \<Rightarrow> watch_state + watch_state" where
  "watch_loop g os [] s = Inl s"
| "watch_loop g os (i # is) s =
     (let s' = fold on_signal (i_sigs_head i) s in
      if w_stop s' then Inr (s'\<lparr>w_fd := False\<rparr>) else watch_loop g os is (watch_body g os i s'))"

definition watch_init :: "uci_trace \<Rightarrow> watch_state" where
  "watch_init tr = \<lparr>w_fd = False, w_pending = [], w_stop = False, w_reload = False, w_trace = tr\<rparr>"

subsection \<open>Checking, querying, host name\<close>

definition check_one :: "uci_os \<Rightarrow> uci_trace \<Rightarrow> translator \<Rightarrow> nat" where
  "check_one os tr t =
     (if \<not> t_enabled t then 0
      else (if os_access_x os tr (t_command t) then 0 else 1) +
           (if TOKBUF \<le> length (t_packages t) then 1
            else length (filter (\<lambda>tok. \<not> package_name_valid (trim tok)) (strtok_all (CHR '','') (t_packages t)))))"

definition check_configuration :: "uci_globals \<Rightarrow> uci_os \<Rightarrow> uci_trace \<Rightarrow> int" where
  "check_configuration g os tr =
     (case loaded g os tr of
        None \<Rightarrow> 1
      | Some ts \<Rightarrow> if sum_list (map (check_one os tr) ts) \<noteq> 0 then 1 else 0)"

definition uci_text :: "string option \<Rightarrow> string" where
  "uci_text e = (case e of None \<Rightarrow> [] | Some x \<Rightarrow> x)"

fun join_sep :: "string \<Rightarrow> string list \<Rightarrow> string" where
  "join_sep sep [] = []"
| "join_sep sep [x] = x"
| "join_sep sep (x # y # xs) = x @ sep @ join_sep sep (y # xs)"

definition uci_query :: "uci_globals \<Rightarrow> uci_os \<Rightarrow> string \<Rightarrow> string option \<Rightarrow> uci_trace \<Rightarrow> int \<times> uci_trace" where
  "uci_query g os tuple separator tr =
     (if \<not> fst (os_uci_alloc os) then (2, tr)
      else if \<not> snd (os_uci_alloc os) then (1, tr)
      else case os_uci_lookup os (g_config_dir g) tuple of
             None \<Rightarrow> (1, tr)
           | Some (UciString v) \<Rightarrow> (0, tr @ [Stdout (uci_text v @ [newline])])
           | Some (UciList es) \<Rightarrow>
               (let sep = (case separator of None \<Rightarrow> '' '' | Some x \<Rightarrow> x)
                in (0, tr @ [Stdout (join_sep sep (map uci_text es) @ [newline])]))
           | Some UciOther \<Rightarrow> (1, tr))"

definition hostname_value_valid :: "uci_os \<Rightarrow> string \<Rightarrow> bool" where
  "hostname_value_valid os s \<longleftrightarrow>
     (if s = [] then False
      else let mx = (if os_host_name_max os \<le> 0 then 64 else os_host_name_max os) in
        if int (length s) > mx then False
        else if hd s = CHR ''.'' \<or> hd s = CHR ''-'' \<or> last s = CHR ''-'' then False
        else list_all (\<lambda>c. isalnum c \<or> c = CHR ''.'' \<or> c = CHR ''-'') s)"

definition set_kernel_hostname :: "uci_os \<Rightarrow> string \<Rightarrow> uci_trace \<Rightarrow> int \<times> uci_trace" where
  "set_kernel_hostname os s tr =
     (if \<not> hostname_value_valid os s then (2, tr)
      else if \<not> os_sethostname os tr s then (1, tr @ [SetHostname s])
      else (0, tr @ [SetHostname s]))"

subsection \<open>The command line\<close>

record uci_opts =
  o_apply :: "string option"
  o_once :: bool
  o_check :: bool

datatype uci_mode =
    Options uci_globals uci_opts
  | Version
  | Help
  | Query uci_globals string "string option"
  | SetHost string
  | Usage

fun parse_args :: "uci_globals \<Rightarrow> uci_opts \<Rightarrow> string list \<Rightarrow> uci_mode" where
  "parse_args g o' [] = Options g o'"
| "parse_args g o' (a # as) =
     (if a = ''--verbose'' \<or> a = ''-v'' then parse_args (g\<lparr>g_verbose := True\<rparr>) o' as
      else if a = ''--config-dir'' \<and> as \<noteq> [] then parse_args (g\<lparr>g_config_dir := hd as\<rparr>) o' (tl as)
      else if a = ''--translator-dir'' \<and> as \<noteq> [] then parse_args (g\<lparr>g_translator_dir := hd as\<rparr>) o' (tl as)
      else if a = ''--systemctl'' \<and> as \<noteq> [] then parse_args (g\<lparr>g_systemctl := hd as\<rparr>) o' (tl as)
      else if a = ''--once'' then parse_args g (o'\<lparr>o_once := True\<rparr>) as
      else if a = ''--apply'' \<and> as \<noteq> [] then parse_args g (o'\<lparr>o_apply := Some (hd as)\<rparr>) (tl as)
      else if a = ''--check'' then parse_args g (o'\<lparr>o_check := True\<rparr>) as
      else if a = ''--version'' then Version
      else if a = ''--help'' \<or> a = ''-h'' then Help
      else if a = ''get'' \<and> as \<noteq> [] then Query g (hd as) None
      else if a = ''list'' \<and> as \<noteq> [] then
        Query g (hd as) (Some (case tl as of [] \<Rightarrow> '' '' | sep # _ \<Rightarrow> sep))
      else if a = ''set-hostname'' \<and> as \<noteq> [] then (if tl as \<noteq> [] then Usage else SetHost (hd as))
      else Usage)"

definition default_globals :: uci_globals where
  "default_globals = \<lparr>g_config_dir = ''/etc/config'', g_translator_dir = ''/etc/neon-uci.d'',
                      g_systemctl = ''/usr/bin/systemctl'', g_verbose = False\<rparr>"

definition default_opts :: uci_opts where
  "default_opts = \<lparr>o_apply = None, o_once = False, o_check = False\<rparr>"

definition apply_arg :: "uci_globals \<Rightarrow> uci_os \<Rightarrow> string \<Rightarrow> uci_trace \<Rightarrow> int \<times> uci_trace" where
  "apply_arg g os arg tr =
     (if MAX_CSV \<le> length arg then (2, tr)
      else if list_ex (\<lambda>pkg. \<not> package_name_valid (trim pkg)) (strtok_all (CHR '','') arg) then (2, tr)
      else let (rc, tr') = apply_translators g os arg tr in (if rc = 0 then 0 else 1, tr'))"

text \<open>
  \<open>main\<close>: the exit status and the trace; \<open>None\<close> as status is a daemon that is still running
  when the inputs of its loop end. \<open>usage\<close> text is not recorded.
\<close>

definition uci_main :: "uci_os \<Rightarrow> watch_input list \<Rightarrow> string list \<Rightarrow> int option \<times> uci_trace" where
  "uci_main os inputs args =
     (case parse_args default_globals default_opts args of
        Version \<Rightarrow> (Some 0, [Stdout (''0.1.1'' @ [newline])])
      | Help \<Rightarrow> (Some 0, [])
      | Query g tuple sep \<Rightarrow> map_prod Some id (uci_query g os tuple sep [])
      | SetHost n \<Rightarrow> map_prod Some id (set_kernel_hostname os n [])
      | Usage \<Rightarrow> (Some 2, [])
      | Options g opts \<Rightarrow>
          (if o_check opts then (Some (check_configuration g os []), [])
           else if o_once opts then
             (let (rc, tr) = apply_translators g os ''*'' [] in (Some (if rc = 0 then 0 else 1), tr))
           else case o_apply opts of
                  Some arg \<Rightarrow> map_prod Some id (apply_arg g os arg [])
                | None \<Rightarrow>
                    (case watch_loop g os inputs (watch_init (snd (apply_translators g os ''*'' []))) of
                       Inl s \<Rightarrow> (None, w_trace s)
                     | Inr s \<Rightarrow> (Some 0, w_trace s))))"

section \<open>Properties\<close>

subsection \<open>Trimming and tokens\<close>

lemma trim_end_dropWhile: "s \<noteq> [] \<Longrightarrow> \<not> isspace (last s) \<Longrightarrow> trim_end s = dropWhile isspace s"
  by (induction s rule: trim_end.induct) auto

interpretation uci_trim: trimmer isspace trim
proof unfold_locales
  fix s
  show "trim s = rev (dropWhile isspace (rev (dropWhile isspace s)))"
  proof (cases "dropWhile isspace s = []")
    case True
    then show ?thesis by (simp only: trim_def) simp
  next
    case False
    then show ?thesis
      by (simp add: trim_def Let_def trim_end_dropWhile last_rev hd_dropWhile del: dropWhile_eq_Nil_conv)
  qed
qed

lemma package_char_not_special:
  "isalnum c \<or> c = CHR ''_'' \<or> c = CHR ''-'' \<Longrightarrow> \<not> isspace c \<and> c \<noteq> CHR '','' \<and> c \<noteq> CHR ''*''"
  by (auto simp: isalnum_def isdigit_def isupper_def islower_def isspace_def Let_def)

lemma package_name_chars:
  assumes "package_name_valid n"
  shows "n \<noteq> []" "\<And>c. c \<in> set n \<Longrightarrow> \<not> isspace c" "CHR '','' \<notin> set n" "CHR ''*'' \<notin> set n"
  using assms package_char_not_special by (auto simp: package_name_valid_def list_all_iff)

lemma trim_package_name [simp]: "package_name_valid n \<Longrightarrow> trim n = n"
  by (rule uci_trim.trm_free) (rule package_name_chars)

subsection \<open>Package lists as lists of names\<close>

text \<open>
  The list \<open>pending\<close> is the text of a list of package names; \<open>csv_names\<close> reads it back. The
  specification of \<open>csv_add_unique\<close> is stated on these lists.
\<close>

definition csv_of :: "string list \<Rightarrow> string" where
  "csv_of ns = join_sep '','' ns"

definition csv_names :: "string \<Rightarrow> string list" where
  "csv_names csv = map trim (strtok_all (CHR '','') csv)"

lemma csv_of_snoc: "ns \<noteq> [] \<Longrightarrow> csv_of (ns @ [n]) = csv_of ns @ '','' @ n"
proof (induction ns)
  case (Cons a ns)
  then show ?case by (cases ns) (auto simp: csv_of_def)
qed simp

lemma csv_of_simps [simp]: "csv_of [] = []" "csv_of [n] = n"
  by (simp_all add: csv_of_def)

lemma csv_of_Nil_iff: "list_all package_name_valid ns \<Longrightarrow> csv_of ns = [] \<longleftrightarrow> ns = []"
  by (cases ns rule: rev_cases) (auto simp: csv_of_def csv_of_snoc [unfolded csv_of_def] package_name_valid_def
      dest: arg_cong [of _ _ length] elim: join_sep.elims)

lemma csv_names_of [simp]: "list_all package_name_valid ns \<Longrightarrow> csv_names (csv_of ns) = ns"
proof (induction ns rule: rev_induct)
  case (snoc n ns)
  have n: "strtok_all (CHR '','') n = [n]" "trim n = n"
    using snoc.prems by (auto intro!: strtok_all_single dest: package_name_chars)
  show ?case
  proof (cases "ns = []")
    case True
    then show ?thesis using n by (simp add: csv_names_def)
  next
    case False
    then show ?thesis
      using snoc n by (simp add: csv_of_snoc csv_names_def strtok_all_append)
  qed
qed (simp add: csv_names_def)

lemma csv_names_Nil [simp]: "csv_names [] = []"
  by (simp add: csv_names_def)

lemma csv_contains_names: "length csv < TOKBUF \<Longrightarrow> csv_contains csv n \<longleftrightarrow> n \<in> set (csv_names csv)"
  by (auto simp: csv_contains_def csv_names_def list_ex_iff)

lemma csv_contains_long: "TOKBUF \<le> length csv \<Longrightarrow> \<not> csv_contains csv n"
  by (simp add: csv_contains_def)

text \<open>
  Exactness of the package match. A batch that the daemon queued (the text of a list of valid
  package names) and that fits the tokeniser's buffer selects a translator if and only if one of
  the packages its manifest declares is in the batch.
\<close>

theorem matches_packages_iff:
  assumes "ns \<noteq> []" and "list_all package_name_valid ns" and "length (csv_of ns) < TOKBUF"
    and "length (t_packages t) < TOKBUF"
  shows "translator_matches_packages t (csv_of ns) \<longleftrightarrow> (\<exists>p \<in> set (csv_names (t_packages t)). p \<in> set ns)"
proof -
  have "csv_of ns \<noteq> []" using assms(1,2) by (simp add: csv_of_Nil_iff)
  moreover have "csv_of ns \<noteq> ''*''"
  proof
    assume star: "csv_of ns = ''*''"
    then have "csv_names ''*'' = ns" using assms(2) csv_names_of by metis
    moreover have "csv_names ''*'' = [''*'']" by code_simp
    moreover have "\<not> package_name_valid ''*''" by code_simp
    ultimately show False using assms(2) by auto
  qed
  moreover have "csv_contains (csv_of ns) n \<longleftrightarrow> n \<in> set ns" for n
    using assms by (simp add: csv_contains_names)
  ultimately show ?thesis
    using assms(4) by (auto simp: translator_matches_packages_def list_ex_iff csv_names_def)
qed

lemma csv_add_unique_refines:
  assumes "list_all package_name_valid ns" and "length (csv_of ns) < TOKBUF" and "package_name_valid n"
  shows "csv_add_unique (csv_of ns) sz n =
    (if n \<in> set ns then (True, csv_of ns)
     else if length (csv_of (ns @ [n])) < sz then (True, csv_of (ns @ [n])) else (False, csv_of ns))"
  using assms
  by (cases "ns = []") (auto simp: csv_add_unique_def csv_contains_names csv_of_snoc csv_of_Nil_iff Let_def)

text \<open>
  The pending list as a set of names. On the text of a list of valid names that fits the
  tokeniser's buffer, \<open>csv_add_unique\<close> is insertion at the end without duplicates; it refuses
  only when the new text and its NUL do not fit, and then leaves the list as it was.
\<close>

theorem csv_add_unique_refines_insert:
  assumes "list_all package_name_valid ns" and "length (csv_of ns) < TOKBUF" and "package_name_valid n"
  shows "csv_add_unique (csv_of ns) sz n =
    (if n \<in> set ns then (True, csv_of ns)
     else if length (csv_of (ns @ [n])) < sz then (True, csv_of (ns @ [n])) else (False, csv_of ns))"
  using assms by (rule csv_add_unique_refines)

lemma csv_add_unique_cases:
  assumes "list_all package_name_valid ns" and "length (csv_of ns) < sz"
  obtains (same) "snd (csv_add_unique (csv_of ns) sz n) = csv_of ns"
  | (added) "snd (csv_add_unique (csv_of ns) sz n) = csv_of (ns @ [n])" "package_name_valid n"
      "length (csv_of (ns @ [n])) < sz"
proof -
  have "snd (csv_add_unique (csv_of ns) sz n) = csv_of ns \<or>
    snd (csv_add_unique (csv_of ns) sz n) = csv_of (ns @ [n]) \<and> package_name_valid n \<and>
    length (csv_of (ns @ [n])) < sz"
    using assms by (cases "ns = []") (auto simp: csv_add_unique_def csv_of_snoc csv_of_Nil_iff Let_def)
  then show thesis using same added by blast
qed

text \<open>
  Long batches are lost. \<open>main\<close> accepts an argument of \<open>--apply\<close> and \<open>watch_loop\<close> queues
  names up to 4095 bytes, but \<open>csv_contains\<close> copies the list to a buffer of 2048 bytes and
  answers false for anything longer: from 2048 bytes on no translator matches, and the pass does
  nothing and reports success.
\<close>

theorem long_batch_matches_nothing:
  assumes "TOKBUF \<le> length csv" and "loaded g os tr = Some ts"
  shows "apply_translators g os csv tr = (0, tr)"
proof -
  have "csv \<noteq> [] \<and> csv \<noteq> ''*''" using assms(1) by auto
  then have none: "\<not> translator_matches_packages t csv" for t
    using assms(1) by (auto simp: translator_matches_packages_def list_ex_iff csv_contains_long)
  have "apply_loop g os csv us 0 tr = (0, tr)" for us
    by (induction us) (simp_all add: apply_one_def none)
  with assms(2) show ?thesis by (simp add: apply_translators_def)
qed

subsection \<open>Loading manifests\<close>

definition entry_path :: "string \<Rightarrow> string \<Rightarrow> string" where
  "entry_path dir d = dir @ ''/'' @ d"

definition manifest_entries :: "string \<Rightarrow> string list \<Rightarrow> string list" where
  "manifest_entries dir ds = filter (\<lambda>d. conf_entry d \<and> length (entry_path dir d) < PATH_MAX) ds"

lemma load_loop_Some:
  "load_loop file dir ts ds = Some us \<Longrightarrow>
   \<exists>new. us = ts @ new \<and> map Some new = map (\<lambda>d. parse_manifest file (entry_path dir d)) (manifest_entries dir ds) \<and>
     (length ts \<le> MAX_TRANSLATORS \<longrightarrow> length us \<le> MAX_TRANSLATORS)"
proof (induction ds arbitrary: ts)
  case (Cons d ds)
  show ?case
  proof (cases "conf_entry d \<and> length (entry_path dir d) < PATH_MAX")
    case True
    with Cons.prems obtain t where t: "parse_manifest file (entry_path dir d) = Some t"
      and small: "length ts < MAX_TRANSLATORS" and rec: "load_loop file dir (ts @ [t]) ds = Some us"
      by (auto simp: entry_path_def split: if_splits option.splits)
    from Cons.IH [OF rec] small t True show ?thesis by (auto simp: manifest_entries_def)
  next
    case False
    with Cons.prems have rec: "load_loop file dir ts ds = Some us"
      by (auto simp: entry_path_def split: if_splits)
    have "manifest_entries dir (d # ds) = manifest_entries dir ds"
      using False by (auto simp: manifest_entries_def)
    with Cons.IH [OF rec] show ?thesis by simp
  qed
qed (simp add: manifest_entries_def)

lemma load_loop_success:
  assumes "\<forall>d \<in> set (manifest_entries dir ds). parse_manifest file (entry_path dir d) \<noteq> None"
    and "length ts + length (filter conf_entry ds) \<le> MAX_TRANSLATORS"
  shows "load_loop file dir ts ds \<noteq> None"
  using assms
proof (induction ds arbitrary: ts)
  case (Cons d ds)
  show ?case
  proof (cases "conf_entry d \<and> length (entry_path dir d) < PATH_MAX")
    case True
    with Cons.prems(1) obtain t where "parse_manifest file (entry_path dir d) = Some t"
      by (auto simp: manifest_entries_def)
    with True Cons.prems Cons.IH [of "ts @ [t]"] show ?thesis
      by (simp add: manifest_entries_def entry_path_def)
  next
    case False
    with Cons.prems Cons.IH [of ts] show ?thesis
      by (auto simp: manifest_entries_def entry_path_def)
  qed
qed simp

lemma load_translators_ok:
  "load_translators file dir es = Some ts \<Longrightarrow> t \<in> set ts \<Longrightarrow> manifest_ok t"
proof -
  assume load: "load_translators file dir es = Some ts" and t: "t \<in> set ts"
  from load obtain ds us where us: "load_loop file dir [] ds = Some us" "ts = sort_key t_manifest_path us"
    by (auto simp: load_translators_def split: option.splits)
  from load_loop_Some [OF us(1)] us(2) t
  have "Some t \<in> set (map (\<lambda>d. parse_manifest file (entry_path dir d)) (manifest_entries dir ds))"
    by (metis append_Nil image_eqI list.set_map set_sort)
  then show "manifest_ok t"
    by (auto simp: parse_manifest_def Let_def split: option.splits if_splits)
qed

lemma load_translators_sorted:
  "load_translators file dir es = Some ts \<Longrightarrow> sorted (map t_manifest_path ts)"
  by (auto simp: load_translators_def split: option.splits)

text \<open>
  Loading the manifests, up to the limit of 128. If the directory can be read and holds at most
  128 entries that look like manifests, loading succeeds exactly if every manifest whose path fits
  \<open>PATH_MAX\<close> parses, and then gives one translator per such manifest, sorted by path.
\<close>

theorem load_translators_exact:
  assumes "length (filter conf_entry ds) \<le> MAX_TRANSLATORS"
  shows "(load_translators file dir (Some ds) = None \<longleftrightarrow>
      (\<exists>d \<in> set (manifest_entries dir ds). parse_manifest file (entry_path dir d) = None)) \<and>
    (\<forall>ts. load_translators file dir (Some ds) = Some ts \<longrightarrow>
       sorted (map t_manifest_path ts) \<and> length ts = length (manifest_entries dir ds) \<and>
       image_mset Some (mset ts) =
         image_mset (\<lambda>d. parse_manifest file (entry_path dir d)) (mset (manifest_entries dir ds)))"
proof (intro conjI allI impI)
  show "load_translators file dir (Some ds) = None \<longleftrightarrow>
      (\<exists>d \<in> set (manifest_entries dir ds). parse_manifest file (entry_path dir d) = None)"
  proof (cases "load_loop file dir [] ds")
    case None
    have "\<not> (\<forall>d \<in> set (manifest_entries dir ds). parse_manifest file (entry_path dir d) \<noteq> None)"
      using load_loop_success [where ts = "[]"] assms None by fastforce
    with None show ?thesis by (auto simp: load_translators_def)
  next
    case (Some us)
    from load_loop_Some [OF Some] obtain new where
      "map Some new = map (\<lambda>d. parse_manifest file (entry_path dir d)) (manifest_entries dir ds)" by auto
    then have "parse_manifest file (entry_path dir d) \<in> Some ` set new" if "d \<in> set (manifest_entries dir ds)" for d
      using that by (metis image_eqI list.set_map)
    with Some show ?thesis by (fastforce simp: load_translators_def)
  qed
next
  fix ts assume load: "load_translators file dir (Some ds) = Some ts"
  then show "sorted (map t_manifest_path ts)" by (rule load_translators_sorted)
  from load obtain us where us: "load_loop file dir [] ds = Some us" "ts = sort_key t_manifest_path us"
    by (auto simp: load_translators_def)
  from load_loop_Some [OF us(1)]
  have m: "map Some us = map (\<lambda>d. parse_manifest file (entry_path dir d)) (manifest_entries dir ds)" by simp
  from arg_cong [OF m, of length] us(2) show "length ts = length (manifest_entries dir ds)" by simp
  from arg_cong [OF m, of mset] us(2) show "image_mset Some (mset ts) =
      image_mset (\<lambda>d. parse_manifest file (entry_path dir d)) (mset (manifest_entries dir ds))" by simp
qed

subsection \<open>Effects of a translation pass\<close>

definition handler_effect :: "uci_os \<Rightarrow> string \<Rightarrow> translator \<Rightarrow> uci_effect" where
  "handler_effect os csv t = Spawn [t_command t, ''apply''] (Some (os_environ os @ [env_changed csv]))"

text \<open>The systemctl calls that the manifest of \<open>t\<close> allows.\<close>

definition action_effect :: "uci_globals \<Rightarrow> translator \<Rightarrow> uci_effect \<Rightarrow> bool" where
  "action_effect g t e \<longleftrightarrow>
     (t_action t = ''daemon-reload'' \<and> e = Spawn [g_systemctl g, ''daemon-reload''] None) \<or>
     (t_action t \<noteq> ''none'' \<and> (\<exists>un \<in> set (csv_names (t_units t)). safe_token un \<and>
        (e = Capture [g_systemctl g, ''show'', ''--property=LoadState'', ''--value'', un] \<or>
         e = Spawn [g_systemctl g, t_action t, un] None)))"

fun is_handler :: "uci_effect \<Rightarrow> bool" where
  "is_handler (Spawn argv (Some env)) = True"
| "is_handler e = False"

lemma action_effect_not_handler: "action_effect g t e \<Longrightarrow> \<not> is_handler e"
  by (auto simp: action_effect_def)

lemma unit_exists_effect:
  "unit_exists g os un tr = (b, tr') \<Longrightarrow>
   tr' = tr \<or> tr' = tr @ [Capture [g_systemctl g, ''show'', ''--property=LoadState'', ''--value'', un]]"
  by (auto simp: unit_exists_def Let_def split: capture_outcome.splits)

lemma systemctl_units_effects:
  assumes "systemctl_units g os t toks f tr = (f', tr')" and "t_action t \<noteq> ''none''"
    and "trim ` set toks \<subseteq> set (csv_names (t_units t))"
  shows "extends (action_effect g t) tr tr'"
  using assms
proof (induction g os t toks f tr rule: systemctl_units.induct)
  case (2 g os t tok toks f tr)
  let ?un = "trim tok"
  let ?P = "action_effect g t"
  have un: "?un \<in> set (csv_names (t_units t))" using "2.prems" by auto
  show ?case
  proof (cases "safe_token ?un")
    case False
    with "2.IH"(1) "2.prems" show ?thesis by auto
  next
    case True
    have show_ok: "?P (Capture [g_systemctl g, ''show'', ''--property=LoadState'', ''--value'', ?un])"
      and act_ok: "?P (Spawn [g_systemctl g, t_action t, ?un] None)"
      using True un "2.prems" by (auto simp: action_effect_def)
    obtain missing tr1 where m: "(if t_unit_optional t
        then (let (ex, tr') = unit_exists g os ?un tr in (\<not> ex, tr')) else (False, tr)) = (missing, tr1)"
      by fastforce
    have step1: "extends ?P tr tr1"
      using m show_ok by (auto split: if_splits prod.splits dest!: unit_exists_effect)
    show ?thesis
    proof (cases missing)
      case True
      with "2.IH"(2) "2.prems" m \<open>safe_token ?un\<close> have "extends ?P tr1 tr'"
        by (simp add: Let_def)
      with step1 show ?thesis by (rule extends_trans)
    next
      case False
      let ?tr2 = "tr1 @ [Spawn [g_systemctl g, t_action t, ?un] None]"
      from False "2.IH"(3) "2.prems" m \<open>safe_token ?un\<close> have "extends ?P ?tr2 tr'"
        by (simp add: Let_def spawn_wait_def)
      with step1 act_ok show ?thesis by (blast intro: extends_trans)
    qed
  qed
qed simp

lemma run_systemctl_action_effects:
  "run_systemctl_action g os t tr = (rc, tr') \<Longrightarrow> extends (action_effect g t) tr tr'"
  by (auto simp: run_systemctl_action_def spawn_wait_def Let_def action_effect_def [of g t "Spawn _ _"]
      csv_names_def split: if_splits prod.splits elim!: systemctl_units_effects)

lemma spawn_status_0 [simp]: "spawn_status w = 0 \<longleftrightarrow> w = Exited 0"
  by (auto simp: spawn_status_def split: wait_outcome.splits)

lemma apply_one_eq:
  "apply_one g os csv t tr =
     (if \<not> (t_enabled t \<and> translator_matches_packages t csv) then (0, tr)
      else if \<not> (os_access_x os tr (t_command t) \<and> os_calloc os tr) then (1, tr)
      else if os_spawn os tr [t_command t, ''apply''] (Some (os_environ os @ [env_changed csv])) \<noteq> Exited 0
      then (1, tr @ [handler_effect os csv t])
      else (if fst (run_systemctl_action g os t (tr @ [handler_effect os csv t])) \<noteq> 0 then 1 else 0,
            snd (run_systemctl_action g os t (tr @ [handler_effect os csv t]))))"
  by (simp add: apply_one_def run_handler_def spawn_wait_def handler_effect_def split_beta)

text \<open>A translator whose handler was started: the rest of its effects come after a success.\<close>

lemma apply_one_cases:
  assumes "apply_one g os csv t tr = (f, tr')"
  obtains (idle) "tr' = tr"
  | (ran) acts where "t_enabled t" "translator_matches_packages t csv"
      "tr' = tr @ handler_effect os csv t # acts" "list_all (action_effect g t) acts"
      "acts \<noteq> [] \<Longrightarrow> os_spawn os tr [t_command t, ''apply''] (Some (os_environ os @ [env_changed csv])) = Exited 0"
proof -
  let ?go = "t_enabled t \<and> translator_matches_packages t csv"
  let ?can = "os_access_x os tr (t_command t) \<and> os_calloc os tr"
  let ?w = "os_spawn os tr [t_command t, ''apply''] (Some (os_environ os @ [env_changed csv]))"
  let ?tr1 = "tr @ [handler_effect os csv t]"
  show thesis
  proof (cases "?go \<and> ?can")
    case False
    with assms have "tr' = tr" by (auto simp: apply_one_eq split: if_splits)
    then show thesis by (rule idle)
  next
    case True
    show thesis
    proof (cases "?w = Exited 0")
      case False
      with True assms have "tr' = ?tr1" by (simp add: apply_one_eq)
      with True show thesis by (intro ran [of "[]"]) auto
    next
      case w: True
      with True assms have "tr' = snd (run_systemctl_action g os t ?tr1)" by (auto simp: apply_one_eq)
      then have "extends (action_effect g t) ?tr1 tr'"
        by (metis prod.collapse run_systemctl_action_effects)
      then obtain new where "tr' = ?tr1 @ new" "list_all (action_effect g t) new"
        by (auto simp: extends_def)
      with True w show thesis by (intro ran [of new]) auto
    qed
  qed
qed

text \<open>
  C5. Ordering of a translation and its systemd action. Whatever a translator makes the daemon do
  starts with its own handler, and any systemctl call for its units is made only if that handler
  exited with status 0.
\<close>

theorem action_only_after_success:
  assumes "apply_one g os csv t tr = (f, tr')" and "tr' \<noteq> tr"
  shows "\<exists>acts. tr' = tr @ handler_effect os csv t # acts \<and> list_all (action_effect g t) acts \<and>
    (acts \<noteq> [] \<longrightarrow> os_spawn os tr [t_command t, ''apply''] (Some (os_environ os @ [env_changed csv])) = Exited 0)"
  using assms(1) by (rule apply_one_cases) (use assms(2) in auto)

definition allowed_effect :: "uci_globals \<Rightarrow> uci_os \<Rightarrow> string \<Rightarrow> translator list \<Rightarrow> uci_effect \<Rightarrow> bool" where
  "allowed_effect g os csv ts e \<longleftrightarrow>
     (\<exists>t \<in> set ts. t_enabled t \<and> translator_matches_packages t csv \<and>
        (e = handler_effect os csv t \<or> action_effect g t e))"

lemma apply_loop_effects:
  "apply_loop g os csv ts f tr = (f', tr') \<Longrightarrow> extends (allowed_effect g os csv ts) tr tr'"
proof (induction ts arbitrary: f tr)
  case (Cons t ts)
  obtain f1 tr1 where one: "apply_one g os csv t tr = (f1, tr1)" by fastforce
  from one have "extends (allowed_effect g os csv (t # ts)) tr tr1"
    by (rule apply_one_cases) (auto simp: extends_def allowed_effect_def list_all_iff)
  moreover have "extends (allowed_effect g os csv (t # ts)) tr1 tr'"
    by (rule extends_mono [OF Cons.IH [of "f + f1" tr1]])
      (use Cons.prems one in \<open>auto simp: allowed_effect_def\<close>)
  ultimately show ?case by (rule extends_trans)
qed simp

lemma apply_loop_failures:
  "fst (apply_loop g os csv ts f tr) = f + fst (apply_loop g os csv ts 0 tr)"
  "snd (apply_loop g os csv ts f tr) = snd (apply_loop g os csv ts 0 tr)"
proof -
  have "apply_loop g os csv ts (f + k) tr = map_prod ((+) f) id (apply_loop g os csv ts k tr)" for k
    by (induction ts arbitrary: k tr) (auto simp: add.assoc split: prod.splits)
  from this [of 0]
  show "fst (apply_loop g os csv ts f tr) = f + fst (apply_loop g os csv ts 0 tr)"
    "snd (apply_loop g os csv ts f tr) = snd (apply_loop g os csv ts 0 tr)" by simp_all
qed

text \<open>The environment in which every handler can be started (its outcome is left open).\<close>

definition handlers_startable :: "uci_os \<Rightarrow> bool" where
  "handlers_startable os \<longleftrightarrow> (\<forall>tr c. os_access_x os tr c) \<and> (\<forall>tr. os_calloc os tr)"

lemma apply_one_handlers:
  assumes "handlers_startable os"
  shows "filter is_handler (snd (apply_one g os csv t tr)) = filter is_handler tr @
    (if t_enabled t \<and> translator_matches_packages t csv then [handler_effect os csv t] else [])"
proof -
  obtain f tr' where eq: "apply_one g os csv t tr = (f, tr')" by fastforce
  from eq show ?thesis
  proof (cases rule: apply_one_cases)
    case idle
    have "extends (action_effect g t) (tr @ [handler_effect os csv t])
        (snd (run_systemctl_action g os t (tr @ [handler_effect os csv t])))"
      by (metis prod.collapse run_systemctl_action_effects)
    with idle eq assms have "\<not> (t_enabled t \<and> translator_matches_packages t csv)"
      by (auto simp: apply_one_eq handlers_startable_def extends_def split: if_splits)
    with idle eq show ?thesis by auto
  next
    case (ran acts)
    have "filter is_handler acts = []"
      using ran(4) by (auto simp: list_all_iff filter_empty_conv dest: action_effect_not_handler)
    with ran eq show ?thesis by (simp add: handler_effect_def)
  qed
qed

lemma apply_loop_handlers:
  assumes "handlers_startable os"
  shows "filter is_handler (snd (apply_loop g os csv ts f tr)) = filter is_handler tr @
    map (handler_effect os csv) (filter (\<lambda>t. t_enabled t \<and> translator_matches_packages t csv) ts)"
proof (induction ts arbitrary: f tr)
  case (Cons t ts)
  obtain f1 tr1 where one: "apply_one g os csv t tr = (f1, tr1)" by fastforce
  show ?case using Cons.IH [of "f + f1" tr1] apply_one_handlers [OF assms, of g csv t tr] one by simp
qed simp

text \<open>
  C3. Confinement of a translation pass. Everything \<open>apply_translators\<close> starts is started for an
  enabled, matching translator of a valid manifest: its own command with the single argument
  \<open>apply\<close>, or systemctl with the action of the manifest (one of the fixed list of actions) on a
  unit of the manifest whose name is a safe token. Nothing is started when the manifests do not load.
\<close>

theorem apply_translators_confined:
  "case loaded g os tr of
     None \<Rightarrow> apply_translators g os csv tr = (-1, tr)
   | Some ts \<Rightarrow> extends (allowed_effect g os csv ts) tr (snd (apply_translators g os csv tr)) \<and>
       (\<forall>t \<in> set ts. manifest_ok t \<and> action_valid (t_action t))"
proof (cases "loaded g os tr")
  case (Some ts)
  obtain f tr' where loop: "apply_loop g os csv ts 0 tr = (f, tr')" by fastforce
  have "manifest_ok t" if "t \<in> set ts" for t
    using that Some load_translators_ok by (fastforce simp: loaded_def)
  with Some loop apply_loop_effects [OF loop] show ?thesis
    by (simp add: apply_translators_def manifest_ok_def)
qed (simp add: apply_translators_def)

text \<open>
  C4. Completeness and order of a translation pass. When every handler can be started, the handlers
  started are exactly those of the enabled translators that match, each once, in the order of the
  manifest paths; a handler or action that fails does not keep the later ones from running.
\<close>

theorem apply_translators_runs_all:
  assumes "handlers_startable os" and "loaded g os tr = Some ts"
  shows "filter is_handler (snd (apply_translators g os csv tr)) = filter is_handler tr @
      map (handler_effect os csv) (filter (\<lambda>t. t_enabled t \<and> translator_matches_packages t csv) ts) \<and>
    sorted (map t_manifest_path ts)"
  using assms load_translators_sorted
  by (auto simp: apply_translators_def apply_loop_handlers loaded_def split_beta)

subsection \<open>Manifest round trip\<close>

text \<open>The text of a manifest in the format of the documentation, one line per field.\<close>

definition manifest_field :: "string \<Rightarrow> string \<Rightarrow> string" where
  "manifest_field key v = (key @ ''='' @ v) @ [newline]"

definition yes_no :: "bool \<Rightarrow> string" where
  "yes_no b = (if b then ''yes'' else ''no'')"

definition render_manifest :: "translator \<Rightarrow> string" where
  "render_manifest t =
     ''[translator]'' @ [newline] @ manifest_field ''name'' (t_name t) @ manifest_field ''packages'' (t_packages t) @
     manifest_field ''command'' (t_command t) @ manifest_field ''units'' (t_units t) @
     manifest_field ''action'' (t_action t) @ manifest_field ''enabled'' (yes_no (t_enabled t)) @
     manifest_field ''unit_optional'' (yes_no (t_unit_optional t))"

definition text_clean :: "string \<Rightarrow> bool" where
  "text_clean v \<longleftrightarrow> newline \<notin> set v \<and> NUL \<notin> set v \<and> trim v = v"

definition field_clean :: "nat \<Rightarrow> string \<Rightarrow> bool" where
  "field_clean sz v \<longleftrightarrow> length v < sz \<and> text_clean v"

text \<open>The bound on the command comes from the line buffer of 2048 bytes.\<close>

definition manifest_writable :: "translator \<Rightarrow> bool" where
  "manifest_writable t \<longleftrightarrow> manifest_ok t \<and> field_clean 128 (t_name t) \<and> field_clean 1024 (t_packages t) \<and>
     field_clean 2039 (t_command t) \<and> field_clean 1024 (t_units t) \<and> field_clean 64 (t_action t) \<and>
     length (t_manifest_path t) < PATH_MAX"

definition key_clean :: "string \<Rightarrow> bool" where
  "key_clean key \<longleftrightarrow> key \<noteq> [] \<and> list_all (\<lambda>c. islower c \<or> c = CHR ''_'') key"

lemma key_clean_char:
  assumes "key_clean key" "c \<in> set key"
  shows "\<not> isspace c" "c \<noteq> CHR ''=''" "c \<noteq> CHR ''#''" "c \<noteq> CHR '';''" "c \<noteq> CHR ''[''" "c \<noteq> newline" "c \<noteq> NUL"
  using assms by (auto simp: key_clean_def list_all_iff islower_def isspace_def Let_def NUL_def)

lemma manifest_line_field:
  assumes "key_clean key" and "text_clean v"
  shows "manifest_line (True, t) (manifest_field key v) = (True, manifest_assign t key v)"
proof -
  let ?p = "key @ ''='' @ v"
  have eq: "\<not> isspace (CHR ''='')" by code_simp
  have v: "v \<noteq> [] \<Longrightarrow> \<not> isspace (last v)"
    using assms(2) uci_trim.trm_no_trail [of v] by (simp add: text_clean_def)
  have "trim (manifest_field key v) = trim ?p"
    unfolding manifest_field_def using uci_trim.trm_pad [of "[]" "[newline]" ?p]
    by (simp add: isspace_def)
  also have "\<dots> = ?p"
    using assms(1) v eq key_clean_char(1) [OF assms(1)]
    by (intro uci_trim.trm_id) (auto simp: hd_append last_append key_clean_def)
  finally have p: "trim (manifest_field key v) = ?p" .
  have hd: "hd ?p \<in> set key" using assms(1) by (auto simp: key_clean_def hd_append)
  have key: "takeWhile (\<lambda>c. c \<noteq> CHR ''='') ?p = key" "dropWhile (\<lambda>c. c \<noteq> CHR ''='') ?p = ''='' @ v"
    using key_clean_char(2) [OF assms(1)] by (auto simp: takeWhile_append dropWhile_append)
  have "trim key = key" using key_clean_char(1) [OF assms(1)] by (rule uci_trim.trm_free)
  with assms(2) p key hd key_clean_char [OF assms(1) hd] show ?thesis
    by (simp add: manifest_line_def text_clean_def)
qed

lemma fgets_lines_field [cstr_simps]:
  assumes "key_clean key" and "text_clean v" and "length key + 1 + length v + 2 \<le> MAX_LINE"
  shows "fgets_lines MAX_LINE (manifest_field key v @ r) = manifest_field key v # fgets_lines MAX_LINE r"
proof -
  let ?l = "key @ ''='' @ v"
  have "newline \<notin> set ?l" "NUL \<notin> set ?l"
    using assms(2) key_clean_char(6) [OF assms(1), of newline] key_clean_char(7) [OF assms(1), of NUL]
    by (auto simp: text_clean_def NUL_def)
  moreover have "length ?l + 2 \<le> MAX_LINE" using assms(3) by simp
  ultimately show ?thesis
    using fgets_lines_line [of ?l MAX_LINE r] by (simp add: manifest_field_def)
qed

lemma keys_clean [simp]:
  "key_clean ''name''" "key_clean ''packages''" "key_clean ''command''" "key_clean ''units''"
  "key_clean ''action''" "key_clean ''enabled''" "key_clean ''unit_optional''"
  by code_simp+

lemma yes_no_clean: "text_clean (yes_no b)" "parse_bool (yes_no b) d = b" "length (yes_no b) \<le> 3"
  by (cases b; simp add: yes_no_def; code_simp)+

text \<open>
  C13. Manifest round trip. A translator whose fields fit the buffers of the parser and hold no line
  break, written in the documented format, is read back unchanged.
\<close>

theorem manifest_roundtrip:
  assumes "manifest_writable t" and "file (t_manifest_path t) = Some (render_manifest t)"
  shows "parse_manifest file (t_manifest_path t) = Some t"
proof -
  note clean = assms(1) [unfolded manifest_writable_def]
  have head: "fgets_lines MAX_LINE (''[translator]'' @ newline # r) = (''[translator]'' @ [newline]) # fgets_lines MAX_LINE r" for r
    by (rule fgets_lines_line) (auto simp: NUL_def)
  have hline: "manifest_line (False, u) (''[translator]'' @ [newline]) = (True, u)" for u
  proof -
    have "trim (''[translator]'' @ [newline]) = ''[translator]''" by code_simp
    then show ?thesis by (simp add: manifest_line_def)
  qed
  have len: "length (t_name t) < 128" "length (t_packages t) < 1024" "length (t_command t) < 2039"
    "length (t_units t) < 1024" "length (t_action t) < 64" "length (t_manifest_path t) < PATH_MAX"
    and txts: "text_clean (t_name t)" "text_clean (t_packages t)" "text_clean (t_command t)"
    "text_clean (t_units t)" "text_clean (t_action t)"
    using clean by (auto simp: field_clean_def)
  have yn: "length (yes_no b) < 4" for b using yes_no_clean(3) [of b] by simp
  have last: "fgets_lines MAX_LINE (manifest_field ''unit_optional'' (yes_no b)) =
      [manifest_field ''unit_optional'' (yes_no b)]" for b
    using fgets_lines_field [of "''unit_optional''" "yes_no b" "[]"] yn [of b] by (simp add: yes_no_clean)
  have lines: "fgets_lines MAX_LINE (render_manifest t) =
    [''[translator]'' @ [newline], manifest_field ''name'' (t_name t), manifest_field ''packages'' (t_packages t),
     manifest_field ''command'' (t_command t), manifest_field ''units'' (t_units t),
     manifest_field ''action'' (t_action t), manifest_field ''enabled'' (yes_no (t_enabled t)),
     manifest_field ''unit_optional'' (yes_no (t_unit_optional t))]"
    using len txts yn [of "t_enabled t"] head [simplified]
    by (simp add: render_manifest_def fgets_lines_field last yes_no_clean)
  have same: "\<lparr>t_manifest_path = t_manifest_path t, t_name = t_name t, t_packages = t_packages t,
      t_command = t_command t, t_units = t_units t, t_action = t_action t, t_enabled = t_enabled t,
      t_unit_optional = t_unit_optional t\<rparr> = t" by simp
  show ?thesis
    using clean len txts yes_no_clean assms(2)
    by (simp add: parse_manifest_def lines hline [simplified] manifest_line_field manifest_assign_def manifest_init_def
        same)
qed

subsection \<open>The watch loop\<close>

definition pending_ok :: "string \<Rightarrow> bool" where
  "pending_ok p \<longleftrightarrow> (\<exists>ns. p = csv_of ns \<and> list_all package_name_valid ns \<and> length p < MAX_CSV)"

lemma pending_ok_Nil [simp]: "pending_ok []"
  unfolding pending_ok_def by (rule exI [of _ "[]"]) simp

lemma csv_add_unique_pending:
  assumes "pending_ok p"
  shows "pending_ok (snd (csv_add_unique p MAX_CSV n))"
    and "set (csv_names p) \<subseteq> set (csv_names (snd (csv_add_unique p MAX_CSV n)))"
proof -
  obtain ns where ns: "p = csv_of ns" "list_all package_name_valid ns" "length (csv_of ns) < MAX_CSV"
    using assms by (auto simp: pending_ok_def)
  have "pending_ok (snd (csv_add_unique p MAX_CSV n)) \<and>
    set (csv_names p) \<subseteq> set (csv_names (snd (csv_add_unique p MAX_CSV n)))"
    using ns(2,3)
  proof (cases rule: csv_add_unique_cases [where n = n])
    case same
    with ns assms show ?thesis by simp
  next
    case added
    then have "list_all package_name_valid (ns @ [n])" using ns by simp
    with added ns show ?thesis by (auto simp: pending_ok_def)
  qed
  then show "pending_ok (snd (csv_add_unique p MAX_CSV n))"
    and "set (csv_names p) \<subseteq> set (csv_names (snd (csv_add_unique p MAX_CSV n)))" by auto
qed

lemma watch_events_pending:
  "pending_ok p \<Longrightarrow> pending_ok (snd (watch_events evs p)) \<and>
     set (csv_names p) \<subseteq> set (csv_names (snd (watch_events evs p)))"
proof (induction evs p rule: watch_events.induct)
  case (2 ev evs p)
  then show ?case
    using csv_add_unique_pending [OF "2.prems"] by (auto split: option.splits) blast+
qed simp

lemma on_signal_frame [simp]:
  "w_pending (on_signal sig s) = w_pending s" "w_fd (on_signal sig s) = w_fd s"
  "w_trace (on_signal sig s) = w_trace s"
  by (simp_all add: on_signal_def)

lemma fold_on_signal_frame [simp]:
  "w_pending (fold on_signal sigs s) = w_pending s" "w_fd (fold on_signal sigs s) = w_fd s"
  "w_trace (fold on_signal sigs s) = w_trace s"
  by (induction sigs arbitrary: s) auto

lemma watch_reload_frame [simp]:
  "w_pending (watch_reload g os s) = w_pending s" "w_fd (watch_reload g os s) = w_fd s"
  by (simp_all add: watch_reload_def)

lemma watch_open_frame: "watch_open i s = Some s' \<Longrightarrow> w_pending s' = w_pending s \<and> w_fd s'"
  by (auto simp: watch_open_def split: if_splits)

lemma watch_body_pending_ok: "pending_ok (w_pending s) \<Longrightarrow> pending_ok (w_pending (watch_body g os i s))"
  by (auto simp: watch_body_def watch_flush_def Let_def split_beta watch_events_pending
      split: option.splits poll_outcome.splits bool.splits read_outcome.splits dest!: watch_open_frame)

lemma watch_body_keeps_names:
  "pending_ok (w_pending s) \<Longrightarrow> i_poll i \<noteq> PollTimeout \<Longrightarrow>
   set (csv_names (w_pending s)) \<subseteq> set (csv_names (w_pending (watch_body g os i s)))"
  using watch_events_pending
  by (fastforce simp: watch_body_def Let_def split_beta
      split: option.splits poll_outcome.splits bool.splits read_outcome.splits dest!: watch_open_frame)

lemma watch_body_stop: "i_sigs_reload i = [] \<Longrightarrow> w_stop (watch_body g os i s) = w_stop s"
  by (auto simp: watch_body_def watch_open_def watch_reload_def watch_flush_def Let_def split_beta
      split: poll_outcome.split bool.split read_outcome.split)

text \<open>The states the daemon can be in: steps are a signal or an iteration of the loop.\<close>

inductive watch_reachable :: "uci_globals \<Rightarrow> uci_os \<Rightarrow> uci_trace \<Rightarrow> watch_state \<Rightarrow> bool" for g os tr where
  start: "watch_reachable g os tr (watch_init tr)"
| sig: "watch_reachable g os tr s \<Longrightarrow> watch_reachable g os tr (on_signal sg s)"
| body: "watch_reachable g os tr s \<Longrightarrow> \<not> w_stop s \<Longrightarrow> watch_reachable g os tr (watch_body g os i s)"

lemma watch_reachable_sigs:
  "watch_reachable g os tr s \<Longrightarrow> watch_reachable g os tr (fold on_signal sigs s)"
  by (induction sigs arbitrary: s) (auto intro: watch_reachable.sig)

lemma watch_loop_reachable:
  "watch_reachable g os tr s \<Longrightarrow> watch_loop g os is s = Inl s' \<Longrightarrow> watch_reachable g os tr s'"
  by (induction g os "is" s rule: watch_loop.induct)
    (auto simp: Let_def split: if_splits intro: watch_reachable.body watch_reachable_sigs)

text \<open>
  C6. Invariant of the watch loop. In every state the daemon reaches, the pending list is the text
  of a list of valid package names and fits its buffer with the terminating NUL, so the copy that
  is passed on as a batch is complete.
\<close>

theorem watch_pending_invariant:
  assumes "watch_reachable g os tr s"
  shows "pending_ok (w_pending s) \<and> snprintf_s MAX_CSV (w_pending s) = w_pending s"
proof -
  from assms have "pending_ok (w_pending s)"
    by induction (auto simp: watch_init_def watch_body_pending_ok)
  then show ?thesis by (auto simp: pending_ok_def)
qed

definition ev_bytes :: "inotify_event \<Rightarrow> nat" where
  "ev_bytes ev = (case ev_name ev of None \<Rightarrow> 0 | Some n \<Rightarrow> length n + 1)"

lemma length_csv_add: "length (snd (csv_add_unique p sz n)) \<le> length p + length n + 1"
  by (auto simp: csv_add_unique_def Let_def)

lemma csv_add_unique_adds:
  assumes "pending_ok p" and "package_name_valid n" and "length p + length n + 1 < TOKBUF"
  shows "n \<in> set (csv_names (snd (csv_add_unique p MAX_CSV n)))"
proof -
  obtain ns where ns: "p = csv_of ns" "list_all package_name_valid ns"
    using assms(1) by (auto simp: pending_ok_def)
  have "length (csv_of (ns @ [n])) < MAX_CSV"
    using assms(3) ns by (cases "ns = []") (auto simp: csv_of_snoc)
  with ns assms show ?thesis by (simp add: csv_add_unique_refines [OF ns(2)])
qed

lemma watch_events_adds:
  assumes "pending_ok p" and "\<forall>e \<in> set (pre @ [ev]). ev_mask e AND IN_GONE = 0"
    and "ev_name ev = Some n" and "package_name_valid n"
    and "length p + sum_list (map ev_bytes (pre @ [ev])) < TOKBUF"
  shows "n \<in> set (csv_names (snd (watch_events (pre @ ev # post) p)))"
  using assms(1,2,5)
proof (induction pre arbitrary: p)
  case Nil
  let ?p = "snd (csv_add_unique p MAX_CSV n)"
  have "n \<in> set (csv_names ?p)" using Nil assms(3,4) by (intro csv_add_unique_adds) (auto simp: ev_bytes_def)
  moreover have "set (csv_names ?p) \<subseteq> set (csv_names (snd (watch_events post ?p)))"
    using watch_events_pending csv_add_unique_pending(1) [OF Nil(1)] by blast
  moreover have "hd n \<noteq> CHR ''.''"
    using assms(4) by (cases n) (auto simp: package_name_valid_def isalnum_def isdigit_def isupper_def islower_def Let_def)
  ultimately show ?case using Nil assms(3,4) by auto
next
  case (Cons e pre)
  show ?case
  proof (cases "\<exists>m. ev_name e = Some m \<and> \<not> (m \<noteq> [] \<and> hd m = CHR ''.'') \<and> package_name_valid m")
    case True
    then obtain m where m: "ev_name e = Some m" "\<not> (m \<noteq> [] \<and> hd m = CHR ''.'')" "package_name_valid m" by blast
    let ?p = "snd (csv_add_unique p MAX_CSV m)"
    have "n \<in> set (csv_names (snd (watch_events (pre @ ev # post) ?p)))"
      using Cons.prems m(1) length_csv_add [of p MAX_CSV m]
      by (intro Cons.IH csv_add_unique_pending(1)) (auto simp: ev_bytes_def)
    with Cons.prems m show ?thesis by simp
  next
    case False
    have "n \<in> set (csv_names (snd (watch_events (pre @ ev # post) p)))"
      using Cons.prems by (intro Cons.IH) auto
    with Cons.prems False show ?thesis by (auto split: option.splits)
  qed
qed

lemma watch_loop_append:
  "watch_loop g os (is @ js) s = (case watch_loop g os is s of Inl s' \<Rightarrow> watch_loop g os js s' | Inr s' \<Rightarrow> Inr s')"
  by (induction g os "is" s rule: watch_loop.induct) (simp_all add: Let_def)

lemma watch_loop_keeps_names:
  assumes "watch_loop g os mid s = Inl s'" and "\<forall>j \<in> set mid. i_poll j \<noteq> PollTimeout" and "pending_ok (w_pending s)"
  shows "pending_ok (w_pending s') \<and> set (csv_names (w_pending s)) \<subseteq> set (csv_names (w_pending s'))"
  using assms
proof (induction mid arbitrary: s)
  case (Cons j mid)
  let ?s = "fold on_signal (i_sigs_head j) s"
  let ?s1 = "watch_body g os j ?s"
  have run: "watch_loop g os mid ?s1 = Inl s'"
    using Cons.prems(1) by (auto simp: Let_def split: if_splits)
  have ok: "pending_ok (w_pending ?s1)"
    and keep: "set (csv_names (w_pending s)) \<subseteq> set (csv_names (w_pending ?s1))"
    using Cons.prems watch_body_pending_ok [of ?s] watch_body_keeps_names [of ?s j g os] by auto
  have "\<forall>j \<in> set mid. i_poll j \<noteq> PollTimeout" using Cons.prems(2) by simp
  then have "pending_ok (w_pending s') \<and> set (csv_names (w_pending ?s1)) \<subseteq> set (csv_names (w_pending s'))"
    by (rule Cons.IH [OF run _ ok])
  with keep show ?case by blast
qed simp

text \<open>The names of the events that one input of the loop brings.\<close>

definition reported :: "watch_input \<Rightarrow> string set" where
  "reported i = (case i_read i of ReadEvents evs \<Rightarrow> {n. Some n \<in> ev_name ` set evs} | _ \<Rightarrow> {})"

lemma csv_add_unique_names:
  assumes "pending_ok p"
  shows "set (csv_names (snd (csv_add_unique p MAX_CSV n))) \<subseteq> insert n (set (csv_names p))"
proof -
  obtain ns where ns: "p = csv_of ns" "list_all package_name_valid ns" "length (csv_of ns) < MAX_CSV"
    using assms by (auto simp: pending_ok_def)
  show ?thesis
    by (cases rule: csv_add_unique_cases [OF ns(2,3), of n]) (use ns in auto)
qed

lemma watch_events_names:
  "pending_ok p \<Longrightarrow> set (csv_names (snd (watch_events evs p))) \<subseteq> set (csv_names p) \<union> {n. Some n \<in> ev_name ` set evs}"
proof (induction evs p rule: watch_events.induct)
  case (2 ev evs p)
  show ?case
  proof (cases "\<exists>n. ev_name ev = Some n \<and> \<not> (n \<noteq> [] \<and> hd n = CHR ''.'') \<and> package_name_valid n")
    case True
    then obtain n where n: "ev_name ev = Some n" "\<not> (n \<noteq> [] \<and> hd n = CHR ''.'')" "package_name_valid n" by blast
    let ?p = "snd (csv_add_unique p MAX_CSV n)"
    have m: "set (csv_names ?p) \<subseteq> insert n (set (csv_names p))" by (rule csv_add_unique_names [OF "2.prems"])
    show ?thesis
    proof (cases "ev_mask ev AND IN_GONE = 0")
      case True
      have "set (csv_names (snd (watch_events evs ?p))) \<subseteq> set (csv_names ?p) \<union> {n. Some n \<in> ev_name ` set evs}"
        using "2.IH"(2) [OF _ n(1) conjI [OF n(2,3)] csv_add_unique_pending(1) [OF "2.prems"]] True by simp
      moreover have "watch_events (ev # evs) p = watch_events evs ?p" using True n by simp
      ultimately show ?thesis using m n(1) by auto
    qed auto
  next
    case False
    have "set (csv_names (snd (watch_events evs p))) \<subseteq> set (csv_names p) \<union> {n. Some n \<in> ev_name ` set evs}"
      if "ev_mask ev AND IN_GONE = 0"
      using "2.IH"(1,3) "2.prems" False that by (cases "ev_name ev") auto
    moreover have "watch_events (ev # evs) p = (if ev_mask ev AND IN_GONE \<noteq> 0 then (False, p) else watch_events evs p)"
      using False by (auto split: option.splits)
    ultimately show ?thesis by (auto split: if_splits)
  qed
qed auto

lemma watch_body_names:
  assumes "pending_ok (w_pending s)"
  shows "set (csv_names (w_pending (watch_body g os i s))) \<subseteq> set (csv_names (w_pending s)) \<union> reported i"
  using watch_events_names [OF assms]
  by (auto simp: watch_body_def watch_flush_def reported_def Let_def split_beta
      split: option.splits poll_outcome.splits bool.splits read_outcome.splits dest!: watch_open_frame) blast+

lemma watch_loop_names:
  "watch_loop g os mid s = Inl s' \<Longrightarrow> pending_ok (w_pending s) \<Longrightarrow>
   set (csv_names (w_pending s')) \<subseteq> set (csv_names (w_pending s)) \<union> (\<Union>j\<in>set mid. reported j)"
proof (induction mid arbitrary: s)
  case (Cons j mid)
  let ?s = "fold on_signal (i_sigs_head j) s"
  let ?s1 = "watch_body g os j ?s"
  have run: "watch_loop g os mid ?s1 = Inl s'"
    using Cons.prems(1) by (auto simp: Let_def split: if_splits)
  have p: "pending_ok (w_pending ?s)" using Cons.prems(2) by simp
  from watch_body_names [OF p, of g os j] Cons.IH [OF run watch_body_pending_ok [OF p]]
  show ?case by auto
qed simp

text \<open>The state in which a timeout hands over the batch: signals taken, the watch open, a requested reload done.\<close>

definition at_timeout :: "uci_globals \<Rightarrow> uci_os \<Rightarrow> watch_input \<Rightarrow> watch_state \<Rightarrow> watch_state" where
  "at_timeout g os tmo s = watch_reload g os (fold on_signal (i_sigs_reload tmo) ((fold on_signal (i_sigs_head tmo) s)\<lparr>w_fd := True\<rparr>))"

text \<open>
  C2. No change is lost. A change of package \<open>n\<close> is reported by inotify while the pending list is
  short; then come any further events, interrupted calls, errors that reopen the watch, and reloads, up to a
  poll timeout. There the pending list at that time is handed to one pass of \<open>apply_translators\<close> as it is, as the
  last thing that happens, and emptied; it names \<open>n\<close>, besides only packages that were pending or reported since,
  all with valid names; and as long as it is shorter than 2048 bytes, a translator of \<open>n\<close> finds \<open>n\<close> in it.
\<close>

theorem watch_no_lost_change:
  assumes "pending_ok (w_pending s)" and "w_fd s"
    and "i_poll i = PollReady True" and "i_read i = ReadEvents (pre @ ev # post)"
    and "\<forall>e \<in> set (pre @ [ev]). ev_mask e AND IN_GONE = 0"
    and "ev_name ev = Some n" and "package_name_valid n"
    and "length (w_pending s) + sum_list (map ev_bytes (pre @ [ev])) < TOKBUF"
    and "\<forall>j \<in> set mid. i_poll j \<noteq> PollTimeout"
    and "i_poll tmo = PollTimeout" and "i_init_ok tmo" and "i_watch_ok tmo"
    and "watch_loop g os (i # mid) s = Inl s2"
    and "watch_loop g os (i # mid @ [tmo]) s = Inl s'"
  shows "let batch = w_pending s2 in
    w_trace s' = snd (apply_translators g os batch (w_trace (at_timeout g os tmo s2))) \<and> w_pending s' = [] \<and>
    list_all package_name_valid (csv_names batch) \<and> n \<in> set (csv_names batch) \<and>
    set (csv_names batch) \<subseteq> set (csv_names (w_pending s)) \<union> (\<Union>j\<in>set (i # mid). reported j) \<and>
    (length batch < TOKBUF \<longrightarrow> csv_contains batch n)"
proof -
  let ?s1 = "watch_body g os i (fold on_signal (i_sigs_head i) s)"
  have run: "watch_loop g os mid ?s1 = Inl s2"
    using assms(13) by (auto simp: Let_def split: if_splits)
  have pend: "w_pending ?s1 = snd (watch_events (pre @ ev # post) (w_pending s))"
    using assms(2-4) by (simp add: watch_body_def watch_open_def Let_def split_beta)
  have n1: "n \<in> set (csv_names (w_pending ?s1))"
    unfolding pend by (rule watch_events_adds [OF assms(1,5,6,7,8)])
  have ok1: "pending_ok (w_pending ?s1)"
    unfolding pend using assms(1) watch_events_pending by blast
  from watch_loop_keeps_names [OF run assms(9) ok1] n1
  have ok2: "pending_ok (w_pending s2)" and n2: "n \<in> set (csv_names (w_pending s2))" by auto
  obtain ns where ns: "w_pending s2 = csv_of ns" "list_all package_name_valid ns" "length (csv_of ns) < MAX_CSV"
    using ok2 by (auto simp: pending_ok_def)
  have ne: "w_pending s2 \<noteq> []" using n2 by auto
  let ?h = "fold on_signal (i_sigs_head tmo) s2"
  have "watch_loop g os [tmo] s2 = Inl s'" using assms(13,14) watch_loop_append [of g os "i # mid" "[tmo]" s] by simp
  then have "s' = watch_body g os tmo ?h" by (auto simp: Let_def split: if_splits)
  moreover have "watch_open tmo ?h = Some (?h\<lparr>w_fd := True\<rparr>)"
    using assms(11,12) by (cases ?h) (auto simp: watch_open_def)
  moreover have "snprintf_s MAX_CSV (w_pending s2) = w_pending s2" using ns by simp
  ultimately have "w_trace s' = snd (apply_translators g os (w_pending s2) (w_trace (at_timeout g os tmo s2)))" "w_pending s' = []"
    using assms(10) ne by (simp_all add: watch_body_def watch_flush_def at_timeout_def Let_def)
  moreover have "set (csv_names (w_pending s2)) \<subseteq> set (csv_names (w_pending s)) \<union> (\<Union>j\<in>set (i # mid). reported j)"
    by (rule watch_loop_names [OF assms(13,1)])
  ultimately show ?thesis using ns n2 csv_contains_names by (simp add: Let_def)
qed

subsection \<open>A concrete system\<close>

text \<open>
  The hostname translator of the distribution on a system where every child exits with status 0.
  The theorems with hypotheses are applied to it.
\<close>

definition hostname_translator :: translator where
  "hostname_translator =
     \<lparr>t_manifest_path = ''/etc/neon-uci.d/10-hostname.conf'', t_name = ''hostname'', t_packages = ''system'',
      t_command = ''/usr/libexec/neon-uci/translate-hostname'', t_units = ''systemd-hostnamed.service'',
      t_action = ''none'', t_enabled = True, t_unit_optional = True\<rparr>"

definition demo_os :: uci_os where
  "demo_os =
     \<lparr>os_readdir = (\<lambda>tr d. Some [''.'', ''..'', ''10-hostname.conf'']),
      os_file = (\<lambda>tr p. if p = ''/etc/neon-uci.d/10-hostname.conf''
                        then Some (render_manifest hostname_translator) else None),
      os_access_x = (\<lambda>tr p. True), os_calloc = (\<lambda>tr. True), os_environ = [''HOME=/''],
      os_spawn = (\<lambda>tr argv env. Exited 0), os_capture = (\<lambda>tr argv. NoChild),
      os_host_name_max = 64, os_sethostname = (\<lambda>tr n. True), os_uci_alloc = (True, True),
      os_uci_lookup = (\<lambda>dir t. None)\<rparr>"

lemma hostname_writable: "manifest_writable hostname_translator"
  by code_simp

lemma demo_parse: "parse_manifest (os_file demo_os tr) ''/etc/neon-uci.d/10-hostname.conf'' = Some hostname_translator"
  by (simp add: demo_os_def) code_simp

lemma demo_loaded: "loaded default_globals demo_os tr = Some [hostname_translator]"
  using demo_parse [of tr]
  by (simp add: loaded_def load_translators_def default_globals_def demo_os_def conf_entry_def)

theorem matches_packages_iff_witness:
  "translator_matches_packages hostname_translator (csv_of [''network'', ''system'']) \<longleftrightarrow>
     (\<exists>p \<in> set (csv_names (t_packages hostname_translator)). p \<in> set [''network'', ''system''])"
  by (rule matches_packages_iff; code_simp)

theorem csv_add_unique_refines_insert_witness:
  "csv_add_unique (csv_of [''network'']) MAX_CSV ''system'' =
    (if ''system'' \<in> set [''network''] then (True, csv_of [''network''])
     else if length (csv_of ([''network''] @ [''system''])) < MAX_CSV then (True, csv_of ([''network''] @ [''system'']))
     else (False, csv_of [''network'']))"
  by (rule csv_add_unique_refines_insert; code_simp)

theorem long_batch_matches_nothing_witness:
  "apply_translators default_globals demo_os (replicate 2048 (CHR ''a'')) [] = (0, [])"
  by (rule long_batch_matches_nothing [OF _ demo_loaded]) simp

theorem load_translators_exact_witness:
  "\<exists>ts. load_translators (os_file demo_os []) ''/etc/neon-uci.d'' (Some [''.'', ''10-hostname.conf'']) = Some ts \<and>
     sorted (map t_manifest_path ts) \<and> image_mset Some (mset ts) = {#Some hostname_translator#}"
proof -
  let ?l = "load_translators (os_file demo_os []) ''/etc/neon-uci.d'' (Some [''.'', ''10-hostname.conf''])"
  have few: "length (filter conf_entry [''.'', ''10-hostname.conf'']) \<le> MAX_TRANSLATORS" by code_simp
  have entries: "manifest_entries ''/etc/neon-uci.d'' [''.'', ''10-hostname.conf''] = [''10-hostname.conf'']" by code_simp
  have "entry_path ''/etc/neon-uci.d'' ''10-hostname.conf'' = ''/etc/neon-uci.d/10-hostname.conf''" by code_simp
  then have parse: "parse_manifest (os_file demo_os []) (entry_path ''/etc/neon-uci.d'' ''10-hostname.conf'') = Some hostname_translator"
    using demo_parse by simp
  note exact = load_translators_exact [OF few, of "os_file demo_os []" "''/etc/neon-uci.d''", unfolded entries]
  from exact parse obtain ts where "?l = Some ts" by (cases ?l) auto
  with exact parse show ?thesis by simp
qed

theorem action_only_after_success_witness:
  "\<exists>acts. snd (apply_one default_globals demo_os ''system'' hostname_translator []) =
      [] @ handler_effect demo_os ''system'' hostname_translator # acts \<and>
    list_all (action_effect default_globals hostname_translator) acts \<and>
    (acts \<noteq> [] \<longrightarrow> os_spawn demo_os [] [t_command hostname_translator, ''apply'']
       (Some (os_environ demo_os @ [env_changed ''system''])) = Exited 0)"
  by (rule action_only_after_success [OF surjective_pairing]) code_simp

theorem apply_translators_confined_witness:
  "extends (allowed_effect default_globals demo_os ''system'' [hostname_translator]) []
       (snd (apply_translators default_globals demo_os ''system'' []))
   \<and> manifest_ok hostname_translator \<and> action_valid (t_action hostname_translator)"
  using apply_translators_confined [where g = default_globals and os = demo_os and tr = "[]" and csv = "''system''"] by (simp add: demo_loaded)

theorem apply_translators_runs_all_witness:
  "filter is_handler (snd (apply_translators default_globals demo_os ''system'' [])) =
     filter is_handler [] @ map (handler_effect demo_os ''system'')
       (filter (\<lambda>t. t_enabled t \<and> translator_matches_packages t ''system'') [hostname_translator]) \<and>
   sorted (map t_manifest_path [hostname_translator])"
  by (rule apply_translators_runs_all [OF _ demo_loaded]) (simp add: handlers_startable_def demo_os_def)

theorem manifest_roundtrip_witness:
  "parse_manifest (os_file demo_os []) (t_manifest_path hostname_translator) = Some hostname_translator"
  by (rule manifest_roundtrip [OF hostname_writable]) (simp add: demo_os_def hostname_translator_def)

definition demo_input :: "poll_outcome \<Rightarrow> inotify_event list \<Rightarrow> watch_input" where
  "demo_input po evs = \<lparr>i_sigs_head = [], i_sigs_reload = [], i_init_ok = True, i_watch_ok = True,
     i_poll = po, i_read = ReadEvents evs\<rparr>"

definition demo_state :: watch_state where
  "demo_state = watch_body default_globals demo_os (demo_input PollEintr []) (watch_init [])"

theorem watch_pending_invariant_witness:
  "pending_ok (w_pending demo_state) \<and> snprintf_s MAX_CSV (w_pending demo_state) = w_pending demo_state"
  unfolding demo_state_def
  by (rule watch_pending_invariant [OF watch_reachable.body [OF watch_reachable.start]])
    (simp add: watch_init_def)

definition demo_event :: inotify_event where
  "demo_event = \<lparr>ev_mask = 8, ev_name = Some ''system''\<rparr>"

definition demo_run :: watch_state where
  "demo_run = watch_body default_globals demo_os (demo_input PollTimeout [])
     (watch_body default_globals demo_os (demo_input (PollReady True) [demo_event]) demo_state)"

definition demo_mid :: watch_state where
  "demo_mid = watch_body default_globals demo_os (demo_input (PollReady True) [demo_event]) demo_state"

theorem watch_no_lost_change_witness:
  "w_trace demo_run = snd (apply_translators default_globals demo_os ''system''
      (w_trace (at_timeout default_globals demo_os (demo_input PollTimeout []) demo_mid))) \<and> w_pending demo_run = [] \<and>
   csv_contains ''system'' ''system''"
proof -
  have fd: "w_fd demo_state" "\<not> w_stop demo_state" "w_pending demo_state = []"
    by (simp_all add: demo_state_def watch_body_def watch_open_def demo_input_def watch_init_def watch_reload_def)
  have v: "package_name_valid ''system''" by code_simp
  have m: "ev_mask demo_event AND IN_GONE = 0" by (simp add: demo_event_def IN_GONE_def)
  have "csv_add_unique [] MAX_CSV ''system'' = (True, ''system'')"
    using csv_add_unique_refines [of "[]" "''system''" MAX_CSV] v by simp
  then have p: "w_pending demo_mid = ''system''"
    using fd v m by (simp add: demo_mid_def watch_body_def watch_open_def demo_input_def demo_event_def watch_reload_def)
  have run: "watch_loop default_globals demo_os [demo_input (PollReady True) [demo_event]] demo_state = Inl demo_mid"
    "watch_loop default_globals demo_os [demo_input (PollReady True) [demo_event], demo_input PollTimeout []] demo_state = Inl demo_run"
    using fd by (simp_all add: demo_run_def demo_mid_def watch_body_stop demo_input_def)
  show ?thesis
    using watch_no_lost_change [where s = demo_state and pre = "[]" and ev = demo_event and post = "[]" and n = "''system''"
        and i = "demo_input (PollReady True) [demo_event]" and mid = "[]" and tmo = "demo_input PollTimeout []",
        OF _ fd(1) _ _ _ _ v _ _ _ _ _ run(1)] run(2) m
    by (simp add: fd(3) p demo_input_def ev_bytes_def demo_event_def Let_def)
qed

end
