(* ===== verification/JsonC.thy ===== *)
theory JsonC
  imports CLib "HOL-Library.AList"
begin

text \<open>
  JSON values as the programs of this development hold them. A value is a tree; \<open>JNull\<close> is the
  C pointer NULL, which json-c uses for the JSON value null and for failure alike. The accessors that
  only walk the tree are definitions here. What json-c computes from text or converts between types
  (\<open>json_tokener_parse\<close>, \<open>json_object_get_string\<close>, \<open>json_object_get_int\<close>,
  \<open>json_object_get_boolean\<close>, the printers) belongs to that library and is the parameter
  \<open>jsonc\<close>; \<open>jsonc_doc\<close> names the documented facts about it that some theorems use.
\<close>

datatype json =
    JNull
  | JBool bool
  | JInt int
  | JDouble "64 word"
  | JString string
  | JArray "json list"
  | JObject "(string \<times> json) list"

record jsonc =
  jc_parse :: "string \<Rightarrow> json"
  jc_string :: "json \<Rightarrow> string option"
  jc_boolean :: "json \<Rightarrow> bool"
  jc_int :: "json \<Rightarrow> int"
  jc_print :: "json \<Rightarrow> string"
  jc_pretty :: "json \<Rightarrow> string"

definition jsonc_doc :: "jsonc \<Rightarrow> bool" where
  "jsonc_doc J \<longleftrightarrow> jc_string J JNull = None \<and> (\<forall>s. jc_string J (JString s) = Some s)"

lemma jsonc_docD:
  assumes "jsonc_doc J"
  shows "jc_string J JNull = None" "jc_string J (JString s) = Some s"
  using assms by (auto simp: jsonc_doc_def)

fun is_array :: "json \<Rightarrow> bool" where
  "is_array (JArray vs) = True"
| "is_array v = False"

fun is_object :: "json \<Rightarrow> bool" where
  "is_object (JObject kvs) = True"
| "is_object v = False"

fun is_string :: "json \<Rightarrow> bool" where
  "is_string (JString s) = True"
| "is_string v = False"

text \<open>\<open>json_object_array_length\<close> and \<open>json_object_array_get_idx\<close> see the elements.\<close>

fun elems :: "json \<Rightarrow> json list" where
  "elems (JArray vs) = vs"
| "elems v = []"

definition array_get_idx :: "json \<Rightarrow> nat \<Rightarrow> json" where
  "array_get_idx v i = (if i < length (elems v) then elems v ! i else JNull)"

text \<open>The iterator over an object gives its entries in order.\<close>

fun entries :: "json \<Rightarrow> (string \<times> json) list" where
  "entries (JObject kvs) = kvs"
| "entries v = []"

definition object_get_ex :: "json \<Rightarrow> string \<Rightarrow> json option" where
  "object_get_ex v key = map_of (entries v) key"

text \<open>\<open>json_object_object_add\<close>: replaces the value of an existing key, appends a new one.\<close>

definition object_add :: "json \<Rightarrow> string \<Rightarrow> json \<Rightarrow> json" where
  "object_add v key x = JObject (AList.update key x (entries v))"

lemma object_get_ex_add: "object_get_ex (object_add v key x) k = (if k = key then Some x else object_get_ex v k)"
  by (simp add: object_get_ex_def object_add_def update_conv)

lemma size_elem_less [termination_simp]: "c \<in> set cs \<Longrightarrow> size c < Suc (size_list size cs)"
  by (induction cs) auto

end
