(* ===== verification/NeonProcd.thy ===== *)
theory NeonProcd
  imports JsonC "HOL-Library.Sublist"
begin

text \<open>
  The command \<open>neon-procd\<close> (src/package/system/neon-procd/src/neon-procd.c): it turns procd
  service definitions in JSON into transient systemd units, keeps a registry file per service, and
  evaluates the triggers of the registered services when an event arrives.

  The world of one invocation (\<open>pd_world\<close>) is the files, the children run so far and the lines
  printed; the operating system and \<open>fnmatch\<close> are the parameter \<open>pd_env\<close>. A child may change
  the files, so \<open>e_run\<close> returns them. \<open>die\<close> and a call that dereferences NULL end the process:
  they are the values of \<open>pd_abort\<close>. Allocation does not fail, warnings on standard error and the
  closing of files are not recorded.
\<close>

abbreviation (input) MAX_ARGS :: nat where "MAX_ARGS \<equiv> 512"

definition UNIT_PREFIX :: string where "UNIT_PREFIX = ''neon-procd-''"
definition REGISTRY_DIR :: string where "REGISTRY_DIR = ''/run/neon-procd/services''"

subsection \<open>The world\<close>

datatype pd_abort = Die string | NullDeref

datatype run_outcome = RExited nat | RSignaled nat | RNoFork

record pd_world =
  w_files :: "string \<Rightarrow> string option"
  w_runs :: "(string list \<times> bool) list"
  w_out :: "string list"

record pd_env =
  e_run :: "pd_world \<Rightarrow> string list \<Rightarrow> bool \<Rightarrow> run_outcome \<times> (string \<Rightarrow> string option)"
  e_fopen_r :: "pd_world \<Rightarrow> string \<Rightarrow> bool"
  e_fopen_w :: "pd_world \<Rightarrow> string \<Rightarrow> bool"
  e_write :: "pd_world \<Rightarrow> string \<Rightarrow> nat \<times> bool"
  e_fclose :: "pd_world \<Rightarrow> bool"
  e_rename :: "pd_world \<Rightarrow> bool"
  e_unlink :: "pd_world \<Rightarrow> bool"
  e_readdir :: "pd_world \<Rightarrow> string list option"
  e_fnmatch :: "string \<Rightarrow> string \<Rightarrow> bool"

definition run_status :: "run_outcome \<Rightarrow> int" where
  "run_status r = (case r of RExited n \<Rightarrow> int n | RSignaled n \<Rightarrow> 128 + int n | RNoFork \<Rightarrow> -1)"

definition runv :: "pd_env \<Rightarrow> string list \<Rightarrow> bool \<Rightarrow> pd_world \<Rightarrow> int \<times> pd_world" where
  "runv env argv quiet w =
     (let (r, files) = e_run env w argv quiet
      in (run_status r, w\<lparr>w_files := files, w_runs := w_runs w @ [(argv, quiet)]\<rparr>))"

definition systemctl_unit :: "pd_env \<Rightarrow> string \<Rightarrow> string \<Rightarrow> bool \<Rightarrow> pd_world \<Rightarrow> int \<times> pd_world" where
  "systemctl_unit env verb un quiet w = runv env [''systemctl'', verb, un] quiet w"

subsection \<open>Names\<close>

definition sanitize_char :: "char \<Rightarrow> char" where
  "sanitize_char c = (if isalnum c \<or> c = CHR ''_'' \<or> c = CHR ''-'' \<or> c = CHR ''.'' then c else CHR ''-'')"

definition sanitize :: "string \<Rightarrow> nat \<Rightarrow> string" where
  "sanitize inp outsz = take (outsz - 1) (map sanitize_char (if inp = [] then ''unnamed'' else inp))"

definition unit_name :: "string \<Rightarrow> string \<Rightarrow> nat \<Rightarrow> string" where
  "unit_name service inst outsz =
     snprintf_s outsz (UNIT_PREFIX @ sanitize service 128 @ ''-'' @ sanitize inst 128 @ ''.service'')"

definition unit_pattern :: "string \<Rightarrow> nat \<Rightarrow> string" where
  "unit_pattern service outsz = snprintf_s outsz (UNIT_PREFIX @ sanitize service 128 @ ''-*.service'')"

subsection \<open>Building an argument vector\<close>

text \<open>A step appends to \<open>argv\<close> or ends the process; \<open>run_steps\<close> is their sequence.\<close>

type_synonym argv_step = "string list \<Rightarrow> pd_abort + string list"

fun run_steps :: "argv_step list \<Rightarrow> argv_step" where
  "run_steps [] argv = Inr argv"
| "run_steps (s # ss) argv = (case s argv of Inl e \<Rightarrow> Inl e | Inr argv' \<Rightarrow> run_steps ss argv')"

definition add_arg :: "string option \<Rightarrow> argv_step" where
  "add_arg s argv =
     (if MAX_ARGS - 1 \<le> length argv then Inl (Die ''too many arguments'')
      else case s of None \<Rightarrow> Inl NullDeref | Some x \<Rightarrow> Inr (argv @ [x]))"

text \<open>\<open>printf\<close> of a NULL string writes \<open>(null)\<close>, as the C libraries of the system do.\<close>

definition fmt_s :: "string option \<Rightarrow> string" where
  "fmt_s v = (case v of None \<Rightarrow> ''(null)'' | Some x \<Rightarrow> x)"

definition add_kv :: "string \<Rightarrow> string \<Rightarrow> string option \<Rightarrow> argv_step" where
  "add_kv opt key v argv =
     (case add_arg (Some opt) argv of
        Inl e \<Rightarrow> Inl e
      | Inr argv' \<Rightarrow>
          if MAX_ARGS - 1 \<le> length argv' then Inl (Die ''too many arguments'')
          else Inr (argv' @ [key @ ''='' @ fmt_s v]))"

definition add_prop :: "string \<Rightarrow> string option \<Rightarrow> argv_step" where
  "add_prop key v = add_kv ''--property'' key v"

subsection \<open>JSON access and resource limits\<close>

definition jstr :: "json \<Rightarrow> string \<Rightarrow> string option" where
  "jstr o' key = (case object_get_ex o' key of Some (JString s) \<Rightarrow> Some s | _ \<Rightarrow> None)"

definition jbool :: "jsonc \<Rightarrow> json \<Rightarrow> string \<Rightarrow> bool" where
  "jbool J o' key = (case object_get_ex o' key of
     None \<Rightarrow> False | Some v \<Rightarrow> if v = JNull then False else jc_boolean J v)"

definition limit_maps :: "(string \<times> string) list" where
  "limit_maps =
     [(''cpu'', ''LimitCPU''), (''fsize'', ''LimitFSIZE''), (''data'', ''LimitDATA''), (''stack'', ''LimitSTACK''),
      (''core'', ''LimitCORE''), (''rss'', ''LimitRSS''), (''nofile'', ''LimitNOFILE''), (''as'', ''LimitAS''),
      (''nproc'', ''LimitNPROC''), (''memlock'', ''LimitMEMLOCK''), (''locks'', ''LimitLOCKS''),
      (''sigpending'', ''LimitSIGPENDING''), (''msgqueue'', ''LimitMSGQUEUE''), (''nice'', ''LimitNICE''),
      (''rtprio'', ''LimitRTPRIO''), (''rttime'', ''LimitRTTIME'')]"

definition limit_property :: "string \<Rightarrow> string option" where
  "limit_property name = map_of limit_maps name"

definition normalize_limit_token :: "string \<Rightarrow> nat \<Rightarrow> string" where
  "normalize_limit_token inp outsz =
     (if inp = [] then snprintf_s outsz ''infinity''
      else if strcaseeq inp ''unlimited'' \<or> strcaseeq inp ''infinity'' then snprintf_s outsz ''infinity''
      else snprintf_s outsz inp)"

definition is_limit_sep :: "char \<Rightarrow> bool" where
  "is_limit_sep c \<longleftrightarrow> c = CHR '' '' \<or> c = CHR 0x09 \<or> c = CHR '':''"

definition rtrim :: "string \<Rightarrow> string" where
  "rtrim s = rev (dropWhile isspace (rev s))"

definition normalize_limit_value :: "string option \<Rightarrow> nat \<Rightarrow> string" where
  "normalize_limit_value v outsz =
     (let buf = snprintf_s 256 (case v of None \<Rightarrow> [] | Some x \<Rightarrow> x);
          p = rtrim (dropWhile isspace buf)
      in if list_all (\<lambda>c. \<not> is_limit_sep c) p then normalize_limit_token p outsz
         else let soft = takeWhile (\<lambda>c. \<not> is_limit_sep c) p;
                  sep = tl (dropWhile (\<lambda>c. \<not> is_limit_sep c) p);
                  hard = rtrim (dropWhile (\<lambda>c. isspace c \<or> c = CHR '':'') sep)
              in snprintf_s outsz
                   (normalize_limit_token soft 128 @ '':'' @
                    normalize_limit_token (if hard \<noteq> [] then hard else soft) 128))"

definition limit_steps :: "jsonc \<Rightarrow> json \<Rightarrow> argv_step list" where
  "limit_steps J limits =
     concat (map (\<lambda>(name, v).
       case limit_property name of
         None \<Rightarrow> []
       | Some prop \<Rightarrow> [add_prop prop (Some (normalize_limit_value (jc_string J v) 256))])
     (entries limits))"

subsection \<open>Starting an instance\<close>

definition respawn_steps :: "jsonc \<Rightarrow> json \<Rightarrow> argv_step list" where
  "respawn_steps J inst =
     (case object_get_ex inst ''respawn'' of
        None \<Rightarrow> [add_prop ''Restart'' (Some ''no'')]
      | Some r \<Rightarrow>
          [add_prop ''Restart'' (Some ''always''),
           add_prop ''RestartSec''
             (if is_array r \<and> 2 \<le> length (elems r) then jc_string J (array_get_idx r 1) else Some ''5'')] @
          (if is_array r \<and> 3 \<le> length (elems r)
           then [add_prop ''StartLimitIntervalSec'' (jc_string J (array_get_idx r 0)),
                 add_prop ''StartLimitBurst'' (jc_string J (array_get_idx r 2))]
           else []))"

definition opt_prop :: "string \<Rightarrow> string option \<Rightarrow> argv_step list" where
  "opt_prop key v = (case v of Some x \<Rightarrow> if x \<noteq> [] then [add_prop key (Some x)] else [] | None \<Rightarrow> [])"

definition nice_steps :: "jsonc \<Rightarrow> json \<Rightarrow> argv_step list" where
  "nice_steps J inst = (case object_get_ex inst ''nice'' of
     None \<Rightarrow> [] | Some v \<Rightarrow> [add_prop ''Nice'' (jc_string J v)])"

definition env_entries :: "json \<Rightarrow> (string \<times> json) list" where
  "env_entries inst = (case object_get_ex inst ''env'' of None \<Rightarrow> [] | Some e \<Rightarrow> entries e)"

definition env_steps :: "jsonc \<Rightarrow> json \<Rightarrow> argv_step list" where
  "env_steps J inst =
     map (\<lambda>(k, v). add_kv ''--setenv'' k (jc_string J v)) (env_entries inst) @
     (if list_ex (\<lambda>(k, v). k = ''PATH'') (env_entries inst) then []
      else [add_arg (Some ''--setenv''), add_arg (Some ''PATH=/usr/sbin:/usr/bin:/sbin:/bin'')])"

definition instance_steps :: "jsonc \<Rightarrow> string \<Rightarrow> string \<Rightarrow> json \<Rightarrow> argv_step list" where
  "instance_steps J service un inst =
     [add_arg (Some ''systemd-run''), add_arg (Some ''--unit''), add_arg (Some un),
      add_arg (Some ''--collect''), add_arg (Some ''--service-type=simple''),
      add_prop ''Description'' (Some service)] @
     respawn_steps J inst @
     opt_prop ''User'' (jstr inst ''user'') @ opt_prop ''Group'' (jstr inst ''group'') @
     nice_steps J inst @
     (if jbool J inst ''no_new_privs'' then [add_prop ''NoNewPrivileges'' (Some ''yes'')] else []) @
     [add_prop ''StandardOutput'' (Some ''journal''), add_prop ''StandardError'' (Some ''journal'')] @
     (case object_get_ex inst ''limits'' of None \<Rightarrow> [] | Some l \<Rightarrow> limit_steps J l) @
     env_steps J inst @
     [add_arg (Some ''--'')]"

definition command_of :: "json \<Rightarrow> json list" where
  "command_of inst = (case object_get_ex inst ''command'' of None \<Rightarrow> [] | Some c \<Rightarrow> elems c)"

definition start_instance :: "pd_env \<Rightarrow> jsonc \<Rightarrow> string \<Rightarrow> string \<Rightarrow> json \<Rightarrow> pd_world \<Rightarrow> (pd_abort + int) \<times> pd_world" where
  "start_instance env J service iname inst w =
     (if command_of inst = [] then (Inr 0, w)
      else let un = unit_name service iname 320;
               w1 = snd (systemctl_unit env ''stop'' un True w);
               w2 = snd (systemctl_unit env ''reset-failed'' un True w1)
           in case run_steps (instance_steps J service un inst @ map (\<lambda>c. add_arg (jc_string J c)) (command_of inst)) [] of
                Inl e \<Rightarrow> (Inl e, w2)
              | Inr argv \<Rightarrow> (let (rc, w3) = runv env argv False w2 in (Inr rc, w3)))"

subsection \<open>The registry\<close>

definition registry_path :: "string \<Rightarrow> string" where
  "registry_path service = snprintf_s 384 (REGISTRY_DIR @ ''/'' @ sanitize service 128 @ ''.json'')"

text \<open>
  A stream open for writing: the file has a prefix of what was put into it, the rest is in the buffer. Putting
  text moves some of the pending bytes to the file, as many as \<open>e_write\<close> says; when it fails, the pending
  bytes that did not get there are dropped and the stream can be written on (as musl does). \<open>fclose\<close> writes
  what is pending; it fails when that fails or closing does, and does not report an earlier failure.
\<close>

type_synonym stream = "pd_world \<times> string"

definition append_file :: "string \<Rightarrow> string \<Rightarrow> pd_world \<Rightarrow> pd_world" where
  "append_file path dat w =
     w\<lparr>w_files := (w_files w)(path \<mapsto> (case w_files w path of None \<Rightarrow> [] | Some t \<Rightarrow> t) @ dat)\<rparr>"

definition stream_put :: "pd_env \<Rightarrow> string \<Rightarrow> string \<Rightarrow> stream \<Rightarrow> bool \<times> stream" where
  "stream_put env path text f =
     (let (w, buf) = f; dat = buf @ text; (n, ok) = e_write env w dat in
      (ok, append_file path (take n dat) w, if ok then drop n dat else []))"

definition stream_close :: "pd_env \<Rightarrow> string \<Rightarrow> stream \<Rightarrow> bool \<times> pd_world" where
  "stream_close env path f =
     (let (w, buf) = f; (n, ok) = e_write env w buf;
          w1 = append_file path (if ok then buf else take n buf) w
      in (ok \<and> e_fclose env w1, w1))"

text \<open>Result 0 or -1; a file that \<open>fopen\<close> created stays when a later call fails.\<close>

definition save_registry :: "pd_env \<Rightarrow> jsonc \<Rightarrow> string \<Rightarrow> json \<Rightarrow> pd_world \<Rightarrow> int \<times> pd_world" where
  "save_registry env J service root w =
     (let path = registry_path service; tmp = snprintf_s 400 (path @ ''.tmp'') in
      if \<not> e_fopen_w env w tmp then (-1, w)
      else
        let f = (w\<lparr>w_files := (w_files w)(tmp \<mapsto> [])\<rparr>, []);
            f = snd (stream_put env tmp (jc_pretty J root) f);
            f = snd (stream_put env tmp [newline] f);
            (closed, w) = stream_close env tmp f
        in if \<not> closed then (-1, w)
           else if \<not> e_rename env w then (-1, w)
           else (0, w\<lparr>w_files := (w_files w)(path := w_files w tmp, tmp := None)\<rparr>))"

definition read_json_file :: "pd_env \<Rightarrow> jsonc \<Rightarrow> string \<Rightarrow> pd_world \<Rightarrow> json" where
  "read_json_file env J path w =
     (case w_files w path of
        None \<Rightarrow> JNull
      | Some text \<Rightarrow> if e_fopen_r env w path then jc_parse J (cstr text) else JNull)"

definition json_entry :: "string \<Rightarrow> bool" where
  "json_entry d \<longleftrightarrow> \<not> (length d < 6 \<or> drop (length d - 5) d \<noteq> ''.json'')"

definition registry_file :: "string \<Rightarrow> string" where
  "registry_file d = snprintf_s 512 (REGISTRY_DIR @ ''/'' @ d)"

subsection \<open>Commands\<close>

fun start_instances :: "pd_env \<Rightarrow> jsonc \<Rightarrow> string \<Rightarrow> (string \<times> json) list \<Rightarrow> int \<Rightarrow> pd_world \<Rightarrow> (pd_abort + int) \<times> pd_world" where
  "start_instances env J service [] rc w = (Inr rc, w)"
| "start_instances env J service ((iname, inst) # rest) rc w =
     (case start_instance env J service iname inst w of
        (Inl e, w') \<Rightarrow> (Inl e, w')
      | (Inr r, w') \<Rightarrow> start_instances env J service rest (if r \<noteq> 0 \<and> rc = 0 then r else rc) w')"

definition cmd_set :: "pd_env \<Rightarrow> jsonc \<Rightarrow> string \<Rightarrow> pd_world \<Rightarrow> (pd_abort + int) \<times> pd_world" where
  "cmd_set env J stdin w =
     (let root = jc_parse J (cstr stdin) in
      if root = JNull then (Inl (Die ''invalid JSON on stdin''), w)
      else case jstr root ''name'' of
             None \<Rightarrow> (Inl (Die ''missing service name''), w)
           | Some service \<Rightarrow>
               (let w1 = snd (save_registry env J service root w) in
                case object_get_ex root ''instances'' of
                  None \<Rightarrow> (Inr 0, w1)
                | Some insts \<Rightarrow>
                    if is_object insts then start_instances env J service (entries insts) 0 w1 else (Inr 0, w1)))"

definition cmd_delete :: "pd_env \<Rightarrow> string \<Rightarrow> string option \<Rightarrow> pd_world \<Rightarrow> int \<times> pd_world" where
  "cmd_delete env service inst w =
     (case inst of
        Some i \<Rightarrow> if i \<noteq> [] then systemctl_unit env ''stop'' (unit_name service i 320) True w
                  else runv env [''systemctl'', ''stop'', unit_pattern service 256] True w
      | None \<Rightarrow> runv env [''systemctl'', ''stop'', unit_pattern service 256] True w)"

definition unit_arg :: "string \<Rightarrow> string option \<Rightarrow> nat \<Rightarrow> string" where
  "unit_arg service inst patsz =
     (case inst of
        Some i \<Rightarrow> if i \<noteq> [] then unit_name service i 320 else unit_pattern service patsz
      | None \<Rightarrow> unit_pattern service patsz)"

definition cmd_running :: "pd_env \<Rightarrow> string \<Rightarrow> string option \<Rightarrow> pd_world \<Rightarrow> int \<times> pd_world" where
  "cmd_running env service inst w =
     runv env [''systemctl'', ''is-active'', ''--quiet'', unit_arg service inst 256] True w"

definition cmd_status :: "pd_env \<Rightarrow> string \<Rightarrow> string option \<Rightarrow> pd_world \<Rightarrow> int \<times> pd_world" where
  "cmd_status env service inst w =
     runv env [''systemctl'', ''status'', ''--no-pager'', unit_arg service inst 256] False w"

definition active_unit :: "pd_env \<Rightarrow> string \<Rightarrow> string \<Rightarrow> pd_world \<Rightarrow> bool \<times> pd_world" where
  "active_unit env service inst w =
     (let (rc, w') = runv env [''systemctl'', ''is-active'', ''--quiet'', unit_name service inst 320] True w
      in (rc = 0, w'))"

text \<open>The object with one \<open>running\<close> flag per instance.\<close>

fun list_instances :: "pd_env \<Rightarrow> string \<Rightarrow> (string \<times> json) list \<Rightarrow> json \<Rightarrow> pd_world \<Rightarrow> json \<times> pd_world" where
  "list_instances env svc [] io w = (io, w)"
| "list_instances env svc ((iname, inst) # rest) io w =
     (let (act, w') = active_unit env svc iname w
      in list_instances env svc rest (object_add io iname (object_add (JObject []) ''running'' (JBool act))) w')"

fun list_services :: "pd_env \<Rightarrow> jsonc \<Rightarrow> string option \<Rightarrow> string list \<Rightarrow> json \<Rightarrow> pd_world \<Rightarrow> json \<times> pd_world" where
  "list_services env J wanted [] out w = (out, w)"
| "list_services env J wanted (d # ds) out w =
     (if \<not> json_entry d then list_services env J wanted ds out w
      else case jstr (read_json_file env J (registry_file d) w) ''name'' of
             None \<Rightarrow> list_services env J wanted ds out w
           | Some svc \<Rightarrow>
               (if wanted \<noteq> None \<and> wanted \<noteq> Some [] \<and> wanted \<noteq> Some svc
                then list_services env J wanted ds out w
                else let insts = (case object_get_ex (read_json_file env J (registry_file d) w) ''instances'' of
                                    None \<Rightarrow> [] | Some i \<Rightarrow> entries i);
                         (io, w') = list_instances env svc insts (JObject []) w
                     in list_services env J wanted ds
                          (object_add out svc (object_add (JObject []) ''instances'' io)) w'))"

definition cmd_list_json :: "pd_env \<Rightarrow> jsonc \<Rightarrow> string \<Rightarrow> pd_world \<Rightarrow> int \<times> pd_world" where
  "cmd_list_json env J stdin w =
     (let wanted = jstr (jc_parse J (cstr stdin)) ''name'' in
      case e_readdir env w of
        None \<Rightarrow> (0, w\<lparr>w_out := w_out w @ [''{}'']\<rparr>)
      | Some ds \<Rightarrow> (let (out, w') = list_services env J wanted ds (JObject []) w
                    in (0, w'\<lparr>w_out := w_out w' @ [jc_print J out]\<rparr>)))"

definition unlink_file :: "pd_env \<Rightarrow> string \<Rightarrow> pd_world \<Rightarrow> pd_world" where
  "unlink_file env p w = (if e_unlink env w then w\<lparr>w_files := (w_files w)(p := None)\<rparr> else w)"

definition cmd_delete_json :: "pd_env \<Rightarrow> jsonc \<Rightarrow> string \<Rightarrow> pd_world \<Rightarrow> int \<times> pd_world" where
  "cmd_delete_json env J stdin w =
     (let o' = jc_parse J (cstr stdin) in
      if o' = JNull then (1, w)
      else case jstr o' ''name'' of
             None \<Rightarrow> (1, w)
           | Some svc \<Rightarrow>
               (let inst = jstr o' ''instance'';
                    (rc, w1) = cmd_delete env svc inst w
                in (rc, if inst = None \<or> inst = Some [] then unlink_file env (registry_path svc) w1 else w1)))"

definition cmd_signal_json :: "pd_env \<Rightarrow> jsonc \<Rightarrow> string \<Rightarrow> pd_world \<Rightarrow> int \<times> pd_world" where
  "cmd_signal_json env J stdin w =
     (let o' = jc_parse J (cstr stdin) in
      if o' = JNull then (1, w)
      else let signo = (case object_get_ex o' ''signal'' of None \<Rightarrow> 15 | Some s \<Rightarrow> jc_int J s) in
        case jstr o' ''name'' of
          None \<Rightarrow> (1, w)
        | Some svc \<Rightarrow>
            runv env [''systemctl'', ''kill'', snprintf_s 32 (''--signal='' @ dec_int signo),
                      unit_arg svc (jstr o' ''instance'') 320] True w)"

subsection \<open>Triggers\<close>

text \<open>
  json-c gives a string for every value but NULL, so \<open>fmt_s\<close> only unwraps the option here: a NULL
  element has ended the function before.
\<close>

definition execute_argv_slice :: "pd_env \<Rightarrow> jsonc \<Rightarrow> json \<Rightarrow> nat \<Rightarrow> pd_world \<Rightarrow> pd_world" where
  "execute_argv_slice env J a start w =
     (let vs = drop start (elems a) in
      if \<not> is_array a \<or> length (elems a) \<le> start \<or> MAX_ARGS \<le> length (elems a) - start then w
      else if list_ex (\<lambda>v. v = JNull) vs then w
      else snd (runv env (map (\<lambda>v. fmt_s (jc_string J v)) vs) False w))"

definition event_data_value :: "jsonc \<Rightarrow> json \<Rightarrow> string option \<Rightarrow> string option" where
  "event_data_value J data key =
     (case key of
        None \<Rightarrow> None
      | Some k \<Rightarrow> (case object_get_ex data k of
                    None \<Rightarrow> None | Some v \<Rightarrow> if v = JNull then None else jc_string J v))"

fun eval_condition :: "jsonc \<Rightarrow> json \<Rightarrow> json \<Rightarrow> bool" where
  "eval_condition J (JArray (c0 # cs)) data =
     (case jc_string J c0 of
        None \<Rightarrow> False
      | Some op \<Rightarrow>
          (if (op = ''eq'' \<or> op = ''ne'') \<and> 3 \<le> length (c0 # cs) then
             (let key = jc_string J (cs ! 0); want = jc_string J (cs ! 1);
                  got = event_data_value J data key;
                  equal = (got \<noteq> None \<and> want \<noteq> None \<and> got = want)
              in if op = ''eq'' then equal else \<not> equal)
           else if op = ''and'' then list_all (\<lambda>c. eval_condition J c data) cs
           else if op = ''or'' then list_ex (\<lambda>c. eval_condition J c data) cs
           else if op = ''not'' \<and> 2 \<le> length (c0 # cs) then
             (case cs of [] \<Rightarrow> False | c # _ \<Rightarrow> \<not> eval_condition J c data)
           else False))"
| "eval_condition J c data = False"

fun execute_trigger_expr :: "pd_env \<Rightarrow> jsonc \<Rightarrow> json \<Rightarrow> json \<Rightarrow> pd_world \<Rightarrow> pd_world" where
  "execute_trigger_expr env J (JArray (e0 # es)) data w =
     (if is_array e0 then fold (\<lambda>e. execute_trigger_expr env J e data) (e0 # es) w
      else case jc_string J e0 of
             None \<Rightarrow> w
           | Some op \<Rightarrow>
               (if op = ''run_script'' then execute_argv_slice env J (JArray (e0 # es)) 1 w
                else if op = ''if'' then
                  (case es of
                     cond # act # _ \<Rightarrow>
                       if eval_condition J cond data then execute_trigger_expr env J act data w else w
                   | _ \<Rightarrow> w)
                else w))"
| "execute_trigger_expr env J e data w = w"

definition inspect_trigger :: "pd_env \<Rightarrow> jsonc \<Rightarrow> string \<Rightarrow> json \<Rightarrow> json \<Rightarrow> pd_world \<Rightarrow> pd_world" where
  "inspect_trigger env J etype data tr w =
     (if \<not> is_array tr \<or> length (elems tr) < 2 then w
      else case jc_string J (array_get_idx tr 0) of
             None \<Rightarrow> w
           | Some pat \<Rightarrow>
               if \<not> e_fnmatch env pat etype then w
               else execute_trigger_expr env J (array_get_idx tr 1) data w)"

text \<open>One registered service: its triggers in order.\<close>

definition event_service :: "pd_env \<Rightarrow> jsonc \<Rightarrow> string \<Rightarrow> json \<Rightarrow> string \<Rightarrow> pd_world \<Rightarrow> pd_world" where
  "event_service env J etype data d w =
     (if \<not> json_entry d then w
      else case object_get_ex (read_json_file env J (registry_file d) w) ''triggers'' of
             None \<Rightarrow> w
           | Some ts \<Rightarrow> fold (inspect_trigger env J etype data) (elems ts) w)"

definition cmd_event :: "pd_env \<Rightarrow> jsonc \<Rightarrow> string \<Rightarrow> pd_world \<Rightarrow> int \<times> pd_world" where
  "cmd_event env J stdin w =
     (let ev = jc_parse J (cstr stdin) in
      if ev = JNull then (1, w)
      else case jstr ev ''type'' of
             None \<Rightarrow> (1, w)
           | Some etype \<Rightarrow>
               (let data = (case object_get_ex ev ''data'' of
                              Some d \<Rightarrow> if is_object d then d else JNull | None \<Rightarrow> JNull) in
                case e_readdir env w of
                  None \<Rightarrow> (0, w)
                | Some ds \<Rightarrow> (0, fold (event_service env J etype data) ds w)))"

subsection \<open>Entry point\<close>

text \<open>Exit status of \<open>neon-procd\<close>; a dereference of NULL ends it by a signal (\<open>None\<close>).\<close>

definition exit_of :: "pd_abort + int \<Rightarrow> int option" where
  "exit_of r = (case r of Inr rc \<Rightarrow> Some rc | Inl (Die m) \<Rightarrow> Some 1 | Inl NullDeref \<Rightarrow> None)"

definition pd_main :: "pd_env \<Rightarrow> jsonc \<Rightarrow> string \<Rightarrow> string list \<Rightarrow> pd_world \<Rightarrow> int option \<times> pd_world" where
  "pd_main env J stdin args w =
     (case args of
        [] \<Rightarrow> (Some 2, w)
      | verb # rest \<Rightarrow>
          (let inst = (case rest of _ # i # _ \<Rightarrow> Some i | _ \<Rightarrow> None) in
           if verb = ''set'' then map_prod exit_of id (cmd_set env J stdin w)
           else if verb = ''list-json'' then map_prod Some id (cmd_list_json env J stdin w)
           else if verb = ''delete-json'' then map_prod Some id (cmd_delete_json env J stdin w)
           else if verb = ''signal-json'' then map_prod Some id (cmd_signal_json env J stdin w)
           else if verb = ''event'' then map_prod Some id (cmd_event env J stdin w)
           else if verb = ''delete'' \<and> rest \<noteq> [] then map_prod Some id (cmd_delete env (hd rest) inst w)
           else if verb = ''running'' \<and> rest \<noteq> [] then map_prod Some id (cmd_running env (hd rest) inst w)
           else if verb = ''status'' \<and> rest \<noteq> [] then map_prod Some id (cmd_status env (hd rest) inst w)
           else (Some 2, w)))"

section \<open>Properties\<close>

subsection \<open>Argument vectors\<close>

text \<open>A step that appends \<open>xs\<close> if the vector of 512 entries, with its final NULL, has the room.\<close>

definition appends :: "argv_step \<Rightarrow> string list \<Rightarrow> bool" where
  "appends s xs \<longleftrightarrow> (\<forall>argv. length argv < MAX_ARGS \<longrightarrow>
     s argv = (if length argv + length xs < MAX_ARGS then Inr (argv @ xs) else Inl (Die ''too many arguments'')))"

named_theorems appends_intros "how the steps of an argument vector append"

lemma appends_add_arg [appends_intros]: "appends (add_arg (Some x)) [x]"
  by (auto simp: appends_def add_arg_def)

lemma appends_add_kv [appends_intros]: "appends (add_kv opt key v) [opt, key @ ''='' @ fmt_s v]"
  by (auto simp: appends_def add_kv_def add_arg_def)

lemma appends_add_prop [appends_intros]: "appends (add_prop key v) [''--property'', key @ ''='' @ fmt_s v]"
  unfolding add_prop_def by (rule appends_add_kv)

lemma run_steps_append: "run_steps (ss @ ts) argv = (case run_steps ss argv of Inl e \<Rightarrow> Inl e | Inr a \<Rightarrow> run_steps ts a)"
  by (induction ss arbitrary: argv) (auto split: sum.splits)

lemma appends_Nil [appends_intros]: "appends (run_steps []) []"
  by (simp add: appends_def)

lemma appends_append [appends_intros]:
  assumes "appends (run_steps ss) xs" and "appends (run_steps ts) ys"
  shows "appends (run_steps (ss @ ts)) (xs @ ys)"
  unfolding appends_def
proof (intro allI impI)
  fix argv :: "string list"
  assume a: "length argv < MAX_ARGS"
  show "run_steps (ss @ ts) argv = (if length argv + length (xs @ ys) < MAX_ARGS
      then Inr (argv @ xs @ ys) else Inl (Die ''too many arguments''))"
  proof (cases "length argv + length xs < MAX_ARGS")
    case True
    then have "run_steps ss argv = Inr (argv @ xs)" using assms(1) a by (simp add: appends_def)
    moreover have "run_steps ts (argv @ xs) = (if length (argv @ xs) + length ys < MAX_ARGS
        then Inr ((argv @ xs) @ ys) else Inl (Die ''too many arguments''))"
      using assms(2) True unfolding appends_def by (metis length_append)
    ultimately show ?thesis by (simp add: run_steps_append add.assoc)
  next
    case False
    then show ?thesis using assms(1) a by (simp add: appends_def run_steps_append)
  qed
qed

lemma appends_single: "appends s xs \<Longrightarrow> appends (run_steps [s]) xs"
  by (auto simp: appends_def)

lemma appends_Cons [appends_intros]: "appends s xs \<Longrightarrow> appends (run_steps ss) ys \<Longrightarrow> appends (run_steps (s # ss)) (xs @ ys)"
  using appends_append [OF appends_single] by fastforce

text \<open>A step that appends one option and its value, the value of the form \<open>key=value\<close>.\<close>

definition option_pair :: "string \<times> string \<Rightarrow> bool" where
  "option_pair p \<longleftrightarrow> (fst p = ''--property'' \<or> fst p = ''--setenv'') \<and> CHR ''='' \<in> set (snd p)"

definition flat_pairs :: "(string \<times> string) list \<Rightarrow> string list" where
  "flat_pairs ps = concat (map (\<lambda>(opt, v). [opt, v]) ps)"

definition pair_step :: "argv_step \<Rightarrow> bool" where
  "pair_step s \<longleftrightarrow> (\<exists>p. option_pair p \<and> appends s [fst p, snd p])"

lemma pair_step_kv: "opt = ''--property'' \<or> opt = ''--setenv'' \<Longrightarrow> pair_step (add_kv opt key v)"
  unfolding pair_step_def
  by (rule exI [of _ "(opt, key @ ''='' @ fmt_s v)"]) (use appends_add_kv [of opt key v] in \<open>simp add: option_pair_def\<close>)

lemma pair_step_prop [simp]: "pair_step (add_prop key v)"
  by (simp add: add_prop_def pair_step_kv)

lemma pair_steps_appends:
  "list_all pair_step ss \<Longrightarrow> \<exists>ps. list_all option_pair ps \<and> appends (run_steps ss) (flat_pairs ps)"
proof (induction ss)
  case Nil
  then show ?case by (intro exI [of _ "[]"]) (simp add: appends_def flat_pairs_def)
next
  case (Cons s ss)
  then obtain p ps where p: "option_pair p" "appends s [fst p, snd p]" "list_all option_pair ps"
    "appends (run_steps ss) (flat_pairs ps)" by (auto simp: pair_step_def)
  have "appends (run_steps (s # ss)) (flat_pairs (p # ps))"
    using appends_Cons [OF p(2,4)] by (simp add: flat_pairs_def split_beta)
  moreover have "list_all option_pair (p # ps)" using p by simp
  ultimately show ?case by blast
qed

lemma instance_option_steps:
  "list_all pair_step (respawn_steps J inst)" "list_all pair_step (opt_prop key v)"
  "list_all pair_step (nice_steps J inst)" "list_all pair_step (limit_steps J l)"
  "list_all pair_step (map (\<lambda>(k, v). add_kv ''--setenv'' k (jc_string J v)) kvs)"
  by (auto simp: respawn_steps_def opt_prop_def nice_steps_def limit_steps_def list_all_iff pair_step_kv
      split: option.splits)

lemma env_steps_appends:
  "\<exists>ps. list_all option_pair ps \<and> (\<exists>v. (''--setenv'', ''PATH='' @ v) \<in> set ps) \<and>
     appends (run_steps (env_steps J inst)) (flat_pairs ps)"
proof -
  let ?kvs = "env_entries inst"
  let ?f = "\<lambda>(k, v). (''--setenv'', k @ ''='' @ fmt_s (jc_string J v))"
  have kvs: "appends (run_steps (map (\<lambda>(k, v). add_kv ''--setenv'' k (jc_string J v)) kvs)) (flat_pairs (map ?f kvs))" for kvs
  proof (induction kvs)
    case Nil
    show ?case using appends_Nil by (simp only: list.map flat_pairs_def concat.simps)
  next
    case (Cons kv kvs)
    obtain k v where kv: "kv = (k, v)" by fastforce
    show ?case using appends_Cons [OF appends_add_kv Cons.IH] by (simp only: kv list.map prod.case flat_pairs_def concat.simps)
  qed
  have f_ok: "list_all option_pair (map ?f ?kvs)" by (auto simp: list_all_iff option_pair_def)
  show ?thesis
  proof (cases "list_ex (\<lambda>(k, v). k = ''PATH'') ?kvs")
    case True
    then obtain v where "(''PATH'', v) \<in> set ?kvs" by (auto simp: list_ex_iff)
    then have "?f (''PATH'', v) \<in> set (map ?f ?kvs)" by (auto intro: rev_image_eqI)
    then have "(''--setenv'', ''PATH='' @ fmt_s (jc_string J v)) \<in> set (map ?f ?kvs)" by simp
    moreover have "env_steps J inst = map (\<lambda>(k, v). add_kv ''--setenv'' k (jc_string J v)) ?kvs"
      using True by (simp add: env_steps_def)
    ultimately show ?thesis using f_ok kvs [of ?kvs] by metis
  next
    case False
    let ?p = "(''--setenv'', ''PATH='' @ ''/usr/sbin:/usr/bin:/sbin:/bin'')"
    let ?tail = "[add_arg (Some ''--setenv''), add_arg (Some ''PATH=/usr/sbin:/usr/bin:/sbin:/bin'')]"
    have "appends (run_steps ?tail) ([''--setenv''] @ [''PATH=/usr/sbin:/usr/bin:/sbin:/bin''] @ [])"
      by (intro appends_intros)
    then have "appends (run_steps ?tail) (flat_pairs [?p])"
      by (simp only: flat_pairs_def list.map prod.case concat.simps append.simps)
    from appends_append [OF kvs [of ?kvs] this]
    have "appends (run_steps (env_steps J inst)) (flat_pairs (map ?f ?kvs @ [?p]))"
      using False by (simp only: env_steps_def if_False flat_pairs_def map_append concat_append)
    moreover have "list_all option_pair (map ?f ?kvs @ [?p])" using f_ok by (simp add: option_pair_def)
    moreover have "?p \<in> set (map ?f ?kvs @ [?p])" by simp
    ultimately show ?thesis by blast
  qed
qed

lemma instance_steps_appends:
  "\<exists>ps. list_all option_pair ps \<and> (\<exists>v. (''--setenv'', ''PATH='' @ v) \<in> set ps) \<and>
     appends (run_steps (instance_steps J service un inst))
       ([''systemd-run'', ''--unit'', un, ''--collect'', ''--service-type=simple''] @ flat_pairs ps @ [''--''])"
proof -
  let ?pre = "[add_arg (Some ''systemd-run''), add_arg (Some ''--unit''), add_arg (Some un),
      add_arg (Some ''--collect''), add_arg (Some ''--service-type=simple'')]"
  let ?mid = "add_prop ''Description'' (Some service) # respawn_steps J inst @
     opt_prop ''User'' (jstr inst ''user'') @ opt_prop ''Group'' (jstr inst ''group'') @
     nice_steps J inst @
     (if jbool J inst ''no_new_privs'' then [add_prop ''NoNewPrivileges'' (Some ''yes'')] else []) @
     [add_prop ''StandardOutput'' (Some ''journal''), add_prop ''StandardError'' (Some ''journal'')] @
     (case object_get_ex inst ''limits'' of None \<Rightarrow> [] | Some l \<Rightarrow> limit_steps J l)"
  have steps: "instance_steps J service un inst = ?pre @ ?mid @ env_steps J inst @ [add_arg (Some ''--'')]"
    by (simp add: instance_steps_def)
  have "list_all pair_step ?mid"
    using instance_option_steps by (auto split: option.splits)
  then obtain ps where ps: "list_all option_pair ps" "appends (run_steps ?mid) (flat_pairs ps)"
    using pair_steps_appends by blast
  obtain qs where qs: "list_all option_pair qs" "\<exists>v. (''--setenv'', ''PATH='' @ v) \<in> set qs"
    "appends (run_steps (env_steps J inst)) (flat_pairs qs)"
    using env_steps_appends by blast
  have "appends (run_steps ?pre) ([''systemd-run''] @ [''--unit''] @ [un] @ [''--collect''] @ [''--service-type=simple''] @ [])"
    and "appends (run_steps [add_arg (Some ''--'')]) ([''--''] @ [])"
    by (intro appends_intros)+
  from appends_append [OF this(1) appends_append [OF ps(2) appends_append [OF qs(3) this(2)]]]
  have "appends (run_steps (instance_steps J service un inst))
     ([''systemd-run'', ''--unit'', un, ''--collect'', ''--service-type=simple''] @ flat_pairs (ps @ qs) @ [''--''])"
    by (simp only: steps flat_pairs_def map_append concat_append append_assoc append.simps)
  moreover have "list_all option_pair (ps @ qs)" using ps qs by simp
  moreover have "\<exists>v. (''--setenv'', ''PATH='' @ v) \<in> set (ps @ qs)" using qs by auto
  ultimately show ?thesis by blast
qed

lemma command_steps_appends:
  "map (jc_string J) cs = map Some xs \<Longrightarrow> appends (run_steps (map (\<lambda>c. add_arg (jc_string J c)) cs)) xs"
proof (induction cs arbitrary: xs)
  case Nil
  then have "xs = []" by simp
  then show ?case using appends_Nil by (simp only: list.map)
next
  case (Cons c cs)
  then obtain x ys where x: "xs = x # ys" "jc_string J c = Some x" "map (jc_string J) cs = map Some ys"
    by (cases xs) auto
  show ?case
    using appends_Cons [OF appends_add_arg [of x] Cons.IH [OF x(3)]] by (simp only: x list.map append.simps)
qed

lemma command_steps_null:
  "None \<in> jc_string J ` set cs \<Longrightarrow> \<exists>e. run_steps (map (\<lambda>c. add_arg (jc_string J c)) cs) argv = Inl e"
proof (induction cs arbitrary: argv)
  case (Cons c cs)
  then show ?case by (cases "jc_string J c") (auto simp: add_arg_def split: sum.splits)
qed simp

lemma instance_command_line:
  assumes "run_steps (instance_steps J service un inst @ map (\<lambda>c. add_arg (jc_string J c)) cs) [] = Inr argv"
  shows "\<exists>ps xs. map (jc_string J) cs = map Some xs \<and> list_all option_pair ps \<and>
    (\<exists>v. (''--setenv'', ''PATH='' @ v) \<in> set ps) \<and> length argv < MAX_ARGS \<and>
    argv = [''systemd-run'', ''--unit'', un, ''--collect'', ''--service-type=simple''] @ flat_pairs ps @ [''--''] @ xs"
proof -
  obtain ps where ps: "list_all option_pair ps" "\<exists>v. (''--setenv'', ''PATH='' @ v) \<in> set ps"
    "appends (run_steps (instance_steps J service un inst))
       ([''systemd-run'', ''--unit'', un, ''--collect'', ''--service-type=simple''] @ flat_pairs ps @ [''--''])"
    using instance_steps_appends by blast
  have "None \<notin> jc_string J ` set cs"
  proof
    assume "None \<in> jc_string J ` set cs"
    from command_steps_null [OF this] assms show False
      by (auto simp: run_steps_append split: sum.splits) (metis Inl_Inr_False)
  qed
  then obtain xs where xs: "map (jc_string J) cs = map Some xs" by (auto simp: all_Some_iff)
  from appends_append [OF ps(3) command_steps_appends [OF xs]] assms
  have "length argv < MAX_ARGS \<and>
    argv = ([''systemd-run'', ''--unit'', un, ''--collect'', ''--service-type=simple''] @ flat_pairs ps @ [''--'']) @ xs"
    unfolding appends_def by (drule_tac x = "[]" in spec) (auto split: if_splits)
  with ps xs show ?thesis by auto
qed

text \<open>
  C7. The command line of a started instance. If starting an instance with a command returns, three
  children ran: the unit of that instance was stopped, its failure state reset, and systemd-run was
  called. Before the \<open>--\<close> separator that call has only fixed words, the unit name and
  \<open>--property\<close>/\<open>--setenv\<close> options with their \<open>key=value\<close> argument, among them a PATH;
  after it comes exactly the command of the service definition, so no text of the definition can
  act as an option of systemd-run. The vector stays within its 512 entries.
\<close>

theorem start_instance_command_line:
  assumes "start_instance env J service iname inst w = (Inr rc, w')" and "command_of inst \<noteq> []"
  shows "\<exists>ps xs argv. map (jc_string J) (command_of inst) = map Some xs \<and> list_all option_pair ps \<and>
    (\<exists>v. (''--setenv'', ''PATH='' @ v) \<in> set ps) \<and> length argv < MAX_ARGS \<and>
    argv = [''systemd-run'', ''--unit'', unit_name service iname 320, ''--collect'', ''--service-type=simple''] @
      flat_pairs ps @ [''--''] @ xs \<and>
    w_runs w' = w_runs w @ [([''systemctl'', ''stop'', unit_name service iname 320], True),
      ([''systemctl'', ''reset-failed'', unit_name service iname 320], True), (argv, False)]"
proof -
  let ?un = "unit_name service iname 320"
  obtain argv where argv: "run_steps (instance_steps J service ?un inst @ map (\<lambda>c. add_arg (jc_string J c)) (command_of inst)) [] = Inr argv"
    and runs: "w_runs w' = w_runs w @ [([''systemctl'', ''stop'', ?un], True),
      ([''systemctl'', ''reset-failed'', ?un], True), (argv, False)]"
    using assms by (auto simp: start_instance_def systemctl_unit_def runv_def Let_def split_beta split: sum.splits)
  from instance_command_line [OF argv] runs show ?thesis by blast
qed

text \<open>
  When starting an instance ends the process. The process ends (and the instance, already
  stopped, is not started again) if the command has a null element; otherwise only if the argument
  vector has no room, and then by \<open>die\<close> and not by an overrun.
\<close>

theorem start_instance_abort:
  assumes "command_of inst \<noteq> []"
  shows "\<exists>w'. if None \<in> jc_string J ` set (command_of inst)
    then \<exists>e. start_instance env J service iname inst w = (Inl e, w')
    else (\<exists>rc. start_instance env J service iname inst w = (Inr rc, w')) \<or>
      start_instance env J service iname inst w = (Inl (Die ''too many arguments''), w')"
proof -
  let ?un = "unit_name service iname 320"
  let ?cmd = "map (\<lambda>c. add_arg (jc_string J c)) (command_of inst)"
  let ?steps = "instance_steps J service ?un inst @ ?cmd"
  have ok: "run_steps ?steps [] = Inr argv \<Longrightarrow> \<exists>rc w'. start_instance env J service iname inst w = (Inr rc, w')"
    and bad: "run_steps ?steps [] = Inl e \<Longrightarrow> \<exists>w'. start_instance env J service iname inst w = (Inl e, w')" for argv e
    using assms by (simp_all add: start_instance_def Let_def split_beta)
  show ?thesis
  proof (cases "None \<in> jc_string J ` set (command_of inst)")
    case True
    then have "\<exists>e. run_steps ?cmd argv = Inl e" for argv by (rule command_steps_null)
    then have "\<exists>e. run_steps ?steps [] = Inl e"
      by (simp only: run_steps_append) (auto split: sum.splits)
    with bad True show ?thesis by (simp only: if_True) blast
  next
    case False
    then obtain ys where "map (jc_string J) (command_of inst) = map Some ys" by (auto simp: all_Some_iff)
    from command_steps_appends [OF this] instance_steps_appends [of J service ?un inst]
    obtain xs where "appends (run_steps ?steps) xs" using appends_append by blast
    then have "run_steps ?steps [] = Inr xs \<or> run_steps ?steps [] = Inl (Die ''too many arguments'')"
      unfolding appends_def by (drule_tac x = "[]" in spec) (auto split: if_splits)
    with ok bad False show ?thesis by (simp only: if_False) blast
  qed
qed

subsection \<open>Unit names\<close>

definition unit_char :: "char \<Rightarrow> bool" where
  "unit_char c \<longleftrightarrow> isalnum c \<or> c = CHR ''_'' \<or> c = CHR ''-'' \<or> c = CHR ''.''"

text \<open>A name that \<open>sanitize\<close> keeps as it is.\<close>

definition plain_name :: "string \<Rightarrow> bool" where
  "plain_name s \<longleftrightarrow> s \<noteq> [] \<and> length s < 128 \<and> list_all unit_char s"

lemma sanitize_char_unit [simp]: "unit_char (sanitize_char c)"
  by (auto simp: unit_char_def sanitize_char_def)

lemma sanitize_chars: "list_all unit_char (sanitize inp n)"
  by (auto simp: sanitize_def list_all_iff dest!: in_set_takeD)

lemma length_sanitize [buf_bounds]: "0 < n \<Longrightarrow> length (sanitize inp n) < n"
  by (auto simp: sanitize_def)

lemma sanitize_plain [simp]: "plain_name s \<Longrightarrow> sanitize s 128 = s"
  by (auto simp: plain_name_def sanitize_def sanitize_char_def unit_char_def list_all_iff intro!: map_idI)

lemma sanitize_nonempty: "1 < n \<Longrightarrow> sanitize inp n \<noteq> []"
  by (auto simp: sanitize_def)

lemma sanitize_plain_name: "plain_name (sanitize inp 128)"
  using sanitize_chars [of inp 128] length_sanitize [of 128 inp] sanitize_nonempty [of 128 inp]
  by (simp add: plain_name_def)

lemma unit_name_eq: "unit_name service inst 320 = UNIT_PREFIX @ sanitize service 128 @ ''-'' @ sanitize inst 128 @ ''.service''"
proof -
  have "length (sanitize service 128) < 128" "length (sanitize inst 128) < 128" by (simp_all add: length_sanitize)
  then show ?thesis by (simp add: unit_name_def UNIT_PREFIX_def)
qed

lemma unit_pattern_eq: "256 \<le> n \<Longrightarrow> unit_pattern service n = UNIT_PREFIX @ sanitize service 128 @ ''-*.service''"
proof -
  assume n: "256 \<le> n"
  have "length (sanitize service 128) < 128" by (simp add: length_sanitize)
  with n show ?thesis by (simp add: unit_pattern_def UNIT_PREFIX_def)
qed

lemma unit_char_consts:
  "list_all unit_char UNIT_PREFIX" "list_all unit_char ''.service''" "unit_char (CHR ''-'')"
  by code_simp+

text \<open>
  Unit names identify instances of services without a dash. The name of a unit is never cut by
  its buffer and has only characters that are valid in unit names; two plain services without a dash
  in their name, or two plain instances of one, never share a unit.
\<close>

theorem unit_name_identifies:
  "unit_name service inst 320 = UNIT_PREFIX @ sanitize service 128 @ ''-'' @ sanitize inst 128 @ ''.service'' \<and>
   list_all unit_char (unit_name service inst 320) \<and>
   (plain_name s1 \<and> plain_name s2 \<and> plain_name i1 \<and> plain_name i2 \<and>
    CHR ''-'' \<notin> set s1 \<and> CHR ''-'' \<notin> set s2 \<and> unit_name s1 i1 320 = unit_name s2 i2 320 \<longrightarrow>
    s1 = s2 \<and> i1 = i2)"
proof (intro conjI impI)
  show "unit_name service inst 320 = UNIT_PREFIX @ sanitize service 128 @ ''-'' @ sanitize inst 128 @ ''.service''"
    by (rule unit_name_eq)
  show "list_all unit_char (unit_name service inst 320)"
    using unit_char_consts by (simp add: unit_name_eq sanitize_chars)
next
  assume a: "plain_name s1 \<and> plain_name s2 \<and> plain_name i1 \<and> plain_name i2 \<and>
    CHR ''-'' \<notin> set s1 \<and> CHR ''-'' \<notin> set s2 \<and> unit_name s1 i1 320 = unit_name s2 i2 320"
  then have eq: "s1 @ CHR ''-'' # i1 = s2 @ CHR ''-'' # i2" by (auto simp: unit_name_eq)
  have "takeWhile (\<lambda>c. c \<noteq> CHR ''-'') (s @ CHR ''-'' # i) = s" if "CHR ''-'' \<notin> set s" for s i :: string
    using that by (induction s) auto
  with a eq show "s1 = s2" by metis
  with eq show "i1 = i2" by simp
qed

text \<open>What \<open>fnmatch\<close> documents for patterns whose only special character is one asterisk.\<close>

definition literal :: "string \<Rightarrow> bool" where
  "literal p \<longleftrightarrow> list_all (\<lambda>c. c \<notin> {CHR ''*'', CHR ''?'', CHR ''['', CHR 0x5C}) p"

definition fnmatch_doc :: "(string \<Rightarrow> string \<Rightarrow> bool) \<Rightarrow> bool" where
  "fnmatch_doc fm \<longleftrightarrow> (\<forall>p s. literal p \<longrightarrow> fm p s = (s = p)) \<and>
     (\<forall>p q s. literal p \<and> literal q \<longrightarrow> fm (p @ ''*'' @ q) s = (\<exists>m. s = p @ m @ q))"

lemma literal_units: "list_all unit_char s \<Longrightarrow> literal s"
proof -
  have "\<not> unit_char (CHR ''*'')" "\<not> unit_char (CHR ''?'')" "\<not> unit_char (CHR ''['')" "\<not> unit_char (CHR 0x5C)"
    by code_simp+
  then show "list_all unit_char s \<Longrightarrow> literal s" unfolding literal_def list_all_iff by blast
qed

lemma fnmatch_star:
  "fnmatch_doc fm \<Longrightarrow> literal p \<Longrightarrow> literal q \<Longrightarrow> fm (p @ ''*'' @ q) s = (\<exists>m. s = p @ m @ q)"
  unfolding fnmatch_doc_def by (elim conjE) simp

lemma pattern_matches:
  assumes "fnmatch_doc fm" and "256 \<le> n"
  shows "fm (unit_pattern service n) u \<longleftrightarrow> (\<exists>m. u = UNIT_PREFIX @ sanitize service 128 @ ''-'' @ m @ ''.service'')"
proof -
  let ?p = "UNIT_PREFIX @ sanitize service 128 @ ''-''"
  have "list_all unit_char ?p" using sanitize_chars [of service 128] unit_char_consts by simp
  then have p: "literal ?p" by (rule literal_units)
  have q: "literal ''.service''" using unit_char_consts(2) by (rule literal_units)
  have "unit_pattern service n = ?p @ ''*'' @ ''.service''" using assms(2) by (simp add: unit_pattern_eq)
  then show ?thesis using fnmatch_star [OF assms(1) p q, of u] by simp
qed

text \<open>
  C12. Whom a delete without instance reaches. The pattern that \<open>delete\<close>, \<open>running\<close>, \<open>status\<close> and
  \<open>signal\<close> pass to systemctl matches the unit of every instance of the service; but it also matches
  the units of every other service whose name extends this one by a dash, so deleting \<open>adblock\<close>
  stops \<open>adblock-fast\<close> as well.
\<close>

theorem delete_pattern_reach:
  assumes "fnmatch_doc fm" and "plain_name s" and "plain_name t" and "plain_name (s @ ''-'' @ t)"
  shows "fm (unit_pattern s 256) (unit_name s inst 320) \<and>
    fm (unit_pattern s 256) (unit_name (s @ ''-'' @ t) inst 320) \<and> s @ ''-'' @ t \<noteq> s"
proof -
  have "fm (unit_pattern s 256) (unit_name s inst 320)"
    using assms by (simp add: pattern_matches unit_name_eq)
  moreover have "unit_name (s @ ''-'' @ t) inst 320 = UNIT_PREFIX @ sanitize s 128 @ ''-'' @ (t @ ''-'' @ sanitize inst 128) @ ''.service''"
    using assms by (simp add: unit_name_eq)
  then have "fm (unit_pattern s 256) (unit_name (s @ ''-'' @ t) inst 320)"
    unfolding pattern_matches [OF assms(1) order_refl] by blast
  ultimately show ?thesis by simp
qed

text \<open>
  Colliding units. The service \<open>s-t\<close> with instance \<open>i\<close> and the service \<open>s\<close> with instance
  \<open>t-i\<close> are the same systemd unit, so starting one stops and replaces the other.
\<close>

theorem unit_name_collision:
  assumes "plain_name s" and "plain_name i" and "plain_name (s @ ''-'' @ t)" and "plain_name (t @ ''-'' @ i)"
  shows "unit_name (s @ ''-'' @ t) i 320 = unit_name s (t @ ''-'' @ i) 320"
  using assms sanitize_plain [OF assms(3)] sanitize_plain [OF assms(4)] by (simp add: unit_name_eq)

subsection \<open>Trigger conditions\<close>

text \<open>
  The conditions that procd.sh writes, with their meaning over the data of an event. The evaluator is
  correct if it computes that meaning on the JSON text of a condition.
\<close>

datatype cond =
    CEq string string
  | CNe string string
  | CAnd "cond list"
  | COr "cond list"
  | CNot cond

fun cond_json :: "cond \<Rightarrow> json" where
  "cond_json (CEq k v) = JArray [JString ''eq'', JString k, JString v]"
| "cond_json (CNe k v) = JArray [JString ''ne'', JString k, JString v]"
| "cond_json (CAnd cs) = JArray (JString ''and'' # map cond_json cs)"
| "cond_json (COr cs) = JArray (JString ''or'' # map cond_json cs)"
| "cond_json (CNot c) = JArray [JString ''not'', cond_json c]"

fun cond_holds :: "(string \<Rightarrow> string option) \<Rightarrow> cond \<Rightarrow> bool" where
  "cond_holds data (CEq k v) = (data k = Some v)"
| "cond_holds data (CNe k v) = (data k \<noteq> Some v)"
| "cond_holds data (CAnd cs) = list_all (cond_holds data) cs"
| "cond_holds data (COr cs) = list_ex (cond_holds data) cs"
| "cond_holds data (CNot c) = (\<not> cond_holds data c)"

definition data_map :: "jsonc \<Rightarrow> json \<Rightarrow> string \<Rightarrow> string option" where
  "data_map J data k = event_data_value J data (Some k)"

lemma eval_condition_holds:
  assumes "jsonc_doc J"
  shows "eval_condition J (cond_json c) data = cond_holds (data_map J data) c"
  by (induction c)
    (auto simp: jsonc_docD [OF assms] data_map_def list_all_iff list_ex_iff Let_def)

text \<open>
  A trigger as procd.sh registers it: with a condition (interface, config and data triggers) or
  without (raw triggers), and with or without a delay as last element.
\<close>

record trigger =
  tg_pattern :: string
  tg_cond :: "cond option"
  tg_argv :: "string list"
  tg_delay :: "int option"

definition trigger_body :: "trigger \<Rightarrow> json" where
  "trigger_body t = (let run = JArray (JString ''run_script'' # map JString (tg_argv t)) in
     case tg_cond t of None \<Rightarrow> JArray [run] | Some c \<Rightarrow> JArray [JString ''if'', cond_json c, run])"

definition trigger_json :: "trigger \<Rightarrow> json" where
  "trigger_json t = JArray ([JString (tg_pattern t), trigger_body t] @
     (case tg_delay t of None \<Rightarrow> [] | Some n \<Rightarrow> [JInt n]))"

definition trigger_ok :: "trigger \<Rightarrow> bool" where
  "trigger_ok t \<longleftrightarrow> tg_argv t \<noteq> [] \<and> length (tg_argv t) < MAX_ARGS"

definition fires :: "pd_env \<Rightarrow> jsonc \<Rightarrow> string \<Rightarrow> json \<Rightarrow> trigger \<Rightarrow> bool" where
  "fires env J etype data t \<longleftrightarrow> e_fnmatch env (tg_pattern t) etype \<and>
     (case tg_cond t of None \<Rightarrow> True | Some c \<Rightarrow> cond_holds (data_map J data) c)"

lemma run_script_argv:
  assumes "jsonc_doc J" and "argv \<noteq> []" and "length argv < MAX_ARGS"
  shows "execute_trigger_expr env J (JArray (JString ''run_script'' # map JString argv)) data w =
    snd (runv env argv False w)"
proof -
  have "map (\<lambda>v. fmt_s (jc_string J v)) (map JString argv) = argv"
    by (simp add: jsonc_docD [OF assms(1)] fmt_s_def comp_def)
  with assms show ?thesis
    by (auto simp: execute_argv_slice_def list_ex_iff comp_def jsonc_docD)
qed

lemma trigger_body_runs:
  assumes "jsonc_doc J" and "trigger_ok t"
  shows "execute_trigger_expr env J (trigger_body t) data w =
    (if (case tg_cond t of None \<Rightarrow> True | Some c \<Rightarrow> cond_holds (data_map J data) c)
     then snd (runv env (tg_argv t) False w) else w)"
  using assms run_script_argv [OF assms(1), of "tg_argv t" env data w]
  by (cases "tg_cond t")
    (simp_all add: trigger_body_def Let_def trigger_ok_def jsonc_docD eval_condition_holds
      del: execute_trigger_expr.simps add: execute_trigger_expr.simps(1) [of env J "JString ''if''"]
        execute_trigger_expr.simps(1) [of env J "JArray _" "[]"])

lemma inspect_trigger_json:
  assumes "jsonc_doc J" and "trigger_ok t"
  shows "inspect_trigger env J etype data (trigger_json t) w =
    (if fires env J etype data t then snd (runv env (tg_argv t) False w) else w)"
  using assms
  by (simp add: inspect_trigger_def trigger_json_def array_get_idx_def jsonc_docD fires_def
      trigger_body_runs)

text \<open>
  C10. The condition evaluator is correct: on the JSON form of a condition it computes the meaning of
  that condition over the data of the event, for equality, inequality, conjunction, disjunction and
  negation nested to any depth.
\<close>

theorem eval_condition_correct:
  assumes "jsonc_doc J"
  shows "eval_condition J (cond_json c) data = cond_holds (data_map J data) c"
  using assms by (rule eval_condition_holds)

text \<open>Children that leave the registry alone.\<close>

definition passive_children :: "pd_env \<Rightarrow> bool" where
  "passive_children env \<longleftrightarrow> (\<forall>w argv q. snd (e_run env w argv q) = w_files w)"

lemma runv_passive:
  "passive_children env \<Longrightarrow> snd (runv env argv q w) = w\<lparr>w_runs := w_runs w @ [(argv, q)]\<rparr>"
  by (simp add: runv_def passive_children_def split_beta)

lemma fold_triggers:
  assumes "jsonc_doc J" and "passive_children env" and "list_all trigger_ok ts"
  shows "fold (inspect_trigger env J etype data) (map trigger_json ts) w =
    w\<lparr>w_runs := w_runs w @ map (\<lambda>t. (tg_argv t, False)) (filter (fires env J etype data) ts)\<rparr>"
  using assms(3)
  by (induction ts arbitrary: w) (simp_all add: inspect_trigger_json [OF assms(1)] runv_passive [OF assms(2)])

text \<open>The registry files hold services whose triggers are \<open>trigs d\<close> for the file \<open>d\<close>.\<close>

definition registered :: "pd_env \<Rightarrow> jsonc \<Rightarrow> (string \<Rightarrow> string option) \<Rightarrow> (string \<Rightarrow> trigger list) \<Rightarrow> string list \<Rightarrow> bool" where
  "registered env J files trigs ds \<longleftrightarrow>
     (\<forall>d \<in> set ds. json_entry d \<longrightarrow> list_all trigger_ok (trigs d) \<and>
        (\<forall>w. w_files w = files \<longrightarrow>
           object_get_ex (read_json_file env J (registry_file d) w) ''triggers'' =
             Some (JArray (map trigger_json (trigs d)))))"

lemma fold_services:
  assumes "jsonc_doc J" and "passive_children env"
  shows "registered env J (w_files w) trigs ds \<Longrightarrow> fold (event_service env J etype data) ds w =
    w\<lparr>w_runs := w_runs w @ concat (map (\<lambda>d. map (\<lambda>t. (tg_argv t, False)) (filter (fires env J etype data) (trigs d)))
        (filter json_entry ds))\<rparr>"
proof (induction ds arbitrary: w)
  case (Cons d ds)
  let ?w = "event_service env J etype data d w"
  let ?new = "map (\<lambda>t. (tg_argv t, False)) (filter (fires env J etype data) (trigs d))"
  have w: "?w = (if json_entry d then w\<lparr>w_runs := w_runs w @ ?new\<rparr> else w)"
    using Cons.prems by (simp add: event_service_def registered_def fold_triggers [OF assms])
  then have "registered env J (w_files ?w) trigs ds" using Cons.prems by (simp add: registered_def)
  from Cons.IH [OF this] show ?case by (simp add: w)
qed simp

lemma cmd_event_runs:
  assumes "jsonc_doc J" and "passive_children env"
    and "jc_parse J (cstr stdin) = ev" and "jstr ev ''type'' = Some etype"
    and "object_get_ex ev ''data'' = Some data" and "is_object data"
    and "e_readdir env w = Some ds" and "registered env J (w_files w) trigs ds"
  shows "cmd_event env J stdin w = (0, w\<lparr>w_runs := w_runs w @
    concat (map (\<lambda>d. map (\<lambda>t. (tg_argv t, False)) (filter (fires env J etype data) (trigs d)))
      (filter json_entry ds))\<rparr>)"
proof -
  have "ev \<noteq> JNull" using assms(4) by (auto simp: jstr_def object_get_ex_def)
  with assms fold_services [OF assms(1,2,8)] show ?thesis by (simp add: cmd_event_def)
qed

text \<open>
  C8. Event dispatch. When an event arrives and the registered services hold triggers in the form
  that procd.sh writes, exactly the scripts of the triggers whose pattern and condition match are run,
  in the order of the registry files and of the triggers in each.
\<close>

theorem cmd_event_dispatch:
  assumes "jsonc_doc J" and "passive_children env"
    and "jc_parse J (cstr stdin) = ev" and "jstr ev ''type'' = Some etype"
    and "object_get_ex ev ''data'' = Some data" and "is_object data"
    and "e_readdir env w = Some ds" and "registered env J (w_files w) trigs ds"
  shows "cmd_event env J stdin w = (0, w\<lparr>w_runs := w_runs w @
    concat (map (\<lambda>d. map (\<lambda>t. (tg_argv t, False)) (filter (fires env J etype data) (trigs d)))
      (filter json_entry ds))\<rparr>)"
  using assms by (rule cmd_event_runs)

subsection \<open>Resource limits\<close>

definition limit_word :: "string \<Rightarrow> bool" where
  "limit_word a \<longleftrightarrow> a \<noteq> [] \<and> length a < 100 \<and> list_all (\<lambda>c. \<not> isspace c \<and> c \<noteq> CHR '':'') a"

definition limit_text :: "string \<Rightarrow> string" where
  "limit_text a = (if strcaseeq a ''unlimited'' \<or> strcaseeq a ''infinity'' then ''infinity'' else a)"

lemma limit_wordD:
  assumes "limit_word a"
  shows "a \<noteq> []" "length a < 100" "\<And>c. c \<in> set a \<Longrightarrow> \<not> isspace c" "\<And>c. c \<in> set a \<Longrightarrow> \<not> is_limit_sep c"
    "\<And>c. c \<in> set a \<Longrightarrow> \<not> (isspace c \<or> c = CHR '':'')"
  using assms by (auto simp: limit_word_def list_all_iff is_limit_sep_def isspace_def)

lemma normalize_limit_token_word: "limit_word a \<Longrightarrow> 100 \<le> n \<Longrightarrow> normalize_limit_token a n = limit_text a"
  by (auto simp: normalize_limit_token_def limit_text_def limit_word_def)

lemma dropWhile_free: "(\<And>c. c \<in> set s \<Longrightarrow> \<not> P c) \<Longrightarrow> dropWhile P s = s"
  by (cases s) auto

lemma rtrim_free: "s = [] \<or> \<not> isspace (last s) \<Longrightarrow> rtrim s = s"
  by (cases s rule: rev_cases) (auto simp: rtrim_def)

text \<open>
  Resource limits. A procd limit, one word or two separated by a blank or a colon, becomes the
  systemd value with the two parts joined by a colon; \<open>unlimited\<close> in any case becomes
  \<open>infinity\<close>.
\<close>

theorem normalize_limit_value_spec:
  assumes "limit_word a" and "limit_word b" and "is_limit_sep c"
  shows "normalize_limit_value (Some a) 256 = limit_text a \<and>
    normalize_limit_value (Some (a @ [c] @ b)) 256 = limit_text a @ '':'' @ limit_text b"
proof
  note a = limit_wordD [OF assms(1)] and b = limit_wordD [OF assms(2)]
  have lead: "dropWhile isspace a = a" "dropWhile isspace (a @ c # b) = a @ c # b"
    using a(1,3) by (cases a; simp)+
  have trail: "rtrim a = a" "rtrim (a @ c # b) = a @ c # b" "rtrim b = b"
    using a(1,3) b(1,3) by (intro rtrim_free; simp)+
  show "normalize_limit_value (Some a) 256 = limit_text a"
    using a assms(1) by (simp add: normalize_limit_value_def Let_def lead trail list_all_iff
        normalize_limit_token_word)
  have hard: "dropWhile (\<lambda>c. isspace c \<or> c = CHR '':'') b = b" using b(5) by (rule dropWhile_free)
  have split: "takeWhile (\<lambda>c. \<not> is_limit_sep c) (a @ c # b) = a"
    "dropWhile (\<lambda>c. \<not> is_limit_sep c) (a @ c # b) = c # b"
    using a(4) assms(3) by (simp_all add: takeWhile_append dropWhile_append)
  have "length (limit_text a) < 100" "length (limit_text b) < 100"
    using a(2) b(2) by (auto simp: limit_text_def)
  then show "normalize_limit_value (Some (a @ [c] @ b)) 256 = limit_text a @ '':'' @ limit_text b"
    using a b assms
    by (simp add: normalize_limit_value_def Let_def lead trail split hard normalize_limit_token_word)
qed

subsection \<open>The registry\<close>

lemma registry_path_eq: "registry_path service = REGISTRY_DIR @ ''/'' @ sanitize service 128 @ ''.json''"
proof -
  have "length (sanitize service 128) < 128" by (simp add: length_sanitize)
  then show ?thesis by (simp add: registry_path_def REGISTRY_DIR_def)
qed

lemma registry_tmp_eq: "snprintf_s 400 (registry_path service @ ''.tmp'') = registry_path service @ ''.tmp''"
proof -
  have "length (sanitize service 128) < 128" by (simp add: length_sanitize)
  then show ?thesis by (simp add: registry_path_eq REGISTRY_DIR_def)
qed

text \<open>What a stream has been given and has not dropped is in the file or pending.\<close>

definition stream_holds :: "string \<Rightarrow> (string \<Rightarrow> string option) \<Rightarrow> string \<Rightarrow> stream \<Rightarrow> bool" where
  "stream_holds path files text f \<longleftrightarrow>
     (\<exists>t. w_files (fst f) = files(path \<mapsto> t) \<and> t @ snd f = text)"

definition stream_at :: "string \<Rightarrow> (string \<Rightarrow> string option) \<Rightarrow> stream \<Rightarrow> bool" where
  "stream_at path files f \<longleftrightarrow> (\<exists>t. w_files (fst f) = files(path \<mapsto> t))"

lemma stream_put_at:
  assumes "stream_at path files f"
  shows "stream_at path files (snd (stream_put env path text f))"
  using assms by (auto simp: stream_at_def stream_put_def append_file_def split_beta Let_def)

lemma stream_put_holds:
  assumes "stream_holds path files text f" "fst (stream_put env path text2 f)"
  shows "stream_holds path files (text @ text2) (snd (stream_put env path text2 f))"
proof -
  obtain t where t: "w_files (fst f) = files(path \<mapsto> t)" "text = t @ snd f" using assms(1) by (auto simp: stream_holds_def)
  define dat where "dat = snd f @ text2"
  define n where "n = fst (e_write env (fst f) dat)"
  have put: "snd (stream_put env path text2 f) = (append_file path (take n dat) (fst f), drop n dat)"
    using assms(2) by (simp add: stream_put_def split_beta Let_def n_def dat_def)
  have "w_files (append_file path (take n dat) (fst f)) = files(path \<mapsto> t @ take n dat)"
    by (simp add: append_file_def t(1))
  moreover have "(t @ take n dat) @ drop n dat = text @ text2" by (simp add: t(2) dat_def del: take_append drop_append)
  ultimately show ?thesis unfolding stream_holds_def put fst_conv snd_conv by (intro exI conjI)
qed

lemma stream_close_at:
  assumes "stream_at path files f"
  shows "\<exists>t. w_files (snd (stream_close env path f)) = files(path \<mapsto> t)"
  using assms by (auto simp: stream_at_def stream_close_def append_file_def split_beta Let_def)

lemma stream_close_holds:
  assumes "stream_holds path files text f" "fst (stream_close env path f)"
  shows "w_files (snd (stream_close env path f)) = files(path \<mapsto> text)"
  using assms by (auto simp: stream_holds_def stream_close_def append_file_def split_beta Let_def)

text \<open>Neither \<open>fputs\<close> nor \<open>fputc\<close> loses anything; the code does not look at their results.\<close>

definition registry_puts_ok :: "pd_env \<Rightarrow> jsonc \<Rightarrow> string \<Rightarrow> json \<Rightarrow> pd_world \<Rightarrow> bool" where
  "registry_puts_ok env J service root w \<longleftrightarrow>
     (let tmp = registry_path service @ ''.tmp'';
          (ok1, f) = stream_put env tmp (jc_pretty J root) (w\<lparr>w_files := (w_files w)(tmp \<mapsto> [])\<rparr>, [])
      in ok1 \<and> fst (stream_put env tmp [newline] f))"

lemma save_registry_steps:
  fixes env J service root w
  defines "tmp \<equiv> registry_path service @ ''.tmp''"
  shows "\<exists>c t. save_registry env J service root w =
       (if \<not> e_fopen_w env w tmp then (-1, w) else if \<not> fst c then (-1, snd c) else if \<not> e_rename env (snd c) then (-1, snd c)
        else (0, (snd c)\<lparr>w_files := (w_files (snd c))(registry_path service := w_files (snd c) tmp, tmp := None)\<rparr>)) \<and>
     w_files (snd c) = (w_files w)(tmp \<mapsto> t) \<and>
     (registry_puts_ok env J service root w \<and> fst c \<longrightarrow> t = jc_pretty J root @ [newline])"
proof -
  define f0 where "f0 = (w\<lparr>w_files := (w_files w)(tmp \<mapsto> [])\<rparr>, [] :: string)"
  define f1 where "f1 = stream_put env tmp (jc_pretty J root) f0"
  define f2 where "f2 = stream_put env tmp [newline] (snd f1)"
  define c where "c = stream_close env tmp (snd f2)"
  have save: "save_registry env J service root w =
     (if \<not> e_fopen_w env w tmp then (-1, w) else if \<not> fst c then (-1, snd c) else if \<not> e_rename env (snd c) then (-1, snd c)
      else (0, (snd c)\<lparr>w_files := (w_files (snd c))(registry_path service := w_files (snd c) tmp, tmp := None)\<rparr>))"
    by (simp add: save_registry_def registry_tmp_eq Let_def split_beta c_def f2_def f1_def f0_def tmp_def)
  have "stream_at tmp (w_files w) (snd f2)"
    unfolding f2_def f1_def by (intro stream_put_at) (auto simp: stream_at_def f0_def)
  then obtain t where t: "w_files (snd c) = (w_files w)(tmp \<mapsto> t)"
    unfolding c_def using stream_close_at by blast
  have full: "t = jc_pretty J root @ [newline]" if "registry_puts_ok env J service root w \<and> fst c"
  proof -
    have f: "fst f1" "fst f2" using that by (auto simp: registry_puts_ok_def Let_def split_beta f2_def f1_def f0_def tmp_def)
    have "stream_holds tmp (w_files w) [] f0" by (simp add: stream_holds_def f0_def)
    then have "stream_holds tmp (w_files w) ([] @ jc_pretty J root) (snd f1)"
      using f(1) unfolding f1_def by (rule stream_put_holds)
    then have "stream_holds tmp (w_files w) (([] @ jc_pretty J root) @ [newline]) (snd f2)"
      using f(2) unfolding f2_def by (rule stream_put_holds)
    then have "w_files (snd c) = (w_files w)(tmp \<mapsto> ([] @ jc_pretty J root) @ [newline])"
      using conjunct2 [OF that] unfolding c_def by (rule stream_close_holds)
    then have "((w_files w)(tmp \<mapsto> t)) tmp = ((w_files w)(tmp \<mapsto> ([] @ jc_pretty J root) @ [newline])) tmp" by (simp only: t)
    then show ?thesis by simp
  qed
  show ?thesis using save t full by blast
qed

lemma save_registry_zero:
  assumes "save_registry env J service root w = (0, w')"
  shows "\<exists>t. w_files w' = (w_files w)(registry_path service \<mapsto> t, registry_path service @ ''.tmp'' := None) \<and>
     (registry_puts_ok env J service root w \<longrightarrow> t = jc_pretty J root @ [newline])"
proof -
  obtain c t where s: "save_registry env J service root w =
       (if \<not> e_fopen_w env w (registry_path service @ ''.tmp'') then (-1, w) else if \<not> fst c then (-1, snd c)
        else if \<not> e_rename env (snd c) then (-1, snd c)
        else (0, (snd c)\<lparr>w_files := (w_files (snd c))(registry_path service := w_files (snd c) (registry_path service @ ''.tmp''),
           registry_path service @ ''.tmp'' := None)\<rparr>))"
    "w_files (snd c) = (w_files w)(registry_path service @ ''.tmp'' \<mapsto> t)"
    "registry_puts_ok env J service root w \<and> fst c \<longrightarrow> t = jc_pretty J root @ [newline]"
    using save_registry_steps [of env J service root w] by blast
  have "fst c" "w_files w' = (w_files (snd c))(registry_path service := w_files (snd c) (registry_path service @ ''.tmp''),
           registry_path service @ ''.tmp'' := None)"
    using assms s(1) by (auto split: if_splits)
  then show ?thesis using s(2,3) by (intro exI [of _ t]) auto
qed

lemma save_registry_nonzero:
  assumes "save_registry env J service root w = (rc, w')" "rc \<noteq> 0" "p \<noteq> registry_path service @ ''.tmp''"
  shows "w_files w' p = w_files w p"
  using save_registry_steps [of env J service root w] assms by (auto split: if_splits)

text \<open>
  C11. The registry file is replaced by a file written and closed without an error, or stays as it was: unless
  \<open>fputs\<close> or \<open>fputc\<close> lose bytes (whose results the code ignores, \<open>save_registry_lost_write\<close>), a result of 0
  means that it holds the printed definition to the last byte and the temporary file is gone, however the bytes
  were spread over the writes; and on any other result, also when bytes are lost, closing fails or the renaming
  does, all files but the temporary one are as before.
\<close>

theorem save_registry_atomic:
  "case save_registry env J service root w of (rc, w') \<Rightarrow>
     if rc = 0
     then \<exists>text. w_files w' = (w_files w)(registry_path service \<mapsto> text, registry_path service @ ''.tmp'' := None) \<and>
            (registry_puts_ok env J service root w \<longrightarrow> text = jc_pretty J root @ [newline])
     else \<forall>p. p \<noteq> registry_path service @ ''.tmp'' \<longrightarrow> w_files w' p = w_files w p"
proof -
  obtain rc w' where rw: "save_registry env J service root w = (rc, w')" by fastforce
  then show ?thesis using save_registry_zero [of env J service root w w'] save_registry_nonzero [OF rw] by (cases "rc = 0") simp_all
qed

lemma start_instance_files:
  "passive_children env \<Longrightarrow> w_files (snd (start_instance env J service iname inst w)) = w_files w"
  by (auto simp: start_instance_def systemctl_unit_def runv_passive Let_def split_beta split: sum.splits)

lemma start_instances_files:
  "passive_children env \<Longrightarrow> w_files (snd (start_instances env J service insts rc w)) = w_files w"
proof (induction insts arbitrary: rc w)
  case (Cons x insts)
  obtain iname inst where x: "x = (iname, inst)" by fastforce
  have files: "w_files (snd (start_instance env J service iname inst w)) = w_files w"
    using Cons.prems by (rule start_instance_files)
  show ?case
  proof (cases "start_instance env J service iname inst w")
    case (Pair r w')
    then show ?thesis using files Cons by (cases r) (auto simp: x)
  qed
qed simp

lemma update_new: "k \<notin> fst ` set al \<Longrightarrow> AList.update k v al = al @ [(k, v)]"
  by (induction al) auto

definition running_flag :: "bool \<Rightarrow> json" where
  "running_flag b = JObject [(''running'', JBool b)]"

lemma list_instances_spec:
  assumes "passive_children env" and "distinct (map fst insts)" and "fst ` set io \<inter> fst ` set insts = {}"
  shows "\<exists>bs. length bs = length insts \<and>
    fst (list_instances env svc insts (JObject io) w) = JObject (io @ zip (map fst insts) (map running_flag bs))"
  using assms(2,3)
proof (induction insts arbitrary: io w)
  case (Cons x insts)
  obtain iname inst where x: "x = (iname, inst)" by fastforce
  obtain act w' where act: "active_unit env svc iname w = (act, w')" by fastforce
  let ?io = "io @ [(iname, running_flag act)]"
  have add: "object_add (JObject io) iname (object_add (JObject []) ''running'' (JBool act)) = JObject ?io"
    using Cons.prems by (auto simp: x object_add_def update_new running_flag_def)
  have "distinct (map fst insts)" "fst ` set ?io \<inter> fst ` set insts = {}"
    using Cons.prems by (auto simp: x)
  from Cons.IH [OF this, of w'] obtain bs where bs: "length bs = length insts"
    "fst (list_instances env svc insts (JObject ?io) w') = JObject (?io @ zip (map fst insts) (map running_flag bs))"
    by blast
  then show ?case by (intro exI [of _ "act # bs"]) (simp add: x act add)
qed simp

text \<open>
  C9. A set service is listed. After \<open>set\<close> has stored a definition, listing its registry file gives
  one service object with the name of the definition and one running flag for each of its instances,
  in their order. The hypotheses on json-c are that it reads back what it printed.
\<close>

theorem set_then_list:
  assumes "passive_children env" and "\<forall>w p. e_fopen_r env w p \<and> e_fopen_w env w p"
    and "\<forall>w. (\<forall>dat. snd (e_write env w dat)) \<and> e_fclose env w \<and> e_rename env w"
    and "jc_parse J (cstr stdin) = root" and "jc_parse J (cstr (jc_pretty J root @ [newline])) = root"
    and "jstr root ''name'' = Some svc" and "object_get_ex root ''instances'' = Some (JObject insts)"
    and "distinct (map fst insts)"
  shows "\<exists>bs. length bs = length insts \<and>
    fst (list_services env J None [sanitize svc 128 @ ''.json''] (JObject []) (snd (cmd_set env J stdin w))) =
      JObject [(svc, JObject [(''instances'', JObject (zip (map fst insts) (map running_flag bs)))])]"
proof -
  let ?w = "snd (cmd_set env J stdin w)"
  let ?d = "sanitize svc 128 @ ''.json''"
  have root: "root \<noteq> JNull" using assms(6) by (auto simp: jstr_def object_get_ex_def)
  have fname: "registry_file ?d = registry_path svc"
  proof -
    have "length (sanitize svc 128) < 128" by (simp add: length_sanitize)
    then show ?thesis by (simp add: registry_file_def registry_path_eq REGISTRY_DIR_def)
  qed
  have "w_files (snd (save_registry env J svc root w)) (registry_path svc) = Some (jc_pretty J root @ [newline])"
  proof -
    have ok: "fst (save_registry env J svc root w) = 0" "registry_puts_ok env J svc root w"
      using assms(2,3) by (simp_all add: save_registry_def registry_puts_ok_def stream_put_def stream_close_def Let_def split_beta)
    then obtain w' where "save_registry env J svc root w = (0, w')" by (cases "save_registry env J svc root w") simp
    then show ?thesis using save_registry_zero ok(2) by fastforce
  qed
  then have "w_files ?w (registry_path svc) = Some (jc_pretty J root @ [newline])"
    using assms(1,4,6,7) root by (simp add: cmd_set_def Let_def start_instances_files)
  then have read: "read_json_file env J (registry_file ?d) ?w = root"
    using assms(2,5) by (simp add: read_json_file_def fname)
  have entry: "json_entry ?d"
    using sanitize_nonempty [of 128 svc] by (cases "sanitize svc 128") (auto simp: json_entry_def)
  obtain bs where "length bs = length insts"
    "fst (list_instances env svc insts (JObject []) ?w) = JObject ([] @ zip (map fst insts) (map running_flag bs))"
    using list_instances_spec [OF assms(1,8), of "[]" svc ?w] by auto
  then show ?thesis using assms(6,7) entry read
    by (intro exI [of _ bs]) (simp add: split_beta object_add_def)
qed

subsection \<open>A concrete system\<close>

text \<open>
  A pattern matcher that knows the asterisk, a json-c that knows two texts, and a system where every
  child succeeds: the theorems with hypotheses are applied to them.
\<close>

fun glob :: "string \<Rightarrow> string \<Rightarrow> bool" where
  "glob [] s = (s = [])"
| "glob (c # p) s =
     (if c = CHR ''*'' then list_ex (glob p) (suffixes s) else s \<noteq> [] \<and> hd s = c \<and> glob p (tl s))"

lemma glob_literal: "literal p \<Longrightarrow> glob p s = (s = p)"
proof (induction p arbitrary: s)
  case (Cons c p)
  then show ?case by (cases s) (auto simp: literal_def)
qed simp

lemma glob_star: "literal p \<Longrightarrow> literal q \<Longrightarrow> glob (p @ ''*'' @ q) s = (\<exists>m. s = p @ m @ q)"
proof (induction p arbitrary: s)
  case Nil
  then show ?case by (auto simp: list_ex_iff glob_literal suffix_def)
next
  case (Cons c p)
  then show ?case by (cases s) (auto simp: literal_def)
qed

lemma glob_doc: "fnmatch_doc glob"
  by (auto simp: fnmatch_doc_def glob_literal glob_star [simplified])

definition demo_trigger :: trigger where
  "demo_trigger = \<lparr>tg_pattern = ''config.change'', tg_cond = Some (CEq ''package'' ''firewall''),
     tg_argv = [''/etc/init.d/firewall'', ''reload''], tg_delay = None\<rparr>"

definition demo_instance :: json where
  "demo_instance = JObject [(''command'', JArray [JString ''/sbin/fw'', JString ''-f''])]"

definition demo_service :: json where
  "demo_service = JObject [(''name'', JString ''firewall''),
     (''instances'', JObject [(''instance1'', demo_instance)]),
     (''triggers'', JArray [trigger_json demo_trigger])]"

definition demo_event_data :: json where
  "demo_event_data = JObject [(''package'', JString ''firewall'')]"

definition demo_jsonc :: jsonc where
  "demo_jsonc =
     \<lparr>jc_parse = (\<lambda>s. if s = ''EV'' then JObject [(''type'', JString ''config.change''), (''data'', demo_event_data)]
                    else demo_service),
      jc_string = (\<lambda>v. case v of JNull \<Rightarrow> None | JString s \<Rightarrow> Some s | _ \<Rightarrow> Some ''{}''),
      jc_boolean = (\<lambda>v. False), jc_int = (\<lambda>v. 0), jc_print = (\<lambda>v. ''{}''), jc_pretty = (\<lambda>v. ''SVC'')\<rparr>"

lemma demo_jsonc_doc: "jsonc_doc demo_jsonc"
  by (simp add: jsonc_doc_def demo_jsonc_def)

definition demo_env :: pd_env where
  "demo_env =
     \<lparr>e_run = (\<lambda>w argv q. (RExited 0, w_files w)), e_fopen_r = (\<lambda>w p. True), e_fopen_w = (\<lambda>w p. True),
      e_write = (\<lambda>w dat. (length dat div 2, True)), e_fclose = (\<lambda>w. True), e_rename = (\<lambda>w. True), e_unlink = (\<lambda>w. True),
      e_readdir = (\<lambda>w. Some [''.'', ''..'', ''firewall.json'']), e_fnmatch = glob\<rparr>"

lemma demo_passive: "passive_children demo_env"
  by (simp add: passive_children_def demo_env_def)

definition demo_world :: pd_world where
  "demo_world = \<lparr>w_files = [''/run/neon-procd/services/firewall.json'' \<mapsto> ''SVC''], w_runs = [], w_out = []\<rparr>"

lemma demo_start: "start_instance demo_env demo_jsonc ''firewall'' ''instance1'' demo_instance demo_world =
    (Inr 0, snd (start_instance demo_env demo_jsonc ''firewall'' ''instance1'' demo_instance demo_world))"
proof -
  have "fst (start_instance demo_env demo_jsonc ''firewall'' ''instance1'' demo_instance demo_world) = Inr 0"
    by code_simp
  then show ?thesis by (metis prod.collapse)
qed

theorem start_instance_command_line_witness:
  "\<exists>ps xs argv. map (jc_string demo_jsonc) (command_of demo_instance) = map Some xs \<and> list_all option_pair ps \<and>
    (\<exists>v. (''--setenv'', ''PATH='' @ v) \<in> set ps) \<and> length argv < MAX_ARGS \<and>
    argv = [''systemd-run'', ''--unit'', unit_name ''firewall'' ''instance1'' 320, ''--collect'', ''--service-type=simple''] @
      flat_pairs ps @ [''--''] @ xs \<and>
    w_runs (snd (start_instance demo_env demo_jsonc ''firewall'' ''instance1'' demo_instance demo_world)) =
      w_runs demo_world @ [([''systemctl'', ''stop'', unit_name ''firewall'' ''instance1'' 320], True),
      ([''systemctl'', ''reset-failed'', unit_name ''firewall'' ''instance1'' 320], True), (argv, False)]"
  by (rule start_instance_command_line [OF demo_start]) code_simp

theorem start_instance_abort_witness:
  "\<exists>w'. if None \<in> jc_string demo_jsonc ` set (command_of demo_instance)
    then \<exists>e. start_instance demo_env demo_jsonc ''firewall'' ''instance1'' demo_instance demo_world = (Inl e, w')
    else (\<exists>rc. start_instance demo_env demo_jsonc ''firewall'' ''instance1'' demo_instance demo_world = (Inr rc, w')) \<or>
      start_instance demo_env demo_jsonc ''firewall'' ''instance1'' demo_instance demo_world =
        (Inl (Die ''too many arguments''), w')"
  by (rule start_instance_abort) code_simp

theorem unit_name_identifies_witness:
  "unit_name ''dnsmasq'' ''main'' 320 \<noteq> unit_name ''dropbear'' ''main'' 320"
proof -
  have "plain_name ''dnsmasq''" "plain_name ''dropbear''" "plain_name ''main''" by code_simp+
  then show ?thesis
    using unit_name_identifies [of "''dnsmasq''" "''main''" "''dnsmasq''" "''dropbear''" "''main''" "''main''"] by auto
qed

theorem delete_pattern_reach_witness:
  "glob (unit_pattern ''adblock'' 256) (unit_name ''adblock'' ''instance1'' 320) \<and>
   glob (unit_pattern ''adblock'' 256) (unit_name (''adblock'' @ ''-'' @ ''fast'') ''instance1'' 320) \<and>
   ''adblock'' @ ''-'' @ ''fast'' \<noteq> ''adblock''"
  by (rule delete_pattern_reach [OF glob_doc]; code_simp)

theorem unit_name_collision_witness:
  "unit_name (''adblock'' @ ''-'' @ ''fast'') ''instance1'' 320 = unit_name ''adblock'' (''fast'' @ ''-'' @ ''instance1'') 320"
  by (rule unit_name_collision; code_simp)

theorem eval_condition_correct_witness:
  "eval_condition demo_jsonc (cond_json (CNot (CAnd [CEq ''package'' ''firewall'']))) demo_event_data =
     cond_holds (data_map demo_jsonc demo_event_data) (CNot (CAnd [CEq ''package'' ''firewall'']))"
  by (rule eval_condition_correct [OF demo_jsonc_doc])

lemma demo_registered:
  "registered demo_env demo_jsonc (w_files demo_world) (\<lambda>d. [demo_trigger]) [''.'', ''..'', ''firewall.json'']"
proof -
  have "cstr ''SVC'' = ''SVC''" "registry_file ''firewall.json'' = ''/run/neon-procd/services/firewall.json''" by code_simp+
  then show ?thesis
    by (simp add: registered_def json_entry_def read_json_file_def demo_env_def demo_world_def demo_jsonc_def
        demo_service_def object_get_ex_def trigger_ok_def demo_trigger_def)
qed

theorem cmd_event_dispatch_witness:
  "cmd_event demo_env demo_jsonc ''EV'' demo_world = (0, demo_world\<lparr>w_runs := w_runs demo_world @
    concat (map (\<lambda>d. map (\<lambda>t. (tg_argv t, False))
        (filter (fires demo_env demo_jsonc ''config.change'' demo_event_data) ((\<lambda>d. [demo_trigger]) d)))
      (filter json_entry [''.'', ''..'', ''firewall.json'']))\<rparr>)"
proof (rule cmd_event_dispatch [OF demo_jsonc_doc demo_passive])
  have "cstr ''EV'' = ''EV''" by code_simp
  then show "jc_parse demo_jsonc (cstr ''EV'') = JObject [(''type'', JString ''config.change''), (''data'', demo_event_data)]"
    by (simp add: demo_jsonc_def)
qed (simp_all add: demo_env_def jstr_def object_get_ex_def demo_event_data_def demo_registered [unfolded demo_env_def])

theorem normalize_limit_value_spec_witness:
  "normalize_limit_value (Some ''1024'') 256 = limit_text ''1024'' \<and>
   normalize_limit_value (Some (''1024'' @ [CHR '' ''] @ ''Unlimited'')) 256 = limit_text ''1024'' @ '':'' @ limit_text ''Unlimited''"
  by (rule normalize_limit_value_spec; code_simp)

theorem save_registry_atomic_witness:
  "w_files (snd (save_registry demo_env demo_jsonc ''firewall'' demo_service demo_world)) =
     (w_files demo_world)(registry_path ''firewall'' \<mapsto> jc_pretty demo_jsonc demo_service @ [newline],
                          registry_path ''firewall'' @ ''.tmp'' := None)"
proof -
  have "fst (save_registry demo_env demo_jsonc ''firewall'' demo_service demo_world) = 0"
    by (simp add: save_registry_def stream_put_def stream_close_def Let_def demo_env_def split_beta)
  moreover have "registry_puts_ok demo_env demo_jsonc ''firewall'' demo_service demo_world"
    by (simp add: registry_puts_ok_def stream_put_def Let_def demo_env_def)
  moreover note save_registry_atomic [where env = demo_env and J = demo_jsonc and service = "''firewall''" and root = demo_service and w = demo_world]
  ultimately show ?thesis by (auto simp: case_prod_unfold)
qed

text \<open>
  When \<open>fputs\<close> fails after part of the text and the disk has room again for the newline, the call succeeds and
  the registry file is replaced by the part.
\<close>

definition full_disk :: pd_env where
  "full_disk = demo_env\<lparr>e_write := (\<lambda>w dat. if 1 < length dat then (1, False) else (0, True))\<rparr>"

lemma save_registry_lost_write:
  assumes "jc_pretty J root = a # b # rest"
  shows "fst (save_registry full_disk J service root w) = 0 \<and>
    w_files (snd (save_registry full_disk J service root w)) (registry_path service) = Some [a, newline]"
  using assms
  by (simp add: save_registry_def registry_tmp_eq stream_put_def stream_close_def append_file_def full_disk_def demo_env_def Let_def)

theorem set_then_list_witness:
  "\<exists>bs. length bs = length [(''instance1'', demo_instance)] \<and>
    fst (list_services demo_env demo_jsonc None [sanitize ''firewall'' 128 @ ''.json''] (JObject [])
      (snd (cmd_set demo_env demo_jsonc ''{}'' demo_world))) =
    JObject [(''firewall'', JObject [(''instances'',
      JObject (zip (map fst [(''instance1'', demo_instance)]) (map running_flag bs)))])]"
proof (rule set_then_list [OF demo_passive])
  have "cstr ''{}'' = ''{}''" "cstr (''SVC'' @ [newline]) = ''SVC'' @ [newline]" by code_simp+
  then show "jc_parse demo_jsonc (cstr ''{}'') = demo_service"
    "jc_parse demo_jsonc (cstr (jc_pretty demo_jsonc demo_service @ [newline])) = demo_service"
    by (simp_all add: demo_jsonc_def)
qed (simp_all add: demo_env_def demo_service_def jstr_def object_get_ex_def)

end
