(* ===== verification/PipeIO.thy ===== *)
theory PipeIO
  imports CLib
begin

text \<open>
  Reading and writing pipes with \<open>read\<close> and \<open>write\<close>: the loop \<open>write_all\<close> of
  neon-procd-ubus.c and the growing-buffer read loop that \<open>read_stdin_all\<close> (neon-procd.c) and
  \<open>capture_neon\<close> (neon-procd-ubus.c) share.

  What the kernel does is a schedule: the outcome of each system call in turn. A call may move
  fewer bytes than asked (\<open>Got k\<close>), be interrupted (\<open>Intr\<close>, EINTR) or fail (\<open>Failed\<close>). A
  loop that is still waiting when its schedule ends has the value \<open>None\<close>; the theorems say which
  schedules are long enough. Sizes are natural numbers: a \<open>size_t\<close> does not overflow before
  memory is exhausted.
\<close>

datatype io_ev = Got nat | Intr | Failed

text \<open>The number of successful calls in a schedule.\<close>

definition progress :: "io_ev list \<Rightarrow> nat" where
  "progress evs = length (filter (\<lambda>e. case e of Got k \<Rightarrow> 0 < k | _ \<Rightarrow> False) evs)"

definition no_failure :: "io_ev list \<Rightarrow> bool" where
  "no_failure evs \<longleftrightarrow> list_all (\<lambda>e. e \<noteq> Failed \<and> e \<noteq> Got 0) evs"

subsection \<open>Operations\<close>

text \<open>
  \<open>write_all\<close>: the status, and the bytes that reached the pipe. \<open>Got k\<close> accepts at most \<open>k\<close>
  bytes, and \<open>write\<close> returns 0 for \<open>Got 0\<close>.
\<close>

fun write_all :: "io_ev list \<Rightarrow> string \<Rightarrow> string \<Rightarrow> (int \<times> string) option" where
  "write_all evs sent [] = Some (0, sent)"
| "write_all [] sent buf = None"
| "write_all (e # evs) sent buf =
     (case e of
        Intr \<Rightarrow> write_all evs sent buf
      | Failed \<Rightarrow> Some (-1, sent)
      | Got k \<Rightarrow> if k = 0 then Some (-1, sent) else write_all evs (sent @ take k buf) (drop k buf))"

text \<open>
  The read loop with a buffer of capacity \<open>cap\<close> that holds \<open>buf\<close>, \<open>pend\<close> being what is still
  to come before the end of the stream. \<open>ReadOk\<close> is the end of the stream, \<open>ReadErr\<close> an error
  of \<open>read\<close>; both return the capacity and the bytes. A call asks for \<open>cap - len - 1\<close> bytes and
  returns 0 when the stream is at its end or when it asks for no byte.
\<close>

datatype read_end = ReadOk nat string | ReadErr nat string

definition grow :: "nat \<Rightarrow> nat \<Rightarrow> nat" where
  "grow cap len = (if len + 2048 + 1 > cap then cap * 2 else cap)"

function read_loop :: "io_ev list \<Rightarrow> nat \<Rightarrow> string \<Rightarrow> string \<Rightarrow> read_end option" where
  "read_loop [] cap buf pend = None"
| "read_loop (e # evs) cap buf pend =
     (let cap' = grow cap (length buf); room = cap' - length buf - 1 in
      case e of
        Intr \<Rightarrow> read_loop evs cap' buf pend
      | Failed \<Rightarrow> Some (ReadErr cap' buf)
      | Got k \<Rightarrow>
          let n = min (max 1 k) (min room (length pend)) in
          if n = 0 then Some (ReadOk cap' buf)
          else read_loop evs cap' (buf @ take n pend) (drop n pend))"
  by pat_completeness auto
termination
  by (relation "measure (\<lambda>(evs, cap, buf, pend). length evs)") simp_all

definition read_all :: "io_ev list \<Rightarrow> string \<Rightarrow> read_end option" where
  "read_all evs pend = read_loop evs 4096 [] pend"

text \<open>\<open>read_stdin_all\<close> of neon-procd.c dies when \<open>read\<close> fails, and returns the buffer as a C string.\<close>

definition read_stdin_all :: "io_ev list \<Rightarrow> string \<Rightarrow> (string + string) option" where
  "read_stdin_all evs input =
     (case read_all evs input of
        None \<Rightarrow> None
      | Some (ReadErr cap buf) \<Rightarrow> Some (Inl ''failed to read stdin'')
      | Some (ReadOk cap buf) \<Rightarrow> Some (Inr (cstr buf)))"

subsection \<open>Lemmas\<close>

lemma progress_simps [simp]:
  "progress [] = 0"
  "progress (Intr # evs) = progress evs"
  "progress (Failed # evs) = progress evs"
  "progress (Got k # evs) = (if 0 < k then Suc (progress evs) else progress evs)"
  by (simp_all add: progress_def)

lemma no_failure_simps [simp]:
  "no_failure []"
  "no_failure (Intr # evs) = no_failure evs"
  "\<not> no_failure (Failed # evs)"
  "no_failure (Got k # evs) \<longleftrightarrow> 0 < k \<and> no_failure evs"
  by (simp_all add: no_failure_def)

text \<open>What \<open>write_all\<close> sent is always a prefix of the buffer, all of it exactly when it returns 0.\<close>

lemma write_all_sent:
  "write_all evs sent buf = Some (rc, out) \<Longrightarrow>
   \<exists>p. out = sent @ p \<and> (\<exists>q. buf = p @ q \<and> (rc = 0 \<longleftrightarrow> q = []) \<and> (rc = 0 \<or> rc = -1))"
proof (induction evs sent buf arbitrary: out rule: write_all.induct)
  case (3 e evs sent c buf)
  show ?case
  proof (cases e)
    case (Got k)
    show ?thesis
    proof (cases "k = 0")
      case False
      with "3.prems" Got have "write_all evs (sent @ take k (c # buf)) (drop k (c # buf)) = Some (rc, out)" by simp
      from "3.IH"(1) [OF Got False this] obtain p q where
        "out = (sent @ take k (c # buf)) @ p" "drop k (c # buf) = p @ q"
        "(rc = 0) = (q = [])" "rc = 0 \<or> rc = -1" by blast
      moreover from this(2) have "c # buf = (take k (c # buf) @ p) @ q"
        by (metis append_take_drop_id append_assoc)
      ultimately show ?thesis by (metis append_assoc)
    qed (use 3 Got in auto)
  qed (use 3 in auto)
qed auto

lemma write_all_total:
  "no_failure evs \<Longrightarrow> length buf \<le> progress evs \<Longrightarrow> write_all evs sent buf = Some (0, sent @ buf)"
proof (induction evs sent buf rule: write_all.induct)
  case (3 e evs sent c buf)
  show ?case
  proof (cases e)
    case (Got k)
    with 3 have "length (drop k (c # buf)) \<le> progress evs" by auto
    with 3 Got show ?thesis by (simp add: append_take_drop_id)
  qed (use 3 in auto)
qed auto

text \<open>The buffer never overflows: there is always room for 2048 bytes and the terminating NUL.\<close>

definition buf_ok :: "nat \<Rightarrow> string \<Rightarrow> bool" where
  "buf_ok cap buf \<longleftrightarrow> length buf < cap \<and> 4096 \<le> cap"

lemma grow_room: "buf_ok cap buf \<Longrightarrow> length buf + 2049 \<le> grow cap (length buf) \<and> buf_ok (grow cap (length buf)) buf"
  by (auto simp: buf_ok_def grow_def)

lemma grow_le: "grow cap len \<le> max cap (2 * (len + 2048))"
  by (auto simp: grow_def)

lemma read_loop_Got:
  "read_loop (Got k # evs) cap buf pend =
     (if min (max 1 k) (min (grow cap (length buf) - length buf - 1) (length pend)) = 0
      then Some (ReadOk (grow cap (length buf)) buf)
      else read_loop evs (grow cap (length buf))
             (buf @ take (min (max 1 k) (min (grow cap (length buf) - length buf - 1) (length pend))) pend)
             (drop (min (max 1 k) (min (grow cap (length buf) - length buf - 1) (length pend))) pend))"
  by (simp only: read_loop.simps Let_def io_ev.case)

lemma read_loop_end:
  "read_loop evs cap buf pend = Some r \<Longrightarrow> buf_ok cap buf \<Longrightarrow> cap \<le> 2 * (length buf + 2048) \<or> cap \<le> 4096 + 2 * length (buf @ pend) \<Longrightarrow>
   (case r of
      ReadOk cap' out \<Rightarrow> out = buf @ pend \<and> length out < cap' \<and> cap' \<le> 4096 + 2 * length (buf @ pend)
    | ReadErr cap' out \<Rightarrow> (\<exists>q. buf @ pend = out @ q) \<and> length out < cap' \<and> cap' \<le> 4096 + 2 * length (buf @ pend))"
proof (induction evs cap buf pend rule: read_loop.induct)
  case (2 e evs cap buf pend)
  let ?cap = "grow cap (length buf)"
  have room: "length buf + 2049 \<le> ?cap" "buf_ok ?cap buf" using 2(4) grow_room by auto
  have le: "?cap \<le> 4096 + 2 * length (buf @ pend)" using 2(5) grow_le [of cap "length buf"] by auto
  show ?case
  proof (cases e)
    case (Got k)
    define n where "n = min (max 1 k) (min (?cap - length buf - 1) (length pend))"
    have n0: "n = 0 \<longleftrightarrow> pend = []" using room by (auto simp: n_def min_def max_def split: if_splits)
    show ?thesis
    proof (cases "n = 0")
      case True
      with 2(3) Got have "r = ReadOk ?cap buf" by (simp add: Let_def n_def)
      with True n0 room le show ?thesis by (auto simp: buf_ok_def)
    next
      case False
      with 2(3) have eq: "read_loop evs ?cap (buf @ take n pend) (drop n pend) = Some r"
        by (simp only: Got read_loop_Got n_def [symmetric] if_False)
      have "buf_ok ?cap (buf @ take n pend)" using room by (auto simp: buf_ok_def n_def)
      note ih = 2(1) [OF refl refl Got refl False [unfolded n_def], folded n_def, OF eq this]
      have app: "(buf @ take n pend) @ drop n pend = buf @ pend" by simp
      show ?thesis by (rule ih [unfolded app], rule disjI2, rule le)
    qed
  next
    case Intr
    with 2(3) have "read_loop evs ?cap buf pend = Some r" by (simp add: Let_def)
    from 2(2) [OF refl refl Intr this room(2)] le show ?thesis by auto
  next
    case Failed
    with 2(3) have "r = ReadErr ?cap buf" by (simp add: Let_def)
    with room le show ?thesis by (auto simp: buf_ok_def)
  qed
qed auto

lemma read_loop_total:
  "no_failure evs \<Longrightarrow> length pend < progress evs \<Longrightarrow> buf_ok cap buf \<Longrightarrow> \<exists>cap' out. read_loop evs cap buf pend = Some (ReadOk cap' out)"
proof (induction evs cap buf pend rule: read_loop.induct)
  case (2 e evs cap buf pend)
  let ?cap = "grow cap (length buf)"
  have room: "length buf + 2049 \<le> ?cap" "buf_ok ?cap buf" using 2(5) grow_room by auto
  show ?case
  proof (cases e)
    case (Got k)
    define n where "n = min (max 1 k) (min (?cap - length buf - 1) (length pend))"
    show ?thesis
    proof (cases "n = 0")
      case True
      with Got show ?thesis by (simp add: Let_def n_def)
    next
      case False
      have "buf_ok ?cap (buf @ take n pend)" using room by (auto simp: buf_ok_def n_def)
      moreover have "length (drop n pend) < progress evs" proof -
        have "n \<le> length pend" by (simp add: n_def)
        with False 2(4) Got show ?thesis by (simp split: if_splits)
      qed
      ultimately have "\<exists>cap' out. read_loop evs ?cap (buf @ take n pend) (drop n pend) = Some (ReadOk cap' out)"
        using 2(1) [OF refl refl Got refl False [unfolded n_def], folded n_def] 2(3) Got by simp
      with False show ?thesis by (simp only: Got read_loop_Got n_def [symmetric] if_False)
    qed
  next
    case Intr
    with 2 room show ?thesis by (simp add: Let_def)
  qed (use 2 in auto)
qed simp

lemma read_all_complete:
  assumes "no_failure evs" "length pend < progress evs"
  shows "\<exists>cap. read_all evs pend = Some (ReadOk cap pend) \<and> length pend < cap \<and> cap \<le> 4096 + 2 * length pend"
proof -
  have ok: "buf_ok 4096 []" by (simp add: buf_ok_def)
  from read_loop_total [OF assms ok] obtain cap out where
    r: "read_loop evs 4096 [] pend = Some (ReadOk cap out)" by auto
  from read_loop_end [OF r ok] r show ?thesis by (auto simp: read_all_def)
qed

end
