(* ===== verification/NeonProcdUbus.thy ===== *)
theory NeonProcdUbus
  imports PipeIO
begin

text \<open>
  The daemon \<open>neon-procd-ubus\<close> (src/package/system/neon-procd/src/neon-procd-ubus.c): it offers
  the ubus objects \<open>service\<close> and \<open>system\<close>, feeds the requests of the first to \<open>neon-procd\<close>
  children through pipes, answers those of the second from system files, and turns ubus events into
  \<open>neon-procd event\<close> requests.

  The operating system of one request is the parameter \<open>proc_env\<close>: which of its calls succeed, the
  schedules of \<open>read\<close> and \<open>write\<close> (see \<open>PipeIO\<close>) and what the child does with its standard
  input, on a world of any type. libubus and blobmsg are parameters too; a blob buffer is the list of
  the attributes added to it. Messages on standard error are not recorded.
\<close>

subsection \<open>Readiness notification\<close>

abbreviation (input) SUN_PATH :: nat where "SUN_PATH \<equiv> 108"
abbreviation (input) SUN_OFFSET :: nat where "SUN_OFFSET \<equiv> 2"

record notify_os =
  n_path :: "string option"
  n_socket :: bool
  n_sends :: "io_ev list"

datatype notify_eff = NSocket | NClose | NSend string nat string

text \<open>The bytes of \<open>sun_path\<close>, zeroed by \<open>memset\<close> first, and \<open>salen\<close>; \<open>None\<close> is ENAMETOOLONG.\<close>

definition notify_addr :: "string \<Rightarrow> (string \<times> nat) option" where
  "notify_addr path =
     (if hd path = CHR ''@''
      then let n = length (tl path) in
           if n + 1 > SUN_PATH then None
           else Some (NUL # tl path @ replicate (SUN_PATH - 1 - n) NUL, SUN_OFFSET + 1 + n)
      else let n = length path in
           if n \<ge> SUN_PATH then None
           else Some (path @ replicate (SUN_PATH - n) NUL, SUN_OFFSET + n + 1))"

fun notify_send :: "io_ev list \<Rightarrow> int option" where
  "notify_send [] = None"
| "notify_send (Intr # evs) = notify_send evs"
| "notify_send (Failed # evs) = Some (-1)"
| "notify_send (Got k # evs) = Some 0"

definition systemd_notify :: "notify_os \<Rightarrow> string \<Rightarrow> (int \<times> notify_eff list) option" where
  "systemd_notify os message =
     (case n_path os of
        None \<Rightarrow> Some (0, [])
      | Some path \<Rightarrow>
          if path = [] then Some (0, [])
          else if hd path \<noteq> CHR ''/'' \<and> hd path \<noteq> CHR ''@'' then Some (-1, [])
          else if \<not> n_socket os then Some (-1, [])
          else case notify_addr path of
                 None \<Rightarrow> Some (-1, [NSocket, NClose])
               | Some (sun_path, salen) \<Rightarrow>
                   (case notify_send (n_sends os) of
                      None \<Rightarrow> None
                    | Some rc \<Rightarrow>
                        Some (rc, NSocket # (if rc = 0 then [NSend sun_path salen message] else []) @ [NClose])))"

subsection \<open>Children\<close>

datatype child_end = CExited nat | CSignaled nat

definition exit_ok :: "child_end \<Rightarrow> bool" where
  "exit_ok st \<longleftrightarrow> st = CExited 0"

record 'w proc_env =
  pe_pipe1 :: bool
  pe_pipe2 :: bool
  pe_fork :: bool
  pe_fork2 :: bool
  pe_malloc :: bool
  pe_waited :: bool
  pe_writes :: "io_ev list"
  pe_reads :: "io_ev list"
  pe_child :: "string \<Rightarrow> string \<Rightarrow> 'w \<Rightarrow> child_end \<times> string \<times> 'w"

text \<open>What a request does to the daemon's descriptors (pipe number, end) and children.\<close>

datatype pfd_eff = PipeMade nat | PClosed nat nat | PForked | PReaped

datatype ubus_status = STATUS_OK | STATUS_UNKNOWN_ERROR

text \<open>
  \<open>waitpid\<close> that fails for another reason than EINTR leaves \<open>st\<close> at 0. For a child of the caller that reason is
  ECHILD (the child is already gone, because SIGCHLD is ignored), so that \<open>PReaped\<close> also records such a call:
  no zombie is left.
\<close>

definition wait_status :: "bool \<Rightarrow> child_end \<Rightarrow> child_end" where
  "wait_status waited st = (if waited then st else CExited 0)"

definition feed_neon :: "'w proc_env \<Rightarrow> string \<Rightarrow> string \<Rightarrow> 'w \<Rightarrow> (ubus_status \<times> pfd_eff list \<times> 'w) option" where
  "feed_neon pe verb json w =
     (if \<not> pe_pipe1 pe then Some (STATUS_UNKNOWN_ERROR, [], w)
      else if \<not> pe_fork pe then Some (STATUS_UNKNOWN_ERROR, [PipeMade 0, PClosed 0 0, PClosed 0 1], w)
      else case write_all (pe_writes pe) [] json of
             None \<Rightarrow> None
           | Some (write_rc, sent) \<Rightarrow>
               let (st, out, w') = pe_child pe verb sent w;
                   st' = wait_status (pe_waited pe) st
               in Some (if write_rc < 0 then STATUS_UNKNOWN_ERROR
                        else if exit_ok st' then STATUS_OK else STATUS_UNKNOWN_ERROR,
                        [PipeMade 0, PForked, PClosed 0 0, PClosed 0 1, PReaped], w'))"

text \<open>
  The child of \<open>feed_neon_async\<close> forks the worker and exits: 127 when that fails, so that no
  worker runs.
\<close>

definition feed_neon_async :: "'w proc_env \<Rightarrow> string \<Rightarrow> string \<Rightarrow> 'w \<Rightarrow> (int \<times> pfd_eff list \<times> 'w) option" where
  "feed_neon_async pe verb json w =
     (if \<not> pe_pipe1 pe then Some (-1, [], w)
      else if \<not> pe_fork pe then Some (-1, [PipeMade 0, PClosed 0 0, PClosed 0 1], w)
      else case write_all (pe_writes pe) [] json of
             None \<Rightarrow> None
           | Some (write_rc, sent) \<Rightarrow>
               let st = (if pe_fork2 pe then CExited 0 else CExited 127);
                   w' = (if pe_fork2 pe then snd (snd (pe_child pe verb sent w)) else w);
                   rc = (if write_rc < 0 then -1 else 0);
                   rc' = (if \<not> exit_ok (wait_status (pe_waited pe) st) then -1 else rc)
               in Some (rc', [PipeMade 0, PForked, PClosed 0 0, PClosed 0 1, PReaped], w'))"

definition capture_neon :: "'w proc_env \<Rightarrow> string \<Rightarrow> string \<Rightarrow> 'w \<Rightarrow> (string option \<times> pfd_eff list \<times> 'w) option" where
  "capture_neon pe verb json w =
     (if \<not> pe_pipe1 pe then Some (None, [], w)
      else if \<not> pe_pipe2 pe then Some (None, [PipeMade 0, PClosed 0 0, PClosed 0 1], w)
      else if \<not> pe_fork pe then
        Some (None, [PipeMade 0, PipeMade 1, PClosed 0 0, PClosed 0 1, PClosed 1 0, PClosed 1 1], w)
      else case write_all (pe_writes pe) [] json of
             None \<Rightarrow> None
           | Some (write_rc, sent) \<Rightarrow>
               let (st, out, w') = pe_child pe verb sent w;
                   tr = [PipeMade 0, PipeMade 1, PForked, PClosed 0 0, PClosed 1 1, PClosed 0 1, PClosed 1 0]
               in if \<not> pe_malloc pe then Some (None, tr, w')
                  else case read_all (pe_reads pe) out of
                         None \<Rightarrow> None
                       | Some r \<Rightarrow>
                           let buf = (case r of ReadOk cap x \<Rightarrow> x | ReadErr cap x \<Rightarrow> x)
                           in Some (if write_rc < 0 \<or> \<not> exit_ok (wait_status (pe_waited pe) st)
                                    then None else Some (cstr buf),
                                    tr @ [PReaped], w'))"

subsection \<open>The service object\<close>

text \<open>The attributes of a blob buffer, and the functions of libubox the daemon calls on it.\<close>

datatype blob =
    BString string
  | BU32 "32 word"
  | BU64 "64 word"
  | BTable "(string \<times> blob) list"
  | BArray "blob list"

type_synonym attrs = "(string \<times> blob) list"

record blobmsg =
  bm_format_json :: "attrs \<Rightarrow> string option"
  bm_add_json :: "string \<Rightarrow> attrs option"

definition service_feed :: "blobmsg \<Rightarrow> 'w proc_env \<Rightarrow> string \<Rightarrow> attrs \<Rightarrow> 'w \<Rightarrow> (ubus_status \<times> pfd_eff list \<times> 'w) option" where
  "service_feed bm pe verb msg w =
     (case bm_format_json bm msg of
        None \<Rightarrow> Some (STATUS_UNKNOWN_ERROR, [], w)
      | Some json \<Rightarrow> feed_neon pe verb json w)"

definition service_set :: "blobmsg \<Rightarrow> 'w proc_env \<Rightarrow> attrs \<Rightarrow> 'w \<Rightarrow> (ubus_status \<times> pfd_eff list \<times> 'w) option" where
  "service_set bm pe msg w = service_feed bm pe ''set'' msg w"

definition service_delete :: "blobmsg \<Rightarrow> 'w proc_env \<Rightarrow> attrs \<Rightarrow> 'w \<Rightarrow> (ubus_status \<times> pfd_eff list \<times> 'w) option" where
  "service_delete bm pe msg w = service_feed bm pe ''delete-json'' msg w"

definition service_signal :: "blobmsg \<Rightarrow> 'w proc_env \<Rightarrow> attrs \<Rightarrow> 'w \<Rightarrow> (ubus_status \<times> pfd_eff list \<times> 'w) option" where
  "service_signal bm pe msg w = service_feed bm pe ''signal-json'' msg w"

definition service_event :: "blobmsg \<Rightarrow> 'w proc_env \<Rightarrow> attrs \<Rightarrow> 'w \<Rightarrow> (ubus_status \<times> pfd_eff list \<times> 'w) option" where
  "service_event bm pe msg w = service_feed bm pe ''event'' msg w"

text \<open>The status, the reply sent if any, and the rest as above.\<close>

definition service_list :: "blobmsg \<Rightarrow> 'w proc_env \<Rightarrow> attrs option \<Rightarrow> 'w \<Rightarrow> (ubus_status \<times> attrs option \<times> pfd_eff list \<times> 'w) option" where
  "service_list bm pe msg w =
     (case (case msg of None \<Rightarrow> Some ''{}'' | Some m \<Rightarrow> bm_format_json bm m) of
        None \<Rightarrow> Some (STATUS_UNKNOWN_ERROR, None, [], w)
      | Some filt \<Rightarrow>
          (case capture_neon pe ''list-json'' filt w of
             None \<Rightarrow> None
           | Some (None, tr, w') \<Rightarrow> Some (STATUS_UNKNOWN_ERROR, None, tr, w')
           | Some (Some out, tr, w') \<Rightarrow>
               (case bm_add_json bm out of
                  None \<Rightarrow> Some (STATUS_UNKNOWN_ERROR, None, tr, w')
                | Some reply \<Rightarrow> Some (STATUS_OK, Some reply, tr, w'))))"

text \<open>The callback of the ubus event handler: the event becomes a request of \<open>neon-procd event\<close>.\<close>

definition trigger_event_cb :: "blobmsg \<Rightarrow> 'w proc_env \<Rightarrow> string option \<Rightarrow> attrs option \<Rightarrow> 'w \<Rightarrow> (pfd_eff list \<times> 'w) option" where
  "trigger_event_cb bm pe type msg w =
     (case type of
        None \<Rightarrow> Some ([], w)
      | Some ty \<Rightarrow>
          if ty = [] then Some ([], w)
          else
            let eb = [(''type'', BString ty), (''data'', BTable (case msg of None \<Rightarrow> [] | Some m \<Rightarrow> m))] in
            case bm_format_json bm eb of
              None \<Rightarrow> Some ([], w)
            | Some json \<Rightarrow> map_option snd (feed_neon_async pe ''event'' json w))"

subsection \<open>Text files\<close>

definition is_ws :: "char \<Rightarrow> bool" where
  "is_ws c \<longleftrightarrow> c = CHR 0x20 \<or> c = CHR 0x09 \<or> c = CHR 0x0D \<or> c = CHR 0x0A"

definition trim_ws :: "string \<Rightarrow> string" where
  "trim_ws s = rev (dropWhile is_ws (rev (dropWhile is_ws s)))"

definition copy_string :: "nat \<Rightarrow> string \<Rightarrow> string" where
  "copy_string dstsz src = snprintf_s dstsz src"

fun unescape :: "string \<Rightarrow> string" where
  "unescape [] = []"
| "unescape [c] = [c]"
| "unescape (c # d # cs) = (if c = CHR 0x5C then d # unescape cs else c # unescape (d # cs))"

definition strip_quotes :: "string \<Rightarrow> string" where
  "strip_quotes v =
     (if 2 \<le> length v \<and> (hd v = CHR 0x27 \<or> hd v = CHR 0x22) \<and> last v = hd v then butlast (tl v) else v)"

text \<open>
  \<open>unquote_value\<close> works in place behind the blanks it skips: the caller, who keeps its own pointer,
  sees those blanks and then the result.
\<close>

definition unquote_value :: "string \<Rightarrow> string" where
  "unquote_value s = takeWhile is_ws s @ unescape (strip_quotes (trim_ws s))"

datatype rfield = Distribution | Version | Revision | Codename | Target | Description | Builddate | Firmware_url

record release_info =
  ri_distribution :: string
  ri_version :: string
  ri_revision :: string
  ri_codename :: string
  ri_target :: string
  ri_description :: string
  ri_builddate :: string
  ri_firmware_url :: string

definition release_zero :: release_info where
  "release_zero = \<lparr>ri_distribution = [], ri_version = [], ri_revision = [], ri_codename = [], ri_target = [],
     ri_description = [], ri_builddate = [], ri_firmware_url = []\<rparr>"

fun ri_get :: "rfield \<Rightarrow> release_info \<Rightarrow> string" where
  "ri_get Distribution ri = ri_distribution ri"
| "ri_get Version ri = ri_version ri"
| "ri_get Revision ri = ri_revision ri"
| "ri_get Codename ri = ri_codename ri"
| "ri_get Target ri = ri_target ri"
| "ri_get Description ri = ri_description ri"
| "ri_get Builddate ri = ri_builddate ri"
| "ri_get Firmware_url ri = ri_firmware_url ri"

fun ri_set :: "rfield \<Rightarrow> string \<Rightarrow> release_info \<Rightarrow> release_info" where
  "ri_set Distribution v ri = ri\<lparr>ri_distribution := v\<rparr>"
| "ri_set Version v ri = ri\<lparr>ri_version := v\<rparr>"
| "ri_set Revision v ri = ri\<lparr>ri_revision := v\<rparr>"
| "ri_set Codename v ri = ri\<lparr>ri_codename := v\<rparr>"
| "ri_set Target v ri = ri\<lparr>ri_target := v\<rparr>"
| "ri_set Description v ri = ri\<lparr>ri_description := v\<rparr>"
| "ri_set Builddate v ri = ri\<lparr>ri_builddate := v\<rparr>"
| "ri_set Firmware_url v ri = ri\<lparr>ri_firmware_url := v\<rparr>"

fun ri_size :: "rfield \<Rightarrow> nat" where
  "ri_size Description = 256"
| "ri_size Builddate = 64"
| "ri_size Firmware_url = 256"
| "ri_size _ = 128"

definition release_field :: "string \<Rightarrow> rfield option" where
  "release_field key =
     (if strcaseeq key ''NAME'' \<or> strcaseeq key ''DISTRIB_ID'' then Some Distribution
      else if strcaseeq key ''VERSION'' \<or> strcaseeq key ''DISTRIB_RELEASE'' then Some Version
      else if strcaseeq key ''BUILD_ID'' \<or> strcaseeq key ''DISTRIB_REVISION'' then Some Revision
      else if strcaseeq key ''VERSION_CODENAME'' \<or> strcaseeq key ''DISTRIB_CODENAME'' then Some Codename
      else if strcaseeq key ''OPENWRT_BOARD'' \<or> strcaseeq key ''DISTRIB_TARGET'' then Some Target
      else if strcaseeq key ''OPENWRT_RELEASE'' \<or> strcaseeq key ''DISTRIB_DESCRIPTION'' then Some Description
      else if strcaseeq key ''OPENWRT_BUILD_DATE'' then Some Builddate
      else if strcaseeq key ''FIRMWARE_URL'' then Some Firmware_url
      else None)"

definition release_assign :: "release_info \<Rightarrow> string \<Rightarrow> string \<Rightarrow> bool \<Rightarrow> release_info" where
  "release_assign ri key v only_if_empty =
     (case release_field key of
        None \<Rightarrow> ri
      | Some f \<Rightarrow>
          if only_if_empty \<and> ri_get f ri \<noteq> [] then ri
          else ri_set f (copy_string (ri_size f) v) ri)"

definition release_kv :: "string \<Rightarrow> (string \<times> string) option" where
  "release_kv line =
     (let key = trim_ws line in
      if key = [] \<or> hd key = CHR ''#'' then None
      else if CHR ''='' \<notin> set key then None
      else let v = trim_ws (tl (dropWhile (\<lambda>c. c \<noteq> CHR ''='') key))
           in Some (trim_ws (takeWhile (\<lambda>c. c \<noteq> CHR ''='') key), unquote_value v))"

definition release_line :: "bool \<Rightarrow> string \<Rightarrow> release_info \<Rightarrow> release_info" where
  "release_line only_if_empty line ri =
     (case release_kv line of None \<Rightarrow> ri | Some (key, v) \<Rightarrow> release_assign ri key v only_if_empty)"

type_synonym files = "string \<Rightarrow> string option"

definition parse_release_file :: "files \<Rightarrow> string \<Rightarrow> bool \<Rightarrow> release_info \<Rightarrow> release_info" where
  "parse_release_file fs path only_if_empty ri =
     (case fs path of
        None \<Rightarrow> ri
      | Some content \<Rightarrow> fold (release_line only_if_empty) (fgets_lines 512 content) ri)"

definition release_load :: "files \<Rightarrow> (string \<Rightarrow> bool) \<Rightarrow> release_info" where
  "release_load fs access =
     (let ri = parse_release_file fs ''/usr/lib/os-release'' False release_zero;
          ri = (if ri_distribution ri = [] \<and> access ''/etc/os-release''
                then parse_release_file fs ''/etc/os-release'' True ri else ri);
          ri = parse_release_file fs ''/etc/openwrt_release'' True ri
      in if ri_distribution ri = []
         then ri\<lparr>ri_distribution := copy_string 128 ''NeonWrt''\<rparr> else ri)"

definition release_names :: "(rfield \<times> string) list" where
  "release_names =
     [(Distribution, ''distribution''), (Version, ''version''), (Revision, ''revision''),
      (Codename, ''codename''), (Target, ''target''), (Description, ''description''),
      (Builddate, ''builddate''), (Firmware_url, ''firmware_url'')]"

definition add_release_table :: "files \<Rightarrow> (string \<Rightarrow> bool) \<Rightarrow> attrs \<Rightarrow> attrs" where
  "add_release_table fs access b =
     (let ri = release_load fs access
      in b @ [(''release'', BTable [(n, BString (ri_get f ri)). (f, n) \<leftarrow> release_names, ri_get f ri \<noteq> []])])"

text \<open>\<open>read_text_file\<close> into a buffer of \<open>bufsz\<close> bytes; \<open>None\<close> is the result -1.\<close>

definition read_text_file :: "files \<Rightarrow> string \<Rightarrow> nat \<Rightarrow> string option" where
  "read_text_file fs path bufsz =
     (if bufsz < 2 then None
      else case fs path of
             None \<Rightarrow> None
           | Some content \<Rightarrow>
               let got = take (bufsz - 1) content; s = trim_ws (cstr got)
               in if got = [] then None else if s = [] then None else Some s)"

text \<open>
  \<open>getline\<close> returns whole lines, with their newline. A line of /proc/self/mounts is a mount when
  it has three fields; the loop starts again from the top, once, when the root is an overlay.
\<close>

definition getline_lines :: "string \<Rightarrow> string list" where
  "getline_lines s = fgets_lines (length s + 2) s"

definition mount_entry :: "string \<Rightarrow> (string \<times> string) option" where
  "mount_entry line = (case strtok_all CHR 0x20 line of dev # mp # type # _ \<Rightarrow> Some (mp, type) | _ \<Rightarrow> None)"

function rootfs_scan :: "string list \<Rightarrow> string \<Rightarrow> string list \<Rightarrow> string option" where
  "rootfs_scan mounts mountpoint [] = None"
| "rootfs_scan mounts mountpoint (line # rest) =
     (case mount_entry line of
        None \<Rightarrow> rootfs_scan mounts mountpoint rest
      | Some (mp, type) \<Rightarrow>
          if mp \<noteq> mountpoint then rootfs_scan mounts mountpoint rest
          else if type = ''overlay'' \<and> mountpoint \<noteq> ''/rom'' then rootfs_scan mounts ''/rom'' mounts
          else Some (copy_string 32 type))"
  by pat_completeness auto
termination
  by (relation "measures [\<lambda>(mounts, mp, rest). if mp = ''/rom'' then 0 else 1, \<lambda>(mounts, mp, rest). length rest]") auto

text \<open>The static buffer \<open>fstype\<close> is the state: it caches the first answer.\<close>

definition system_rootfs_type :: "files \<Rightarrow> string \<Rightarrow> string option \<times> string" where
  "system_rootfs_type fs fstype =
     (if fstype \<noteq> [] then (Some fstype, fstype)
      else case fs ''/proc/self/mounts'' of
             None \<Rightarrow> (None, fstype)
           | Some content \<Rightarrow>
               let lines = getline_lines content;
                   fstype' = (case rootfs_scan lines ''/'' lines of None \<Rightarrow> fstype | Some t \<Rightarrow> t)
               in (if fstype' \<noteq> [] then Some fstype' else None, fstype'))"

subsection \<open>The system object\<close>

record utsname =
  uts_release :: string
  uts_nodename :: string
  uts_machine :: string

definition colon_kv :: "string \<Rightarrow> (string \<times> string) option" where
  "colon_kv line =
     (if CHR '':'' \<notin> set line then None
      else Some (trim_ws (takeWhile (\<lambda>c. c \<noteq> CHR '':'') line),
                 trim_ws (tl (dropWhile (\<lambda>c. c \<noteq> CHR '':'') line))))"

definition cpu_line :: "bool \<Rightarrow> string \<Rightarrow> string option" where
  "cpu_line aarch64 line =
     (case colon_kv line of
        None \<Rightarrow> None
      | Some (key, val) \<Rightarrow>
          if aarch64 then
            (if strcaseeq key ''CPU revision''
             then Some (snprintf_s 128 (''ARMv8 Processor rev '' @ dec_nat (strtou 64 16 val))) else None)
          else if (strcaseeq key ''system type'' \<or> strcaseeq key ''processor'' \<or> strcaseeq key ''cpu''
                   \<or> strcaseeq key ''model name'') \<and> val \<noteq> []
          then Some val else None)"

definition add_cpu_system_string :: "bool \<Rightarrow> files \<Rightarrow> utsname option \<Rightarrow> attrs \<Rightarrow> attrs" where
  "add_cpu_system_string aarch64 fs uts b =
     (case (case fs ''/proc/cpuinfo'' of
              None \<Rightarrow> []
            | Some content \<Rightarrow> List.map_filter (cpu_line aarch64) (fgets_lines 256 content)) of
        v # _ \<Rightarrow> b @ [(''system'', BString v)]
      | [] \<Rightarrow>
          if aarch64 then b @ [(''system'', BString ''ARMv8 Processor'')]
          else case uts of None \<Rightarrow> b | Some u \<Rightarrow> b @ [(''system'', BString (uts_machine u))])"

definition board_model :: "files \<Rightarrow> attrs" where
  "board_model fs =
     (case read_text_file fs ''/tmp/sysinfo/model'' 256 of
        Some s \<Rightarrow> [(''model'', BString s)]
      | None \<Rightarrow>
          (case read_text_file fs ''/proc/device-tree/model'' 256 of
             Some s \<Rightarrow> [(''model'', BString s)] | None \<Rightarrow> []))"

definition board_name :: "files \<Rightarrow> attrs" where
  "board_name fs =
     (case read_text_file fs ''/tmp/sysinfo/board_name'' 256 of
        Some s \<Rightarrow> [(''board_name'', BString s)]
      | None \<Rightarrow>
          (case read_text_file fs ''/proc/device-tree/compatible'' 256 of
             Some s \<Rightarrow> [(''board_name'', BString (map (\<lambda>c. if c = CHR '','' then CHR ''-'' else c) s))]
           | None \<Rightarrow> []))"

text \<open>The reply of \<open>system board\<close>, and the cached file system type.\<close>

definition system_board :: "bool \<Rightarrow> files \<Rightarrow> (string \<Rightarrow> bool) \<Rightarrow> utsname option \<Rightarrow> string \<Rightarrow> attrs \<times> string" where
  "system_board aarch64 fs access uts fstype =
     (let b = (case uts of None \<Rightarrow> []
               | Some u \<Rightarrow> [(''kernel'', BString (uts_release u)), (''hostname'', BString (uts_nodename u))]);
          b = add_cpu_system_string aarch64 fs uts b;
          b = b @ board_model fs @ board_name fs;
          (rootfs_type, fstype') = system_rootfs_type fs fstype;
          b = (case rootfs_type of None \<Rightarrow> b | Some t \<Rightarrow> b @ [(''rootfs_type'', BString t)])
      in (add_release_table fs access b, fstype'))"

definition kscale_u64 :: "64 word \<Rightarrow> 64 word \<Rightarrow> 64 word" where
  "kscale_u64 blocks block_size = (blocks * block_size + 512) div 1024"

record sysinfo_t =
  si_uptime :: int
  si_loads :: "64 word \<times> 64 word \<times> 64 word"
  si_mem_unit :: "32 word"
  si_totalram :: "64 word"
  si_freeram :: "64 word"
  si_sharedram :: "64 word"
  si_bufferram :: "64 word"
  si_totalswap :: "64 word"
  si_freeswap :: "64 word"

record statvfs_t =
  sv_bsize :: "64 word"
  sv_frsize :: "64 word"
  sv_blocks :: "64 word"
  sv_bfree :: "64 word"
  sv_bavail :: "64 word"

record info_os =
  io_sysinfo :: "sysinfo_t option"
  io_now :: int
  io_gmtoff :: "int option"
  io_statvfs :: "string \<Rightarrow> statvfs_t option"

definition meminfo_line :: "string \<Rightarrow> 64 word \<times> 64 word \<Rightarrow> 64 word \<times> 64 word" where
  "meminfo_line line = (\<lambda>(available, cached).
     case colon_kv line of
       None \<Rightarrow> (available, cached)
     | Some (key, val) \<Rightarrow>
         if strcaseeq key ''MemAvailable'' then (of_nat (strtou 64 10 val) * 1024, cached)
         else if strcaseeq key ''Cached'' then (available, of_nat (strtou 64 10 val) * 1024)
         else (available, cached))"

definition fs_table :: "statvfs_t \<Rightarrow> attrs" where
  "fs_table sv =
     (let block_size = (if sv_frsize sv \<noteq> 0 then sv_frsize sv else sv_bsize sv)
      in [(''total'', BU64 (kscale_u64 (sv_blocks sv) block_size)),
          (''free'', BU64 (kscale_u64 (sv_bfree sv) block_size)),
          (''used'', BU64 (kscale_u64 (sv_blocks sv - sv_bfree sv) block_size)),
          (''avail'', BU64 (kscale_u64 (sv_bavail sv) block_size))])"

definition fslist :: "(string \<times> string) list" where
  "fslist = [(''/'', ''root''), (''/tmp'', ''tmp'')]"

definition mem_bytes :: "sysinfo_t \<Rightarrow> 64 word \<Rightarrow> blob" where
  "mem_bytes info n = BU64 (ucast (si_mem_unit info) * n)"

text \<open>The reply of \<open>system info\<close>; \<open>None\<close> is UBUS_STATUS_UNKNOWN_ERROR, with no reply sent.\<close>

definition system_info :: "files \<Rightarrow> info_os \<Rightarrow> attrs option" where
  "system_info fs os =
     (case io_sysinfo os of
        None \<Rightarrow> None
      | Some info \<Rightarrow>
          (case fs ''/proc/meminfo'' of
             None \<Rightarrow> None
           | Some content \<Rightarrow>
               let (available, cached) = fold meminfo_line (fgets_lines 256 content) (0, 0) in
               case io_gmtoff os of
                 None \<Rightarrow> None
               | Some gmtoff \<Rightarrow>
                   let (l0, l1, l2) = si_loads info in
                   Some ([(''localtime'', BU32 (word_of_int (io_now os + gmtoff))),
                          (''uptime'', BU32 (word_of_int (si_uptime info))),
                          (''load'', BArray [BU32 (ucast l0), BU32 (ucast l1), BU32 (ucast l2)]),
                          (''memory'', BTable
                             [(''total'', mem_bytes info (si_totalram info)),
                              (''free'', mem_bytes info (si_freeram info)),
                              (''shared'', mem_bytes info (si_sharedram info)),
                              (''buffered'', mem_bytes info (si_bufferram info)),
                              (''available'', BU64 available), (''cached'', BU64 cached)])]
                         @ [(name, BTable (fs_table (the (io_statvfs os path)))). (path, name) \<leftarrow> fslist, io_statvfs os path \<noteq> None]
                         @ [(''swap'', BTable
                               [(''total'', mem_bytes info (si_totalswap info)),
                                (''free'', mem_bytes info (si_freeswap info))])])))"

subsection \<open>Connecting and the main program\<close>

text \<open>What ubus answers in one attempt: whether it connects, and the results of the registrations.\<close>

record attempt =
  at_connect :: bool
  at_service :: int
  at_system :: int
  at_events :: int

datatype daemon_eff =
    DUloopInit
  | DConnected
  | DAddUloop
  | DAdded string
  | DListening string
  | DFreed
  | DSleep nat
  | DNotify string "notify_eff list"
  | DRun
  | DBlobFree
  | DUloopDone

definition register :: "attempt \<Rightarrow> int \<times> daemon_eff list" where
  "register a =
     (if at_service a \<noteq> 0 then (at_service a, [])
      else if at_system a \<noteq> 0 then (at_system a, [DAdded ''service''])
      else if at_events a \<noteq> 0 then (at_events a, [DAdded ''service'', DAdded ''system''])
      else (0, [DAdded ''service'', DAdded ''system'', DListening ''*'']))"

fun connect_loop :: "nat \<Rightarrow> (nat \<Rightarrow> attempt) \<Rightarrow> nat \<Rightarrow> int \<times> daemon_eff list" where
  "connect_loop 0 ubus i = (-1, [])"
| "connect_loop (Suc left) ubus i =
     (if \<not> at_connect (ubus i) then
        (let (rc, tr) = connect_loop left ubus (Suc i) in (rc, DSleep 100000 # tr))
      else
        let (rc, regs) = register (ubus i) in
        if rc = 0 then (0, [DConnected, DAddUloop] @ regs)
        else let (rc', tr) = connect_loop left ubus (Suc i)
             in (rc', [DConnected, DAddUloop] @ regs @ [DFreed, DSleep 100000] @ tr))"

definition connect_and_register :: "(nat \<Rightarrow> attempt) \<Rightarrow> int \<times> daemon_eff list" where
  "connect_and_register ubus = connect_loop 300 ubus 0"

definition ready_message :: string where
  "ready_message = ''READY=1'' @ [newline] @ ''STATUS=Connected to ubus; service/system objects and trigger bridge ready'' @ [newline]"

text \<open>
  \<open>main\<close>: the exit status and what it did. \<open>None\<close> is a notification still waiting in its
  schedule; \<open>DRun\<close> is \<open>uloop_run\<close>, which the handlers above run in.
\<close>

definition ubus_main :: "bool \<Rightarrow> (nat \<Rightarrow> attempt) \<Rightarrow> notify_os \<Rightarrow> notify_os \<Rightarrow> (int \<times> daemon_eff list) option" where
  "ubus_main uloop_ok ubus ready stopping =
     (if \<not> uloop_ok then Some (1, [])
      else
        let (rc, tr) = connect_and_register ubus in
        if rc \<noteq> 0 then Some (1, [DUloopInit] @ tr @ [DUloopDone])
        else case systemd_notify ready ready_message of
               None \<Rightarrow> None
             | Some (nrc, sent) \<Rightarrow>
                 if nrc < 0 then Some (1, [DUloopInit] @ tr @ [DNotify ready_message sent, DFreed, DUloopDone])
                 else case systemd_notify stopping (''STOPPING=1'' @ [newline]) of
                        None \<Rightarrow> None
                      | Some (src, sent2) \<Rightarrow>
                          Some (0, [DUloopInit] @ tr
                                   @ [DNotify ready_message sent, DRun, DNotify (''STOPPING=1'' @ [newline]) sent2,
                                      DFreed, DBlobFree, DUloopDone]))"

subsection \<open>Requests reach the child whole\<close>

lemmas child_defs = feed_neon_def feed_neon_async_def capture_neon_def wait_status_def exit_ok_def

text \<open>
  C14. When the pipe and the fork succeed and the schedule of \<open>write\<close> is long enough, whatever the
  sizes of the partial writes and the interruptions, the child reads exactly the request and
  \<open>feed_neon\<close> returns, with success exactly when the child exits with 0; and whenever
  \<open>feed_neon\<close> reports success the child had the whole request and exited with 0.\<close>

theorem feed_neon_delivers:
  assumes "pe_waited pe"
  shows "(pe_pipe1 pe \<and> pe_fork pe \<and> no_failure (pe_writes pe) \<and> length json \<le> progress (pe_writes pe) \<longrightarrow>
            feed_neon pe verb json w =
              Some (if exit_ok (fst (pe_child pe verb json w)) then STATUS_OK else STATUS_UNKNOWN_ERROR,
                    [PipeMade 0, PForked, PClosed 0 0, PClosed 0 1, PReaped], snd (snd (pe_child pe verb json w)))) \<and>
         (\<forall>tr w'. feed_neon pe verb json w = Some (STATUS_OK, tr, w') \<longrightarrow>
            exit_ok (fst (pe_child pe verb json w)) \<and> w' = snd (snd (pe_child pe verb json w)))"
proof (intro conjI impI allI)
  show "feed_neon pe verb json w =
             Some (if exit_ok (fst (pe_child pe verb json w)) then STATUS_OK else STATUS_UNKNOWN_ERROR,
                   [PipeMade 0, PForked, PClosed 0 0, PClosed 0 1, PReaped], snd (snd (pe_child pe verb json w)))"
    if "pe_pipe1 pe \<and> pe_fork pe \<and> no_failure (pe_writes pe) \<and> length json \<le> progress (pe_writes pe)"
    using that assms write_all_total [of "pe_writes pe" json "[]"] by (simp add: child_defs split: prod.splits)
  fix tr w'
  assume ok: "feed_neon pe verb json w = Some (STATUS_OK, tr, w')"
  then obtain rc sent where wr: "write_all (pe_writes pe) [] json = Some (rc, sent)" and rc: "\<not> rc < 0"
    by (auto simp: child_defs split: if_splits option.splits prod.splits)
  with write_all_sent [OF wr] have "sent = json" by auto
  with ok wr assms show "exit_ok (fst (pe_child pe verb json w))" "w' = snd (snd (pe_child pe verb json w))"
    by (auto simp: child_defs split: if_splits option.splits prod.splits)
qed

definition chunked :: "nat \<Rightarrow> io_ev list" where
  "chunked n = concat (replicate n [Intr, Got 3])"

lemma chunked_ok: "no_failure (chunked n) \<and> progress (chunked n) = n"
  by (induction n) (auto simp: chunked_def)

text \<open>A child that echoes what it reads and counts the requests.\<close>

definition echo_env :: "nat \<Rightarrow> nat proc_env" where
  "echo_env n = \<lparr>pe_pipe1 = True, pe_pipe2 = True, pe_fork = True, pe_fork2 = True, pe_malloc = True, pe_waited = True,
     pe_writes = chunked n, pe_reads = chunked n, pe_child = (\<lambda>verb inp w. (CExited 0, verb @ inp, Suc w))\<rparr>"

theorem feed_neon_delivers_witness:
  "feed_neon (echo_env 40) ''set'' ''{ name : dnsmasq }'' 6 =
     Some (STATUS_OK, [PipeMade 0, PForked, PClosed 0 0, PClosed 0 1, PReaped], 7)
   \<and> exit_ok (fst (pe_child (echo_env 40) ''set'' ''{ name : dnsmasq }'' 6))"
proof -
  let ?pe = "echo_env 40" and ?json = "''{ name : dnsmasq }''"
  have waited: "pe_waited ?pe" by (simp add: echo_env_def)
  have env: "pe_pipe1 ?pe \<and> pe_fork ?pe \<and> no_failure (pe_writes ?pe) \<and> length ?json \<le> progress (pe_writes ?pe)"
    by (simp add: echo_env_def chunked_ok)
  have child: "fst (pe_child ?pe ''set'' ?json 6) = CExited 0" "snd (snd (pe_child ?pe ''set'' ?json 6)) = 7"
    by (simp_all add: echo_env_def)
  note deliver = feed_neon_delivers [OF waited, of ?json "''set''" 6]
  from conjunct1 [OF deliver] env have "feed_neon ?pe ''set'' ?json 6 =
     Some (STATUS_OK, [PipeMade 0, PForked, PClosed 0 0, PClosed 0 1, PReaped], 7)"
    by (simp only: child exit_ok_def simp_thms if_True)
  with conjunct2 [OF deliver] show ?thesis by blast
qed

lemma capture_neon_unfold:
  assumes "pe_pipe1 pe" "pe_pipe2 pe" "pe_fork pe" "pe_malloc pe" "pe_waited pe"
    and "write_all (pe_writes pe) [] json = Some (0, json)"
    and "pe_child pe verb json w = (st, out, w')"
    and "read_all (pe_reads pe) out = Some (ReadOk cap out)"
  shows "capture_neon pe verb json w =
     Some (if exit_ok st then Some (cstr out) else None,
           [PipeMade 0, PipeMade 1, PForked, PClosed 0 0, PClosed 1 1, PClosed 0 1, PClosed 1 0, PReaped], w')"
  using assms by (simp add: child_defs)

text \<open>
  C15. \<open>capture_neon\<close> returns the complete standard output of the child, of any length and under any
  partial reads and writes, and the growing buffer always has room for it and the terminating NUL.\<close>

theorem capture_neon_complete:
  assumes "pe_pipe1 pe" "pe_pipe2 pe" "pe_fork pe" "pe_malloc pe" "pe_waited pe"
    and "no_failure (pe_writes pe)" "length json \<le> progress (pe_writes pe)"
    and "pe_child pe verb json w = (CExited 0, out, w')" "NUL \<notin> set out"
    and "no_failure (pe_reads pe)" "length out < progress (pe_reads pe)"
  shows "\<exists>tr cap. capture_neon pe verb json w = Some (Some out, tr, w')
           \<and> read_all (pe_reads pe) out = Some (ReadOk cap out) \<and> length out < cap \<and> cap \<le> 4096 + 2 * length out"
proof -
  from read_all_complete assms obtain cap where
    "read_all (pe_reads pe) out = Some (ReadOk cap out)" "length out < cap" "cap \<le> 4096 + 2 * length out" by blast
  with assms capture_neon_unfold [of pe json verb w "CExited 0" out w' cap] write_all_total [of "pe_writes pe" json "[]"]
  show ?thesis by (simp add: exit_ok_def cstr_id)
qed

theorem capture_neon_complete_witness:
  "\<exists>tr cap. capture_neon (echo_env 60) ''list-json'' ''{}'' 0 = Some (Some ''list-json{}'', tr, 1)
     \<and> read_all (pe_reads (echo_env 60)) ''list-json{}'' = Some (ReadOk cap ''list-json{}'')
     \<and> length ''list-json{}'' < cap \<and> cap \<le> 4096 + 2 * length ''list-json{}''"
  by (rule capture_neon_complete) (simp_all add: echo_env_def chunked_ok NUL_def)

subsection \<open>Descriptors and children are released\<close>

definition fds_released :: "pfd_eff list \<Rightarrow> bool" where
  "fds_released tr \<longleftrightarrow> (\<forall>n. count_list tr (PClosed n 0) = count_list tr (PipeMade n) \<and>
                              count_list tr (PClosed n 1) = count_list tr (PipeMade n))"

definition children_reaped :: "pfd_eff list \<Rightarrow> bool" where
  "children_reaped tr \<longleftrightarrow> count_list tr PForked = count_list tr PReaped"

lemmas released_defs = fds_released_def children_reaped_def

text \<open>
  C16. However a request ends, each pipe end the daemon opened is closed exactly once and every child
  it forked is reaped, with one exception: \<open>capture_neon\<close> does not wait for its child when the
  buffer cannot be allocated.\<close>

theorem requests_release:
  "(feed_neon pe verb json w = Some (status, tr, w') \<longrightarrow> fds_released tr \<and> children_reaped tr) \<and>
   (feed_neon_async pe verb json w = Some (rc, tr, w') \<longrightarrow> fds_released tr \<and> children_reaped tr) \<and>
   (capture_neon pe verb json w = Some (res, tr, w') \<longrightarrow>
      fds_released tr \<and> (children_reaped tr \<longleftrightarrow> pe_malloc pe \<or> \<not> pe_pipe1 pe \<or> \<not> pe_pipe2 pe \<or> \<not> pe_fork pe))"
proof (intro conjI)
  show "feed_neon pe verb json w = Some (status, tr, w') \<longrightarrow> fds_released tr \<and> children_reaped tr"
    by (auto simp: feed_neon_def released_defs Let_def split: if_splits option.splits prod.splits)
  show "feed_neon_async pe verb json w = Some (rc, tr, w') \<longrightarrow> fds_released tr \<and> children_reaped tr"
    by (auto simp: feed_neon_async_def released_defs Let_def split: if_splits option.splits prod.splits)
  show "capture_neon pe verb json w = Some (res, tr, w') \<longrightarrow>
      fds_released tr \<and> (children_reaped tr \<longleftrightarrow> pe_malloc pe \<or> \<not> pe_pipe1 pe \<or> \<not> pe_pipe2 pe \<or> \<not> pe_fork pe)"
    by (auto simp: capture_neon_def released_defs Let_def split: if_splits option.splits prod.splits)
qed

theorem requests_release_witness:
  "fds_released [PipeMade 0, PForked, PClosed 0 0, PClosed 0 1, PReaped]
   \<and> fds_released [PipeMade 0, PipeMade 1, PForked, PClosed 0 0, PClosed 1 1, PClosed 0 1, PClosed 1 0]
   \<and> \<not> children_reaped [PipeMade 0, PipeMade 1, PForked, PClosed 0 0, PClosed 1 1, PClosed 0 1, PClosed 1 0]"
proof -
  have "feed_neon_async (echo_env 2) ''event'' ''{}'' 0 = Some (0, [PipeMade 0, PForked, PClosed 0 0, PClosed 0 1, PReaped], 1)"
    by code_simp
  with requests_release [of "echo_env 2" "''event''" "''{}''" 0] have a: "fds_released [PipeMade 0, PForked, PClosed 0 0, PClosed 0 1, PReaped]" by blast
  have "capture_neon ((echo_env 2)\<lparr>pe_malloc := False\<rparr>) ''list-json'' ''{}'' 0 =
          Some (None, [PipeMade 0, PipeMade 1, PForked, PClosed 0 0, PClosed 1 1, PClosed 0 1, PClosed 1 0], 1)"
    by code_simp
  with requests_release [of "(echo_env 2)\<lparr>pe_malloc := False\<rparr>" "''list-json''" "''{}''" 0] a show ?thesis
    by (simp add: echo_env_def)
qed

subsection \<open>The address of the notification socket\<close>

text \<open>
  A readiness datagram carries exactly the message and goes to the socket that NOTIFY_SOCKET
  names: \<open>sun_path\<close> is filled within its 108 bytes; a path is followed by a NUL that the length
  includes, an abstract name is preceded by a NUL and the length ends with it. The socket is closed
  on every path, and a status other than 0 means that nothing was sent.\<close>

theorem systemd_notify_address:
  assumes "systemd_notify os message = Some (rc, effs)" "n_path os = Some path" "NUL \<notin> set path"
  shows "count_list effs NClose = count_list effs NSocket \<and>
    (\<forall>sun_path salen m. NSend sun_path salen m \<in> set effs \<longrightarrow>
       rc = 0 \<and> m = message \<and> length sun_path = SUN_PATH \<and> salen \<le> SUN_OFFSET + SUN_PATH
       \<and> (hd path = CHR ''/'' \<longrightarrow> take (salen - SUN_OFFSET) sun_path = path @ [NUL])
       \<and> (hd path = CHR ''@'' \<longrightarrow> take (salen - SUN_OFFSET) sun_path = NUL # tl path)) \<and>
    (rc \<noteq> 0 \<longrightarrow> rc = -1 \<and> (\<forall>sun_path salen m. NSend sun_path salen m \<notin> set effs))"
proof (intro conjI)
  have send: "notify_send evs = Some r \<Longrightarrow> r = 0 \<or> r = -1" for evs r
    by (induction evs rule: notify_send.induct) auto
  show "count_list effs NClose = count_list effs NSocket"
    using assms by (auto simp: systemd_notify_def split: if_splits option.splits)
  show "\<forall>sun_path salen m. NSend sun_path salen m \<in> set effs \<longrightarrow>
       rc = 0 \<and> m = message \<and> length sun_path = SUN_PATH \<and> salen \<le> SUN_OFFSET + SUN_PATH
       \<and> (hd path = CHR ''/'' \<longrightarrow> take (salen - SUN_OFFSET) sun_path = path @ [NUL])
       \<and> (hd path = CHR ''@'' \<longrightarrow> take (salen - SUN_OFFSET) sun_path = NUL # tl path)"
    using assms by (auto simp: systemd_notify_def notify_addr_def Let_def take_Cons' split: if_splits option.splits)
  show "rc \<noteq> 0 \<longrightarrow> rc = -1 \<and> (\<forall>sun_path salen m. NSend sun_path salen m \<notin> set effs)"
    using assms by (auto simp: systemd_notify_def split: if_splits option.splits dest: send)
qed

definition notify_demo :: notify_os where
  "notify_demo = \<lparr>n_path = Some ''/run/systemd/notify'', n_socket = True, n_sends = [Intr, Got 8]\<rparr>"

theorem systemd_notify_address_witness:
  "systemd_notify notify_demo ''READY=1'' =
     Some (0, [NSocket, NSend (''/run/systemd/notify'' @ replicate 89 NUL) 22 ''READY=1'', NClose])
   \<and> take 20 (''/run/systemd/notify'' @ replicate 89 NUL) = ''/run/systemd/notify'' @ [NUL]"
proof -
  have run: "systemd_notify notify_demo ''READY=1'' =
     Some (0, [NSocket, NSend (''/run/systemd/notify'' @ replicate 89 NUL) 22 ''READY=1'', NClose])"
    by (simp add: systemd_notify_def notify_demo_def notify_addr_def)
  with systemd_notify_address [OF run, of "''/run/systemd/notify''"]
  show ?thesis by (simp add: notify_demo_def NUL_def)
qed

subsection \<open>Release files\<close>

interpretation ws_trim: trimmer is_ws trim_ws
  by unfold_locales (rule trim_ws_def)

lemma is_ws_consts [simp]: "is_ws newline" "is_ws CHR 0x20" "\<not> is_ws CHR 0x22" "\<not> is_ws CHR 0x23"
  by (simp_all add: is_ws_def)

text \<open>The way a release file quotes a value.\<close>

definition quote_value :: "string \<Rightarrow> string" where
  "quote_value v = CHR 0x22 # concat (map (\<lambda>c. if c = CHR 0x22 \<or> c = CHR 0x5C then [CHR 0x5C, c] else [c]) v) @ [CHR 0x22]"

lemma unescape_Cons: "c \<noteq> CHR 0x5C \<Longrightarrow> unescape (c # cs) = c # unescape cs"
  by (cases cs) auto

lemma unescape_quote:
  "unescape (concat (map (\<lambda>c. if c = CHR 0x22 \<or> c = CHR 0x5C then [CHR 0x5C, c] else [c]) v)) = v"
  by (induction v) (auto simp: unescape_Cons)

lemma trim_ws_quote [simp]: "trim_ws (quote_value v) = quote_value v"
  by (rule ws_trim.trm_id) (auto simp: quote_value_def)

lemma unquote_quote [simp]: "unquote_value (quote_value v) = v"
  by (simp add: unquote_value_def, simp add: quote_value_def strip_quotes_def unescape_quote)

definition key_ok :: "string \<Rightarrow> bool" where
  "key_ok k \<longleftrightarrow> k \<noteq> [] \<and> hd k \<noteq> CHR ''#'' \<and> list_all (\<lambda>c. c \<noteq> CHR ''='' \<and> \<not> is_ws c) k"

lemma key_okD: "key_ok k \<Longrightarrow> c \<in> set k \<Longrightarrow> c \<noteq> CHR ''='' \<and> \<not> is_ws c"
  by (auto simp: key_ok_def list_all_iff)

lemma release_kv_quoted:
  assumes "key_ok k"
  shows "release_kv (k @ ''='' @ quote_value v @ [newline]) = Some (k, v)"
proof -
  let ?line = "k @ ''='' @ quote_value v"
  have ne: "k \<noteq> []" "hd k \<noteq> CHR ''#''" "\<not> is_ws (hd k)"
    using assms key_okD [OF assms, of "hd k"] by (auto simp: key_ok_def)
  have free: "\<forall>c \<in> set k. c \<noteq> CHR ''=''" using key_okD [OF assms] by blast
  have trim: "trim_ws (?line @ [newline]) = ?line"
  proof -
    have "trim_ws ([] @ ?line @ [newline]) = trim_ws ?line" by (rule ws_trim.trm_pad) auto
    also have "\<dots> = ?line" by (rule ws_trim.trm_id) (use ne in \<open>auto simp: quote_value_def\<close>)
    finally show ?thesis by simp
  qed
  have "takeWhile (\<lambda>c. c \<noteq> CHR ''='') ?line = k" "dropWhile (\<lambda>c. c \<noteq> CHR ''='') ?line = ''='' @ quote_value v"
    using free by (simp_all add: takeWhile_append2 dropWhile_append2)
  moreover have "trim_ws k = k" by (rule ws_trim.trm_free) (use key_okD [OF assms] in blast)
  ultimately show ?thesis using ne trim by (simp add: release_kv_def Let_def)
qed

definition release_text :: "(string \<times> string) list \<Rightarrow> string" where
  "release_text kvs = concat (map (\<lambda>(k, v). k @ ''='' @ quote_value v @ [newline]) kvs)"

definition release_text_ok :: "string \<times> string \<Rightarrow> bool" where
  "release_text_ok = (\<lambda>(k, v). key_ok k \<and> newline \<notin> set v \<and> NUL \<notin> set (k @ v) \<and> length (k @ ''='' @ quote_value v) \<le> 510)"

lemma set_quote_value: "set (quote_value v) \<subseteq> insert CHR 0x22 (insert CHR 0x5C (set v))"
  by (auto simp: quote_value_def split: if_splits)

text \<open>
  C18. Writing settings to a release file, with the values in double quotes and \<open>"\<close> and \<open>\\<close>
  escaped, and reading it back assigns exactly those settings in that order, whatever blanks, quotes,
  \<open>=\<close> or \<open>#\<close> the values contain, as long as each line fits the 512-byte line buffer.\<close>

theorem release_file_roundtrip:
  assumes "fs path = Some (release_text kvs)" "list_all release_text_ok kvs"
  shows "parse_release_file fs path only ri = fold (\<lambda>(k, v) ri. release_assign ri k v only) kvs ri"
proof -
  have "fold (release_line only) (fgets_lines 512 (release_text kvs)) ri
        = fold (\<lambda>(k, v) ri. release_assign ri k v only) kvs ri"
    using assms(2)
  proof (induction kvs arbitrary: ri)
    case (Cons kv kvs)
    obtain k v where kv: "kv = (k, v)" by fastforce
    let ?l = "k @ ''='' @ quote_value v"
    from Cons.prems kv have k: "key_ok k" and v: "newline \<notin> set v" "NUL \<notin> set (k @ v)" and len: "length ?l \<le> 510"
      by (auto simp: release_text_ok_def)
    have "newline \<notin> set k" using key_okD [OF k] by (auto simp: is_ws_def)
    then have "newline \<notin> set ?l" "NUL \<notin> set ?l" using v set_quote_value [of v] by (auto simp: NUL_def)
    then have "fgets_lines 512 (release_text (kv # kvs)) = (?l @ [newline]) # fgets_lines 512 (release_text kvs)"
      using fgets_lines_line [of ?l 512 "release_text kvs"] len by (simp add: release_text_def kv)
    with Cons release_kv_quoted [OF k, of v] show ?case by (simp add: release_line_def kv)
  qed (simp add: release_text_def)
  with assms(1) show ?thesis by (simp add: parse_release_file_def)
qed

definition release_demo :: files where
  "release_demo = [''/usr/lib/os-release'' \<mapsto> release_text [(''NAME'', ''Neon Wrt''), (''VERSION'', ''24.10''), (''BUILD_ID'', [])],
                   ''/etc/openwrt_release'' \<mapsto> release_text [(''DISTRIB_ID'', ''OpenWrt''), (''DISTRIB_REVISION'', ''r1'' @ [CHR 0x22] @ ''=#'')]]"

theorem release_file_roundtrip_witness:
  "parse_release_file release_demo ''/etc/openwrt_release'' False release_zero =
     release_zero\<lparr>ri_distribution := ''OpenWrt'', ri_revision := ''r1'' @ [CHR 0x22] @ ''=#''\<rparr>"
proof -
  have "list_all release_text_ok [(''DISTRIB_ID'', ''OpenWrt''), (''DISTRIB_REVISION'', ''r1'' @ [CHR 0x22] @ ''=#'')]"
    by code_simp
  from release_file_roundtrip [where fs = release_demo and path = "''/etc/openwrt_release''", OF _ this]
  have eq: "parse_release_file release_demo ''/etc/openwrt_release'' False release_zero =
     fold (\<lambda>(k, v) ri. release_assign ri k v False)
       [(''DISTRIB_ID'', ''OpenWrt''), (''DISTRIB_REVISION'', ''r1'' @ [CHR 0x22] @ ''=#'')] release_zero"
    by (simp add: release_demo_def)
  have "release_field ''DISTRIB_ID'' = Some Distribution" "release_field ''DISTRIB_REVISION'' = Some Revision"
    by (simp_all add: release_field_def strcaseeq_length)
  then show ?thesis unfolding eq by (simp add: release_assign_def copy_string_def)
qed

text \<open>The values a file assigns to a field, in order, as the field stores them.\<close>

definition assigned :: "files \<Rightarrow> string \<Rightarrow> rfield \<Rightarrow> string list" where
  "assigned fs path f =
     (case fs path of
        None \<Rightarrow> []
      | Some content \<Rightarrow>
          [copy_string (ri_size f) v. (k, v) \<leftarrow> List.map_filter release_kv (fgets_lines 512 content), release_field k = Some f])"

fun first_nonempty :: "string list \<Rightarrow> string" where
  "first_nonempty [] = []"
| "first_nonempty (x # xs) = (if x \<noteq> [] then x else first_nonempty xs)"

lemma ri_get_set [simp]: "ri_get f (ri_set g v ri) = (if f = g then v else ri_get f ri)"
  by (cases f; cases g; simp)

lemma fold_overwrite:
  "ri_get f (fold (release_line False) ls ri) =
     last (ri_get f ri # [copy_string (ri_size f) v. (k, v) \<leftarrow> List.map_filter release_kv ls, release_field k = Some f])"
  by (induction ls arbitrary: ri)
     (auto simp: release_line_def release_assign_def map_filter_simps split: option.splits)

lemma fold_fill:
  "ri_get f (fold (release_line True) ls ri) =
     first_nonempty (ri_get f ri # [copy_string (ri_size f) v. (k, v) \<leftarrow> List.map_filter release_kv ls, release_field k = Some f])"
  by (induction ls arbitrary: ri)
     (auto simp: release_line_def release_assign_def map_filter_simps split: option.splits)

lemma parse_overwrite:
  "ri_get f (parse_release_file fs path False ri) = last (ri_get f ri # assigned fs path f)"
  by (simp add: parse_release_file_def assigned_def fold_overwrite split: option.split)

lemma parse_fill:
  "ri_get f (parse_release_file fs path True ri) = first_nonempty (ri_get f ri # assigned fs path f)"
  by (simp add: parse_release_file_def assigned_def fold_fill split: option.split)

lemma release_zero_empty [simp]: "ri_get f release_zero = []"
  by (cases f) (simp_all add: release_zero_def)

lemma ri_distribution_set: "ri_get f (ri\<lparr>ri_distribution := v\<rparr>) = (if f = Distribution then v else ri_get f ri)"
  by (cases f) simp_all

lemma first_nonempty_append: "first_nonempty (xs @ ys) = (if first_nonempty xs \<noteq> [] then first_nonempty xs else first_nonempty ys)"
  by (induction xs) auto

text \<open>
  Which source each field of the \<open>release\<close> table comes from: the last assignment in
  /usr/lib/os-release, when that is empty the first non-empty one of /etc/os-release (read only when
  the distribution is still unknown and the file is readable), then the first non-empty one of
  /etc/openwrt_release; the distribution has the default NeonWrt. The table shows exactly the
  non-empty fields.\<close>

theorem release_precedence:
  "ri_get f (release_load fs access) =
     first_nonempty
       ([last ([] # assigned fs ''/usr/lib/os-release'' f)]
        @ (if last ([] # assigned fs ''/usr/lib/os-release'' Distribution) = [] \<and> access ''/etc/os-release''
           then assigned fs ''/etc/os-release'' f else [])
        @ assigned fs ''/etc/openwrt_release'' f
        @ (if f = Distribution then [''NeonWrt''] else []))"
  (is "_ = first_nonempty ([?a] @ ?b @ ?c @ ?d)")
proof -
  define r1 where "r1 = parse_release_file fs ''/usr/lib/os-release'' False release_zero"
  define r2 where "r2 = (if ri_get Distribution r1 = [] \<and> access ''/etc/os-release''
                         then parse_release_file fs ''/etc/os-release'' True r1 else r1)"
  define r3 where "r3 = parse_release_file fs ''/etc/openwrt_release'' True r2"
  have r1: "ri_get g r1 = last ([] # assigned fs ''/usr/lib/os-release'' g)" for g
    by (simp add: r1_def parse_overwrite)
  have r2: "ri_get f r2 = first_nonempty ([?a] @ ?b)"
    unfolding r2_def r1 [symmetric] by (simp add: parse_fill)
  have r3: "ri_get f r3 = first_nonempty ([?a] @ ?b @ ?c)"
    unfolding r3_def parse_fill r2 by (simp add: first_nonempty_append)
  have "ri_get f (release_load fs access) = (if f = Distribution \<and> ri_get f r3 = [] then ''NeonWrt'' else ri_get f r3)"
    by (auto simp: release_load_def Let_def r1_def r2_def r3_def copy_string_def ri_distribution_set)
  then show ?thesis unfolding r3 by (auto simp: first_nonempty_append)
qed

subsection \<open>The root file system\<close>

text \<open>The mounts of the table; \<open>map_of\<close> finds the first of a mount point.\<close>

definition mount_table :: "string list \<Rightarrow> (string \<times> string) list" where
  "mount_table lines = List.map_filter mount_entry lines"

lemma mount_table_Cons:
  "mount_table (l # ls) = (case mount_entry l of None \<Rightarrow> mount_table ls | Some m \<Rightarrow> m # mount_table ls)"
  by (simp add: mount_table_def map_filter_simps split: option.split)

lemma rootfs_scan_rom: "rootfs_scan mounts ''/rom'' ls = map_option (copy_string 32) (map_of (mount_table ls) ''/rom'')"
  by (induction ls) (auto simp: mount_table_Cons mount_table_def map_filter_simps split: option.split)

lemma rootfs_scan_root:
  "rootfs_scan mounts ''/'' ls =
     (case map_of (mount_table ls) ''/'' of
        None \<Rightarrow> None
      | Some t \<Rightarrow> if t = ''overlay'' then map_option (copy_string 32) (map_of (mount_table mounts) ''/rom'')
                  else Some (copy_string 32 t))"
  by (induction ls) (auto simp: mount_table_Cons rootfs_scan_rom mount_table_def map_filter_simps split: option.split)

lemma mount_table_type_nonempty: "map_of (mount_table ls) mp = Some t \<Longrightarrow> t \<noteq> []"
proof (induction ls)
  case (Cons l ls)
  have "mount_entry l = Some (m, ty) \<Longrightarrow> ty \<noteq> []" for m ty
    using strtok_all_mem [of ty "CHR 0x20" l] by (auto simp: mount_entry_def split: list.splits)
  with Cons show ?case by (auto simp: mount_table_Cons split: option.splits if_splits)
qed (simp add: mount_table_def map_filter_simps)

text \<open>
  C19. The scan of the mount table, which restarts from the top when the root is an overlay, ends and
  reports the type of the first mount on \<open>/\<close>, or of the first mount on \<open>/rom\<close> below an overlay;
  the answer is cached, and later calls return it whatever the table says then.\<close>

theorem rootfs_type_correct:
  assumes "fs ''/proc/self/mounts'' = Some content"
    and "root = (let table = map_of (mount_table (getline_lines content))
                 in if table ''/'' = Some ''overlay'' then table ''/rom'' else table ''/'')"
  shows "fst (system_rootfs_type fs []) = map_option (copy_string 32) root \<and>
    (\<forall>t fs'. root = Some t \<longrightarrow>
       fst (system_rootfs_type fs' (snd (system_rootfs_type fs []))) = Some (copy_string 32 t))"
proof -
  let ?ls = "getline_lines content"
  have scan: "rootfs_scan ?ls ''/'' ?ls = map_option (copy_string 32) root"
    by (auto simp: rootfs_scan_root assms(2) Let_def split: option.split)
  have ne: "root = Some u \<Longrightarrow> copy_string 32 u \<noteq> []" for u
    using mount_table_type_nonempty [of ?ls _ u]
    by (auto simp: assms(2) Let_def copy_string_def snprintf_s_def split: if_splits)
  show ?thesis
    using assms(1) scan ne by (cases root) (simp_all add: system_rootfs_type_def Let_def)
qed

definition mounts_demo :: string where
  "mounts_demo = ''/dev/root /rom squashfs ro 0 0'' @ [newline] @ ''proc /proc proc rw 0 0'' @ [newline]
     @ ''overlayfs:/overlay / overlay rw 0 0'' @ [newline]"

theorem rootfs_type_correct_witness:
  "fst (system_rootfs_type [''/proc/self/mounts'' \<mapsto> mounts_demo] []) = Some ''squashfs''
   \<and> fst (system_rootfs_type Map.empty (snd (system_rootfs_type [''/proc/self/mounts'' \<mapsto> mounts_demo] []))) = Some ''squashfs''"
proof -
  have table: "map_of (mount_table (getline_lines mounts_demo)) ''/'' = Some ''overlay''"
    "map_of (mount_table (getline_lines mounts_demo)) ''/rom'' = Some ''squashfs''"
    by code_simp+
  show ?thesis
    using rootfs_type_correct [where fs = "[''/proc/self/mounts'' \<mapsto> mounts_demo]" and content = mounts_demo
        and root = "Some ''squashfs''"]
    by (simp add: table copy_string_def Let_def)
qed

subsection \<open>File system sizes\<close>

lemma kscale_u64_exact:
  assumes "unat blocks * unat bs + 512 < 2 ^ 64"
  shows "unat (kscale_u64 blocks bs) = (unat blocks * unat bs + 512) div 1024"
proof -
  have "unat (blocks * bs) = unat blocks * unat bs" using assms by (simp add: unat_word_ariths)
  then have "unat (blocks * bs + 512) = unat blocks * unat bs + 512" using assms by (simp add: unat_word_ariths)
  then show ?thesis by (simp add: kscale_u64_def unat_div)
qed

lemma kib_rounding:
  fixes x y :: nat
  shows "(x + 512) div 1024 + (y + 512) div 1024 \<le> (x + y + 512) div 1024 + 1"
    and "(x + y + 512) div 1024 \<le> (x + 512) div 1024 + (y + 512) div 1024 + 1"
proof -
  have d: "1024 * (z div 1024) \<le> z \<and> z < 1024 * (z div 1024) + 1024" for z :: nat
    using div_mult_mod_eq [of z 1024] mod_less_divisor [of 1024 z] by linarith
  note d [of "x + 512"] d [of "y + 512"] d [of "x + y + 512"]
  then show "(x + 512) div 1024 + (y + 512) div 1024 \<le> (x + y + 512) div 1024 + 1"
    "(x + y + 512) div 1024 \<le> (x + 512) div 1024 + (y + 512) div 1024 + 1" by linarith+
qed

text \<open>
  While a file system is smaller than 2 to the power 64 bytes, the sizes that \<open>system info\<close>
  reports are the byte sizes rounded to the nearest KiB, and used and free space add up to the total
  within one KiB of rounding.\<close>

theorem fs_table_sizes:
  assumes "unat (sv_blocks sv) * unat (sv_frsize sv) + 512 < 2 ^ 64" "sv_frsize sv \<noteq> 0" "sv_bfree sv \<le> sv_blocks sv"
  shows "\<exists>total free used avail.
     fs_table sv = [(''total'', BU64 total), (''free'', BU64 free), (''used'', BU64 used), (''avail'', BU64 avail)]
     \<and> unat total = (unat (sv_blocks sv) * unat (sv_frsize sv) + 512) div 1024
     \<and> unat free = (unat (sv_bfree sv) * unat (sv_frsize sv) + 512) div 1024
     \<and> unat used + unat free \<le> unat total + 1 \<and> unat total \<le> unat used + unat free + 1"
proof -
  let ?b = "unat (sv_blocks sv)" and ?f = "unat (sv_bfree sv)" and ?s = "unat (sv_frsize sv)"
  have le: "?f \<le> ?b" using assms(3) by (simp add: word_le_nat_alt)
  have sub: "unat (sv_blocks sv - sv_bfree sv) = ?b - ?f" using assms(3) by (rule unat_sub)
  have split: "?b * ?s = ?f * ?s + (?b - ?f) * ?s" using le by (simp flip: distrib_right)
  with assms(1) have "?f * ?s + 512 < 2 ^ 64" "(?b - ?f) * ?s + 512 < 2 ^ 64" by linarith+
  then have free: "unat (kscale_u64 (sv_bfree sv) (sv_frsize sv)) = (?f * ?s + 512) div 1024"
    and used: "unat (kscale_u64 (sv_blocks sv - sv_bfree sv) (sv_frsize sv)) = ((?b - ?f) * ?s + 512) div 1024"
    using sub kscale_u64_exact [of "sv_blocks sv - sv_bfree sv"] kscale_u64_exact [of "sv_bfree sv"] by simp_all
  have total: "unat (kscale_u64 (sv_blocks sv) (sv_frsize sv)) = (?b * ?s + 512) div 1024"
    using assms(1) by (rule kscale_u64_exact)
  have "fs_table sv =
     [(''total'', BU64 (kscale_u64 (sv_blocks sv) (sv_frsize sv))), (''free'', BU64 (kscale_u64 (sv_bfree sv) (sv_frsize sv))),
      (''used'', BU64 (kscale_u64 (sv_blocks sv - sv_bfree sv) (sv_frsize sv))), (''avail'', BU64 (kscale_u64 (sv_bavail sv) (sv_frsize sv)))]"
    using assms(2) by (simp add: fs_table_def Let_def)
  moreover note kib_rounding [of "?f * ?s" "(?b - ?f) * ?s", folded split, folded total free used]
  ultimately show ?thesis using total free by (metis add.commute)
qed

theorem fs_table_sizes_witness:
  "\<exists>total free used avail.
     fs_table \<lparr>sv_bsize = 4096, sv_frsize = 512, sv_blocks = 2001, sv_bfree = 1001, sv_bavail = 900\<rparr>
       = [(''total'', BU64 total), (''free'', BU64 free), (''used'', BU64 used), (''avail'', BU64 avail)]
     \<and> unat total = 1001 \<and> unat free = 501 \<and> unat used + unat free \<le> unat total + 1 \<and> unat total \<le> unat used + unat free + 1"
  using fs_table_sizes [of "\<lparr>sv_bsize = 4096, sv_frsize = 512, sv_blocks = 2001, sv_bfree = 1001, sv_bavail = 900\<rparr>"]
  by simp

subsection \<open>Start-up\<close>

definition attempt_ok :: "attempt \<Rightarrow> bool" where
  "attempt_ok a \<longleftrightarrow> at_connect a \<and> at_service a = 0 \<and> at_system a = 0 \<and> at_events a = 0"

lemma register_zero: "fst (register a) = 0 \<longleftrightarrow> at_service a = 0 \<and> at_system a = 0 \<and> at_events a = 0"
  by (simp add: register_def)

lemma register_ok: "register a = (0, regs) \<Longrightarrow> regs = [DAdded ''service'', DAdded ''system'', DListening ''*'']"
  by (auto simp: register_def split: if_splits)

lemma register_counts [simp]: "register a = (rc, regs) \<Longrightarrow> count_list regs DConnected = 0 \<and> count_list regs DFreed = 0 \<and> (\<forall>m s. DNotify m s \<notin> set regs) \<and> (\<forall>n. count_list regs (DSleep n) = 0)"
  by (auto simp: register_def split: if_splits)

lemma connect_loop_rc:
  "fst (connect_loop n ubus i) = (if \<exists>j < n. attempt_ok (ubus (i + j)) then 0 else -1)"
proof (induction n arbitrary: i)
  case (Suc n)
  have ex: "(\<exists>j < Suc n. attempt_ok (ubus (i + j))) \<longleftrightarrow> attempt_ok (ubus i) \<or> (\<exists>j < n. attempt_ok (ubus (Suc i + j)))"
    by (auto simp: less_Suc_eq_0_disj)
  obtain rc regs where "register (ubus i) = (rc, regs)" by fastforce
  with register_zero [of "ubus i"] Suc show ?case unfolding ex by (auto simp: attempt_ok_def case_prod_unfold Let_def)
qed simp

lemma connect_loop_contexts:
  "connect_loop n ubus i = (rc, tr) \<Longrightarrow>
   count_list tr DConnected = count_list tr DFreed + (if rc = 0 then 1 else 0) \<and> count_list tr DConnected \<le> n
   \<and> count_list tr (DSleep 100000) \<le> n \<and> (\<forall>m s. DNotify m s \<notin> set tr)"
proof (induction n arbitrary: i rc tr)
  case (Suc n)
  obtain rc1 regs where r: "register (ubus i) = (rc1, regs)" by fastforce
  obtain rc2 tr2 where c: "connect_loop n ubus (Suc i) = (rc2, tr2)" by fastforce
  from Suc.IH [OF c] register_counts [OF r] Suc.prems r c show ?case by (auto split: if_splits)
qed simp

text \<open>
  C17. The daemon makes at most 300 attempts, 100 ms apart, and succeeds exactly when in one of them
  ubus connects and all three registrations succeed. Every context it connects is freed exactly once
  before \<open>main\<close> returns, systemd is told READY only after the registrations succeeded, and the exit
  status is 0 exactly when the event loop ran.\<close>

theorem ubus_main_lifecycle:
  assumes "ubus_main uloop_ok ubus ready stopping = Some (rc, tr)"
  shows "count_list tr DFreed = count_list tr DConnected \<and>
    count_list tr DConnected \<le> 300 \<and> count_list tr (DSleep 100000) \<le> 300 \<and>
    ((\<exists>sent. DNotify ready_message sent \<in> set tr) \<longleftrightarrow> uloop_ok \<and> (\<exists>i < 300. attempt_ok (ubus i))) \<and>
    rc = (if DRun \<in> set tr then 0 else 1)"
proof -
  obtain crc ctr where c: "connect_loop 300 ubus 0 = (crc, ctr)" by fastforce
  have rc: "crc = (if \<exists>i < 300. attempt_ok (ubus i) then 0 else -1)"
    using connect_loop_rc [of 300 ubus 0] c by simp
  have run: "DRun \<notin> set (snd (connect_loop n ubus i))" for n i
    by (induction n arbitrary: i) (auto simp: case_prod_unfold Let_def register_def)
  have facts: "count_list ctr DConnected = count_list ctr DFreed + (if crc = 0 then 1 else 0)"
    "count_list ctr DConnected \<le> 300" "count_list ctr (DSleep 100000) \<le> 300" "\<forall>m s. DNotify m s \<notin> set ctr" "DRun \<notin> set ctr"
    using connect_loop_contexts [OF c] run [of 300 0] c by simp_all
  note unf = assms [unfolded ubus_main_def connect_and_register_def c]
  show ?thesis
  proof (intro conjI)
    show "count_list tr DFreed = count_list tr DConnected" "count_list tr DConnected \<le> 300"
      "count_list tr (DSleep 100000) \<le> 300" "rc = (if DRun \<in> set tr then 0 else 1)"
      using unf facts by (auto split: if_splits option.splits)
    show "(\<exists>sent. DNotify ready_message sent \<in> set tr) \<longleftrightarrow> uloop_ok \<and> (\<exists>i < 300. attempt_ok (ubus i))"
      using unf facts rc by (auto split: if_splits option.splits) blast
  qed
qed

definition late_ubus :: "nat \<Rightarrow> attempt" where
  "late_ubus i = \<lparr>at_connect = (i \<noteq> 0), at_service = 0, at_system = (if i = 1 then 4 else 0), at_events = 0\<rparr>"

lemma connect_late:
  "connect_loop (Suc (Suc (Suc n))) late_ubus 0 =
     (0, [DSleep 100000, DConnected, DAddUloop, DAdded ''service'', DFreed, DSleep 100000,
          DConnected, DAddUloop, DAdded ''service'', DAdded ''system'', DListening ''*''])"
  by (simp add: late_ubus_def register_def)

theorem ubus_main_lifecycle_witness:
  "\<exists>tr. ubus_main True late_ubus notify_demo notify_demo = Some (0, tr)
     \<and> count_list tr DFreed = 2 \<and> count_list tr DConnected = 2 \<and> (\<exists>i < 300. attempt_ok (late_ubus i))"
proof -
  have conn: "connect_loop 300 late_ubus 0 =
     (0, [DSleep 100000, DConnected, DAddUloop, DAdded ''service'', DFreed, DSleep 100000,
          DConnected, DAddUloop, DAdded ''service'', DAdded ''system'', DListening ''*''])"
    using connect_late [of 297] by simp
  obtain sent sent2 where s: "systemd_notify notify_demo ready_message = Some (0, sent)"
    "systemd_notify notify_demo (''STOPPING=1'' @ [newline]) = Some (0, sent2)"
    by (simp add: systemd_notify_def notify_demo_def notify_addr_def)
  then obtain tr where run: "ubus_main True late_ubus notify_demo notify_demo = Some (0, tr)"
    and tr: "count_list tr DConnected = 2" "DNotify ready_message sent \<in> set tr"
    by (simp add: ubus_main_def connect_and_register_def conn)
  with ubus_main_lifecycle [OF run] show ?thesis by auto
qed

end
