(* ===== verification/Nvram.thy ===== *)
theory Nvram
  imports CLib "HOL-Library.Multiset"
begin

text \<open>
  The NVRAM library and command (src/package/utils/nvram/src/nvram.c, crc.c, cli.c): variables kept in
  a hash table of 257 chains, read from and written to a flash partition as \<open>name=value\<close> texts
  behind a header with a CRC-8.

  The mapping of the partition is its bytes; the header is the view of 20 of them, in the little-endian
  order of the machines this library is built for. A tuple is a pair of name and value and a chain a
  list of them. A write outside of the mapping is the value \<open>None\<close>. Allocation does not fail; the
  address of the mapping is a parameter, because \<open>nvram_commit\<close> computes with it.
\<close>

unbundle bit_operations_syntax

subsection \<open>CRC-8\<close>

definition crc8_table :: "8 word list" where
  "crc8_table = [
	0x00, 0xF7, 0xB9, 0x4E, 0x25, 0xD2, 0x9C, 0x6B,
	0x4A, 0xBD, 0xF3, 0x04, 0x6F, 0x98, 0xD6, 0x21,
	0x94, 0x63, 0x2D, 0xDA, 0xB1, 0x46, 0x08, 0xFF,
	0xDE, 0x29, 0x67, 0x90, 0xFB, 0x0C, 0x42, 0xB5,
	0x7F, 0x88, 0xC6, 0x31, 0x5A, 0xAD, 0xE3, 0x14,
	0x35, 0xC2, 0x8C, 0x7B, 0x10, 0xE7, 0xA9, 0x5E,
	0xEB, 0x1C, 0x52, 0xA5, 0xCE, 0x39, 0x77, 0x80,
	0xA1, 0x56, 0x18, 0xEF, 0x84, 0x73, 0x3D, 0xCA,
	0xFE, 0x09, 0x47, 0xB0, 0xDB, 0x2C, 0x62, 0x95,
	0xB4, 0x43, 0x0D, 0xFA, 0x91, 0x66, 0x28, 0xDF,
	0x6A, 0x9D, 0xD3, 0x24, 0x4F, 0xB8, 0xF6, 0x01,
	0x20, 0xD7, 0x99, 0x6E, 0x05, 0xF2, 0xBC, 0x4B,
	0x81, 0x76, 0x38, 0xCF, 0xA4, 0x53, 0x1D, 0xEA,
	0xCB, 0x3C, 0x72, 0x85, 0xEE, 0x19, 0x57, 0xA0,
	0x15, 0xE2, 0xAC, 0x5B, 0x30, 0xC7, 0x89, 0x7E,
	0x5F, 0xA8, 0xE6, 0x11, 0x7A, 0x8D, 0xC3, 0x34,
	0xAB, 0x5C, 0x12, 0xE5, 0x8E, 0x79, 0x37, 0xC0,
	0xE1, 0x16, 0x58, 0xAF, 0xC4, 0x33, 0x7D, 0x8A,
	0x3F, 0xC8, 0x86, 0x71, 0x1A, 0xED, 0xA3, 0x54,
	0x75, 0x82, 0xCC, 0x3B, 0x50, 0xA7, 0xE9, 0x1E,
	0xD4, 0x23, 0x6D, 0x9A, 0xF1, 0x06, 0x48, 0xBF,
	0x9E, 0x69, 0x27, 0xD0, 0xBB, 0x4C, 0x02, 0xF5,
	0x40, 0xB7, 0xF9, 0x0E, 0x65, 0x92, 0xDC, 0x2B,
	0x0A, 0xFD, 0xB3, 0x44, 0x2F, 0xD8, 0x96, 0x61,
	0x55, 0xA2, 0xEC, 0x1B, 0x70, 0x87, 0xC9, 0x3E,
	0x1F, 0xE8, 0xA6, 0x51, 0x3A, 0xCD, 0x83, 0x74,
	0xC1, 0x36, 0x78, 0x8F, 0xE4, 0x13, 0x5D, 0xAA,
	0x8B, 0x7C, 0x32, 0xC5, 0xAE, 0x59, 0x17, 0xE0,
	0x2A, 0xDD, 0x93, 0x64, 0x0F, 0xF8, 0xB6, 0x41,
	0x60, 0x97, 0xD9, 0x2E, 0x45, 0xB2, 0xFC, 0x0B,
	0xBE, 0x49, 0x07, 0xF0, 0x9B, 0x6C, 0x22, 0xD5,
	0xF4, 0x03, 0x4D, 0xBA, 0xD1, 0x26, 0x68, 0x9F]"

definition byte_of :: "char \<Rightarrow> 8 word" where
  "byte_of c = of_nat (of_char c)"

definition char_of_byte :: "8 word \<Rightarrow> char" where
  "char_of_byte b = char_of (unat b)"

definition hndcrc8 :: "string \<Rightarrow> 8 word \<Rightarrow> 8 word" where
  "hndcrc8 bytes crc = fold (\<lambda>c crc. crc8_table ! unat (crc XOR byte_of c)) bytes crc"

subsection \<open>The header\<close>

record nvram_header =
  nh_magic :: "32 word"
  nh_len :: "32 word"
  nh_crc_ver_init :: "32 word"
  nh_config_refresh :: "32 word"
  nh_config_ncdl :: "32 word"

abbreviation (input) NVRAM_MAGIC :: "32 word" where "NVRAM_MAGIC \<equiv> 0x48534C46"
abbreviation (input) NVRAM_MIN_SPACE :: nat where "NVRAM_MIN_SPACE \<equiv> 0x8000"
abbreviation (input) NVRAM_CRC_START_POSITION :: nat where "NVRAM_CRC_START_POSITION \<equiv> 9"
abbreviation (input) HEADER_SIZE :: nat where "HEADER_SIZE \<equiv> 20"
abbreviation (input) SDRAM_INIT :: "32 word" where "SDRAM_INIT \<equiv> 0x419"
abbreviation (input) SDRAM_CONFIG :: "32 word" where "SDRAM_CONFIG \<equiv> 0"
abbreviation (input) SDRAM_REFRESH :: "32 word" where "SDRAM_REFRESH \<equiv> (0x40 AND 0xFF) OR 0x8000"

definition put32 :: "32 word \<Rightarrow> string" where
  "put32 x = map (\<lambda>i. char_of_byte (ucast (drop_bit (8 * i) x))) [0, 1, 2, 3]"

definition get32 :: "string \<Rightarrow> 32 word" where
  "get32 s = foldr (\<lambda>c acc. push_bit 8 acc OR ucast (byte_of c)) (take 4 s) 0"

definition header_bytes :: "nvram_header \<Rightarrow> string" where
  "header_bytes hdr = put32 (nh_magic hdr) @ put32 (nh_len hdr) @ put32 (nh_crc_ver_init hdr)
     @ put32 (nh_config_refresh hdr) @ put32 (nh_config_ncdl hdr)"

definition header_of :: "string \<Rightarrow> nvram_header" where
  "header_of s = \<lparr>nh_magic = get32 s, nh_len = get32 (drop 4 s), nh_crc_ver_init = get32 (drop 8 s),
     nh_config_refresh = get32 (drop 12 s), nh_config_ncdl = get32 (drop 16 s)\<rparr>"

subsection \<open>The hash table\<close>

type_synonym tuple = "string \<times> string"

record nvram_handle =
  h_mmap :: string
  h_base :: int
  h_offset :: nat
  h_hash :: "tuple list list"
  h_dead :: "tuple list"

abbreviation (input) NHASH :: nat where "NHASH \<equiv> 257"

text \<open>A plain \<open>char\<close> is signed on some of the machines: \<open>sc\<close>.\<close>

definition char_value :: "bool \<Rightarrow> char \<Rightarrow> 32 word" where
  "char_value sc c = (if sc then scast (byte_of c) else ucast (byte_of c))"

definition hash :: "bool \<Rightarrow> string \<Rightarrow> 32 word" where
  "hash sc s = fold (\<lambda>c h. 31 * h + char_value sc c) s 0"

definition bucket :: "bool \<Rightarrow> string \<Rightarrow> nat" where
  "bucket sc name = unat (hash sc name mod 257)"

definition nvram_header_at :: "nvram_handle \<Rightarrow> nvram_header" where
  "nvram_header_at h = header_of (drop (h_offset h) (h_mmap h))"

definition nvram_free :: "nvram_handle \<Rightarrow> nvram_handle" where
  "nvram_free h = h\<lparr>h_hash := replicate NHASH [], h_dead := []\<rparr>"

definition nvram_get :: "bool \<Rightarrow> nvram_handle \<Rightarrow> string \<Rightarrow> string option" where
  "nvram_get sc h name = map_of (h_hash h ! bucket sc name) name"

text \<open>
  The chain after the value of the tuple of \<open>name\<close> was replaced in place: \<open>_nvram_realloc\<close> returns
  the tuple it was given, so \<open>nvram_set\<close> never moves one to the dead table.
\<close>

fun chain_replace :: "string \<Rightarrow> string \<Rightarrow> tuple list \<Rightarrow> tuple list" where
  "chain_replace name v [] = []"
| "chain_replace name v ((n, x) # ts) = (if n = name then (n, v) # ts else (n, x) # chain_replace name v ts)"

definition nvram_set :: "bool \<Rightarrow> nvram_handle \<Rightarrow> string \<Rightarrow> string \<Rightarrow> int \<times> nvram_handle" where
  "nvram_set sc h name v =
     (let i = bucket sc name; chain = h_hash h ! i in
      if length v + 1 > length (h_mmap h) - h_offset h then (-12, h)
      else if map_of chain name \<noteq> None
      then (0, h\<lparr>h_hash := (h_hash h)[i := chain_replace name v chain]\<rparr>)
      else (0, h\<lparr>h_hash := (h_hash h)[i := (name, v) # chain]\<rparr>))"

fun chain_remove :: "string \<Rightarrow> tuple list \<Rightarrow> tuple list" where
  "chain_remove name [] = []"
| "chain_remove name ((n, x) # ts) = (if n = name then ts else (n, x) # chain_remove name ts)"

definition nvram_unset :: "bool \<Rightarrow> nvram_handle \<Rightarrow> string \<Rightarrow> int \<times> nvram_handle" where
  "nvram_unset sc h name =
     (let i = bucket sc name; chain = h_hash h ! i in
      case map_of chain name of
        None \<Rightarrow> (0, h)
      | Some v \<Rightarrow> (0, h\<lparr>h_hash := (h_hash h)[i := chain_remove name chain], h_dead := (name, v) # h_dead h\<rparr>))"

definition nvram_getall :: "nvram_handle \<Rightarrow> tuple list" where
  "nvram_getall h = rev (concat (h_hash h))"

subsection \<open>Reading and writing the partition\<close>

function parse_tuples :: "string \<Rightarrow> tuple list" where
  "parse_tuples s =
     (let c = cstr s in
      if c = [] \<or> CHR ''='' \<notin> set c then []
      else (takeWhile (\<lambda>x. x \<noteq> CHR ''='') c, tl (dropWhile (\<lambda>x. x \<noteq> CHR ''='') c))
           # parse_tuples (drop (length c + 1) s))"
  by pat_completeness auto
termination
proof (relation "measure length", simp, goal_cases)
  case (1 s x)
  then have "s \<noteq> []" by auto
  with 1 show ?case by simp
qed

declare parse_tuples.simps [simp del]

definition set_default :: "bool \<Rightarrow> string \<Rightarrow> string \<Rightarrow> nvram_handle \<Rightarrow> nvram_handle" where
  "set_default sc name v h = (if nvram_get sc h name = None then snd (nvram_set sc h name v) else h)"

definition nvram_rehash :: "bool \<Rightarrow> nvram_handle \<Rightarrow> nvram_handle" where
  "nvram_rehash sc h =
     (let hdr = nvram_header_at h;
          h = nvram_free h;
          h = fold (\<lambda>(name, v) h. snd (nvram_set sc h name v)) (parse_tuples (drop (h_offset h + HEADER_SIZE) (h_mmap h))) h;
          h = set_default sc ''sdram_init'' (''0x'' @ hex_pad 4 (unat (ucast (drop_bit 16 (nh_crc_ver_init hdr)) :: 16 word))) h;
          h = set_default sc ''sdram_config'' (''0x'' @ hex_pad 4 (unat (ucast (nh_config_refresh hdr AND 0xFFFF) :: 16 word))) h;
          h = set_default sc ''sdram_refresh''
                (''0x'' @ hex_pad 4 (unat (ucast (drop_bit 16 (nh_config_refresh hdr) AND 0xFFFF) :: 16 word))) h
      in set_default sc ''sdram_ncdl'' (''0x'' @ hex_pad 8 (unat (nh_config_ncdl hdr))) h)"

text \<open>\<open>strtoul\<close>, whose result of 64 bits is stored in a field of 32.\<close>

definition strtoul32 :: "string \<Rightarrow> 32 word" where
  "strtoul32 s = of_nat (strtou 64 0 s)"

definition commit_header :: "bool \<Rightarrow> nvram_handle \<Rightarrow> nvram_header" where
  "commit_header sc h =
     (case (nvram_get sc h ''sdram_init'', nvram_get sc h ''sdram_config'', nvram_get sc h ''sdram_refresh'', nvram_get sc h ''sdram_ncdl'') of
        (Some init, Some config, Some refresh, Some ncdl) \<Rightarrow>
          \<lparr>nh_magic = NVRAM_MAGIC, nh_len = nh_len (nvram_header_at h),
           nh_crc_ver_init = push_bit 8 1 OR push_bit 16 (strtoul32 init AND 0xFFFF),
           nh_config_refresh = (strtoul32 config AND 0xFFFF) OR push_bit 16 (strtoul32 refresh AND 0xFFFF),
           nh_config_ncdl = strtoul32 ncdl\<rparr>
      | _ \<Rightarrow>
          \<lparr>nh_magic = NVRAM_MAGIC, nh_len = nh_len (nvram_header_at h),
           nh_crc_ver_init = push_bit 8 1 OR push_bit 16 SDRAM_INIT,
           nh_config_refresh = SDRAM_CONFIG OR push_bit 16 SDRAM_REFRESH,
           nh_config_ncdl = 0\<rparr>)"

text \<open>
  The texts written, and \<open>room\<close>, the bytes up to \<open>end\<close>: a tuple that does not fit ends its chain,
  and the next chain is tried.
\<close>

definition tuple_text :: "tuple \<Rightarrow> string" where
  "tuple_text = (\<lambda>(n, v). n @ ''='' @ v @ [NUL])"

fun write_chain :: "nat \<Rightarrow> tuple list \<Rightarrow> string \<Rightarrow> string" where
  "write_chain room [] out = out"
| "write_chain room (t # ts) out =
     (if length out + length (tuple_text t) > room then out else write_chain room ts (out @ tuple_text t))"

definition write_tuples :: "nat \<Rightarrow> tuple list list \<Rightarrow> string" where
  "write_tuples room table = fold (write_chain room) table []"

text \<open>\<open>(int)ptr % 4\<close>: the remainder has the sign of the address.\<close>

definition c_rem4 :: "int \<Rightarrow> int" where
  "c_rem4 x = (if x < 0 then - ((- x) mod 4) else x mod 4)"

definition pad_length :: "int \<Rightarrow> nat" where
  "pad_length ptr = (if c_rem4 ptr \<noteq> 0 then nat (4 - c_rem4 ptr) else 0)"

definition roundup4 :: "nat \<Rightarrow> nat" where
  "roundup4 x = ((x + 3) div 4) * 4"

definition put_bytes :: "nat \<Rightarrow> string \<Rightarrow> string \<Rightarrow> string" where
  "put_bytes at bs m = take at m @ bs @ drop (at + length bs) m"

text \<open>
  \<open>nvram_commit\<close> up to the write-out: the area behind the header is filled with 0xFF, then the
  texts, a NUL and the padding are written from its start.
\<close>

definition commit_area :: "nvram_handle \<Rightarrow> (string \<times> nat) option" where
  "commit_area h =
     (let area = length (h_mmap h) - h_offset h - HEADER_SIZE;
          txt = write_tuples (area - 2) (h_hash h);
          ptr = h_base h + int (h_offset h) + int HEADER_SIZE + int (length txt) + 1;
          new = txt @ NUL # replicate (pad_length ptr) NUL
      in if length new > area then None
         else Some (new @ replicate (area - length new) (CHR 0xFF), roundup4 (HEADER_SIZE + length txt + 2)))"

definition commit_crc :: "nvram_header \<Rightarrow> string \<Rightarrow> 8 word" where
  "commit_crc hdr data =
     hndcrc8 (take (unat (nh_len hdr) - HEADER_SIZE) data)
       (hndcrc8 (drop NVRAM_CRC_START_POSITION (header_bytes (hdr\<lparr>nh_magic := 0, nh_len := 0\<rparr>))) 0xFF)"

definition commit_image :: "bool \<Rightarrow> nvram_handle \<Rightarrow> string option" where
  "commit_image sc h =
     (case commit_area h of
        None \<Rightarrow> None
      | Some (data, len) \<Rightarrow>
          let hdr = (commit_header sc h)\<lparr>nh_len := of_nat len\<rparr>;
              hdr' = hdr\<lparr>nh_crc_ver_init := nh_crc_ver_init hdr OR ucast (commit_crc hdr data)\<rparr>
          in Some (put_bytes (h_offset h) (header_bytes hdr' @ data) (h_mmap h)))"

definition nvram_commit :: "bool \<Rightarrow> nvram_handle \<Rightarrow> (int \<times> nvram_handle) option" where
  "nvram_commit sc h =
     (case commit_image sc h of
        None \<Rightarrow> None
      | Some m \<Rightarrow> Some (0, nvram_rehash sc (h\<lparr>h_mmap := m\<rparr>)))"

text \<open>
  \<open>nvram_open\<close> on the mapped file: the first word with the magic number among those that leave
  \<open>NVRAM_MIN_SPACE\<close> bytes, with the subtraction of the source in 32 bits. \<open>OpenFault\<close> is a read
  outside of the mapping.
\<close>

datatype open_result = OpenFault | OpenFailed | Opened nvram_handle

definition scan_limit :: "nat \<Rightarrow> nat" where
  "scan_limit part = unat ((of_nat part - of_nat NVRAM_MIN_SPACE) :: 32 word) div 4"

text \<open>The indices still to be looked at are \<open>n\<close>, from \<open>i\<close> on.\<close>

datatype scan_result = ScanFault | ScanNone | ScanAt nat

fun scan_magic :: "string \<Rightarrow> nat \<Rightarrow> nat \<Rightarrow> scan_result" where
  "scan_magic m 0 i = ScanNone"
| "scan_magic m (Suc n) i =
     (if 4 * i + 4 > length m then ScanFault
      else if get32 (drop (4 * i) m) = NVRAM_MAGIC then ScanAt (4 * i)
      else scan_magic m n (Suc i))"

definition nvram_open :: "bool \<Rightarrow> bool \<Rightarrow> int \<Rightarrow> string \<Rightarrow> open_result" where
  "nvram_open sc rdonly base m =
     (case scan_magic m (scan_limit (length m) + 1) 0 of
        ScanFault \<Rightarrow> OpenFault
      | ScanNone \<Rightarrow> OpenFailed
      | ScanAt off \<Rightarrow>
          let h = \<lparr>h_mmap = m, h_base = base, h_offset = off, h_hash = replicate NHASH [], h_dead = []\<rparr>;
              hdr = nvram_header_at h
          in if nh_magic hdr = NVRAM_MAGIC \<and> (rdonly \<or> unat (nh_len hdr) < length m - off)
             then Opened (nvram_rehash sc h) else OpenFailed)"

subsection \<open>Staging file and command line\<close>

text \<open>
  /proc/mtd is the list of its lines as the kernel prints them: device number, size and name. The
  device files, the staging file and the lines printed are the world; what a device keeps of a write,
  which device nodes are block devices, and whether the staging file can be created and removed are
  parameters.
\<close>

record nv_env =
  e_mtds :: "(nat \<times> nat \<times> string) list"
  e_blk :: "nat \<Rightarrow> bool"
  e_dev_write :: "string \<Rightarrow> string \<Rightarrow> string"
  e_creat :: bool
  e_unlink :: bool
  e_base :: int

record nv_world =
  nv_part :: nat
  nv_dev :: "nat \<Rightarrow> string option"
  nv_staging :: "string option"
  nv_out :: "string list"

definition contains_nvram :: "string \<Rightarrow> bool" where
  "contains_nvram s \<longleftrightarrow> list_ex (\<lambda>i. take 5 (drop i s) = ''nvram'') [0..<length s]"

fun find_mtd_loop :: "(nat \<Rightarrow> bool) \<Rightarrow> (nat \<times> nat \<times> string) list \<Rightarrow> nat \<Rightarrow> nat option \<times> nat" where
  "find_mtd_loop blk [] part = (None, part)"
| "find_mtd_loop blk ((i, sz, name) # rest) part =
     (if contains_nvram name then (if blk i then (Some i, sz) else find_mtd_loop blk rest sz)
      else find_mtd_loop blk rest part)"

definition nvram_find_mtd :: "nv_env \<Rightarrow> nv_world \<Rightarrow> nat option \<times> nv_world" where
  "nvram_find_mtd env w = (let (dev, part) = find_mtd_loop (e_blk env) (e_mtds env) (nv_part w) in (dev, w\<lparr>nv_part := part\<rparr>))"

definition nvram_to_staging :: "nv_env \<Rightarrow> nv_world \<Rightarrow> int \<times> nv_world" where
  "nvram_to_staging env w =
     (case nvram_find_mtd env w of
        (None, w) \<Rightarrow> (-1, w)
      | (Some i, w) \<Rightarrow>
          if nv_part w = 0 then (-1, w)
          else case nv_dev w i of
                 None \<Rightarrow> (-1, w)
               | Some content \<Rightarrow>
                   if length content < nv_part w then (-1, w)
                   else if \<not> e_creat env then (-1, w)
                   else let buf = take (nv_part w) content; old = (case nv_staging w of None \<Rightarrow> [] | Some s \<Rightarrow> s)
                        in (0, w\<lparr>nv_staging := Some (put_bytes 0 buf old)\<rparr>))"

definition staging_to_nvram :: "nv_env \<Rightarrow> nv_world \<Rightarrow> int \<times> nv_world" where
  "staging_to_nvram env w =
     (case nvram_find_mtd env w of
        (None, w) \<Rightarrow> (-1, w)
      | (Some i, w) \<Rightarrow>
          if nv_part w = 0 then (-1, w)
          else case nv_staging w of
                 None \<Rightarrow> (-1, w)
               | Some content \<Rightarrow>
                   if length content < nv_part w then (-1, w)
                   else case nv_dev w i of
                          None \<Rightarrow> (-1, w)
                        | Some old \<Rightarrow>
                            let w' = w\<lparr>nv_dev := (nv_dev w)(i \<mapsto> e_dev_write env old (take (nv_part w) content))\<rparr>
                            in if e_unlink env then (0, w'\<lparr>nv_staging := None\<rparr>) else (1, w'))"

text \<open>
  \<open>nvram_open\<close> of a file with the given contents; a file shorter than the partition faults when the
  scan reaches its end.
\<close>

definition open_content :: "nv_env \<Rightarrow> bool \<Rightarrow> bool \<Rightarrow> string option \<Rightarrow> nv_world \<Rightarrow> open_result \<times> nv_world" where
  "open_content env sc rdonly content w =
     (let (dev, w) = (if nv_part w = 0 then nvram_find_mtd env w else (Some 0, w)) in
      if dev = None \<or> nv_part w = 0 then (OpenFailed, w)
      else case content of
             None \<Rightarrow> (OpenFailed, w)
           | Some s \<Rightarrow> if length s < nv_part w then (OpenFault, w)
                        else (nvram_open sc rdonly (e_base env) (take (nv_part w) s), w))"

definition nvram_open_rdonly :: "nv_env \<Rightarrow> bool \<Rightarrow> nv_world \<Rightarrow> open_result \<times> nv_world" where
  "nvram_open_rdonly env sc w =
     (if nv_staging w \<noteq> None then open_content env sc True (nv_staging w) w
      else case nvram_find_mtd env w of
             (None, w) \<Rightarrow> (OpenFailed, w)
           | (Some i, w) \<Rightarrow> open_content env sc True (nv_dev w i) w)"

definition nvram_open_staging :: "nv_env \<Rightarrow> bool \<Rightarrow> nv_world \<Rightarrow> open_result \<times> nv_world" where
  "nvram_open_staging env sc w =
     (if nv_staging w \<noteq> None then open_content env sc False (nv_staging w) w
      else let (rc, w) = nvram_to_staging env w
           in if rc = 0 then open_content env sc False (nv_staging w) w else (OpenFailed, w))"

definition print_line :: "string \<Rightarrow> nv_world \<Rightarrow> nv_world" where
  "print_line l w = w\<lparr>nv_out := nv_out w @ [l]\<rparr>"

definition do_show :: "nvram_handle \<Rightarrow> nv_world \<Rightarrow> int \<times> nv_world" where
  "do_show h w =
     (if nvram_getall h = [] then (1, w)
      else (0, fold (\<lambda>(n, v). print_line (n @ ''='' @ v)) (nvram_getall h) w))"

definition do_get :: "bool \<Rightarrow> nvram_handle \<Rightarrow> string \<Rightarrow> nv_world \<Rightarrow> int \<times> nv_world" where
  "do_get sc h var w = (case nvram_get sc h var of None \<Rightarrow> (1, w) | Some v \<Rightarrow> (0, print_line v w))"

definition do_set :: "bool \<Rightarrow> nvram_handle \<Rightarrow> string \<Rightarrow> int \<times> nvram_handle" where
  "do_set sc h pair =
     (if CHR ''='' \<notin> set pair then (1, h)
      else nvram_set sc h (takeWhile (\<lambda>c. c \<noteq> CHR ''='') pair) (tl (dropWhile (\<lambda>c. c \<noteq> CHR ''='') pair)))"

text \<open>The lines of \<open>do_info\<close> up to the percentage, which the source prints with \<open>%.2f\<close>.\<close>

definition info_crc :: "nvram_handle \<Rightarrow> 8 word" where
  "info_crc h = hndcrc8 (take (unat (nh_len (nvram_header_at h)) - NVRAM_CRC_START_POSITION)
     (drop NVRAM_CRC_START_POSITION (drop (h_offset h) (h_mmap h)))) 0xFF"

definition do_info :: "nvram_handle \<Rightarrow> nv_world \<Rightarrow> int \<times> nv_world" where
  "do_info h w =
     (let hdr = nvram_header_at h in
      (0, fold print_line
        [''Magic:         0x'' @ hex_pad 8 (unat (nh_magic hdr)),
         ''Length:        0x'' @ hex_pad 8 (unat (nh_len hdr)),
         ''Offset:        0x'' @ hex_pad 8 (h_offset h),
         ''CRC8:          0x'' @ hex_pad 2 (unat (nh_crc_ver_init hdr AND 0xFF)) @ '' (calculated: 0x'' @ hex_pad 2 (unat (info_crc h)) @ '')'',
         ''Version:       0x'' @ hex_pad 2 (unat (drop_bit 8 (nh_crc_ver_init hdr) AND 0xFF)),
         ''SDRAM init:    0x'' @ hex_pad 4 (unat (drop_bit 16 (nh_crc_ver_init hdr) AND 0xFFFF)),
         ''SDRAM config:  0x'' @ hex_pad 4 (unat (nh_config_refresh hdr AND 0xFFFF)),
         ''SDRAM refresh: 0x'' @ hex_pad 4 (unat (drop_bit 16 (nh_config_refresh hdr) AND 0xFFFF)),
         ''NCDL values:   0x'' @ hex_pad 8 (unat (nh_config_ncdl hdr)), []] w))"

text \<open>The argument loop: the handle, the status, the number of commands done and whether to commit.\<close>

record cli_state =
  c_handle :: nvram_handle
  c_stat :: int
  c_done :: nat
  c_commit :: bool

function cli_loop :: "bool \<Rightarrow> string list \<Rightarrow> cli_state \<Rightarrow> nv_world \<Rightarrow> cli_state \<times> nv_world" where
  "cli_loop sc [] c w = (c, w)"
| "cli_loop sc (a # rest) c w =
     (if a = ''show'' then
        (let (st, w') = do_show (c_handle c) w in cli_loop sc rest (c\<lparr>c_stat := st, c_done := c_done c + 1\<rparr>) w')
      else if a = ''info'' then
        (let (st, w') = do_info (c_handle c) w in cli_loop sc rest (c\<lparr>c_stat := st, c_done := c_done c + 1\<rparr>) w')
      else if a = ''get'' \<or> a = ''unset'' \<or> a = ''set'' then
        (case rest of
           [] \<Rightarrow> (c\<lparr>c_done := 0\<rparr>, w)
         | x # rest' \<Rightarrow>
             if a = ''get'' then
               (let (st, w') = do_get sc (c_handle c) x w in cli_loop sc rest' (c\<lparr>c_stat := st, c_done := c_done c + 1\<rparr>) w')
             else
               (let (st, h) = (if a = ''unset'' then nvram_unset sc (c_handle c) x else do_set sc (c_handle c) x)
                in cli_loop sc rest' (c\<lparr>c_handle := h, c_stat := st, c_done := c_done c + 1\<rparr>) w))
      else if a = ''commit'' then cli_loop sc rest (c\<lparr>c_commit := True, c_done := c_done c + 1\<rparr>) w
      else (c\<lparr>c_done := 0\<rparr>, w))"
  by pat_completeness auto
termination
  by (relation "measure (\<lambda>(sc, args, c, w). length args)") simp_all

text \<open>
  \<open>main\<close>: the exit status and the world; \<open>None\<close> is a memory fault. A handle for writing is a
  shared mapping of the staging file, so a commit changes that file.
\<close>

definition cli_main :: "nv_env \<Rightarrow> bool \<Rightarrow> string list \<Rightarrow> nv_world \<Rightarrow> (int \<times> nv_world) option" where
  "cli_main env sc args w =
     (case args of
        [] \<Rightarrow> Some (1, w)
      | a # rest \<Rightarrow>
          let write = ((a = ''set'' \<and> rest \<noteq> []) \<or> (a = ''unset'' \<and> rest \<noteq> []) \<or> a = ''commit'') in
          case (if write then nvram_open_staging env sc w else nvram_open_rdonly env sc w) of
            (OpenFault, w) \<Rightarrow> None
          | (OpenFailed, w) \<Rightarrow> Some (1, w)
          | (Opened h, w) \<Rightarrow>
              let (c, w) = cli_loop sc args \<lparr>c_handle = h, c_stat = 1, c_done = 0, c_commit = False\<rparr> w in
              case (if write then map_option (\<lambda>(rc, h'). (rc, w\<lparr>nv_staging := map_option (put_bytes 0 (h_mmap h')) (nv_staging w)\<rparr>))
                                   (nvram_commit sc (c_handle c))
                    else Some (c_stat c, w)) of
                None \<Rightarrow> None
              | Some (st, w) \<Rightarrow>
                  let (st, w) = (if c_commit c then staging_to_nvram env w else (st, w))
                  in Some (if c_done c = 0 then 1 else st, w))"

section \<open>Properties\<close>

subsection \<open>CRC-8\<close>

text \<open>
  One bit of the division by the polynomial of the comment in crc.c, 0xD5, least significant bit first;
  a byte is eight of them.
\<close>

definition crc8_bit :: "8 word \<Rightarrow> 8 word" where
  "crc8_bit r = (if odd r then (r div 2) XOR 0xAB else r div 2)"

definition crc8_byte :: "8 word \<Rightarrow> 8 word" where
  "crc8_byte r = crc8_bit (crc8_bit (crc8_bit (crc8_bit (crc8_bit (crc8_bit (crc8_bit (crc8_bit r)))))))"

text \<open>The same on integers, where the whole table is evaluated.\<close>

definition crc8_ibit :: "int \<Rightarrow> int" where
  "crc8_ibit n = (if odd n then (n div 2) XOR 171 else n div 2)"

definition crc8_ibyte :: "int \<Rightarrow> int" where
  "crc8_ibyte n = crc8_ibit (crc8_ibit (crc8_ibit (crc8_ibit (crc8_ibit (crc8_ibit (crc8_ibit (crc8_ibit n)))))))"

lemma crc8_table_ints: "map uint crc8_table = map crc8_ibyte [0..255]"
  by code_simp

lemma uint_crc8_bit: "uint (crc8_bit r) = crc8_ibit (uint r)"
proof -
  have "uint (r div 2) = uint r div 2" by (simp add: uint_div)
  moreover have "odd (uint r) = odd r" by transfer simp
  ultimately show ?thesis by (simp add: crc8_bit_def crc8_ibit_def unsigned_xor_eq)
qed

lemma crc8_table_nth: "crc8_table ! unat r = crc8_byte r"
proof -
  have len: "length crc8_table = 256" using arg_cong [OF crc8_table_ints, of length] by simp
  have "unat r < 256" using unsigned_less [of r, where ?'a = nat] by simp
  then have "uint (crc8_table ! unat r) = crc8_ibyte (int (unat r))"
    using arg_cong [OF crc8_table_ints, of "\<lambda>xs. xs ! unat r"] len by (simp add: nth_upto del: of_nat_unat)
  then have "uint (crc8_table ! unat r) = uint (crc8_byte r)"
    by (simp add: crc8_byte_def crc8_ibyte_def flip: uint_crc8_bit)
  then show ?thesis by (simp add: word_uint_eq_iff)
qed

lemma crc8_bit_top: "bit (crc8_bit r) 7 = odd r"
proof -
  have "\<not> bit (r div 2) 7" by (simp flip: drop_bit_eq_div [of 1, simplified]) (auto simp: bit_simps dest: bit_imp_le_length)
  then show ?thesis by (simp add: crc8_bit_def bit_xor_iff)
qed

lemma crc8_bit_inj: "crc8_bit a = crc8_bit b \<Longrightarrow> a = b"
proof -
  assume eq: "crc8_bit a = crc8_bit b"
  then have par: "odd a = odd b" by (metis crc8_bit_top)
  have "a div 2 = b div 2"
  proof (cases "odd a")
    case True
    with eq par have "(a div 2 XOR 0xAB) XOR 0xAB = (b div 2 XOR 0xAB) XOR 0xAB" by (simp add: crc8_bit_def)
    then show ?thesis by (simp add: xor.assoc)
  qed (use eq par in \<open>simp add: crc8_bit_def\<close>)
  with par show ?thesis by (metis div_mult_mod_eq mod2_eq_if)
qed

lemma crc8_byte_inj: "crc8_byte a = crc8_byte b \<longleftrightarrow> a = b"
  by (auto simp: crc8_byte_def dest!: crc8_bit_inj)

lemma hndcrc8_bitwise: "hndcrc8 bytes crc = fold (\<lambda>c crc. crc8_byte (crc XOR byte_of c)) bytes crc"
  by (simp add: hndcrc8_def crc8_table_nth)

lemma hndcrc8_append: "hndcrc8 (xs @ ys) crc = hndcrc8 ys (hndcrc8 xs crc)"
  by (simp add: hndcrc8_def)

lemma byte_of_inj: "byte_of a = byte_of b \<longleftrightarrow> a = b"
proof
  assume "byte_of a = byte_of b"
  then have "unat (byte_of a) = unat (byte_of b)" by simp
  then have "(of_char a :: nat) = of_char b" by (simp add: byte_of_def unat_of_nat take_bit_eq_mod)
  then show "a = b" by simp
qed simp

lemma hndcrc8_inj: "hndcrc8 bytes a = hndcrc8 bytes b \<longleftrightarrow> a = b"
proof (induction bytes arbitrary: a b)
  case (Cons c bytes)
  have "x XOR y = z XOR y \<longleftrightarrow> x = z" for x y z :: "8 word"
    by (metis xor.assoc xor_self_eq xor.right_neutral)
  with Cons show ?case by (simp add: hndcrc8_bitwise crc8_byte_inj)
qed (simp add: hndcrc8_def)

text \<open>
  C23. The table-driven checksum is the CRC of the documented polynomial: for every input and initial
  value it is the bit-by-bit division, it can be continued over the parts of a text, and it detects
  every change confined to a single byte.\<close>

theorem hndcrc8_correct:
  "hndcrc8 bytes crc = fold (\<lambda>c crc. crc8_byte (crc XOR byte_of c)) bytes crc \<and>
   hndcrc8 (xs @ ys) crc = hndcrc8 ys (hndcrc8 xs crc) \<and>
   (c \<noteq> c' \<longrightarrow> hndcrc8 (xs @ c # ys) crc \<noteq> hndcrc8 (xs @ c' # ys) crc)"
proof (intro conjI impI)
  assume "c \<noteq> c'"
  then have "r XOR byte_of c \<noteq> r XOR byte_of c'" for r
    by (metis byte_of_inj xor.assoc xor_self_eq xor.left_neutral)
  then have "hndcrc8 [c] r \<noteq> hndcrc8 [c'] r" for r by (simp add: hndcrc8_bitwise crc8_byte_inj)
  then show "hndcrc8 (xs @ c # ys) crc \<noteq> hndcrc8 (xs @ c' # ys) crc"
    using hndcrc8_append [of xs "c # ys" crc] hndcrc8_append [of xs "c' # ys" crc]
      hndcrc8_append [of "[c]" ys] hndcrc8_append [of "[c']" ys] by (simp add: hndcrc8_inj)
qed (rule hndcrc8_bitwise hndcrc8_append)+

theorem hndcrc8_correct_witness:
  "hndcrc8 ''nvram'' 0xFF \<noteq> hndcrc8 ''nvrem'' 0xFF"
proof -
  have "CHR ''a'' \<noteq> CHR ''e''" by simp
  with conjunct2 [OF conjunct2 [OF hndcrc8_correct], of "CHR ''a''" "CHR ''e''" "''nvr''" "''m''" "0xFF"]
  show ?thesis by (simp only: append.simps simp_thms)
qed

subsection \<open>The table is a map\<close>

text \<open>
  What the users of the variables rely on: a store with an invariant, whose \<open>put\<close> is refused when the
  value does not fit.
\<close>

lemma map_of_rev_distinct: "distinct (map fst kvs) \<Longrightarrow> map_of (rev kvs) = map_of kvs"
  by (rule map_of_eqI) (auto simp: map_of_eq_Some_iff rev_map [symmetric])

locale kv_store =
  fixes inv :: "'s \<Rightarrow> bool"
    and get :: "'s \<Rightarrow> 'k \<Rightarrow> 'v option"
    and put :: "'k \<Rightarrow> 'v \<Rightarrow> 's \<Rightarrow> 's"
    and del :: "'k \<Rightarrow> 's \<Rightarrow> 's"
    and fits :: "'s \<Rightarrow> 'v \<Rightarrow> bool"
  assumes inv_put: "inv s \<Longrightarrow> inv (put k v s)"
    and get_put: "inv s \<Longrightarrow> fits s v \<Longrightarrow> get (put k v s) = (get s)(k \<mapsto> v)"
    and put_refused: "\<not> fits s v \<Longrightarrow> put k v s = s"
    and fits_put: "fits (put k v s) x = fits s x"
    and inv_del: "inv s \<Longrightarrow> inv (del k s)"
    and get_del: "inv s \<Longrightarrow> get (del k s) = (get s)(k := None)"
begin

definition put_all :: "('k \<times> 'v) list \<Rightarrow> 's \<Rightarrow> 's" where
  "put_all kvs s = fold (\<lambda>(k, v). put k v) kvs s"

lemma put_all_simps [simp]:
  "put_all [] s = s"
  "put_all ((k, v) # kvs) s = put_all kvs (put k v s)"
  by (simp_all add: put_all_def)

lemma inv_put_all: "inv s \<Longrightarrow> inv (put_all kvs s)"
  by (induction kvs arbitrary: s) (auto simp: inv_put)

lemma fits_put_all: "fits (put_all kvs s) x = fits s x"
proof (induction kvs arbitrary: s)
  case (Cons kv kvs)
  then show ?case by (cases kv) (simp add: fits_put)
qed simp

lemma get_put_all:
  "inv s \<Longrightarrow> list_all (\<lambda>(k, v). fits s v) kvs \<Longrightarrow> get (put_all kvs s) = get s ++ map_of (rev kvs)"
proof (induction kvs arbitrary: s)
  case (Cons kv kvs)
  obtain k v where kv: "kv = (k, v)" by fastforce
  have "list_all (\<lambda>(k', v'). fits (put k v s) v') kvs"
    using Cons.prems(2) by (simp add: fits_put case_prod_unfold)
  from Cons.IH [OF inv_put [OF Cons.prems(1)] this] Cons.prems kv show ?case
    by (auto simp: get_put fun_eq_iff map_add_def split: option.split)
qed simp

lemma get_put_all_distinct:
  "inv s \<Longrightarrow> list_all (\<lambda>(k, v). fits s v) kvs \<Longrightarrow> distinct (map fst kvs) \<Longrightarrow> get (put_all kvs s) = get s ++ map_of kvs"
  by (simp add: get_put_all map_of_rev_distinct)

end

definition chain_ok :: "bool \<Rightarrow> nat \<Rightarrow> tuple list \<Rightarrow> bool" where
  "chain_ok sc i ts \<longleftrightarrow> distinct (map fst ts) \<and> (\<forall>n \<in> fst ` set ts. bucket sc n = i)"

definition nvram_inv :: "bool \<Rightarrow> nvram_handle \<Rightarrow> bool" where
  "nvram_inv sc h \<longleftrightarrow> length (h_hash h) = NHASH \<and>
     (\<forall>i < NHASH. chain_ok sc i (h_hash h ! i))"

definition value_fits :: "nvram_handle \<Rightarrow> string \<Rightarrow> bool" where
  "value_fits h v \<longleftrightarrow> length v + 1 \<le> length (h_mmap h) - h_offset h"

definition put_var :: "bool \<Rightarrow> string \<Rightarrow> string \<Rightarrow> nvram_handle \<Rightarrow> nvram_handle" where
  "put_var sc name v h = snd (nvram_set sc h name v)"

definition del_var :: "bool \<Rightarrow> string \<Rightarrow> nvram_handle \<Rightarrow> nvram_handle" where
  "del_var sc name h = snd (nvram_unset sc h name)"

lemma bucket_less [simp]: "bucket sc name < NHASH"
proof -
  have "unat (hash sc name mod 257) < unat (257 :: 32 word)"
    by (rule unat_mono, rule word_mod_less_divisor) simp
  then show ?thesis by (simp add: bucket_def)
qed

lemma map_of_chain_replace:
  "map_of ts name \<noteq> None \<Longrightarrow> map_of (chain_replace name v ts) = (map_of ts)(name \<mapsto> v)"
  by (induction ts) (auto split: if_splits)

lemma fst_chain_replace: "map fst (chain_replace name v ts) = map fst ts"
  by (induction ts) auto

lemma set_fst_chain_replace: "fst ` set (chain_replace name v ts) = fst ` set ts"
  using arg_cong [OF fst_chain_replace, of set] by simp

lemma map_of_chain_remove:
  "distinct (map fst ts) \<Longrightarrow> map_of (chain_remove name ts) = (map_of ts)(name := None)"
proof (induction ts)
  case (Cons t ts)
  then show ?case by (cases t) (auto simp: fun_eq_iff map_of_eq_None_iff)
qed auto

lemma set_chain_remove: "set (chain_remove name ts) \<subseteq> set ts"
  by (induction ts) (auto split: if_splits)

lemma set_fst_chain_remove: "fst ` set (chain_remove name ts) \<subseteq> fst ` set ts"
  by (rule image_mono, rule set_chain_remove)

lemma distinct_chain_remove: "distinct (map fst ts) \<Longrightarrow> distinct (map fst (chain_remove name ts))"
proof (induction ts)
  case (Cons t ts)
  then show ?case using set_fst_chain_remove [of name ts] by (cases t) auto
qed simp

lemma chain_ok_ops:
  assumes "chain_ok sc i ts"
  shows "chain_ok sc i (chain_replace name v ts)" "chain_ok sc i (chain_remove name ts)"
    and "bucket sc name = i \<Longrightarrow> map_of ts name = None \<Longrightarrow> chain_ok sc i ((name, v) # ts)"
  using assms set_fst_chain_remove [of name ts]
  unfolding chain_ok_def by (auto simp only: fst_chain_replace set_fst_chain_replace distinct_chain_remove)
     (auto simp: map_of_eq_None_iff)

lemma chain_ok_distinct: "chain_ok sc i ts \<Longrightarrow> distinct (map fst ts)"
  by (simp add: chain_ok_def)

lemma nvram_invD: "nvram_inv sc h \<Longrightarrow> length (h_hash h) = NHASH \<and> (i < NHASH \<longrightarrow> chain_ok sc i (h_hash h ! i))"
  by (simp add: nvram_inv_def)

lemma nvram_inv_update:
  "nvram_inv sc h \<Longrightarrow> chain_ok sc i chain \<Longrightarrow> nvram_inv sc (h\<lparr>h_hash := (h_hash h)[i := chain], h_dead := d\<rparr>)
     \<and> nvram_inv sc (h\<lparr>h_hash := (h_hash h)[i := chain]\<rparr>)"
  unfolding nvram_inv_def by (auto, (metis nth_list_update_eq nth_list_update_neq)+)

lemma nvram_get_update:
  assumes "nvram_inv sc h" "length (h_hash h) = NHASH"
    and "\<And>n. n \<noteq> name \<Longrightarrow> map_of chain n = map_of (h_hash h ! bucket sc name) n"
  shows "nvram_get sc (h\<lparr>h_hash := (h_hash h)[bucket sc name := chain]\<rparr>) = (nvram_get sc h)(name := map_of chain name)"
  using assms by (auto simp: nvram_get_def nth_list_update fun_eq_iff)

interpretation nvram_kv: kv_store "nvram_inv sc" "nvram_get sc" "put_var sc" "del_var sc" value_fits for sc
proof
  fix s k v x
  have chain: "chain_ok sc (bucket sc k) (h_hash s ! bucket sc k)" if "nvram_inv sc s"
    using nvram_invD [OF that] by simp
  show "nvram_inv sc (put_var sc k v s)" if "nvram_inv sc s"
    using that nvram_inv_update [OF that] chain_ok_ops [OF chain [OF that]]
    by (auto simp: put_var_def nvram_set_def Let_def)
  show "nvram_get sc (put_var sc k v s) = (nvram_get sc s)(k \<mapsto> v)" if "nvram_inv sc s" "value_fits s v"
    using that nvram_get_update [of sc s k]
    by (auto simp: put_var_def nvram_set_def Let_def value_fits_def map_of_chain_replace nvram_inv_def)
  show "put_var sc k v s = s" if "\<not> value_fits s v"
    using that by (simp add: put_var_def nvram_set_def value_fits_def)
  show "value_fits (put_var sc k v s) x = value_fits s x"
    by (simp add: put_var_def nvram_set_def Let_def value_fits_def)
  show "nvram_inv sc (del_var sc k s)" if "nvram_inv sc s"
    using that nvram_inv_update [OF that] chain_ok_ops [OF chain [OF that]]
    by (auto simp: del_var_def nvram_unset_def Let_def split: option.split)
  show "nvram_get sc (del_var sc k s) = (nvram_get sc s)(k := None)" if "nvram_inv sc s"
    using that nvram_get_update [of sc s k "chain_remove k (h_hash s ! bucket sc k)"]
      map_of_chain_remove [OF chain_ok_distinct [OF chain [OF that]], of k]
    by (auto simp: del_var_def nvram_unset_def Let_def nvram_inv_def nvram_get_def fun_eq_iff split: option.splits)
qed

lemma nvram_inv_free [simp]: "nvram_inv sc (nvram_free h)"
  by (simp add: nvram_inv_def nvram_free_def chain_ok_def)

lemma concat_distinct_chains:
  "list_all (\<lambda>i. chain_ok sc i (f i)) is \<Longrightarrow> distinct is \<Longrightarrow>
   distinct (map fst (concat (map f is))) \<and> (\<forall>n \<in> fst ` set (concat (map f is)). bucket sc n \<in> set is)"
  by (induction "is") (force simp: chain_ok_def)+

lemma nvram_entries_distinct: "nvram_inv sc h \<Longrightarrow> distinct (map fst (concat (h_hash h)))"
  using concat_distinct_chains [of sc "\<lambda>i. h_hash h ! i" "[0..<NHASH]"]
  by (simp add: nvram_inv_def list_all_iff) (metis map_nth)

lemma nvram_entries_get:
  assumes "nvram_inv sc h"
  shows "map_of (concat (h_hash h)) = nvram_get sc h"
proof (rule ext)
  fix n
  let ?b = "bucket sc n"
  have len: "length (h_hash h) = NHASH" using nvram_invD [OF assms] by simp
  have "(n, v) \<in> set (concat (h_hash h)) \<longleftrightarrow> (n, v) \<in> set (h_hash h ! ?b)" for v
  proof
    assume "(n, v) \<in> set (concat (h_hash h))"
    then obtain c where "c \<in> set (h_hash h)" "(n, v) \<in> set c" by auto
    then obtain i where "i < NHASH" "(n, v) \<in> set (h_hash h ! i)" using len by (metis in_set_conv_nth)
    moreover from this have "bucket sc n = i" using nvram_invD [OF assms, of i] by (force simp: chain_ok_def)
    ultimately show "(n, v) \<in> set (h_hash h ! ?b)" by simp
  next
    assume "(n, v) \<in> set (h_hash h ! ?b)"
    moreover have "h_hash h ! ?b \<in> set (h_hash h)" using len by simp
    ultimately show "(n, v) \<in> set (concat (h_hash h))" by auto
  qed
  moreover have "distinct (map fst (h_hash h ! ?b))" using nvram_invD [OF assms, of ?b] by (simp add: chain_ok_def)
  ultimately show "map_of (concat (h_hash h)) n = nvram_get sc h n"
    using nvram_entries_distinct [OF assms] unfolding nvram_get_def
    by (metis map_of_eq_Some_iff not_None_eq)
qed

text \<open>
  C22. The variables are a finite map. While the invariant of the hash table holds (257 chains, each name
  at most once and in the chain of its hash), setting a value that fits updates the map at that name,
  a value that does not fit is refused with -12 and changes nothing, unsetting removes the name,
  every operation keeps the invariant, and the list of all variables is the graph of the map, each name
  once.\<close>

theorem nvram_refines_map:
  assumes "nvram_inv sc h"
  shows "nvram_inv sc (snd (nvram_set sc h name v)) \<and> nvram_inv sc (snd (nvram_unset sc h name)) \<and>
    (if length v < length (h_mmap h) - h_offset h
     then fst (nvram_set sc h name v) = 0 \<and> nvram_get sc (snd (nvram_set sc h name v)) = (nvram_get sc h)(name \<mapsto> v)
     else nvram_set sc h name v = (-12, h)) \<and>
    nvram_get sc (snd (nvram_unset sc h name)) = (nvram_get sc h)(name := None) \<and>
    map_of (nvram_getall h) = nvram_get sc h \<and> distinct (map fst (nvram_getall h))"
proof (intro conjI)
  show "nvram_inv sc (snd (nvram_set sc h name v))" using nvram_kv.inv_put [OF assms] by (simp add: put_var_def)
  show "nvram_inv sc (snd (nvram_unset sc h name))" using nvram_kv.inv_del [OF assms] by (simp add: del_var_def)
  show "nvram_get sc (snd (nvram_unset sc h name)) = (nvram_get sc h)(name := None)"
    using nvram_kv.get_del [OF assms] by (simp add: del_var_def)
  show "if length v < length (h_mmap h) - h_offset h
     then fst (nvram_set sc h name v) = 0 \<and> nvram_get sc (snd (nvram_set sc h name v)) = (nvram_get sc h)(name \<mapsto> v)
     else nvram_set sc h name v = (-12, h)"
    using nvram_kv.get_put [OF assms, of v name]
    by (auto simp: put_var_def value_fits_def) (simp_all add: nvram_set_def Let_def)
  have distinct: "distinct (map fst (concat (h_hash h)))" using assms by (rule nvram_entries_distinct)
  then show "distinct (map fst (nvram_getall h))" by (simp add: nvram_getall_def flip: rev_map)
  show "map_of (nvram_getall h) = nvram_get sc h"
    using distinct by (simp add: nvram_getall_def map_of_rev_distinct nvram_entries_get [OF assms])
qed

subsection \<open>Bytes of the header\<close>

lemma byte_of_char_of_byte [simp]: "byte_of (char_of_byte b) = b"
proof -
  have "unat b mod 256 = unat b" using unsigned_less [of b, where ?'a = nat] by simp
  then show ?thesis by (simp add: byte_of_def char_of_byte_def)
qed

lemma length_put32 [simp]: "length (put32 x) = 4"
  by (simp add: put32_def)

lemma get32_put32 [simp]: "get32 (put32 x @ s) = x"
proof -
  have "get32 (put32 x @ s) =
     push_bit 8 (push_bit 8 (push_bit 8 (ucast (ucast (drop_bit 24 x) :: 8 word)) OR ucast (ucast (drop_bit 16 x) :: 8 word))
       OR ucast (ucast (drop_bit 8 x) :: 8 word)) OR ucast (ucast x :: 8 word)"
    by (simp add: get32_def put32_def)
  also have "\<dots> = x"
  proof (rule bit_word_eqI)
    fix n :: nat
    consider "n < 8" | "8 \<le> n" "n < 16" | "16 \<le> n" "n < 24" | "24 \<le> n" by linarith
    then show "bit (push_bit 8 (push_bit 8 (push_bit 8 (ucast (ucast (drop_bit 24 x) :: 8 word)) OR ucast (ucast (drop_bit 16 x) :: 8 word))
       OR ucast (ucast (drop_bit 8 x) :: 8 word)) OR ucast (ucast x :: 8 word) :: 32 word) n = bit x n" if "n < LENGTH(32)"
      using that by cases (auto simp: bit_simps)
  qed
  finally show ?thesis .
qed

lemma header_of_bytes [simp]: "header_of (header_bytes hdr @ s) = hdr"
  by (simp add: header_of_def header_bytes_def)

lemma length_header_bytes [simp]: "length (header_bytes hdr) = HEADER_SIZE"
  by (simp add: header_bytes_def)

subsection \<open>Writing and reading back the texts\<close>

definition tuple_ok :: "tuple \<Rightarrow> bool" where
  "tuple_ok = (\<lambda>(n, v). CHR ''='' \<notin> set n \<and> NUL \<notin> set n \<and> NUL \<notin> set v)"

definition texts :: "tuple list \<Rightarrow> string" where
  "texts ts = concat (map tuple_text ts)"

lemma texts_simps [simp]: "texts [] = []" "texts (t # ts) = tuple_text t @ texts ts" "texts (xs @ ys) = texts xs @ texts ys"
  by (simp_all add: texts_def)

lemma write_chain_fits: "length out + length (texts ts) \<le> room \<Longrightarrow> write_chain room ts out = out @ texts ts"
  by (induction ts arbitrary: out) auto

lemma write_chain_room: "length out \<le> room \<Longrightarrow> length (write_chain room ts out) \<le> room"
  by (induction ts arbitrary: out) auto

lemma fold_write_chain_fits:
  "length out + length (texts (concat table)) \<le> room \<Longrightarrow> fold (write_chain room) table out = out @ texts (concat table)"
  by (induction table arbitrary: out) (auto simp: write_chain_fits)

lemma write_tuples_fits: "length (texts (concat table)) \<le> room \<Longrightarrow> write_tuples room table = texts (concat table)"
  by (simp add: write_tuples_def fold_write_chain_fits)

lemma write_tuples_room: "length (write_tuples room table) \<le> room"
proof -
  have "length out \<le> room \<Longrightarrow> length (fold (write_chain room) table out) \<le> room" for out
    by (induction table arbitrary: out) (auto simp: write_chain_room)
  then show ?thesis by (simp add: write_tuples_def)
qed

lemma cstr_append_NUL: "NUL \<notin> set s \<Longrightarrow> cstr (s @ NUL # r) = s"
  by (induction s) (auto simp: cstr_def)

lemma parse_texts: "list_all tuple_ok ts \<Longrightarrow> parse_tuples (texts ts @ NUL # r) = ts"
proof (induction ts)
  case Nil
  show ?case by (subst parse_tuples.simps) (simp add: cstr_def)
next
  case (Cons t ts)
  obtain n v where t: "t = (n, v)" by fastforce
  let ?c = "n @ ''='' @ v"
  have ok: "CHR ''='' \<notin> set n" "NUL \<notin> set ?c" using Cons.prems t by (auto simp: tuple_ok_def NUL_def)
  have s: "texts (t # ts) @ NUL # r = ?c @ NUL # texts ts @ NUL # r" by (simp add: t tuple_text_def)
  have c: "cstr (?c @ NUL # texts ts @ NUL # r) = ?c" using ok(2) by (rule cstr_append_NUL)
  have split: "takeWhile (\<lambda>x. x \<noteq> CHR ''='') ?c = n" "dropWhile (\<lambda>x. x \<noteq> CHR ''='') ?c = ''='' @ v"
    using ok(1) by (induction n) auto
  have "parse_tuples (?c @ NUL # texts ts @ NUL # r) =
      (takeWhile (\<lambda>x. x \<noteq> CHR ''='') ?c, tl (dropWhile (\<lambda>x. x \<noteq> CHR ''='') ?c)) # parse_tuples (texts ts @ NUL # r)"
    by (subst parse_tuples.simps, unfold c) (simp add: Let_def)
  with Cons split show ?case by (simp add: t tuple_text_def)
qed

subsection \<open>Rehashing\<close>

definition sdram_names :: "string list" where
  "sdram_names = [''sdram_init'', ''sdram_config'', ''sdram_refresh'', ''sdram_ncdl'']"

lemma set_default_keeps:
  assumes "nvram_inv sc h"
  shows "nvram_inv sc (set_default sc name v h)"
    and "n \<noteq> name \<or> nvram_get sc h n \<noteq> None \<Longrightarrow> nvram_get sc (set_default sc name v h) n = nvram_get sc h n"
proof -
  have put: "snd (nvram_set sc h name v) = put_var sc name v h" by (simp add: put_var_def)
  show "nvram_inv sc (set_default sc name v h)" using nvram_kv.inv_put [OF assms] assms by (simp add: set_default_def put)
  assume n: "n \<noteq> name \<or> nvram_get sc h n \<noteq> None"
  show "nvram_get sc (set_default sc name v h) n = nvram_get sc h n"
  proof (cases "value_fits h v")
    case True
    with n nvram_kv.get_put [OF assms True, of name] show ?thesis by (auto simp: set_default_def put)
  next
    case False
    then show ?thesis by (simp add: set_default_def put nvram_kv.put_refused)
  qed
qed

lemma nvram_rehash_get:
  assumes "parse_tuples (drop (h_offset h + HEADER_SIZE) (h_mmap h)) = ts" "distinct (map fst ts)"
    and "list_all (\<lambda>(n, v). value_fits h v) ts" "map_of ts n \<noteq> None \<or> n \<notin> set sdram_names"
  shows "nvram_get sc (nvram_rehash sc h) n = map_of ts n \<and> nvram_inv sc (nvram_rehash sc h)"
proof -
  let ?h1 = "nvram_kv.put_all sc ts (nvram_free h)"
  have "list_all (\<lambda>(n, v). value_fits (nvram_free h) v) ts" using assms(3) by (simp add: value_fits_def nvram_free_def)
  note nvram_kv.get_put_all_distinct [OF nvram_inv_free this assms(2), of sc]
  moreover have "nvram_get sc (nvram_free h) = Map.empty" by (rule ext) (simp add: nvram_get_def nvram_free_def)
  ultimately have get1: "nvram_get sc ?h1 = map_of ts" by simp
  have inv1: "nvram_inv sc ?h1" by (rule nvram_kv.inv_put_all) simp
  have fold: "fold (\<lambda>(name, v) h. snd (nvram_set sc h name v)) ts (nvram_free h) = ?h1"
  proof -
    have "(\<lambda>(name, v) h. snd (nvram_set sc h name v)) = (\<lambda>(k, v). put_var sc k v)" by (simp add: fun_eq_iff put_var_def)
    then show ?thesis by (simp add: nvram_kv.put_all_def)
  qed
  have ts: "parse_tuples (drop (h_offset (nvram_free h) + HEADER_SIZE) (h_mmap (nvram_free h))) = ts"
    using assms(1) by (simp add: nvram_free_def)
  show ?thesis
    using assms(4) unfolding nvram_rehash_def Let_def ts fold sdram_names_def
    by (auto simp: get1 inv1 set_default_keeps)
qed

subsection \<open>Commit and reopen\<close>

lemma scan_magic_at:
  "scan_magic m n i = ScanAt off \<Longrightarrow> 4 * i \<le> off \<and> 4 dvd off \<and> off + 4 \<le> length m \<and> get32 (drop off m) = NVRAM_MAGIC"
  by (induction m n i rule: scan_magic.induct) (fastforce split: if_splits)+

lemma get32_take: "off + 4 \<le> k \<Longrightarrow> get32 (drop off (take k m)) = get32 (drop off m)"
  by (simp add: get32_def drop_take min_def)

lemma scan_magic_same:
  "scan_magic m n i = ScanAt off \<Longrightarrow> length m' = length m \<Longrightarrow> take off m' = take off m \<Longrightarrow>
   get32 (drop off m') = NVRAM_MAGIC \<Longrightarrow> scan_magic m' n i = ScanAt off"
proof (induction m n i rule: scan_magic.induct)
  case (2 m n i)
  show ?case
  proof (cases "get32 (drop (4 * i) m) = NVRAM_MAGIC")
    case True
    with 2 show ?thesis by (auto split: if_splits)
  next
    case False
    with "2.prems"(1) have rest: "scan_magic m n (Suc i) = ScanAt off" and len: "\<not> 4 * i + 4 > length m"
      by (auto split: if_splits)
    from scan_magic_at [OF rest] have "4 * i + 4 \<le> off" by simp
    then have "get32 (drop (4 * i) m') = get32 (drop (4 * i) m)"
      using get32_take [of "4 * i" off m] get32_take [of "4 * i" off m'] "2.prems"(3) by simp
    with 2 False rest len show ?thesis by simp
  qed
qed simp

text \<open>A handle as \<open>nvram_open\<close> returns it, on an aligned mapping in the lower half of the addresses.\<close>

definition handle_ok :: "bool \<Rightarrow> nvram_handle \<Rightarrow> bool" where
  "handle_ok sc h \<longleftrightarrow> nvram_inv sc h
     \<and> scan_magic (h_mmap h) (scan_limit (length (h_mmap h)) + 1) 0 = ScanAt (h_offset h)
     \<and> 4 dvd length (h_mmap h) \<and> h_offset h + HEADER_SIZE + 2 \<le> length (h_mmap h) \<and> length (h_mmap h) < 2 ^ 32
     \<and> 0 \<le> h_base h \<and> 4 dvd h_base h"

lemma pad_length_aligned: "0 \<le> x \<Longrightarrow> int (pad_length x) = (- x) mod 4"
  by (simp add: pad_length_def c_rem4_def) presburger

lemma roundup4_le: "x \<le> t \<Longrightarrow> 4 dvd t \<Longrightarrow> roundup4 x \<le> t"
  unfolding roundup4_def by presburger

lemma roundup4_ge: "x \<le> roundup4 x"
  unfolding roundup4_def by presburger

lemma commit_pad:
  assumes "0 \<le> b" "4 dvd b" "4 dvd off" "4 dvd area" "l + 2 \<le> area"
  shows "l + 1 + pad_length (b + int off + int HEADER_SIZE + int l + 1) \<le> area"
proof -
  obtain b' o' a' where dvd: "b = 4 * b'" "off = 4 * o'" "area = 4 * a'" using assms(2-4) by (auto elim!: dvdE)
  let ?ptr = "b + int off + int HEADER_SIZE + int l + 1"
  have "int (pad_length ?ptr) = (- ?ptr) mod 4" using assms(1) by (intro pad_length_aligned) simp
  then have "int (pad_length ?ptr) = (- int l - 1 - 4 * (b' + int o' + 5)) mod 4" by (simp add: dvd algebra_simps)
  also have "\<dots> = (- int l - 1) mod 4" by presburger
  finally show ?thesis using assms(5) dvd(3) by presburger
qed

lemma handle_okD:
  assumes "handle_ok sc h"
  shows "nvram_inv sc h" "scan_magic (h_mmap h) (scan_limit (length (h_mmap h)) + 1) 0 = ScanAt (h_offset h)"
    "4 dvd length (h_mmap h)" "h_offset h + HEADER_SIZE + 2 \<le> length (h_mmap h)" "length (h_mmap h) < 2 ^ 32"
    "0 \<le> h_base h" "4 dvd h_base h" "4 dvd h_offset h"
proof -
  show *: "scan_magic (h_mmap h) (scan_limit (length (h_mmap h)) + 1) 0 = ScanAt (h_offset h)"
    using assms by (simp only: handle_ok_def)
  show "4 dvd h_offset h" using scan_magic_at [OF *] by simp
qed (use assms in \<open>simp_all only: handle_ok_def\<close>)

lemma commit_area_ok:
  assumes "handle_ok sc h"
  defines "area \<equiv> length (h_mmap h) - h_offset h - HEADER_SIZE"
  defines "txt \<equiv> write_tuples (area - 2) (h_hash h)"
  shows "\<exists>rest. commit_area h = Some (txt @ NUL # rest, roundup4 (HEADER_SIZE + length txt + 2)) \<and> length (txt @ NUL # rest) = area"
proof -
  note h = handle_okD [OF assms(1)]
  have "length txt \<le> area - 2" unfolding txt_def by (rule write_tuples_room)
  then have "length txt + 2 \<le> area" using h(4) unfolding area_def by simp
  moreover have "4 dvd area" using h(3,8) unfolding area_def by (simp add: dvd_diff_nat)
  ultimately have "length txt + 1 + pad_length (h_base h + int (h_offset h) + int HEADER_SIZE + int (length txt) + 1) \<le> area"
    using h by (intro commit_pad) simp_all
  then show ?thesis unfolding commit_area_def Let_def area_def [symmetric] txt_def [symmetric] by simp
qed

subsubsection \<open>The checksum of a committed image\<close>

definition committed_header :: "bool \<Rightarrow> nvram_handle \<Rightarrow> nat \<Rightarrow> string \<Rightarrow> nvram_header" where
  "committed_header sc h len data =
     (let hdr = (commit_header sc h)\<lparr>nh_len := of_nat len\<rparr>
      in hdr\<lparr>nh_crc_ver_init := nh_crc_ver_init hdr OR ucast (commit_crc hdr data)\<rparr>)"

lemma drop_put32_or: "drop 1 (put32 (x OR ucast (c :: 8 word))) = drop 1 (put32 x)"
proof -
  have "(ucast (drop_bit k (x OR ucast c)) :: 8 word) = ucast (drop_bit k x)" if "8 \<le> k" for k
    using that by (intro bit_word_eqI) (auto simp: bit_simps dest: bit_imp_le_length)
  then show ?thesis by (simp add: put32_def)
qed

lemma drop_header_bytes:
  "drop NVRAM_CRC_START_POSITION (header_bytes hdr) =
     drop 1 (put32 (nh_crc_ver_init hdr)) @ put32 (nh_config_refresh hdr) @ put32 (nh_config_ncdl hdr)"
  by (simp add: header_bytes_def)

lemma commit_header_low: "ucast (nh_crc_ver_init (commit_header sc h) OR ucast (c :: 8 word)) = c"
proof -
  have "ucast ((push_bit 8 1 OR push_bit 16 y OR ucast c) :: 32 word) = c" for y
    by (rule bit_word_eqI) (auto simp: bit_simps simp del: push_bit_of_1)
  moreover have "\<exists>y. nh_crc_ver_init (commit_header sc h) = push_bit 8 1 OR push_bit 16 y"
    unfolding commit_header_def by (auto simp only: prod.case nvram_header.select_convs split: option.split)
  ultimately show ?thesis by (metis or.assoc)
qed

lemma committed_crc:
  fixes sc :: bool and h :: nvram_handle and data :: string
  assumes "HEADER_SIZE \<le> len" "len < 2 ^ 32"
  defines "hdr \<equiv> committed_header sc h len data"
  shows "nh_len hdr = of_nat len" "nh_magic hdr = NVRAM_MAGIC"
    and "ucast (nh_crc_ver_init hdr) =
           hndcrc8 (take (len - NVRAM_CRC_START_POSITION) (drop NVRAM_CRC_START_POSITION (header_bytes hdr @ data))) 0xFF"
proof -
  let ?h = "(commit_header sc h)\<lparr>nh_len := of_nat len\<rparr>"
  show len: "nh_len hdr = of_nat len" by (simp add: hdr_def committed_header_def Let_def)
  show "nh_magic hdr = NVRAM_MAGIC"
    by (simp add: hdr_def committed_header_def Let_def commit_header_def split: option.split)
  have "unat (of_nat len :: 32 word) = len" using assms(2) by (simp add: unat_of_nat take_bit_eq_mod)
  moreover have "drop NVRAM_CRC_START_POSITION (header_bytes (?h\<lparr>nh_magic := 0, nh_len := 0\<rparr>)) = drop NVRAM_CRC_START_POSITION (header_bytes hdr)"
    unfolding drop_header_bytes by (simp add: hdr_def committed_header_def Let_def drop_put32_or [simplified])
  moreover have "take (len - 9) (drop 9 (header_bytes hdr @ data)) = drop 9 (header_bytes hdr) @ take (len - HEADER_SIZE) data"
    using assms(1) by simp
  ultimately show "ucast (nh_crc_ver_init hdr) =
           hndcrc8 (take (len - NVRAM_CRC_START_POSITION) (drop NVRAM_CRC_START_POSITION (header_bytes hdr @ data))) 0xFF"
    by (simp add: hdr_def committed_header_def Let_def commit_header_low commit_crc_def hndcrc8_append)
qed
subsubsection \<open>The theorem\<close>

lemma texts_value: "(n, v) \<in> set ts \<Longrightarrow> length v < length (texts ts)"
  by (induction ts) (auto simp: tuple_text_def)

definition same_map :: "nvram_handle \<Rightarrow> nvram_handle \<Rightarrow> bool" where
  "same_map h h' \<longleftrightarrow> h_mmap h' = h_mmap h \<and> h_offset h' = h_offset h \<and> h_base h' = h_base h"

lemma nvram_set_frame: "same_map h (snd (nvram_set sc h n v))"
  by (simp add: same_map_def nvram_set_def Let_def)

lemma same_map_trans: "same_map a b \<Longrightarrow> same_map b c \<Longrightarrow> same_map a c"
  by (simp add: same_map_def)

lemma set_default_frame: "same_map a b \<Longrightarrow> same_map a (set_default sc n v b)"
  using nvram_set_frame [of b sc n v] by (auto simp: set_default_def intro: same_map_trans)

lemma nvram_rehash_same: "same_map h (nvram_rehash sc h)"
proof -
  have fold: "same_map a g \<Longrightarrow> same_map a (fold (\<lambda>(n, v) h. snd (nvram_set sc h n v)) ts g)" for a g ts
  proof (induction ts arbitrary: g)
    case (Cons t ts)
    from Cons.IH [OF same_map_trans [OF Cons.prems nvram_set_frame]] show ?case by (simp add: case_prod_unfold)
  qed simp
  have "same_map h (nvram_free h)" by (simp add: same_map_def nvram_free_def)
  then show ?thesis unfolding nvram_rehash_def Let_def by (intro set_default_frame fold)
qed

lemma nvram_rehash_frame: "h_mmap (nvram_rehash sc h) = h_mmap h" "h_offset (nvram_rehash sc h) = h_offset h"
  "h_base (nvram_rehash sc h) = h_base h"
  using nvram_rehash_same [of h sc] by (simp_all add: same_map_def)

lemma commit_image_ok:
  assumes "handle_ok sc h" "length (texts (concat (h_hash h))) + HEADER_SIZE + 2 \<le> length (h_mmap h) - h_offset h"
  defines "txt \<equiv> texts (concat (h_hash h))"
  shows "\<exists>rest m. commit_image sc h = Some m \<and> length m = length (h_mmap h) \<and> take (h_offset h) m = take (h_offset h) (h_mmap h)
    \<and> drop (h_offset h) m =
        header_bytes (committed_header sc h (roundup4 (HEADER_SIZE + length txt + 2)) (txt @ NUL # rest)) @ txt @ NUL # rest"
proof -
  let ?len = "roundup4 (HEADER_SIZE + length txt + 2)"
  have "write_tuples (length (h_mmap h) - h_offset h - HEADER_SIZE - 2) (h_hash h) = txt"
    unfolding txt_def using assms(2) by (intro write_tuples_fits) simp
  with commit_area_ok [OF assms(1)] obtain rest where
    area: "commit_area h = Some (txt @ NUL # rest, ?len)"
    and data: "length (txt @ NUL # rest) = length (h_mmap h) - h_offset h - HEADER_SIZE" by auto
  let ?hb = "header_bytes (committed_header sc h ?len (txt @ NUL # rest))"
  have "commit_image sc h = Some (put_bytes (h_offset h) (?hb @ txt @ NUL # rest) (h_mmap h))"
    by (simp add: commit_image_def area committed_header_def Let_def)
  moreover have "h_offset h + length (?hb @ txt @ NUL # rest) = length (h_mmap h)"
    using data handle_okD(4) [OF assms(1)] by simp
  ultimately show ?thesis using handle_okD(4) [OF assms(1)] by (auto simp: put_bytes_def)
qed

lemma commit_reopen:
  assumes "handle_ok sc h" "list_all tuple_ok (concat (h_hash h))"
    and "length (texts (concat (h_hash h))) + HEADER_SIZE + 2 \<le> length (h_mmap h) - h_offset h"
    and "len = roundup4 (HEADER_SIZE + length (texts (concat (h_hash h))) + 2)"
  shows "\<exists>h1 h2. nvram_commit sc h = Some (0, h1)
    \<and> nvram_open sc rdonly base (h_mmap h1) = (if rdonly \<or> len < length (h_mmap h) - h_offset h then Opened h2 else OpenFailed)
    \<and> (\<forall>n. nvram_get sc h n \<noteq> None \<or> n \<notin> set sdram_names \<longrightarrow>
         nvram_get sc h1 n = nvram_get sc h n \<and> nvram_get sc h2 n = nvram_get sc h n)
    \<and> ucast (nh_crc_ver_init (nvram_header_at h1)) =
        hndcrc8 (take (unat (nh_len (nvram_header_at h1)) - NVRAM_CRC_START_POSITION)
                  (drop NVRAM_CRC_START_POSITION (drop (h_offset h) (h_mmap h1)))) 0xFF"
proof -
  note h = handle_okD [OF assms(1)]
  let ?ts = "concat (h_hash h)"
  from commit_image_ok [OF assms(1,3)] obtain rest m where
    m: "commit_image sc h = Some m" "length m = length (h_mmap h)" "take (h_offset h) m = take (h_offset h) (h_mmap h)"
    and dm: "drop (h_offset h) m = header_bytes (committed_header sc h len (texts ?ts @ NUL # rest)) @ texts ?ts @ NUL # rest"
    unfolding assms(4) by blast
  let ?hdr = "committed_header sc h len (texts ?ts @ NUL # rest)"
  have len: "HEADER_SIZE \<le> len" "len \<le> length (h_mmap h) - h_offset h" "len < 2 ^ 32"
  proof -
    show "HEADER_SIZE \<le> len" using roundup4_ge [of "HEADER_SIZE + length (texts ?ts) + 2"] assms(4) by simp
    show *: "len \<le> length (h_mmap h) - h_offset h"
      unfolding assms(4) using assms(3) h(3,8) by (intro roundup4_le) (simp_all add: dvd_diff_nat)
    show "len < 2 ^ 32" using * h(5) by linarith
  qed
  note crc = committed_crc [OF len(1,3), of sc h "texts ?ts @ NUL # rest"]
  have ulen: "unat (nh_len ?hdr) = len" using crc(1) len(3) by (simp add: unat_of_nat take_bit_eq_mod)
  define h1 where "h1 = nvram_rehash sc (h\<lparr>h_mmap := m\<rparr>)"
  define h0 where "h0 = \<lparr>h_mmap = m, h_base = base, h_offset = h_offset h, h_hash = replicate NHASH [], h_dead = []\<rparr>"
  define h2 where "h2 = nvram_rehash sc h0"
  have data: "drop (h_offset h + HEADER_SIZE) m = texts ?ts @ NUL # rest"
    using arg_cong [OF dm, of "drop HEADER_SIZE"] by (simp add: add.commute)
  have fits: "list_all (\<lambda>(n, v). value_fits h' v) ?ts" if "h_mmap h' = m" "h_offset h' = h_offset h" for h'
    using texts_value [of _ _ ?ts] assms(3) by (fastforce simp: list_all_iff value_fits_def that m(2))
  have get: "nvram_get sc (nvram_rehash sc h') n = nvram_get sc h n"
    if "h_mmap h' = m" "h_offset h' = h_offset h" "nvram_get sc h n \<noteq> None \<or> n \<notin> set sdram_names" for h' n
    using nvram_rehash_get [of h' ?ts n sc] parse_texts [OF assms(2), of rest] data fits [OF that(1,2)]
      nvram_entries_distinct [OF h(1)] nvram_entries_get [OF h(1)] that by simp
  have mmap: "h_mmap (nvram_rehash sc h') = h_mmap h'" "h_offset (nvram_rehash sc h') = h_offset h'" for h'
    by (simp_all add: nvram_rehash_frame)
  have hdr: "header_of (drop (h_offset h) m) = ?hdr" unfolding dm by simp
  have scan: "scan_magic m (scan_limit (length m) + 1) 0 = ScanAt (h_offset h)"
    unfolding m(2) using h(2) m(2,3) arg_cong [OF hdr, of nh_magic] crc(2)
    by (intro scan_magic_same [OF h(2)]) (simp_all add: header_of_def)
  have "nvram_open sc rdonly base m = (if rdonly \<or> len < length (h_mmap h) - h_offset h then Opened h2 else OpenFailed)"
    unfolding nvram_open_def scan using hdr crc(2) ulen m(2)
    by (simp add: Let_def nvram_header_at_def h2_def h0_def)
  moreover have "nvram_commit sc h = Some (0, h1)" by (simp add: nvram_commit_def m(1) h1_def)
  moreover have "nvram_get sc h1 n = nvram_get sc h n \<and> nvram_get sc h2 n = nvram_get sc h n"
    if "nvram_get sc h n \<noteq> None \<or> n \<notin> set sdram_names" for n
    using get [of "h\<lparr>h_mmap := m\<rparr>" n] get [of h0 n] that by (simp add: h1_def h2_def h0_def)
  moreover have "h_mmap h1 = m" "nvram_header_at h1 = ?hdr"
    by (simp_all add: h1_def nvram_header_at_def mmap hdr)
  ultimately show ?thesis using crc(3) ulen dm by metis
qed
text \<open>
  C21. Variables survive a commit. If the texts of all variables fit the partition, \<open>nvram_commit\<close>
  stays within the mapping and returns, the committed handle and the handle that \<open>nvram_open\<close> makes
  of the written partition both hold exactly the variables of before (and perhaps defaults for the four
  SDRAM variables), and the checksum stored in the header is the one that the \<open>info\<close> command
  computes. Opening for writing needs one condition more: the rounded length must be smaller than the
  partition behind the header, so a partition that was filled to its end can be read but no longer be
  opened for writing.\<close>

theorem nvram_persistence:
  assumes "handle_ok sc h" "list_all tuple_ok (concat (h_hash h))"
    and "length (texts (concat (h_hash h))) + HEADER_SIZE + 2 \<le> length (h_mmap h) - h_offset h"
    and "len = roundup4 (HEADER_SIZE + length (texts (concat (h_hash h))) + 2)"
  shows "\<exists>h1 h2. nvram_commit sc h = Some (0, h1)
    \<and> nvram_open sc rdonly base (h_mmap h1) = (if rdonly \<or> len < length (h_mmap h) - h_offset h then Opened h2 else OpenFailed)
    \<and> (\<forall>n. nvram_get sc h n \<noteq> None \<or> n \<notin> set sdram_names \<longrightarrow>
         nvram_get sc h1 n = nvram_get sc h n \<and> nvram_get sc h2 n = nvram_get sc h n)
    \<and> ucast (nh_crc_ver_init (nvram_header_at h1)) =
        hndcrc8 (take (unat (nh_len (nvram_header_at h1)) - NVRAM_CRC_START_POSITION)
                  (drop NVRAM_CRC_START_POSITION (drop (h_offset h) (h_mmap h1)))) 0xFF"
  using assms by (rule commit_reopen)

subsection \<open>From the command line to the partition\<close>

lemma scan_magic_bound: "scan_magic m n i = ScanAt off \<Longrightarrow> off < 4 * (i + n)"
  by (induction m n i rule: scan_magic.induct) (auto split: if_splits)

lemma nvram_rehash_inv: "nvram_inv sc (nvram_rehash sc h)"
proof -
  have "nvram_inv sc g \<Longrightarrow> nvram_inv sc (fold (\<lambda>(n, v) h. snd (nvram_set sc h n v)) ts g)" for ts g
    using nvram_kv.inv_put by (induction ts arbitrary: g) (auto simp: put_var_def case_prod_unfold)
  then show ?thesis by (simp add: nvram_rehash_def Let_def set_default_keeps(1))
qed

lemma nvram_open_ok:
  assumes "nvram_open sc rdonly base m = Opened h" "NVRAM_MIN_SPACE \<le> length m" "4 dvd length m" "length m < 2 ^ 32" "0 \<le> base" "4 dvd base"
  shows "handle_ok sc h" "h_mmap h = m"
proof -
  from assms(1) obtain off where off: "scan_magic m (scan_limit (length m) + 1) 0 = ScanAt off"
    and h: "h = nvram_rehash sc \<lparr>h_mmap = m, h_base = base, h_offset = off, h_hash = replicate NHASH [], h_dead = []\<rparr>"
    by (auto simp: nvram_open_def Let_def split: scan_result.splits if_splits)
  have "unat (of_nat (length m) - of_nat NVRAM_MIN_SPACE :: 32 word) = length m - NVRAM_MIN_SPACE"
  proof -
    have "(of_nat (length m) - of_nat NVRAM_MIN_SPACE :: 32 word) = of_nat (length m - NVRAM_MIN_SPACE)"
      using assms(2) by (simp add: of_nat_diff)
    then show ?thesis using assms(4) by (simp add: unat_of_nat take_bit_eq_mod)
  qed
  then have "off + HEADER_SIZE + 2 \<le> length m" using scan_magic_bound [OF off] assms(2) by (simp add: scan_limit_def)
  then show "handle_ok sc h" "h_mmap h = m"
    using assms off nvram_rehash_inv by (simp_all add: handle_ok_def h nvram_rehash_frame)
qed

lemma handle_ok_set:
  assumes "handle_ok sc h" "nvram_set sc h n v = (0, h1)"
  shows "handle_ok sc h1" "h_mmap h1 = h_mmap h" "h_offset h1 = h_offset h" "nvram_get sc h1 n = Some v"
proof -
  have h1: "h1 = put_var sc n v h" using assms(2) by (simp add: put_var_def)
  have same: "same_map h h1" using nvram_set_frame [of h sc n v] assms(2) by simp
  moreover have "nvram_inv sc h1" using nvram_kv.inv_put [OF handle_okD(1) [OF assms(1)]] h1 by simp
  ultimately show "handle_ok sc h1" using assms(1) by (simp only: handle_ok_def same_map_def)
  show "h_mmap h1 = h_mmap h" "h_offset h1 = h_offset h" using same by (simp_all add: same_map_def)
  have "value_fits h v" using assms(2) by (auto simp: nvram_set_def value_fits_def Let_def split: if_splits)
  from nvram_kv.get_put [OF handle_okD(1) [OF assms(1)] this] show "nvram_get sc h1 n = Some v" by (simp add: h1)
qed

lemma do_set_pair: "CHR ''='' \<notin> set n \<Longrightarrow> do_set sc h (n @ ''='' @ v) = nvram_set sc h n v"
proof -
  assume n: "CHR ''='' \<notin> set n"
  then have "takeWhile (\<lambda>c. c \<noteq> CHR ''='') (n @ ''='' @ v) = n" "dropWhile (\<lambda>c. c \<noteq> CHR ''='') (n @ ''='' @ v) = ''='' @ v"
    by (induction n) auto
  then show ?thesis by (simp add: do_set_def)
qed

lemma cli_loop_set: "cli_loop sc [''set'', pair] c w =
    (let (st, h) = do_set sc (c_handle c) pair in (c\<lparr>c_handle := h, c_stat := st, c_done := c_done c + 1\<rparr>, w))"
  by (simp add: case_prod_unfold)

lemma cli_loop_get: "cli_loop sc [''get'', name] c w =
    (let (st, w') = do_get sc (c_handle c) name w in (c\<lparr>c_stat := st, c_done := c_done c + 1\<rparr>, w'))"
  by (simp add: case_prod_unfold)

text \<open>
  A variable set on the command line is the one read back. When a staging file exists, \<open>nvram set
  n=v\<close> writes the variable through hash table, commit and shared mapping into that file without
  touching the flash device, and a later \<open>nvram get n\<close> prints exactly \<open>v\<close>.\<close>

theorem cli_set_then_get:
  assumes "nv_staging w = Some s" "nv_part w = length s" "NVRAM_MIN_SPACE \<le> length s" "4 dvd length s" "length s < 2 ^ 32"
    and "0 \<le> e_base env" "4 dvd e_base env"
    and "nvram_open sc False (e_base env) s = Opened h" "CHR ''='' \<notin> set n" "nvram_set sc h n v = (0, h1)"
    and "list_all tuple_ok (concat (h_hash h1))"
    and "length (texts (concat (h_hash h1))) + HEADER_SIZE + 2 \<le> length s - h_offset h"
  shows "\<exists>w1. cli_main env sc [''set'', n @ ''='' @ v] w = Some (0, w1) \<and> nv_dev w1 = nv_dev w \<and>
    cli_main env sc [''get'', n] w1 = Some (0, w1\<lparr>nv_out := nv_out w1 @ [v]\<rparr>)"
proof -
  note ok = nvram_open_ok [OF assms(8,3,4,5,6,7)]
  note set = handle_ok_set [OF ok(1) assms(10)]
  have part: "nv_part w \<noteq> 0" using assms(2,3) by linarith
  have "length (texts (concat (h_hash h1))) + HEADER_SIZE + 2 \<le> length (h_mmap h1) - h_offset h1"
    using assms(12) set ok(2) by simp
  from commit_reopen [OF set(1) assms(11) this refl, of True "e_base env"] obtain h2 h3 where
    commit: "nvram_commit sc h1 = Some (0, h2)" and reopen: "nvram_open sc True (e_base env) (h_mmap h2) = Opened h3"
    and get: "nvram_get sc h3 n = Some v" using set(4) by auto
  have len: "length (h_mmap h2) = length s"
    using commit commit_image_ok [OF set(1)] assms(12) set ok(2) by (auto simp: nvram_commit_def nvram_rehash_frame)
  define w1 where "w1 = w\<lparr>nv_staging := Some (h_mmap h2)\<rparr>"
  have "nvram_open_staging env sc w = (Opened h, w)"
    using assms(1,2,8) part by (simp add: nvram_open_staging_def open_content_def Let_def)
  then have "cli_main env sc [''set'', n @ ''='' @ v] w = Some (0, w1)"
    using assms(1,10) commit len do_set_pair [OF assms(9)]
    by (simp add: cli_main_def Let_def cli_loop_set [simplified] w1_def put_bytes_def)
  moreover have "nvram_open_rdonly env sc w1 = (Opened h3, w1)"
    using reopen part len assms(2) by (simp add: nvram_open_rdonly_def open_content_def Let_def w1_def)
  then have "cli_main env sc [''get'', n] w1 = Some (0, w1\<lparr>nv_out := nv_out w1 @ [v]\<rparr>)"
    using get by (simp add: cli_main_def Let_def cli_loop_get [simplified] do_get_def print_line_def)
  ultimately show ?thesis by (auto simp: w1_def)
qed

subsection \<open>A concrete partition\<close>

lemma entries_mset:
  assumes "nvram_inv sc h" "nvram_get sc h = map_of kvs" "distinct (map fst kvs)"
  shows "mset (concat (h_hash h)) = mset kvs"
proof -
  have d: "distinct (map fst (concat (h_hash h)))" using assms(1) by (rule nvram_entries_distinct)
  have "set (concat (h_hash h)) = set kvs"
    using nvram_entries_get [OF assms(1)] assms(2) map_of_eq_Some_iff [OF d] map_of_eq_Some_iff [OF assms(3)] by auto
  with d assms(3) show ?thesis by (metis distinct_map set_eq_iff_mset_eq_distinct)
qed

lemma length_texts: "length (texts ts) = (\<Sum>t \<in># mset ts. length (tuple_text t))"
  by (induction ts) auto

definition demo_vars :: "tuple list" where
  "demo_vars = [(''sdram_init'', ''0x0419''), (''sdram_config'', ''0x0000''), (''sdram_refresh'', ''0x8040''), (''sdram_ncdl'', ''0x00000000'')]"

definition demo_header :: nvram_header where
  "demo_header = \<lparr>nh_magic = NVRAM_MAGIC, nh_len = 104, nh_crc_ver_init = 0x04190100, nh_config_refresh = 0x80400000, nh_config_ncdl = 0\<rparr>"

definition demo_image :: string where
  "demo_image = header_bytes demo_header @ texts demo_vars @ NUL # replicate (NVRAM_MIN_SPACE - 102) (CHR 0xFF)"

lemma demo_texts: "length (texts demo_vars) = 81" "list_all tuple_ok demo_vars" "distinct (map fst demo_vars)"
  "list_all (\<lambda>(n, v). length v < 100) demo_vars" "\<forall>n \<in> set sdram_names. map_of demo_vars n \<noteq> None"
  by code_simp+

lemma length_demo_image [simp]: "length demo_image = NVRAM_MIN_SPACE"
  by (simp add: demo_image_def demo_texts)

definition demo_handle :: "bool \<Rightarrow> nvram_handle" where
  "demo_handle sc = nvram_rehash sc \<lparr>h_mmap = demo_image, h_base = 0, h_offset = 0, h_hash = replicate NHASH [], h_dead = []\<rparr>"

lemma demo_open: "nvram_open sc False 0 demo_image = Opened (demo_handle sc)"
proof -
  have "header_of demo_image = demo_header" unfolding demo_image_def by (rule header_of_bytes)
  moreover from this have "get32 demo_image = NVRAM_MAGIC" by (simp add: header_of_def demo_header_def)
  ultimately show ?thesis
    by (simp add: nvram_open_def scan_limit_def Let_def nvram_header_at_def demo_handle_def demo_header_def)
qed

lemma demo_ok: "handle_ok sc (demo_handle sc)" "h_mmap (demo_handle sc) = demo_image" "h_offset (demo_handle sc) = 0"
  using nvram_open_ok [OF demo_open] by (simp_all add: demo_handle_def nvram_rehash_frame)

lemma demo_get: "nvram_get sc (demo_handle sc) = map_of demo_vars"
proof
  fix n
  let ?h = "\<lparr>h_mmap = demo_image, h_base = 0, h_offset = 0, h_hash = replicate NHASH [], h_dead = []\<rparr>"
  have "drop HEADER_SIZE demo_image = texts demo_vars @ NUL # replicate (NVRAM_MIN_SPACE - 102) (CHR 0xFF)"
    by (simp add: demo_image_def)
  then have "parse_tuples (drop (h_offset ?h + HEADER_SIZE) (h_mmap ?h)) = demo_vars"
    using parse_texts [OF demo_texts(2)] by simp
  moreover have "list_all (\<lambda>(n, v). value_fits ?h v) demo_vars"
    using demo_texts(4) by (auto simp: list_all_iff value_fits_def)
  moreover have "map_of demo_vars n \<noteq> None \<or> n \<notin> set sdram_names" using demo_texts(5) by blast
  ultimately show "nvram_get sc (demo_handle sc) n = map_of demo_vars n"
    using nvram_rehash_get [OF _ demo_texts(3)] unfolding demo_handle_def by blast
qed

definition demo_handle1 :: "bool \<Rightarrow> nvram_handle" where
  "demo_handle1 sc = snd (nvram_set sc (demo_handle sc) ''lan_ipaddr'' ''192.168.1.1'')"

lemma demo_set: "nvram_set sc (demo_handle sc) ''lan_ipaddr'' ''192.168.1.1'' = (0, demo_handle1 sc)"
  by (simp add: demo_handle1_def nvram_set_def Let_def demo_ok)

lemma demo_entries: "mset (concat (h_hash (demo_handle1 sc))) = mset ((''lan_ipaddr'', ''192.168.1.1'') # demo_vars)"
proof (rule entries_mset)
  note set = handle_ok_set [OF demo_ok(1) demo_set]
  show "nvram_inv sc (demo_handle1 sc)" using set(1) by (rule handle_okD)
  have "value_fits (demo_handle sc) ''192.168.1.1''" by (simp add: value_fits_def demo_ok)
  from nvram_kv.get_put [OF handle_okD(1) [OF demo_ok(1)] this, of "''lan_ipaddr''"]
  show "nvram_get sc (demo_handle1 sc) = map_of ((''lan_ipaddr'', ''192.168.1.1'') # demo_vars)"
    by (simp add: put_var_def demo_set demo_get fun_upd_def)
  show "distinct (map fst ((''lan_ipaddr'', ''192.168.1.1'') # demo_vars))" by code_simp
qed

lemma demo_fits:
  "list_all tuple_ok (concat (h_hash (demo_handle1 sc)))" "length (texts (concat (h_hash (demo_handle1 sc)))) = 104"
proof -
  have "set (concat (h_hash (demo_handle1 sc))) = set ((''lan_ipaddr'', ''192.168.1.1'') # demo_vars)"
    using demo_entries by (metis mset_eq_setD)
  moreover have "list_all tuple_ok ((''lan_ipaddr'', ''192.168.1.1'') # demo_vars)" by code_simp
  ultimately show "list_all tuple_ok (concat (h_hash (demo_handle1 sc)))" unfolding list_all_iff by metis
  have "length (texts (concat (h_hash (demo_handle1 sc)))) = length (texts ((''lan_ipaddr'', ''192.168.1.1'') # demo_vars))"
    unfolding length_texts demo_entries ..
  also have "\<dots> = 104" by code_simp
  finally show "length (texts (concat (h_hash (demo_handle1 sc)))) = 104" .
qed

theorem nvram_refines_map_witness:
  "nvram_get True (demo_handle1 True) = (nvram_get True (demo_handle True))(''lan_ipaddr'' \<mapsto> ''192.168.1.1'')
   \<and> map_of (nvram_getall (demo_handle True)) = map_of demo_vars"
  using nvram_refines_map [OF handle_okD(1) [OF demo_ok(1)], of True "''lan_ipaddr''" "''192.168.1.1''"]
  by (simp add: demo_set demo_ok demo_get)

theorem nvram_persistence_witness:
  "\<exists>h1 h2. nvram_commit True (demo_handle1 True) = Some (0, h1) \<and> nvram_open True False 0 (h_mmap h1) = Opened h2
     \<and> nvram_get True h2 ''lan_ipaddr'' = Some ''192.168.1.1''"
proof -
  note set = handle_ok_set [OF demo_ok(1) demo_set [of True]]
  have room: "length (texts (concat (h_hash (demo_handle1 True)))) + HEADER_SIZE + 2 \<le> length (h_mmap (demo_handle1 True)) - h_offset (demo_handle1 True)"
    by (simp add: demo_fits set demo_ok)
  have "roundup4 (HEADER_SIZE + length (texts (concat (h_hash (demo_handle1 True)))) + 2) < NVRAM_MIN_SPACE"
    by (simp add: demo_fits roundup4_def)
  with nvram_persistence [OF set(1) demo_fits(1) room refl, of False 0] set demo_ok show ?thesis by fastforce
qed

theorem cli_set_then_get_witness:
  "\<exists>w1. cli_main \<lparr>e_mtds = [], e_blk = (\<lambda>i. True), e_dev_write = (\<lambda>o' b. b), e_creat = True, e_unlink = True, e_base = 0\<rparr> True
       [''set'', ''lan_ipaddr=192.168.1.1''] \<lparr>nv_part = NVRAM_MIN_SPACE, nv_dev = (\<lambda>i. None), nv_staging = Some demo_image, nv_out = []\<rparr> = Some (0, w1)
     \<and> cli_main \<lparr>e_mtds = [], e_blk = (\<lambda>i. True), e_dev_write = (\<lambda>o' b. b), e_creat = True, e_unlink = True, e_base = 0\<rparr> True
       [''get'', ''lan_ipaddr''] w1 = Some (0, w1\<lparr>nv_out := nv_out w1 @ [''192.168.1.1'']\<rparr>)"
proof -
  let ?env = "\<lparr>e_mtds = [], e_blk = (\<lambda>i. True), e_dev_write = (\<lambda>o' b. b), e_creat = True, e_unlink = True, e_base = 0\<rparr>"
  let ?w = "\<lparr>nv_part = NVRAM_MIN_SPACE, nv_dev = (\<lambda>i. None), nv_staging = Some demo_image, nv_out = []\<rparr>"
  have pair: "''lan_ipaddr'' @ ''='' @ ''192.168.1.1'' = ''lan_ipaddr=192.168.1.1''" by simp
  have "\<exists>w1. cli_main ?env True [''set'', ''lan_ipaddr'' @ ''='' @ ''192.168.1.1''] ?w = Some (0, w1) \<and> nv_dev w1 = nv_dev ?w \<and>
    cli_main ?env True [''get'', ''lan_ipaddr''] w1 = Some (0, w1\<lparr>nv_out := nv_out w1 @ [''192.168.1.1'']\<rparr>)"
    by (rule cli_set_then_get [where s = demo_image, OF _ _ _ _ _ _ _ _ _ demo_set demo_fits(1)]) (simp_all add: demo_open demo_fits demo_ok)
  then show ?thesis unfolding pair by blast
qed

end
