(* ===== verification/Bmt.thy ===== *)
theory Bmt
  imports CLib
begin

text \<open>
  Bad block mapping for NAND flash (src/target/linux/generic/files/drivers/mtd/nand/mtk_bmt.c,
  mtk_bmt.h and mtk_bmt_bbt.c): the layer that redirects every access of an MTD device to the block a
  table assigns, and the simplest of its tables, one that skips the bad blocks of a range.

  The fields of the global \<open>bmtd\<close> that \<open>mtk_bmt_attach\<close> sets once are the record \<open>bmt_conf\<close>; the
  ones that change are the state of the table. The driver below (\<open>_read_oob\<close> and its fellows) is the
  parameter \<open>nand\<close>, on a device state of any type. The layer calls the table through function pointers;
  they are the record \<open>layer\<close>. A loop that a device may keep going for ever is driven by \<open>drive\<close>, which
  is \<open>None\<close> when the loop does not end. Block numbers and addresses are natural numbers below \<open>2\<^sup>3\<^sup>1\<close> and
  \<open>2\<^sup>6\<^sup>3\<close>, with the narrower truncations of the source written out.
\<close>

unbundle bit_operations_syntax

subsection \<open>Loops\<close>

text \<open>A step returns a result or the next state; \<open>drive\<close> repeats it.\<close>

partial_function (option) drive :: "('x \<Rightarrow> 'r + 'x) \<Rightarrow> 'x \<Rightarrow> 'r option" where
  "drive step x = (case step x of Inl r \<Rightarrow> Some r | Inr y \<Rightarrow> drive step y)"

declare drive.simps [code]

lemma drive_measure:
  fixes m :: "'x \<Rightarrow> 'm::wellorder"
  assumes step: "\<And>x. I x \<Longrightarrow> (case step x of Inl r \<Rightarrow> Q r | Inr y \<Rightarrow> I y \<and> m y < m x)"
    and start: "I x"
  shows "\<exists>r. drive step x = Some r \<and> Q r"
  using start
proof (induction x rule: measure_induct_rule [of m])
  case (less x)
  show ?case
  proof (cases "step x")
    case (Inl r)
    then show ?thesis using step [OF less.prems] by (simp add: drive.simps [of step x])
  next
    case (Inr y)
    then show ?thesis using step [OF less.prems] less.IH [of y] by (simp add: drive.simps [of step x])
  qed
qed

subsection \<open>Configuration and device\<close>

record bmt_conf =
  c_blk_size :: nat
  c_blk_shift :: nat
  c_pg_size :: nat
  c_pg_shift :: nat
  c_total_blks :: nat
  c_remap_range :: "(nat \<times> nat) list"
  c_oob_offset :: nat
  c_bmt_pgs :: nat
  c_bitflip_threshold :: nat
  c_oobsize :: nat

datatype oob_mode = MTD_OPS_PLACE_OOB | MTD_OPS_AUTO_OOB | MTD_OPS_RAW

text \<open>
  A request of a driver operation. The buffers are the bytes from the pointer on; a read does not look at
  them and returns the bytes it delivers, whose numbers are \<open>retlen\<close> and \<open>oobretlen\<close>.
\<close>

record mtd_oob_ops =
  o_mode :: oob_mode
  o_len :: nat
  o_ooblen :: nat
  o_ooboffs :: nat
  o_datbuf :: string
  o_oobbuf :: string

record 'd nand =
  nd_read :: "nat \<Rightarrow> mtd_oob_ops \<Rightarrow> 'd \<Rightarrow> (int \<times> string \<times> string) \<times> 'd"
  nd_write :: "nat \<Rightarrow> mtd_oob_ops \<Rightarrow> 'd \<Rightarrow> (int \<times> nat \<times> nat) \<times> 'd"
  nd_erase :: "nat \<Rightarrow> 'd \<Rightarrow> int \<times> 'd"
  nd_isbad :: "nat \<Rightarrow> 'd \<Rightarrow> int"
  nd_markbad :: "nat \<Rightarrow> 'd \<Rightarrow> int \<times> 'd"

abbreviation (input) EIO :: int where "EIO \<equiv> 5"
abbreviation (input) ENOSPC :: int where "ENOSPC \<equiv> 28"

text \<open>\<open>-EUCLEAN\<close>.\<close>

definition mtd_is_bitflip :: "int \<Rightarrow> bool" where
  "mtd_is_bitflip err \<longleftrightarrow> err = -117"

definition blk_pg :: "bmt_conf \<Rightarrow> nat \<Rightarrow> nat" where
  "blk_pg c block = ((block mod 65536) * 2 ^ (c_blk_shift c - c_pg_shift c)) mod 2 ^ 32"

definition blk_addr :: "bmt_conf \<Rightarrow> nat \<Rightarrow> nat" where
  "blk_addr c block = block * 2 ^ c_blk_shift c"

definition bbt_nand_read :: "bmt_conf \<Rightarrow> 'd nand \<Rightarrow> nat \<Rightarrow> nat \<Rightarrow> nat \<Rightarrow> 'd \<Rightarrow> (int \<times> string \<times> string) \<times> 'd" where
  "bbt_nand_read c nd page dat_len fdm_len d =
     (let ops = \<lparr>o_mode = MTD_OPS_PLACE_OOB, o_len = dat_len, o_ooblen = fdm_len, o_ooboffs = c_oob_offset c,
                 o_datbuf = [], o_oobbuf = []\<rparr>;
          ((ret, dat, fdm), d') = nd_read nd ((page * 2 ^ c_pg_shift c) mod 2 ^ 32) ops d
      in ((if ret < 0 then ret else 0, dat, fdm), d'))"

definition bbt_nand_erase :: "bmt_conf \<Rightarrow> 'd nand \<Rightarrow> nat \<Rightarrow> 'd \<Rightarrow> int \<times> 'd" where
  "bbt_nand_erase c nd block d = nd_erase nd (blk_addr c (block mod 65536)) d"

definition write_bmt :: "bmt_conf \<Rightarrow> 'd nand \<Rightarrow> string \<Rightarrow> nat \<Rightarrow> string \<Rightarrow> 'd \<Rightarrow> int \<times> 'd" where
  "write_bmt c nd sig block dat d =
     (let ops = \<lparr>o_mode = MTD_OPS_PLACE_OOB, o_len = c_bmt_pgs c * 2 ^ c_pg_shift c, o_ooblen = length sig,
                 o_ooboffs = 1 + c_oob_offset c, o_datbuf = dat, o_oobbuf = sig\<rparr>;
          ((ret, n, m), d') = nd_write nd (blk_addr c (block mod 65536)) ops d
      in (ret, d'))"

text \<open>
  \<open>bbt_nand_copy\<close>: the pages left, and the offset reached; \<open>buf\<close> is the contents of \<open>data_buf\<close>. The
  out-of-band length of the write is set only after the write, so no out-of-band bytes are copied.
\<close>

primrec copy_pages :: "bmt_conf \<Rightarrow> 'd nand \<Rightarrow> nat \<Rightarrow> nat \<Rightarrow> nat \<Rightarrow> nat \<Rightarrow> nat \<Rightarrow> string \<times> 'd \<Rightarrow> int \<times> string \<times> 'd" where
  "copy_pages c nd dest src max_offset 0 = (\<lambda>offset bd. (0, bd))"
| "copy_pages c nd dest src max_offset (Suc pages) = (\<lambda>offset (buf, d).
     if offset \<ge> max_offset then (0, buf, d)
     else
       let rd_ops = \<lparr>o_mode = MTD_OPS_PLACE_OOB, o_len = c_pg_size c,
                     o_ooblen = min (c_oobsize c div (c_blk_size c div 2 ^ c_pg_shift c)) 64, o_ooboffs = 0,
                     o_datbuf = [], o_oobbuf = []\<rparr>;
           ((ret, dat, oob), d) = nd_read nd (src + offset) rd_ops d;
           buf = dat @ drop (length dat) buf
       in
       if ret < 0 \<and> \<not> mtd_is_bitflip ret then (ret, buf, d)
       else if dat = [] then (0, buf, d)
       else
         let wr_ops = \<lparr>o_mode = MTD_OPS_PLACE_OOB, o_len = c_pg_size c, o_ooblen = 0, o_ooboffs = 0,
                       o_datbuf = buf, o_oobbuf = oob\<rparr>;
             ((ret, n, m), d) = nd_write nd (dest + offset) wr_ops d
         in if ret < 0 then (ret, buf, d) else copy_pages c nd dest src max_offset pages (offset + length dat) (buf, d))"

definition bbt_nand_copy :: "bmt_conf \<Rightarrow> 'd nand \<Rightarrow> nat \<Rightarrow> nat \<Rightarrow> nat \<Rightarrow> string \<times> 'd \<Rightarrow> int \<times> string \<times> 'd" where
  "bbt_nand_copy c nd dest_blk src_blk max_offset bd =
     copy_pages c nd (blk_addr c (dest_blk mod 65536)) (blk_addr c (src_blk mod 65536)) max_offset
       (c_blk_size c div 2 ^ c_pg_shift c) 0 bd"

fun find_range :: "(nat \<times> nat) list \<Rightarrow> nat \<Rightarrow> (nat \<times> nat) option" where
  "find_range [] addr = None"
| "find_range ((lo, hi) # rs) addr = (if addr < lo \<or> addr \<ge> hi then find_range rs addr else Some (lo, hi))"

text \<open>
  The range the block is in, as addresses; without ranges the source stores block numbers there. The bounds are
  compared without sign, but stored in variables of type \<open>int\<close>.
\<close>

definition mapping_block_in_range :: "bmt_conf \<Rightarrow> nat \<Rightarrow> (int \<times> int) option" where
  "mapping_block_in_range c block =
     (if c_remap_range c = [] then Some (0, int (c_total_blks c))
      else map_option (\<lambda>(lo, hi). (as_s32 lo, as_s32 hi)) (find_range (c_remap_range c) ((block * 2 ^ c_blk_shift c) mod 2 ^ 32)))"

subsection \<open>The redirecting layer\<close>

text \<open>The operations of the table (\<open>struct mtk_bmt_ops\<close>), of the driver, and the copy, on one state.\<close>

record 's layer =
  l_get :: "nat \<Rightarrow> 's \<Rightarrow> int"
  l_remap :: "nat \<Rightarrow> nat \<Rightarrow> nat \<Rightarrow> 's \<Rightarrow> bool \<times> 's"
  l_unmap :: "nat \<Rightarrow> 's \<Rightarrow> 's"
  l_read :: "nat \<Rightarrow> mtd_oob_ops \<Rightarrow> 's \<Rightarrow> (int \<times> string \<times> string) \<times> 's"
  l_write :: "nat \<Rightarrow> mtd_oob_ops \<Rightarrow> 's \<Rightarrow> (int \<times> nat \<times> nat) \<times> 's"
  l_erase :: "nat \<Rightarrow> 's \<Rightarrow> int \<times> 's"
  l_isbad :: "nat \<Rightarrow> 's \<Rightarrow> int"
  l_markbad :: "nat \<Rightarrow> 's \<Rightarrow> int \<times> 's"
  l_copy :: "nat \<Rightarrow> nat \<Rightarrow> nat \<Rightarrow> 's \<Rightarrow> int \<times> 's"

definition mtk_bmt_remap_block :: "bmt_conf \<Rightarrow> 's layer \<Rightarrow> nat \<Rightarrow> nat \<Rightarrow> nat \<Rightarrow> 's \<Rightarrow> bool \<times> 's" where
  "mtk_bmt_remap_block c L block mapped_block copy_len s =
     (case mapping_block_in_range c block of
        None \<Rightarrow> (False, s)
      | Some _ \<Rightarrow> l_remap L (block mod 65536) (mapped_block mod 65536) copy_len s)"

text \<open>The variables of the loops of \<open>mtk_bmt_read\<close> and \<open>mtk_bmt_write\<close>, with the bytes read so far.\<close>

record io_state =
  i_pos :: nat
  i_retlen :: nat
  i_oobretlen :: nat
  i_cur :: mtd_oob_ops
  i_retry :: nat
  i_ret :: int
  i_flips :: int
  i_data :: string
  i_oob :: string

definition io_start :: "nat \<Rightarrow> mtd_oob_ops \<Rightarrow> io_state" where
  "io_start pos ops = \<lparr>i_pos = pos, i_retlen = 0, i_oobretlen = 0, i_cur = ops, i_retry = 0, i_ret = 0, i_flips = 0,
     i_data = [], i_oob = []\<rparr>"

definition io_more :: "mtd_oob_ops \<Rightarrow> io_state \<Rightarrow> bool" where
  "io_more ops i \<longleftrightarrow> i_retlen i < o_len ops \<or> i_oobretlen i < o_ooblen ops"

definition io_offset :: "bmt_conf \<Rightarrow> io_state \<Rightarrow> nat" where
  "io_offset c i = i_pos i AND (c_blk_size c - 1)"

definition io_block :: "bmt_conf \<Rightarrow> io_state \<Rightarrow> nat" where
  "io_block c i = (i_pos i div 2 ^ c_blk_shift c) mod 2 ^ 32"

definition io_len :: "bmt_conf \<Rightarrow> mtd_oob_ops \<Rightarrow> io_state \<Rightarrow> nat" where
  "io_len c ops i = min (c_blk_size c - io_offset c i) (usub 64 (o_len ops) (i_retlen i) mod 2 ^ 32)"

text \<open>The end of a round: the counters, the buffers and the position advance.\<close>

definition io_advance :: "bmt_conf \<Rightarrow> nat \<Rightarrow> nat \<Rightarrow> nat \<Rightarrow> io_state \<Rightarrow> io_state" where
  "io_advance c cur_len n m i =
     i\<lparr>i_retlen := i_retlen i + n, i_oobretlen := i_oobretlen i + m,
       i_cur := (i_cur i)\<lparr>o_ooboffs := 0, o_datbuf := drop n (o_datbuf (i_cur i)), o_oobbuf := drop m (o_oobbuf (i_cur i)),
                          o_ooblen := usub 64 (o_ooblen (i_cur i)) m\<rparr>,
       i_pos := i_pos i + (if cur_len = 0 then c_blk_size c - io_offset c i else cur_len), i_retry := 0\<rparr>"

text \<open>
  \<open>mtk_bmt_read\<close>: one round, the loop, and the result with the variables at the end. \<open>retry_count++\<close> is
  evaluated only when the remapping succeeded. The threshold is unsigned, so that a negative status compares as a
  large one.
\<close>

definition read_step :: "bmt_conf \<Rightarrow> 's layer \<Rightarrow> mtd_oob_ops \<Rightarrow> io_state \<times> 's \<Rightarrow> ((int \<times> io_state) \<times> 's) + io_state \<times> 's" where
  "read_step c L ops = (\<lambda>(i, s).
     if \<not> io_more ops i then Inl ((if i_ret i < 0 then i_ret i else i_flips i, i), s)
     else
       let block = io_block c i; cur_block = l_get L block s in
       if cur_block < 0 then Inl ((- EIO, i), s)
       else
         let cur_len = io_len c ops i;
             ((cur_ret, dat, oob), s) =
               l_read L (blk_addr c (nat cur_block) + io_offset c i) ((i_cur i)\<lparr>o_len := cur_len\<rparr>) s;
             i = (if cur_ret < 0 then i\<lparr>i_ret := cur_ret\<rparr> else i\<lparr>i_flips := max (i_flips i) cur_ret\<rparr>)
         in
         if cur_ret < 0 \<and> \<not> mtd_is_bitflip cur_ret then
           (let (ok, s) = mtk_bmt_remap_block c L block (nat cur_block) (c_blk_size c) s in
            if ok \<and> i_retry i < 10 then Inr (i\<lparr>i_retry := i_retry i + 1\<rparr>, s)
            else Inl ((if i_ret i < 0 then i_ret i else i_flips i, i), s))
         else
           let s = (if c_bitflip_threshold c \<noteq> 0 \<and> as_u32 cur_ret \<ge> c_bitflip_threshold c
                    then snd (mtk_bmt_remap_block c L block (nat cur_block) (c_blk_size c) s) else s)
           in Inr (io_advance c cur_len (length dat) (length oob) i\<lparr>i_data := i_data i @ dat, i_oob := i_oob i @ oob\<rparr>, s))"

definition mtk_bmt_read :: "bmt_conf \<Rightarrow> 's layer \<Rightarrow> nat \<Rightarrow> mtd_oob_ops \<Rightarrow> 's \<Rightarrow> ((int \<times> io_state) \<times> 's) option" where
  "mtk_bmt_read c L from ops s = drive (read_step c L ops) (io_start from ops, s)"

definition write_step :: "bmt_conf \<Rightarrow> 's layer \<Rightarrow> mtd_oob_ops \<Rightarrow> io_state \<times> 's \<Rightarrow> ((int \<times> io_state) \<times> 's) + io_state \<times> 's" where
  "write_step c L ops = (\<lambda>(i, s).
     if \<not> io_more ops i then Inl ((0, i), s)
     else
       let block = io_block c i; cur_block = l_get L block s in
       if cur_block < 0 then Inl ((- EIO, i), s)
       else
         let cur_len = io_len c ops i;
             ((ret, n, m), s) =
               l_write L (blk_addr c (nat cur_block) + io_offset c i) ((i_cur i)\<lparr>o_len := cur_len\<rparr>) s
         in
         if ret < 0 then
           (let (ok, s) = mtk_bmt_remap_block c L block (nat cur_block) (io_offset c i) s in
            if ok \<and> i_retry i < 10 then Inr (i\<lparr>i_retry := i_retry i + 1\<rparr>, s) else Inl ((ret, i), s))
         else Inr (io_advance c cur_len n m i, s))"

definition mtk_bmt_write :: "bmt_conf \<Rightarrow> 's layer \<Rightarrow> nat \<Rightarrow> mtd_oob_ops \<Rightarrow> 's \<Rightarrow> ((int \<times> io_state) \<times> 's) option" where
  "mtk_bmt_write c L to ops s = drive (write_step c L ops) (io_start to ops, s)"

text \<open>
  \<open>mtk_bmt_mtd_erase\<close>: the status and, after a failure, the address it failed at. The block number is
  truncated to 16 bits. \<open>ret0\<close> is the indeterminate value of \<open>ret\<close>, returned when the range is empty.
\<close>

definition erase_step :: "bmt_conf \<Rightarrow> 's layer \<Rightarrow> nat \<Rightarrow> (nat \<times> nat \<times> int) \<times> 's \<Rightarrow>
    ((int \<times> nat option) \<times> 's) + (nat \<times> nat \<times> int) \<times> 's" where
  "erase_step c L end_addr = (\<lambda>((start_addr, retry, ret), s).
     if \<not> start_addr < end_addr then Inl ((ret, None), s)
     else
       let orig_block = (start_addr div 2 ^ c_blk_shift c) mod 65536; block = l_get L orig_block s in
       if block < 0 then Inl ((- EIO, None), s)
       else
         let (ret, s) = l_erase L (blk_addr c (nat block)) s in
         if ret \<noteq> 0 then
           (let (ok, s) = mtk_bmt_remap_block c L orig_block (nat block) 0 s in
            if ok \<and> retry < 10 then Inr ((start_addr, retry + 1, ret), s) else Inl ((ret, Some start_addr), s))
         else Inr ((start_addr + c_blk_size c, 0, ret), s))"

definition mtk_bmt_mtd_erase :: "bmt_conf \<Rightarrow> 's layer \<Rightarrow> int \<Rightarrow> nat \<Rightarrow> nat \<Rightarrow> 's \<Rightarrow> ((int \<times> nat option) \<times> 's) option" where
  "mtk_bmt_mtd_erase c L ret0 addr len s =
     drive (erase_step c L (addr + len)) ((addr - (addr AND (c_blk_size c - 1)), 0, ret0), s)"

definition isbad_step :: "bmt_conf \<Rightarrow> 's layer \<Rightarrow> nat \<Rightarrow> nat \<times> 's \<Rightarrow> (int \<times> 's) + nat \<times> 's" where
  "isbad_step c L orig_block = (\<lambda>(retry, s).
     let block = nat (l_get L orig_block s mod 65536); ret = l_isbad L (blk_addr c block) s in
     if ret \<noteq> 0 then
       (let (ok, s) = mtk_bmt_remap_block c L orig_block block (c_blk_size c) s in
        if ok \<and> retry < 10 then Inr (retry + 1, s) else Inl (ret, s))
     else Inl (ret, s))"

definition mtk_bmt_block_isbad :: "bmt_conf \<Rightarrow> 's layer \<Rightarrow> nat \<Rightarrow> 's \<Rightarrow> (int \<times> 's) option" where
  "mtk_bmt_block_isbad c L ofs s = drive (isbad_step c L ((ofs div 2 ^ c_blk_shift c) mod 65536)) (0, s)"

definition mtk_bmt_block_markbad :: "bmt_conf \<Rightarrow> 's layer \<Rightarrow> nat \<Rightarrow> 's \<Rightarrow> int \<times> 's" where
  "mtk_bmt_block_markbad c L ofs s =
     (let orig_block = (ofs div 2 ^ c_blk_shift c) mod 65536; block = l_get L orig_block s in
      if block < 0 then (- EIO, s)
      else let s = snd (mtk_bmt_remap_block c L orig_block (nat block) (c_blk_size c) s)
           in l_markbad L (blk_addr c (nat block)) s)"

definition mtk_bmt_debug_repair :: "bmt_conf \<Rightarrow> 's layer \<Rightarrow> nat \<Rightarrow> 's \<Rightarrow> int \<times> 's" where
  "mtk_bmt_debug_repair c L val s =
     (let block = val div 2 ^ c_blk_shift c; prev_block = l_get L block s in
      if prev_block < 0 then (- EIO, s)
      else
        let s = l_unmap L (block mod 65536) s; new_block = l_get L block s in
        if new_block < 0 then (- EIO, s)
        else if prev_block = new_block then (0, s)
        else let s = snd (l_erase L (blk_addr c (nat new_block mod 65536)) s);
                 s = snd (l_copy L (nat new_block mod 65536) (nat prev_block mod 65536) (c_blk_size c) s)
             in (0, s))"

definition mtk_bmt_debug_mark_good :: "bmt_conf \<Rightarrow> 's layer \<Rightarrow> nat \<Rightarrow> 's \<Rightarrow> int \<times> 's" where
  "mtk_bmt_debug_mark_good c L val s = (0, l_unmap L ((val div 2 ^ c_blk_shift c) mod 65536) s)"

definition mtk_bmt_debug_mark_bad :: "bmt_conf \<Rightarrow> 's layer \<Rightarrow> nat \<Rightarrow> 's \<Rightarrow> int \<times> 's" where
  "mtk_bmt_debug_mark_bad c L val s =
     (let block = val div 2 ^ c_blk_shift c; cur_block = l_get L block s in
      if cur_block < 0 then (- EIO, s)
      else (0, snd (mtk_bmt_remap_block c L block (nat cur_block) (c_blk_size c) s)))"

subsection \<open>Attaching and detaching\<close>

text \<open>
  The handlers of a device are values of any type \<open>'h\<close>: \<open>mtk_bmt_replace_ops\<close> saves the five of the driver
  and puts those of the layer in their place. The device tree is the record \<open>of_node\<close>. The result of the
  table's \<open>init\<close> is its status, the new size of the device and the table.
\<close>

record 'h handlers =
  h_read_oob :: 'h
  h_write_oob :: 'h
  h_erase :: 'h
  h_block_isbad :: 'h
  h_block_markbad :: 'h

record 'h mtd_info =
  m_id :: nat
  m_handlers :: "'h handlers"
  m_size :: nat
  m_erasesize :: nat
  m_writesize :: nat
  m_oobsize :: nat
  m_bitflip_threshold :: nat

datatype ops_choice = Bmt_v2 | Nmbm | Bbt

record of_node =
  np_bmt_v2 :: bool
  np_nmbm :: bool
  np_bbt :: bool
  np_remap_range :: "(nat \<times> nat) list"
  np_overridden_oobsize :: "nat option"

record ('h, 't) bmt_desc =
  b_mtd :: "nat option"
  b_ops :: "ops_choice option"
  b_saved :: "'h handlers option"
  b_conf :: "bmt_conf option"
  b_table :: "'t option"
  b_debugfs :: bool

definition bmtd_zero :: "('h, 't) bmt_desc" where
  "bmtd_zero = \<lparr>b_mtd = None, b_ops = None, b_saved = None, b_conf = None, b_table = None, b_debugfs = False\<rparr>"

definition choose_ops :: "of_node \<Rightarrow> ops_choice option" where
  "choose_ops np = (if np_bmt_v2 np then Some Bmt_v2 else if np_nmbm np then Some Nmbm
                    else if np_bbt np then Some Bbt else None)"

text \<open>\<open>ffs(x) - 1\<close> for a power of two, and the configuration \<open>mtk_bmt_attach\<close> derives from the device.\<close>

definition ffs1 :: "nat \<Rightarrow> nat" where
  "ffs1 x = length (takeWhile (\<lambda>k. \<not> bit x k) [0..<32])"

definition attach_conf :: "of_node \<Rightarrow> 'h mtd_info \<Rightarrow> bmt_conf" where
  "attach_conf np mtd =
     \<lparr>c_blk_size = m_erasesize mtd, c_blk_shift = ffs1 (m_erasesize mtd), c_pg_size = m_writesize mtd,
      c_pg_shift = ffs1 (m_writesize mtd), c_total_blks = (m_size mtd div 2 ^ ffs1 (m_erasesize mtd)) mod 65536,
      c_remap_range = np_remap_range np, c_oob_offset = 0, c_bmt_pgs = 0,
      c_bitflip_threshold = m_bitflip_threshold mtd, c_oobsize = m_oobsize mtd\<rparr>"

text \<open>\<open>x << k\<close> computed as a 32 bit \<open>int\<close> and stored in 64 bits.\<close>

definition int_shl :: "nat \<Rightarrow> nat \<Rightarrow> nat" where
  "int_shl x k = (let v = (x * 2 ^ k) mod 2 ^ 32 in if v < 2 ^ 31 then v else 2 ^ 64 - 2 ^ 32 + v)"

definition mtk_bmt_replace_ops :: "'h handlers \<Rightarrow> ('h, 't) bmt_desc \<times> 'h mtd_info \<Rightarrow> ('h, 't) bmt_desc \<times> 'h mtd_info" where
  "mtk_bmt_replace_ops bmt_handlers = (\<lambda>(b, mtd).
     (b\<lparr>b_saved := Some (m_handlers mtd)\<rparr>, mtd\<lparr>m_handlers := bmt_handlers\<rparr>))"

definition mtk_bmt_detach :: "('h, 't) bmt_desc \<times> 'h mtd_info \<Rightarrow> ('h, 't) bmt_desc \<times> 'h mtd_info" where
  "mtk_bmt_detach = (\<lambda>(b, mtd).
     if b_mtd b \<noteq> Some (m_id mtd) then (b, mtd)
     else
       (bmtd_zero,
        mtd\<lparr>m_handlers := (case b_saved b of Some h \<Rightarrow> h | None \<Rightarrow> m_handlers mtd),
            m_size := (case b_conf b of Some c \<Rightarrow> int_shl (c_total_blks c) (c_blk_shift c) | None \<Rightarrow> 0)\<rparr>))"

definition override_oobsize :: "of_node \<Rightarrow> 'h mtd_info \<Rightarrow> 'h mtd_info" where
  "override_oobsize np mtd =
     (case np_overridden_oobsize np of
        Some n \<Rightarrow> if n < m_oobsize mtd then mtd\<lparr>m_oobsize := n\<rparr> else mtd
      | None \<Rightarrow> mtd)"

definition mtk_bmt_attach :: "'h handlers \<Rightarrow> (ops_choice \<Rightarrow> bmt_conf \<Rightarrow> nat \<Rightarrow> int \<times> nat \<times> bmt_conf \<times> 't) \<Rightarrow> bool \<Rightarrow>
    of_node option \<Rightarrow> ('h, 't) bmt_desc \<times> 'h mtd_info \<Rightarrow> int \<times> ('h, 't) bmt_desc \<times> 'h mtd_info" where
  "mtk_bmt_attach bmt_handlers init alloc_ok node = (\<lambda>(b, mtd).
     if b_mtd b \<noteq> None then (- ENOSPC, b, mtd)
     else case node of None \<Rightarrow> (0, b, mtd)
     | Some np \<Rightarrow>
         (case choose_ops np of None \<Rightarrow> (0, b, mtd)
          | Some ops \<Rightarrow>
              let (b, mtd) = mtk_bmt_replace_ops bmt_handlers (b\<lparr>b_ops := Some ops, b_mtd := Some (m_id mtd)\<rparr>, mtd);
                  mtd = override_oobsize np mtd;
                  c = attach_conf np mtd;
                  b = b\<lparr>b_conf := Some c\<rparr>
              in
              if \<not> alloc_ok then (-1, mtk_bmt_detach (b, mtd))
              else
                let (ret, new_size, c, t) = init ops c (m_size mtd);
                    mtd = mtd\<lparr>m_size := new_size\<rparr>;
                    b = b\<lparr>b_conf := Some c, b_table := Some t\<rparr>
                in if ret \<noteq> 0 then (ret, mtk_bmt_detach (b, mtd)) else (0, b\<lparr>b_debugfs := True\<rparr>, mtd)))"

subsection \<open>The table of bad blocks of mtk_bmt_bbt.c\<close>

record 'd bbt_state =
  bs_buf :: "8 word list"
  bs_blk_idx :: nat
  bs_data_buf :: string
  bs_dev :: 'd

definition bbt_mask :: "nat \<Rightarrow> 8 word" where
  "bbt_mask block = push_bit ((block mod 4) * 2) 3"

definition bbt_block_is_bad :: "8 word list \<Rightarrow> nat \<Rightarrow> bool" where
  "bbt_block_is_bad buf block \<longleftrightarrow> (let b = block mod 65536 in (buf ! (b div 4)) AND bbt_mask b \<noteq> 0)"

definition bbt_mark :: "8 word list \<Rightarrow> nat \<Rightarrow> bool \<Rightarrow> 8 word list" where
  "bbt_mark buf block bad =
     (let b = block mod 65536 in
      buf[b div 4 := (if bad then (buf ! (b div 4)) OR bbt_mask b else (buf ! (b div 4)) AND NOT (bbt_mask b))])"

definition bytes_of :: "8 word list \<Rightarrow> string" where
  "bytes_of buf = map (\<lambda>b. char_of (unat b)) buf"

definition bbt_set_block_state :: "bmt_conf \<Rightarrow> 'd nand \<Rightarrow> nat \<Rightarrow> bool \<Rightarrow> 'd bbt_state \<Rightarrow> 'd bbt_state" where
  "bbt_set_block_state c nd block bad s =
     (let buf = bbt_mark (bs_buf s) block bad;
          d = snd (bbt_nand_erase c nd (bs_blk_idx s) (bs_dev s));
          d = snd (write_bmt c nd ''mtknand'' (bs_blk_idx s) (bytes_of buf) d)
      in s\<lparr>bs_buf := buf, bs_dev := d\<rparr>)"

text \<open>The first loop of \<open>get_mapping_block_index_bbt\<close>: the final \<open>i\<close>, \<open>ofs\<close> and \<open>bad_blocks\<close>.\<close>

function skip_bad :: "(int \<Rightarrow> bool) \<Rightarrow> int \<Rightarrow> int \<Rightarrow> int \<Rightarrow> nat \<Rightarrow> int \<times> int \<times> nat" where
  "skip_bad bad i e ofs bad_blocks =
     (if \<not> i < e then (i, ofs, bad_blocks)
      else if bad i then skip_bad bad (i + 1) e ofs (bad_blocks + 1)
      else if ofs \<noteq> 0 then skip_bad bad (i + 1) e (ofs - 1) bad_blocks
      else (i, ofs, bad_blocks))"
  by pat_completeness auto
termination
  by (relation "measure (\<lambda>(bad, i, e, ofs, bb). nat (e - i))") auto

declare skip_bad.simps [simp del]

text \<open>
  The second loop, over the \<open>n\<close> blocks from \<open>s\<close> on, from the last one downwards; \<open>bad_blocks\<close> is their number of
  bad ones.
\<close>

fun take_bad :: "(int \<Rightarrow> bool) \<Rightarrow> int \<Rightarrow> nat \<Rightarrow> nat \<Rightarrow> int \<Rightarrow> int option" where
  "take_bad bad s 0 bad_blocks ofs = None"
| "take_bad bad s (Suc n) bad_blocks ofs =
     (if bad_blocks = 0 then None
      else if \<not> bad (s + int n) then take_bad bad s n bad_blocks ofs
      else if int bad_blocks - 1 \<le> ofs then Some (s + int n)
      else take_bad bad s n (bad_blocks - 1) ofs)"

definition bbt_map_range :: "(int \<Rightarrow> bool) \<Rightarrow> int \<Rightarrow> int \<Rightarrow> int \<Rightarrow> int" where
  "bbt_map_range bad s e block =
     (let (i, ofs, bad_blocks) = skip_bad bad s e (block - s) 0 in
      if i < e then i
      else case take_bad bad s (nat (e - s)) bad_blocks ofs of Some k \<Rightarrow> k | None \<Rightarrow> block)"

text \<open>\<open>>>\<close> of a negative \<open>int\<close> shifts in ones, as \<open>div\<close> does; a block number is passed as 16 bits.\<close>

definition get_mapping_block_index_bbt :: "bmt_conf \<Rightarrow> 8 word list \<Rightarrow> nat \<Rightarrow> int" where
  "get_mapping_block_index_bbt c buf block =
     (case mapping_block_in_range c block of
        None \<Rightarrow> int block
      | Some (s, e) \<Rightarrow>
          bbt_map_range (\<lambda>i. bbt_block_is_bad buf (nat (i mod 65536))) (s div 2 ^ c_blk_shift c) (e div 2 ^ c_blk_shift c)
            (int block))"

definition remap_block_bbt :: "bmt_conf \<Rightarrow> 'd nand \<Rightarrow> nat \<Rightarrow> nat \<Rightarrow> nat \<Rightarrow> 'd bbt_state \<Rightarrow> bool \<times> 'd bbt_state" where
  "remap_block_bbt c nd block mapped_blk copy_len s =
     (case mapping_block_in_range c block of
        None \<Rightarrow> (False, s)
      | Some _ \<Rightarrow>
          let s = bbt_set_block_state c nd mapped_blk True s;
              new_blk = nat (get_mapping_block_index_bbt c (bs_buf s) block mod 65536);
              d = snd (bbt_nand_erase c nd new_blk (bs_dev s));
              (buf, d) = (if copy_len > 0 then snd (bbt_nand_copy c nd new_blk mapped_blk copy_len (bs_data_buf s, d))
                          else (bs_data_buf s, d))
          in (True, s\<lparr>bs_data_buf := buf, bs_dev := d\<rparr>))"

definition unmap_block_bbt :: "bmt_conf \<Rightarrow> 'd nand \<Rightarrow> nat \<Rightarrow> 'd bbt_state \<Rightarrow> 'd bbt_state" where
  "unmap_block_bbt c nd block s = bbt_set_block_state c nd block False s"

text \<open>The search for the table in the last blocks: \<open>n\<close> blocks, from block \<open>i\<close> down.\<close>

primrec read_bbt_loop :: "bmt_conf \<Rightarrow> 'd nand \<Rightarrow> nat \<Rightarrow> int \<Rightarrow> 'd bbt_state \<Rightarrow> int \<times> 'd bbt_state" where
  "read_bbt_loop c nd 0 = (\<lambda>i s. (- EIO, s))"
| "read_bbt_loop c nd (Suc n) = (\<lambda>i s.
     let page = nat ((i * 2 ^ (c_blk_shift c - c_pg_shift c)) mod 2 ^ 32);
         ((ret, dat, oob), d) = bbt_nand_read c nd page (c_pg_size c) 8 (bs_dev s);
         s = s\<lparr>bs_dev := d, bs_buf := map (\<lambda>ch. of_nat (of_char ch)) dat @ drop (length dat) (bs_buf s)\<rparr>
     in
     if ret \<noteq> 0 then read_bbt_loop c nd n (i - 1) s
     else if take 1 oob \<noteq> [CHR 0xFF] then read_bbt_loop c nd n (i - 1) s
     else if take 7 (drop 1 oob) \<noteq> ''mtknand'' then read_bbt_loop c nd n (i - 1) s
     else (0, s\<lparr>bs_blk_idx := nat (i mod 65536)\<rparr>))"

definition mtk_bmt_read_bbt :: "bmt_conf \<Rightarrow> 'd nand \<Rightarrow> 'd bbt_state \<Rightarrow> int \<times> 'd bbt_state" where
  "mtk_bmt_read_bbt c nd s = read_bbt_loop c nd 5 (int (c_total_blks c) - 1) s"

definition round_up :: "nat \<Rightarrow> nat \<Rightarrow> nat" where
  "round_up x y = ((x + y - 1) div y) * y"

text \<open>The status, the size of the device (four blocks smaller), the configuration and the table.\<close>

definition mtk_bmt_init_bbt :: "bmt_conf \<Rightarrow> 'd nand \<Rightarrow> nat \<Rightarrow> 'd \<Rightarrow> int \<times> nat \<times> bmt_conf \<times> 'd bbt_state" where
  "mtk_bmt_init_bbt c nd mtd_size d =
     (let buf_size = round_up (c_total_blks c div 4) (c_blk_size c);
          s = \<lparr>bs_buf = replicate buf_size 0xFF, bs_blk_idx = 0,
               bs_data_buf = replicate (c_pg_size c + c_oobsize c) (CHR 0xFF), bs_dev = d\<rparr>;
          mtd_size = usub 64 mtd_size (4 * c_blk_size c);
          (ret, s) = mtk_bmt_read_bbt c nd s
      in if ret \<noteq> 0 then (ret, mtd_size, c, s) else (0, mtd_size, c\<lparr>c_bmt_pgs := buf_size div c_pg_size c\<rparr>, s))"

text \<open>\<open>mtk_bmt_debug_bbt\<close>: value 0 prints the table, four blocks a line, value 100 writes it to the last block.\<close>

definition debug_line :: "8 word \<Rightarrow> string" where
  "debug_line cur = map (\<lambda>k. if (drop_bit (2 * k) cur) AND 3 \<noteq> 0 then CHR ''B'' else CHR ''.'') [0..<4]"

definition mtk_bmt_debug_bbt :: "bmt_conf \<Rightarrow> 'd nand \<Rightarrow> nat \<Rightarrow> 'd bbt_state \<Rightarrow> string list \<times> 'd bbt_state" where
  "mtk_bmt_debug_bbt c nd val s =
     (if val = 0 then
        (map (\<lambda>j. ''['' @ hex_lower_pad 6 (4 * j * c_blk_size c) @ ''] '' @ debug_line (bs_buf s ! j))
           [0..<(c_total_blks c + 3) div 4], s)
      else if val = 100 then
        (let idx = c_total_blks c - 1;
             d = snd (bbt_nand_erase c nd idx (bs_dev s));
             d = snd (write_bmt c nd ''mtknand'' idx (bytes_of (bs_buf s)) d)
         in ([], s\<lparr>bs_blk_idx := idx, bs_dev := d\<rparr>))
      else ([], s))"

text \<open>\<open>mtk_bmt_bbt_ops\<close> with the driver's operations: the layer over this table.\<close>

definition lift_dev :: "('d \<Rightarrow> 'r \<times> 'd) \<Rightarrow> 'd bbt_state \<Rightarrow> 'r \<times> 'd bbt_state" where
  "lift_dev f s = (let (r, d) = f (bs_dev s) in (r, s\<lparr>bs_dev := d\<rparr>))"

definition copy_bbt :: "bmt_conf \<Rightarrow> 'd nand \<Rightarrow> nat \<Rightarrow> nat \<Rightarrow> nat \<Rightarrow> 'd bbt_state \<Rightarrow> int \<times> 'd bbt_state" where
  "copy_bbt c nd dest src len s =
     (let (r, buf, d) = bbt_nand_copy c nd dest src len (bs_data_buf s, bs_dev s) in (r, s\<lparr>bs_data_buf := buf, bs_dev := d\<rparr>))"

definition mtk_bmt_bbt_ops :: "bmt_conf \<Rightarrow> 'd nand \<Rightarrow> 'd bbt_state layer" where
  "mtk_bmt_bbt_ops c nd =
     \<lparr>l_get = (\<lambda>block s. get_mapping_block_index_bbt c (bs_buf s) block),
      l_remap = remap_block_bbt c nd, l_unmap = unmap_block_bbt c nd,
      l_read = (\<lambda>a ops. lift_dev (nd_read nd a ops)),
      l_write = (\<lambda>a ops. lift_dev (nd_write nd a ops)),
      l_erase = (\<lambda>a. lift_dev (nd_erase nd a)),
      l_isbad = (\<lambda>a s. nd_isbad nd a (bs_dev s)), l_markbad = (\<lambda>a. lift_dev (nd_markbad nd a)),
      l_copy = copy_bbt c nd\<rparr>"

subsection \<open>The mapping is a permutation of its range\<close>

abbreviation (input) good_blocks :: "(nat \<Rightarrow> bool) \<Rightarrow> nat \<Rightarrow> nat \<Rightarrow> nat list" where
  "good_blocks bad s e \<equiv> filter (\<lambda>i. \<not> bad i) [s..<e]"

abbreviation (input) bad_list :: "(nat \<Rightarrow> bool) \<Rightarrow> nat \<Rightarrow> nat \<Rightarrow> nat list" where
  "bad_list bad s e \<equiv> filter bad [s..<e]"

text \<open>The range and the block a table gives, on natural numbers.\<close>

definition range_map :: "(nat \<Rightarrow> bool) \<Rightarrow> nat \<Rightarrow> nat \<Rightarrow> nat \<Rightarrow> nat" where
  "range_map bad s e block = nat (bbt_map_range (\<lambda>i. bad (nat i)) (int s) (int e) (int block))"

lemma skip_bad_found:
  "ofs < length (good_blocks bad i e) \<Longrightarrow>
   fst (skip_bad (\<lambda>i. bad (nat i)) (int i) (int e) (int ofs) bb) = int (good_blocks bad i e ! ofs)"
proof (induction "e - i" arbitrary: i ofs bb)
  case (Suc d)
  have IH: "\<And>ofs bb. ofs < length (good_blocks bad (Suc i) e) \<Longrightarrow>
      fst (skip_bad (\<lambda>i. bad (nat i)) (int (Suc i)) (int e) (int ofs) bb) = int (good_blocks bad (Suc i) e ! ofs)"
    by (rule Suc.hyps(1)) (use Suc.hyps(2) in simp_all)
  have "i < e" using Suc.hyps(2) by simp
  then show ?case using Suc.prems IH [of ofs "bb + 1"] IH [of "ofs - 1" bb]
    by (cases ofs) (auto simp: skip_bad.simps [of _ "int i"] upt_conv_Cons add.commute split: if_splits)
qed simp

lemma skip_bad_overflow:
  "i \<le> e \<Longrightarrow> length (good_blocks bad i e) \<le> ofs \<Longrightarrow>
   skip_bad (\<lambda>i. bad (nat i)) (int i) (int e) (int ofs) bb =
     (int e, int (ofs - length (good_blocks bad i e)), bb + length (bad_list bad i e))"
proof (induction "e - i" arbitrary: i ofs bb)
  case (Suc d)
  have IH: "\<And>ofs bb. length (good_blocks bad (Suc i) e) \<le> ofs \<Longrightarrow>
      skip_bad (\<lambda>i. bad (nat i)) (int (Suc i)) (int e) (int ofs) bb =
        (int e, int (ofs - length (good_blocks bad (Suc i) e)), bb + length (bad_list bad (Suc i) e))"
    by (rule Suc.hyps(1)) (use Suc.hyps(2) in simp_all)
  have "i < e" using Suc.hyps(2) by simp
  then show ?case using Suc.prems IH [of ofs "bb + 1"] IH [of "ofs - 1" bb]
    by (cases ofs) (auto simp: skip_bad.simps [of _ "int i"] upt_conv_Cons add.commute split: if_splits)
qed (simp add: skip_bad.simps)

lemma take_bad_nth:
  "ofs < length (bad_list bad s (s + n)) \<Longrightarrow>
   take_bad (\<lambda>i. bad (nat i)) (int s) n (length (bad_list bad s (s + n))) (int ofs) = Some (int (bad_list bad s (s + n) ! ofs))"
  by (induction n) (auto simp: nth_append nat_int_add less_Suc_eq_le)

lemma good_bad_length:
  "length (good_blocks bad s e) + length (bad_list bad s e) = e - s"
  using sum_length_filter_compl [of bad "[s..<e]"] by simp

lemma range_map_nth:
  assumes "k < e - s"
  shows "bbt_map_range (\<lambda>i. bad (nat i)) (int s) (int e) (int (s + k)) = int ((good_blocks bad s e @ bad_list bad s e) ! k)"
    "range_map bad s e (s + k) = (good_blocks bad s e @ bad_list bad s e) ! k"
proof -
  show "bbt_map_range (\<lambda>i. bad (nat i)) (int s) (int e) (int (s + k)) = int ((good_blocks bad s e @ bad_list bad s e) ! k)"
  proof (cases "k < length (good_blocks bad s e)")
    case True
    then have "good_blocks bad s e ! k \<in> set [s..<e]" by (meson filter_is_subset nth_mem subsetD)
    then show ?thesis using True skip_bad_found [OF True, of 0]
      by (auto simp: bbt_map_range_def nth_append split: prod.splits)
  next
    case False
    then have "k - length (good_blocks bad s e) < length (bad_list bad s (s + (e - s)))"
      using good_bad_length [of bad s e] assms by simp
    then show ?thesis using False assms skip_bad_overflow [of s e bad k 0] take_bad_nth [of _ bad s "e - s"]
      by (simp add: bbt_map_range_def nth_append of_nat_diff [symmetric] flip: of_nat_diff)
  qed
  then show "range_map bad s e (s + k) = (good_blocks bad s e @ bad_list bad s e) ! k" by (simp add: range_map_def)
qed

lemma good_bad_distinct: "distinct (good_blocks bad s e @ bad_list bad s e)"
  by auto

lemma good_bad_set: "set (good_blocks bad s e @ bad_list bad s e) = {s..<e}"
  by auto

lemma range_map_bij: "bij_betw (range_map bad s e) {s..<e} {s..<e}"
proof (cases "s \<le> e")
  case True
  have len: "length (good_blocks bad s e @ bad_list bad s e) = e - s"
    using good_bad_length by simp
  have "bij_betw (\<lambda>k. (good_blocks bad s e @ bad_list bad s e) ! k) {..<e - s} {s..<e}"
    by (rule bij_betw_nth [OF good_bad_distinct]) (simp_all only: len good_bad_set)
  moreover have "bij_betw (\<lambda>b. b - s) {s..<e} {..<e - s}"
    by (rule bij_betw_byWitness [where f' = "\<lambda>k. s + k"]) auto
  ultimately have 1: "bij_betw ((\<lambda>k. (good_blocks bad s e @ bad_list bad s e) ! k) \<circ> (\<lambda>b. b - s)) {s..<e} {s..<e}"
    by (rule bij_betw_trans [rotated])
  have 2: "((\<lambda>k. (good_blocks bad s e @ bad_list bad s e) ! k) \<circ> (\<lambda>b. b - s)) b = range_map bad s e b"
    if "b \<in> {s..<e}" for b
    using that range_map_nth(2) [of "b - s" e s bad] by (simp add: diff_less_mono)
  show ?thesis using 1 bij_betw_cong [THEN iffD1, OF 2 1] by blast
qed (simp add: bij_betw_def)

text \<open>
  A mapping of blocks that loses none: what the layer needs of a table. Then a change of the flash below
  inside the blocks some logical blocks are mapped to shows in these logical blocks only.
\<close>

locale block_mapping =
  fixes D :: "nat set" and P :: "nat set" and f :: "nat \<Rightarrow> nat"
  assumes mapping_inj: "inj_on f D"
    and mapping_range: "b \<in> D \<Longrightarrow> f b \<in> P"
begin

definition phys :: "nat \<Rightarrow> nat \<Rightarrow> nat" where
  "phys B p = f (p div B) * B + p mod B"

lemma phys_eq_iff:
  assumes "p div B \<in> D" "q div B \<in> D" "0 < B"
  shows "phys B p = phys B q \<longleftrightarrow> p = q"
proof
  assume eq: "phys B p = phys B q"
  have "phys B p div B = f (p div B)" "phys B p mod B = p mod B" "phys B q div B = f (q div B)" "phys B q mod B = q mod B"
    using assms(3) by (simp_all add: phys_def)
  then have "f (p div B) = f (q div B)" "p mod B = q mod B" using eq by simp_all
  then have "p div B = q div B" using mapping_inj assms by (auto dest: inj_onD)
  then show "p = q" using \<open>p mod B = q mod B\<close> by (metis div_mult_mod_eq)
qed simp

end

text \<open>A mapping of the blocks of a set onto themselves.\<close>

locale block_permutation = block_mapping D D f for D f
begin

lemma mapping_permutes: "finite D \<Longrightarrow> bij_betw f D D"
  using mapping_inj mapping_range endo_inj_surj [of D f] by (auto simp: bij_betw_def image_subset_iff)

end

interpretation bbt_range: block_permutation "{s..<e}" "range_map bad s e" for bad s e
  using range_map_bij [of bad s e] by unfold_locales (auto simp: bij_betw_def)

text \<open>
  The layout of a device the layer can serve: a block is a power of two bytes, the ranges of the device tree
  start and end at block boundaries, lie inside the device and do not overlap; the device is at most \<open>2\<^sup>3\<^sup>2\<close> bytes and the
  ranges end below \<open>2\<^sup>3\<^sup>1\<close>, where the \<open>int\<close> that holds the end of a range would become negative.
\<close>

definition ranges_ok :: "nat \<Rightarrow> nat \<Rightarrow> (nat \<times> nat) list \<Rightarrow> bool" where
  "ranges_ok B N rs \<longleftrightarrow>
     list_all (\<lambda>(lo, hi). lo mod B = 0 \<and> hi mod B = 0 \<and> hi \<le> N * B \<and> hi < 2 ^ 31) rs \<and>
     list_all (\<lambda>(lo, hi). list_all (\<lambda>(lo', hi'). (lo, hi) = (lo', hi') \<or> hi \<le> lo' \<or> hi' \<le> lo) rs) rs"

definition layout_ok :: "bmt_conf \<Rightarrow> bool" where
  "layout_ok c \<longleftrightarrow> c_blk_size c = 2 ^ c_blk_shift c \<and> c_total_blks c * c_blk_size c \<le> 2 ^ 32 \<and>
     c_remap_range c \<noteq> [] \<and> ranges_ok (c_blk_size c) (c_total_blks c) (c_remap_range c)"

abbreviation (input) blocks_of :: "bmt_conf \<Rightarrow> nat set" where
  "blocks_of c \<equiv> {..<c_total_blks c}"

text \<open>The range and the physical block of a logical block, as natural numbers.\<close>

definition range_at :: "bmt_conf \<Rightarrow> nat \<Rightarrow> (nat \<times> nat) option" where
  "range_at c block = find_range (c_remap_range c) ((block * 2 ^ c_blk_shift c) mod 2 ^ 32)"

definition bbt_index :: "bmt_conf \<Rightarrow> 8 word list \<Rightarrow> nat \<Rightarrow> nat" where
  "bbt_index c buf block =
     (case range_at c block of
        None \<Rightarrow> block
      | Some (s, e) \<Rightarrow> range_map (bbt_block_is_bad buf) (s div 2 ^ c_blk_shift c) (e div 2 ^ c_blk_shift c) block)"

lemma find_range_SomeD: "find_range rs a = Some (lo, hi) \<Longrightarrow> (lo, hi) \<in> set rs \<and> lo \<le> a \<and> a < hi"
  by (induction rs a rule: find_range.induct) (auto split: if_splits)

lemma find_range_inside: "(lo, hi) \<in> set rs \<Longrightarrow> lo \<le> a \<Longrightarrow> a < hi \<Longrightarrow> find_range rs a \<noteq> None"
  by (induction rs a rule: find_range.induct) auto

lemma range_block:
  assumes "layout_ok c" and "(lo, hi) \<in> set (c_remap_range c)"
  defines "B \<equiv> c_blk_size c"
  shows "(lo \<le> b * B \<and> b * B < hi) = (b \<in> {lo div B..<hi div B})" "hi \<le> c_total_blks c * B"
proof -
  have B: "0 < B" "lo mod B = 0" "hi mod B = 0" and h: "hi \<le> c_total_blks c * B"
    using assms by (auto simp: layout_ok_def ranges_ok_def list_all_iff)
  then obtain l h' where "lo = l * B" "hi = h' * B"
    by (metis mod_0_imp_dvd dvd_div_mult_self)
  then show "(lo \<le> b * B \<and> b * B < hi) = (b \<in> {lo div B..<hi div B})" using B by simp
  show "hi \<le> c_total_blks c * B" by (rule h)
qed

lemma range_unique:
  assumes "layout_ok c" "(lo, hi) \<in> set (c_remap_range c)" "(lo', hi') \<in> set (c_remap_range c)"
    "lo \<le> a" "a < hi" "lo' \<le> a" "a < hi'"
  shows "(lo', hi') = (lo, hi)"
  using assms by (fastforce simp: layout_ok_def ranges_ok_def list_all_iff)

lemma range_of_block:
  assumes "layout_ok c" "b \<in> blocks_of c"
  shows "range_at c b = find_range (c_remap_range c) (b * c_blk_size c)"
proof -
  have "Suc b * c_blk_size c \<le> c_total_blks c * c_blk_size c" using assms(2) by (intro mult_le_mono1) simp
  also have "\<dots> \<le> 2 ^ 32" using assms(1) unfolding layout_ok_def by blast
  finally have le: "Suc b * c_blk_size c \<le> 2 ^ 32" .
  have "b * c_blk_size c < Suc b * c_blk_size c" using assms(1) by (simp add: layout_ok_def)
  then have "b * c_blk_size c < 2 ^ 32" using le by (rule less_le_trans)
  then show ?thesis using assms(1) by (simp add: range_at_def layout_ok_def)
qed

lemma mapping_cases:
  assumes "layout_ok c" "b \<in> blocks_of c"
  obtains (outside) "range_at c b = None" "bbt_index c buf b = b"
  | (inside) lo hi where "range_at c b = Some (lo, hi)" "(lo, hi) \<in> set (c_remap_range c)"
      "b \<in> {lo div c_blk_size c..<hi div c_blk_size c}"
      "bbt_index c buf b
         = range_map (bbt_block_is_bad buf) (lo div c_blk_size c) (hi div c_blk_size c) b"
      "bbt_index c buf b \<in> {lo div c_blk_size c..<hi div c_blk_size c}"
proof (cases "range_at c b")
  case None
  then show ?thesis using outside by (simp add: bbt_index_def)
next
  case (Some r)
  obtain lo hi where r: "r = (lo, hi)" by (cases r)
  let ?s = "lo div c_blk_size c" and ?e = "hi div c_blk_size c"
  have "find_range (c_remap_range c) (b * c_blk_size c) = Some (lo, hi)" using Some r range_of_block [OF assms] by simp
  then have mem: "(lo, hi) \<in> set (c_remap_range c)" and "lo \<le> b * c_blk_size c \<and> b * c_blk_size c < hi"
    by (auto dest: find_range_SomeD)
  then have b: "b \<in> {?s..<?e}" using range_block(1) [OF assms(1) mem] by blast
  have g: "bbt_index c buf b = range_map (bbt_block_is_bad buf) ?s ?e b"
    using Some r assms(1) by (simp add: bbt_index_def layout_ok_def)
  show ?thesis using inside [OF _ mem b g] Some r bbt_range.mapping_range [OF b] g by simp
qed

lemma range_below:
  assumes "layout_ok c" "(lo, hi) \<in> set (c_remap_range c)" "b \<in> {lo div c_blk_size c..<hi div c_blk_size c}"
  shows "b \<in> blocks_of c" "range_at c b \<noteq> None"
proof -
  have lt: "lo \<le> b * c_blk_size c" "b * c_blk_size c < hi" "b * c_blk_size c < c_total_blks c * c_blk_size c"
    using range_block(1) [OF assms(1,2), of b] range_block(2) [OF assms(1,2)] assms(3) by (blast intro: less_le_trans)+
  show bl: "b \<in> blocks_of c" using lt(3) by simp
  show "range_at c b \<noteq> None"
    using find_range_inside [OF assms(2) lt(1,2)] range_of_block [OF assms(1) bl] by simp
qed

lemma bbt_mapping:
  assumes "layout_ok c"
  shows "block_permutation (blocks_of c) (bbt_index c buf)"
proof (unfold_locales, rule inj_onI)
  fix b b' assume D: "b \<in> blocks_of c" "b' \<in> blocks_of c"
    and eq: "bbt_index c buf b = bbt_index c buf b'"
  show "b = b'" using assms D(1)
  proof (cases rule: mapping_cases [where buf = buf])
    case outside
    show ?thesis using assms D(2)
      by (cases rule: mapping_cases [where buf = buf]) (use outside eq range_below [OF assms] in auto)
  next
    case (inside lo hi)
    note i = this
    show ?thesis using assms D(2)
    proof (cases rule: mapping_cases [where buf = buf])
      case outside
      then show ?thesis using eq range_below(2) [OF assms i(2,5)] by simp
    next
      case (inside lo' hi')
      let ?x = "bbt_index c buf b * c_blk_size c"
      have "lo \<le> ?x \<and> ?x < hi" using range_block(1) [OF assms i(2)] i(5) by blast
      moreover have "lo' \<le> ?x \<and> ?x < hi'" using range_block(1) [OF assms inside(2)] inside(5) eq by metis
      ultimately have "(lo', hi') = (lo, hi)" using range_unique [OF assms i(2) inside(2), of ?x] by blast
      then have "range_map (bbt_block_is_bad buf) (lo div c_blk_size c) (hi div c_blk_size c) b
          = range_map (bbt_block_is_bad buf) (lo div c_blk_size c) (hi div c_blk_size c) b'"
        "b' \<in> {lo div c_blk_size c..<hi div c_blk_size c}"
        using i(4) inside(3,4) eq by simp_all
      then show ?thesis using i(3) bbt_range.mapping_inj [unfolded inj_on_def] by blast
    qed
  qed
next
  fix b assume b: "b \<in> blocks_of c"
  show "bbt_index c buf b \<in> blocks_of c" using assms b
  proof (cases rule: mapping_cases [where buf = buf])
    case (inside lo hi)
    then show ?thesis using range_below(1) [OF assms] by blast
  qed (use b in simp)
qed

text \<open>The indices of the code are these numbers, as long as no bound is negative.\<close>

lemma skip_bad_cong:
  "(\<And>j. i \<le> j \<Longrightarrow> bad j = bad' j) \<Longrightarrow> skip_bad bad i e ofs bb = skip_bad bad' i e ofs bb"
proof (induction bad i e ofs bb rule: skip_bad.induct)
  case (1 bad i e ofs bb)
  then show ?case by (simp add: skip_bad.simps [of bad i e ofs bb] skip_bad.simps [of bad' i e ofs bb])
qed

lemma take_bad_cong:
  "(\<And>j. s \<le> j \<Longrightarrow> bad j = bad' j) \<Longrightarrow> take_bad bad s n bb ofs = take_bad bad' s n bb ofs"
  by (induction n arbitrary: bb) simp_all

lemma bbt_map_range_cong:
  "(\<And>j. s \<le> j \<Longrightarrow> bad j = bad' j) \<Longrightarrow> bbt_map_range bad s e b = bbt_map_range bad' s e b"
  using skip_bad_cong [of s bad bad'] take_bad_cong [of s bad bad'] by (simp add: bbt_map_range_def split_beta)

lemma skip_bad_ge: "i \<le> fst (skip_bad bad i e ofs bb)"
proof (induction bad i e ofs bb rule: skip_bad.induct)
  case (1 bad i e ofs bb)
  then show ?case by (auto simp: skip_bad.simps [of bad i e ofs bb])
qed

lemma take_bad_ge: "take_bad bad s n bb ofs = Some k \<Longrightarrow> s \<le> k"
  by (induction n arbitrary: bb) (auto split: if_splits)

lemma bbt_map_range_nonneg: "0 \<le> s \<Longrightarrow> 0 \<le> b \<Longrightarrow> 0 \<le> bbt_map_range bad s e b"
  using skip_bad_ge [of s bad e "b - s" 0] take_bad_ge [of bad s "nat (e - s)"]
  by (auto simp: bbt_map_range_def Let_def split: prod.splits option.splits) fastforce+

lemma code_index:
  assumes "layout_ok c"
  shows "mapping_block_in_range c b = map_option (\<lambda>(lo, hi). (int lo, int hi)) (range_at c b)"
    "get_mapping_block_index_bbt c buf b = int (bbt_index c buf b)"
proof -
  have small: "lo < 2 ^ 31 \<and> hi < 2 ^ 31" if "range_at c b = Some (lo, hi)" for lo hi
  proof -
    have "(lo, hi) \<in> set (c_remap_range c) \<and> lo < hi" using that find_range_SomeD by (fastforce simp: range_at_def)
    then show ?thesis using assms by (auto simp: layout_ok_def ranges_ok_def list_all_iff)
  qed
  then show m: "mapping_block_in_range c b = map_option (\<lambda>(lo, hi). (int lo, int hi)) (range_at c b)"
    using assms unfolding range_at_def mapping_block_in_range_def
    by (cases "find_range (c_remap_range c) (b * 2 ^ c_blk_shift c mod 2 ^ 32)") (auto simp: layout_ok_def as_s32_small)
  show "get_mapping_block_index_bbt c buf b = int (bbt_index c buf b)"
  proof (cases "range_at c b")
    case (Some r)
    obtain lo hi where r: "r = (lo, hi)" by (cases r)
    let ?s = "lo div 2 ^ c_blk_shift c" and ?e = "hi div 2 ^ c_blk_shift c"
    have "bbt_map_range (\<lambda>i. bbt_block_is_bad buf (nat (i mod 65536))) (int ?s) (int ?e) (int b)
        = bbt_map_range (\<lambda>i. bbt_block_is_bad buf (nat i)) (int ?s) (int ?e) (int b)"
      by (rule bbt_map_range_cong) (simp add: bbt_block_is_bad_def nat_mod_distrib)
    also have "\<dots> = int (range_map (bbt_block_is_bad buf) ?s ?e b)" by (simp add: range_map_def bbt_map_range_nonneg)
    finally show ?thesis using Some r m
      by (simp add: get_mapping_block_index_bbt_def bbt_index_def zdiv_int)
  qed (simp add: get_mapping_block_index_bbt_def bbt_index_def m)
qed

text \<open>
  C26. The table of mtk_bmt_bbt.c maps the blocks of a device one to one onto themselves: blocks outside the
  remapping ranges stay, and inside a range the logical blocks go to its good blocks in order, the last
  ones, when there are bad blocks, to these. The ranges are those of \<open>layout_ok\<close>: whole blocks, inside the device,
  disjoint and ending below \<open>2\<^sup>3\<^sup>1\<close>.\<close>

theorem bbt_mapping_permutation:
  assumes "layout_ok c"
  shows "bij_betw (get_mapping_block_index_bbt c buf) (blocks_of c) {0..<int (c_total_blks c)} \<and>
     (\<forall>b\<in>blocks_of c. mapping_block_in_range c b = None \<longrightarrow> get_mapping_block_index_bbt c buf b = int b) \<and>
     (\<forall>b\<in>blocks_of c. \<forall>lo hi. mapping_block_in_range c b = Some (lo, hi) \<longrightarrow>
        (let s = nat lo div c_blk_size c; e = nat hi div c_blk_size c in
         b \<in> {s..<e} \<and>
         get_mapping_block_index_bbt c buf b =
           int ((filter (\<lambda>i. \<not> bbt_block_is_bad buf i) [s..<e] @ filter (bbt_block_is_bad buf) [s..<e]) ! (b - s))))"
proof (intro conjI ballI allI impI)
  have "bij_betw (bbt_index c buf) (blocks_of c) (blocks_of c)"
    by (rule block_permutation.mapping_permutes [OF bbt_mapping [OF assms]]) simp
  moreover have "bij_betw int (blocks_of c) {0..<int (c_total_blks c)}"
    by (rule bij_betw_byWitness [where f' = nat]) auto
  ultimately have "bij_betw (int \<circ> bbt_index c buf) (blocks_of c) {0..<int (c_total_blks c)}" by (rule bij_betw_trans)
  moreover have "int \<circ> bbt_index c buf = get_mapping_block_index_bbt c buf"
    by (rule ext) (simp add: code_index(2) [OF assms])
  ultimately show "bij_betw (get_mapping_block_index_bbt c buf) (blocks_of c) {0..<int (c_total_blks c)}" by simp
  fix b assume b: "b \<in> blocks_of c"
  show "get_mapping_block_index_bbt c buf b = int b" if "mapping_block_in_range c b = None"
    using that by (simp add: get_mapping_block_index_bbt_def)
  show "let s = nat lo div c_blk_size c; e = nat hi div c_blk_size c in
         b \<in> {s..<e} \<and>
         get_mapping_block_index_bbt c buf b =
           int ((filter (\<lambda>i. \<not> bbt_block_is_bad buf i) [s..<e] @ filter (bbt_block_is_bad buf) [s..<e]) ! (b - s))"
    if "mapping_block_in_range c b = Some (lo, hi)" for lo hi
    using assms b
  proof (cases rule: mapping_cases [where buf = buf])
    case (inside lo' hi')
    then show ?thesis using that range_map_nth(2) [of "b - lo' div c_blk_size c" "hi' div c_blk_size c" "lo' div c_blk_size c"]
      by (auto simp: Let_def code_index [OF assms])
  qed (use that in \<open>simp add: code_index [OF assms]\<close>)
qed

definition demo_conf :: bmt_conf where
  "demo_conf = \<lparr>c_blk_size = 16, c_blk_shift = 4, c_pg_size = 8, c_pg_shift = 3, c_total_blks = 8,
     c_remap_range = [(0, 64)], c_oob_offset = 0, c_bmt_pgs = 2, c_bitflip_threshold = 0, c_oobsize = 8\<rparr>"

lemma demo_layout: "layout_ok demo_conf"
  by (simp add: layout_ok_def ranges_ok_def demo_conf_def)

lemma demo_bad:
  "\<not> bbt_block_is_bad [0x0C, 0] 0" "bbt_block_is_bad [0x0C, 0] 1" "bbt_block_is_bad [0x0C, 0] (Suc 0)"
  "\<not> bbt_block_is_bad [0x0C, 0] 2" "\<not> bbt_block_is_bad [0x0C, 0] 3"
  by (simp_all add: bbt_block_is_bad_def bbt_mask_def)

lemma demo_index: "map (bbt_index demo_conf [0x0C, 0]) [0, 1, 2, 3, 4] = [0, 2, 3, 1, 4]"
proof -
  have u: "[0..<4] = [0, 1, 2, 3::nat]" by (simp add: upt_conv_Cons)
  have "range_map (bbt_block_is_bad [0x0C, 0]) 0 4 k = [0, 2, 3, 1] ! k" if "k < 4" for k
    using range_map_nth(2) [of k 4 0 "bbt_block_is_bad [0x0C, 0]"] that unfolding u by (simp add: demo_bad)
  then show ?thesis by (simp add: bbt_index_def range_at_def demo_conf_def)
qed

lemma demo_mapping: "map (get_mapping_block_index_bbt demo_conf [0x0C, 0]) [0, 1, 2, 3, 4] = [0, 2, 3, 1, 4]"
  using demo_index by (simp add: code_index [OF demo_layout])

theorem bbt_mapping_permutation_witness:
  "bij_betw (get_mapping_block_index_bbt demo_conf [0x0C, 0]) (blocks_of demo_conf) {0..<int (c_total_blks demo_conf)} \<and>
   map (get_mapping_block_index_bbt demo_conf [0x0C, 0]) [0, 1, 2, 3, 4] = [0, 2, 3, 1, 4]"
  using bbt_mapping_permutation [OF demo_layout, of "[0x0C, 0]"] demo_mapping by blast

subsection \<open>Marking and remapping\<close>








text \<open>
  Without ranges in the device tree the block numbers of \<open>mapping_block_in_range\<close> are shifted as if they were
  addresses: the range is empty and no bad block is avoided. A range that reaches \<open>2\<^sup>3\<^sup>1\<close> has a negative end, and
  is empty as well.
\<close>

lemma bbt_empty_range: "e \<le> s \<Longrightarrow> bbt_map_range bad s e b = b"
  by (simp add: bbt_map_range_def skip_bad.simps)

lemma bbt_without_range_identity:
  assumes "c_remap_range c = []" "c_total_blks c < 2 ^ c_blk_shift c"
  shows "get_mapping_block_index_bbt c buf b = int b"
  using assms by (simp add: get_mapping_block_index_bbt_def mapping_block_in_range_def bbt_empty_range zdiv_int flip: of_nat_power)

lemma bbt_high_range_identity:
  assumes "c_remap_range c = [(lo, 0x80000000)]" "lo < 0x80000000"
  shows "get_mapping_block_index_bbt c buf b = int b"
proof -
  have "as_s32 0x80000000 div 2 ^ c_blk_shift c \<le> as_s32 lo div 2 ^ c_blk_shift c"
    using assms(2) by (intro zdiv_mono1) (simp_all add: as_s32_def)
  then show ?thesis using assms(1)
    by (simp add: get_mapping_block_index_bbt_def mapping_block_in_range_def bbt_empty_range)
qed

subsection \<open>Reading and writing through the layer\<close>

lemma and_block_mask: "x AND (2 ^ k - 1) = x mod (2 ^ k :: nat)"
  by (metis take_bit_eq_mask take_bit_eq_mod mask_eq_exp_minus_1)

text \<open>The position a round of the loops works on.\<close>

lemma io_round:
  assumes "c_blk_size c = 2 ^ c_blk_shift c" "o_len ops < 2 ^ 32" "i_retlen i \<le> o_len ops"
    "i_pos i div c_blk_size c < 2 ^ 32"
  shows "io_offset c i = i_pos i mod c_blk_size c" "io_block c i = i_pos i div c_blk_size c"
    "io_len c ops i = min (c_blk_size c - i_pos i mod c_blk_size c) (o_len ops - i_retlen i)"
  using assms by (simp_all add: io_offset_def io_block_def io_len_def and_block_mask [simplified] usub_le)

lemma same_block:
  assumes "k < (B :: nat) - p mod B"
  shows "(p + k) div B = p div B" "(p + k) mod B = p mod B + k"
proof -
  have "p + k = p div B * B + (p mod B + k)" by simp
  moreover have "p mod B + k < B" using assms by linarith
  ultimately show "(p + k) div B = p div B" "(p + k) mod B = p mod B + k"
    by (metis div_mult_self3 div_less add.right_neutral less_nat_zero_code)
      (metis \<open>p + k = p div B * B + (p mod B + k)\<close> \<open>p mod B + k < B\<close> mod_mult_self3 mod_less)
qed

text \<open>What a logical device shows: the byte at logical address \<open>p\<close>, blocks of \<open>B\<close> bytes mapped by \<open>f\<close>.\<close>

definition bmt_view :: "nat \<Rightarrow> (nat \<Rightarrow> nat) \<Rightarrow> (nat \<Rightarrow> char) \<Rightarrow> nat \<Rightarrow> char" where
  "bmt_view B f m p = m (f (p div B) * B + p mod B)"

lemma view_chunk:
  assumes "n \<le> B - p mod B"
  shows "map m [f (p div B) * B + p mod B..<f (p div B) * B + p mod B + n] = map (bmt_view B f m) [p..<p + n]"
  using assms same_block [of _ B p]
  by (intro nth_equalityI) (simp_all add: bmt_view_def ac_simps)

definition read_request :: "nat \<Rightarrow> mtd_oob_ops" where
  "read_request n = \<lparr>o_mode = MTD_OPS_PLACE_OOB, o_len = n, o_ooblen = 0, o_ooboffs = 0, o_datbuf = [], o_oobbuf = []\<rparr>"

definition write_request :: "string \<Rightarrow> mtd_oob_ops" where
  "write_request buf = \<lparr>o_mode = MTD_OPS_PLACE_OOB, o_len = length buf, o_ooblen = 0, o_ooboffs = 0, o_datbuf = buf, o_oobbuf = []\<rparr>"

lemma block_end:
  assumes "b < N" "0 < B" "k \<le> B - q mod B"
  shows "b * B + q mod B + k \<le> N * (B :: nat)"
proof -
  have "q mod B < B" using assms(2) by simp
  then have "b * B + q mod B + k \<le> Suc b * B" using assms(3) by simp
  also have "\<dots> \<le> N * B" using assms(1) by (intro mult_le_mono1) simp
  finally show ?thesis .
qed

lemma read_round:
  assumes B: "c_blk_size c = 2 ^ c_blk_shift c"
    and get: "\<And>b. l_get L b s = int (f b)"
    and rd: "\<And>a ops. o_ooblen ops = 0 \<Longrightarrow> a + o_len ops \<le> N * c_blk_size c \<Longrightarrow>
       l_read L a ops s = ((0, map m [a..<a + o_len ops], []), s)"
    and blk: "f (i_pos i div c_blk_size c) < N"
    and n: "n < 2 ^ 32" and lt: "i_retlen i < n" "i_pos i div c_blk_size c < 2 ^ 32" "o_ooblen (i_cur i) = 0" "i_flips i = 0"
    and k: "k = min (c_blk_size c - i_pos i mod c_blk_size c) (n - i_retlen i)"
  shows "read_step c L (read_request n) (i, s) =
     Inr (io_advance c k k 0 (i\<lparr>i_data := i_data i @ map (bmt_view (c_blk_size c) f m) [i_pos i..<i_pos i + k]\<rparr>), s)"
proof -
  note rnd = io_round [OF B _ _ lt(2), of "read_request n"]
  have rnd': "io_offset c i = i_pos i mod c_blk_size c" "io_block c i = i_pos i div c_blk_size c" "io_len c (read_request n) i = k"
    using rnd n lt(1) k by (simp_all add: read_request_def)
  have chunk: "map m [f (i_pos i div c_blk_size c) * c_blk_size c + i_pos i mod c_blk_size c..<
       f (i_pos i div c_blk_size c) * c_blk_size c + i_pos i mod c_blk_size c + k]
     = map (bmt_view (c_blk_size c) f m) [i_pos i..<i_pos i + k]"
    by (rule view_chunk) (simp add: k)
  have "f (i_pos i div c_blk_size c) * c_blk_size c + i_pos i mod c_blk_size c + k \<le> N * c_blk_size c"
    by (rule block_end [OF blk]) (simp_all add: k B)
  note rd' = rd [of "(i_cur i)\<lparr>o_len := k\<rparr>", simplified, OF lt(3) this]
  have more: "io_more (read_request n) i" using lt(1) by (simp add: io_more_def read_request_def)
  have adv: "(io_advance c k k 0 (i\<lparr>i_flips := 0\<rparr>))\<lparr>i_data := i_data i @ xs, i_oob := i_oob i\<rparr>
      = io_advance c k k 0 (i\<lparr>i_data := i_data i @ xs\<rparr>)" for xs
    using lt(4) by (cases i) (simp add: io_advance_def io_offset_def)
  have thr: "(0 < c_bitflip_threshold c \<and> c_bitflip_threshold c \<le> as_u32 0) = False" by (auto simp: as_u32_def)
  show ?thesis
    unfolding read_step_def Let_def split_beta fst_conv snd_conv rnd' get nat_int blk_addr_def B [symmetric] rd'
    using more lt(4) chunk by (simp add: thr adv)
qed

lemma layer_read:
  assumes B: "c_blk_size c = 2 ^ c_blk_shift c"
    and get: "\<And>b. l_get L b s = int (f b)"
    and rd: "\<And>a ops. o_ooblen ops = 0 \<Longrightarrow> a + o_len ops \<le> N * c_blk_size c \<Longrightarrow>
       l_read L a ops s = ((0, map m [a..<a + o_len ops], []), s)"
    and map_ok: "block_mapping {..<M} {..<N} f"
    and n: "n < 2 ^ 32" and q: "q + n \<le> M * c_blk_size c" and M: "M \<le> 2 ^ 32"
  shows "\<exists>i. mtk_bmt_read c L q (read_request n) s = Some ((0, i), s) \<and> i_retlen i = n \<and>
     i_data i = map (bmt_view (c_blk_size c) f m) [q..<q + n]"
proof -
  let ?B = "c_blk_size c" and ?v = "bmt_view (c_blk_size c) f m" and ?ops = "read_request n"
  define I where "I = (\<lambda>(i :: io_state, s'). s' = s \<and> i_ret i = 0 \<and> i_flips i = 0 \<and> o_ooblen (i_cur i) = 0 \<and>
    i_retlen i \<le> n \<and> i_pos i = q + i_retlen i \<and> i_data i = map ?v [q..<q + i_retlen i])"
  define Q where "Q = (\<lambda>((ret, i :: io_state), s'). ret = (0::int) \<and> s' = s \<and> i_retlen i = n \<and> i_data i = map ?v [q..<q + n])"
  have step: "case read_step c L ?ops x of Inl r \<Rightarrow> Q r | Inr y \<Rightarrow> I y \<and> n - i_retlen (fst y) < n - i_retlen (fst x)" if "I x" for x
  proof -
    obtain i where x: "x = (i, s)" and i: "i_ret i = 0" "i_flips i = 0" "o_ooblen (i_cur i) = 0" "i_pos i = q + i_retlen i"
      "i_data i = map ?v [q..<q + i_retlen i]" "i_retlen i \<le> n" using \<open>I x\<close> by (auto simp: I_def)
    show ?thesis
    proof (cases "i_retlen i < n")
      case False
      then have "read_step c L ?ops x = Inl ((0, i), s)"
        using i by (simp add: x read_step_def io_more_def read_request_def)
      then show ?thesis using False i by (simp add: Q_def)
    next
      case True
      have "i_pos i < M * ?B" using i(4) True q by simp
      then have blk: "i_pos i div ?B < M" by (simp add: less_mult_imp_div_less)
      then have "i_pos i div ?B < 2 ^ 32" using M by simp
      have fb: "f (i_pos i div ?B) < N" using block_mapping.mapping_range [OF map_ok] blk by blast
      define k where "k = min (?B - i_pos i mod ?B) (n - i_retlen i)"
      note rnd = read_round [where L = L and f = f and m = m, OF B get rd fb n True \<open>i_pos i div ?B < 2 ^ 32\<close> i(3,2) k_def]
      have nn: "0 < k" "i_retlen i + k \<le> n" unfolding k_def using True B by auto
      have "map ?v [q..<q + i_retlen i] @ map ?v [i_pos i..<i_pos i + k] = map ?v [q..<q + (i_retlen i + k)]"
        unfolding i(4) map_append [symmetric] add.assoc [symmetric] by (subst upt_add_eq_append) simp_all
      then show ?thesis using nn i True rnd by (simp add: x I_def io_advance_def usub_def)
    qed
  qed
  have "I (io_start q ?ops, s)" by (simp add: I_def io_start_def read_request_def)
  from drive_measure [where I = I and Q = Q, OF step this] show ?thesis
    unfolding mtk_bmt_read_def Q_def by auto
qed

lemma view_write:
  assumes map_ok: "block_mapping D P f" and B: "0 < B" and q: "q div B \<in> D" and p: "p div B \<in> D" and k: "k \<le> B - q mod B"
    and a: "a = f (q div B) * B + q mod B"
  shows "bmt_view B f (\<lambda>x. if x \<in> {a..<a + k} then xs ! (x - a) else m x) p
     = (if p \<in> {q..<q + k} then xs ! (p - q) else bmt_view B f m p)"
proof -
  have ph: "f (p div B) * B + p mod B = a + j \<longleftrightarrow> p = q + j" if "j < k" for j
  proof -
    have j: "j < B - q mod B" using that k by simp
    have "block_mapping.phys f B (q + j) = a + j"
      using same_block [OF j] a by (simp add: block_mapping.phys_def [OF map_ok])
    then show ?thesis using block_mapping.phys_eq_iff [OF map_ok p _ B, of "q + j"] same_block(1) [OF j] q
      by (simp add: block_mapping.phys_def [OF map_ok])
  qed
  let ?x = "f (p div B) * B + p mod B"
  show ?thesis
  proof (cases "?x \<in> {a..<a + k}")
    case True
    then have "?x - a < k" "?x = a + (?x - a)" by auto
    then have "p = q + (?x - a)" using ph by metis
    then have pq: "p - q = ?x - a" "p \<in> {q..<q + k}" using \<open>?x - a < k\<close> by auto
    show ?thesis using True pq by (simp add: bmt_view_def)
  next
    case False
    then have "p \<notin> {q..<q + k}" using ph [of "p - q"] by auto
    then show ?thesis using False by (auto simp: bmt_view_def)
  qed
qed

text \<open>
  Writing: \<open>S\<close> holds of the states in which the table is the given one. The bytes written were erased.
\<close>

lemma layer_write:
  assumes map_ok: "block_mapping {..<M} {..<N} f" and B: "c_blk_size c = 2 ^ c_blk_shift c"
    and get: "\<And>b s. S s \<Longrightarrow> l_get L b s = int (f b)"
    and wr: "\<And>a ops s. S s \<Longrightarrow> o_ooblen ops = 0 \<Longrightarrow> o_len ops \<le> length (o_datbuf ops) \<Longrightarrow>
       a + o_len ops \<le> N * c_blk_size c \<Longrightarrow>
       \<forall>x\<in>{a..<a + o_len ops}. mem s x = CHR 0xFF \<Longrightarrow>
       \<exists>s'. l_write L a ops s = ((0, o_len ops, 0), s') \<and> S s' \<and>
         mem s' = (\<lambda>x. if x \<in> {a..<a + o_len ops} then o_datbuf ops ! (x - a) else mem s x)"
    and n: "length buf < 2 ^ 32" and M: "M \<le> 2 ^ 32" and size: "to + length buf \<le> M * c_blk_size c"
    and to: "\<forall>p\<in>{to..<to + length buf}. bmt_view (c_blk_size c) f (mem s) p = CHR 0xFF"
    and s: "S s"
  shows "\<exists>i s'. mtk_bmt_write c L to (write_request buf) s = Some ((0, i), s') \<and> i_retlen i = length buf \<and> S s' \<and>
     (\<forall>p. p < M * c_blk_size c \<longrightarrow> bmt_view (c_blk_size c) f (mem s') p =
        (if p \<in> {to..<to + length buf} then buf ! (p - to) else bmt_view (c_blk_size c) f (mem s) p))"
proof -
  let ?B = "c_blk_size c" and ?ops = "write_request buf"
  define V where "V = (\<lambda>k p. if p \<in> {to..<to + k} then buf ! (p - to) else bmt_view ?B f (mem s) p)"
  define I where "I = (\<lambda>(i :: io_state, s'). S s' \<and> o_ooblen (i_cur i) = 0 \<and> o_datbuf (i_cur i) = drop (i_retlen i) buf \<and>
    i_retlen i \<le> length buf \<and> i_pos i = to + i_retlen i \<and> (\<forall>p. p < M * ?B \<longrightarrow> bmt_view ?B f (mem s') p = V (i_retlen i) p))"
  define Q where "Q = (\<lambda>((ret, i :: io_state), s'). ret = (0::int) \<and> i_retlen i = length buf \<and> S s' \<and>
    (\<forall>p. p < M * ?B \<longrightarrow> bmt_view ?B f (mem s') p = V (length buf) p))"
  have step: "case write_step c L ?ops x of Inl r \<Rightarrow> Q r
    | Inr y \<Rightarrow> I y \<and> length buf - i_retlen (fst y) < length buf - i_retlen (fst x)" if "I x" for x
  proof -
    obtain i s1 where x: "x = (i, s1)" and i: "S s1" "o_ooblen (i_cur i) = 0" "o_datbuf (i_cur i) = drop (i_retlen i) buf"
      "i_pos i = to + i_retlen i" "i_retlen i \<le> length buf" and v: "\<And>p. p < M * ?B \<Longrightarrow> bmt_view ?B f (mem s1) p = V (i_retlen i) p"
      using \<open>I x\<close> by (auto simp: I_def)
    show ?thesis
    proof (cases "i_retlen i < length buf")
      case False
      then have "write_step c L ?ops x = Inl ((0, i), s1)" by (simp add: x write_step_def io_more_def write_request_def)
      then show ?thesis using False i v by (simp add: Q_def)
    next
      case lt: True
      have "i_pos i < M * ?B" using i(4) lt size by simp
      then have blk: "i_pos i div ?B \<in> {..<M}" by (simp add: less_mult_imp_div_less)
      then have "i_pos i div ?B < 2 ^ 32" using M by simp
      note rnd = io_round [OF B _ _ this, of ?ops]
      define k where "k = min (?B - i_pos i mod ?B) (length buf - i_retlen i)"
      define a where "a = f (i_pos i div ?B) * ?B + i_pos i mod ?B"
      have nn: "0 < k" "k \<le> ?B - i_pos i mod ?B" "i_retlen i + k \<le> length buf"
        "k \<le> length (drop (i_retlen i) buf)" using lt B by (auto simp: k_def)
      have dat: "o_datbuf ((i_cur i)\<lparr>o_len := k\<rparr>) = drop (i_retlen i) buf" "o_len ((i_cur i)\<lparr>o_len := k\<rparr>) = k"
        "o_ooblen ((i_cur i)\<lparr>o_len := k\<rparr>) = 0" using i by simp_all
      have er: "mem s1 (a + j) = CHR 0xFF" if "j < k" for j
      proof -
        have j: "j < ?B - i_pos i mod ?B" "to + (i_retlen i + j) \<in> {to..<to + length buf}" using that nn by auto
        have "bmt_view ?B f (mem s1) (to + (i_retlen i + j)) = CHR 0xFF" using v to j(2) size by (simp add: V_def)
        then show ?thesis using same_block [OF j(1)] by (simp add: bmt_view_def a_def i(4) add.assoc)
      qed
      have "f (i_pos i div ?B) < N" using block_mapping.mapping_range [OF map_ok blk] by simp
      then have sz: "a + k \<le> N * ?B" unfolding a_def by (rule block_end [OF _ _ nn(2)]) (simp add: B)
      from er have "\<forall>x\<in>{a..<a + k}. mem s1 x = CHR 0xFF" by (metis atLeastLessThan_iff le_Suc_ex nat_add_left_cancel_less)
      then obtain s2 where w: "l_write L a ((i_cur i)\<lparr>o_len := k\<rparr>) s1 = ((0, k, 0), s2)" "S s2"
        "mem s2 = (\<lambda>x. if x \<in> {a..<a + k} then drop (i_retlen i) buf ! (x - a) else mem s1 x)"
        using wr [OF i(1), of "(i_cur i)\<lparr>o_len := k\<rparr>" a] i nn(4) sz by (simp only: dat) auto
      have view: "bmt_view ?B f (mem s2) p = V (i_retlen i + k) p" if "p < M * ?B" for p
        using view_write [OF map_ok _ blk _ nn(2) a_def, of p] less_mult_imp_div_less [OF that] v [OF that] i(4) B w(3) nn(3) by (auto simp: V_def)
      have "write_step c L ?ops x = Inr (io_advance c k k 0 i, s2)"
        using lt n rnd w(1) get [OF i(1)]
        by (simp add: x write_step_def io_more_def write_request_def blk_addr_def B [symmetric] k_def [symmetric] a_def [symmetric])
      then show ?thesis using nn i view w(2) lt by (simp add: x I_def io_advance_def usub_def add.commute [of k])
    qed
  qed
  have "I (io_start to ?ops, s)" using s by (auto simp: I_def io_start_def write_request_def V_def)
  from drive_measure [where I = I and Q = Q, OF step this] show ?thesis
    unfolding mtk_bmt_write_def Q_def V_def by auto
qed

text \<open>
  What the layer relies on of a driver over sound flash of \<open>size\<close> bytes: a read delivers the bytes of the
  flash, a write into erased bytes stores the data; \<open>mem\<close> is the contents of the flash in a device state.
\<close>

definition flash_driver :: "'d nand \<Rightarrow> ('d \<Rightarrow> nat \<Rightarrow> char) \<Rightarrow> nat \<Rightarrow> bool" where
  "flash_driver nd mem sz \<longleftrightarrow>
     (\<forall>a ops d. o_ooblen ops = 0 \<and> a + o_len ops \<le> sz \<longrightarrow>
        nd_read nd a ops d = ((0, map (mem d) [a..<a + o_len ops], []), d)) \<and>
     (\<forall>a ops d. o_ooblen ops = 0 \<and> o_len ops \<le> length (o_datbuf ops) \<and> a + o_len ops \<le> sz \<and>
          (\<forall>x\<in>{a..<a + o_len ops}. mem d x = CHR 0xFF) \<longrightarrow>
        (\<exists>d'. nd_write nd a ops d = ((0, o_len ops, 0), d') \<and>
           mem d' = (\<lambda>x. if x \<in> {a..<a + o_len ops} then o_datbuf ops ! (x - a) else mem d x)))"

text \<open>
  C25. Over sound flash, writing bytes to an erased part of the logical device succeeds, and any later read
  shows them there and every other byte as it was before, whatever blocks the table calls bad. The ranges of the table
  are those of \<open>layout_ok\<close>.\<close>

theorem bbt_write_read:
  assumes "layout_ok c" "flash_driver nd mem (c_total_blks c * c_blk_size c)"
    "length buf < 2 ^ 32" "to + length buf \<le> c_total_blks c * c_blk_size c"
    "\<forall>p\<in>{to..<to + length buf}.
       bmt_view (c_blk_size c) (\<lambda>b. nat (get_mapping_block_index_bbt c (bs_buf st) b)) (mem (bs_dev st)) p = CHR 0xFF"
  shows "\<exists>i st'. mtk_bmt_write c (mtk_bmt_bbt_ops c nd) to (write_request buf) st = Some ((0, i), st') \<and>
     i_retlen i = length buf \<and>
     (\<forall>q m. m < 2 ^ 32 \<and> q + m \<le> c_total_blks c * c_blk_size c \<longrightarrow>
        (\<exists>j. mtk_bmt_read c (mtk_bmt_bbt_ops c nd) q (read_request m) st' = Some ((0, j), st') \<and>
           i_data j = map (\<lambda>p. if p \<in> {to..<to + length buf} then buf ! (p - to)
             else bmt_view (c_blk_size c) (\<lambda>b. nat (get_mapping_block_index_bbt c (bs_buf st) b)) (mem (bs_dev st)) p) [q..<q + m]))"
proof -
  note code = code_index(2) [OF assms(1)]
  note as = assms(4,5) [unfolded code nat_int]
  let ?f = "bbt_index c (bs_buf st)" and ?L = "mtk_bmt_bbt_ops c nd" and ?B = "c_blk_size c"
  have B: "?B = 2 ^ c_blk_shift c" and sz: "c_total_blks c * ?B \<le> 2 ^ 32" using assms(1) by (auto simp: layout_ok_def)
  have N: "c_total_blks c \<le> 2 ^ 32" using sz B le_trans [of "c_total_blks c" "c_total_blks c * ?B"] by simp
  have "\<exists>i st'. mtk_bmt_write c ?L to (write_request buf) st = Some ((0, i), st') \<and> i_retlen i = length buf \<and>
     bs_buf st' = bs_buf st \<and> (\<forall>p. p < c_total_blks c * ?B \<longrightarrow> bmt_view ?B ?f (mem (bs_dev st')) p =
       (if p \<in> {to..<to + length buf} then buf ! (p - to) else bmt_view ?B ?f (mem (bs_dev st)) p))"
  proof (rule layer_write [where S = "\<lambda>s. bs_buf s = bs_buf st" and mem = "\<lambda>s. mem (bs_dev s)",
        OF block_permutation.axioms [OF bbt_mapping [OF assms(1)]] B _ _ assms(3) N as(1) as(2) refl])
    show "l_get ?L b s = int (?f b)" if "bs_buf s = bs_buf st" for b s using that by (simp add: mtk_bmt_bbt_ops_def code)
    show "\<exists>s'. l_write ?L a ops s = ((0, o_len ops, 0), s') \<and> bs_buf s' = bs_buf st \<and>
        mem (bs_dev s') = (\<lambda>x. if x \<in> {a..<a + o_len ops} then o_datbuf ops ! (x - a) else mem (bs_dev s) x)"
      if h: "bs_buf s = bs_buf st" "o_ooblen ops = 0" "o_len ops \<le> length (o_datbuf ops)"
        "a + o_len ops \<le> c_total_blks c * ?B" "\<forall>x\<in>{a..<a + o_len ops}. mem (bs_dev s) x = CHR 0xFF" for a ops s
    proof -
      obtain d' where "nd_write nd a ops (bs_dev s) = ((0, o_len ops, 0), d')"
        "mem d' = (\<lambda>x. if x \<in> {a..<a + o_len ops} then o_datbuf ops ! (x - a) else mem (bs_dev s) x)"
        using conjunct2 [OF assms(2) [unfolded flash_driver_def], rule_format, of ops a "bs_dev s"] h by blast
      then show ?thesis using h(1) by (intro exI [of _ "s\<lparr>bs_dev := d'\<rparr>"]) (simp add: mtk_bmt_bbt_ops_def lift_dev_def)
    qed
  qed
  then obtain i st' where w: "mtk_bmt_write c ?L to (write_request buf) st = Some ((0, i), st')" "i_retlen i = length buf"
    "bs_buf st' = bs_buf st" and v: "\<And>p. p < c_total_blks c * ?B \<Longrightarrow> bmt_view ?B ?f (mem (bs_dev st')) p =
       (if p \<in> {to..<to + length buf} then buf ! (p - to) else bmt_view ?B ?f (mem (bs_dev st)) p)" by blast
  have "\<exists>j. mtk_bmt_read c ?L q (read_request m) st' = Some ((0, j), st') \<and>
      i_data j = map (\<lambda>p. if p \<in> {to..<to + length buf} then buf ! (p - to) else bmt_view ?B ?f (mem (bs_dev st)) p) [q..<q + m]"
    if qm: "m < 2 ^ 32" "q + m \<le> c_total_blks c * ?B" for q m
  proof -
    have "\<exists>j. mtk_bmt_read c ?L q (read_request m) st' = Some ((0, j), st') \<and> i_retlen j = m \<and>
        i_data j = map (bmt_view ?B ?f (mem (bs_dev st'))) [q..<q + m]"
    proof (rule layer_read [OF B _ _ block_permutation.axioms [OF bbt_mapping [OF assms(1)]] qm N])
      show "l_get ?L b st' = int (?f b)" for b using w(3) by (simp add: mtk_bmt_bbt_ops_def code)
      show "l_read ?L a ops st' = ((0, map (mem (bs_dev st')) [a..<a + o_len ops], []), st')"
        if "o_ooblen ops = 0" "a + o_len ops \<le> c_total_blks c * ?B" for a ops
        using assms(2) that by (simp add: mtk_bmt_bbt_ops_def lift_dev_def flash_driver_def)
    qed
    moreover have "map (bmt_view ?B ?f (mem (bs_dev st'))) [q..<q + m] =
        map (\<lambda>p. if p \<in> {to..<to + length buf} then buf ! (p - to) else bmt_view ?B ?f (mem (bs_dev st)) p) [q..<q + m]"
      using qm(2) v by (intro map_cong) auto
    ultimately show ?thesis by auto
  qed
  then show ?thesis unfolding code nat_int using w(1,2) by blast
qed

definition ram_nand :: "(nat \<Rightarrow> char) nand" where
  "ram_nand =
     \<lparr>nd_read = (\<lambda>a ops d. ((0, map d [a..<a + o_len ops], []), d)),
      nd_write = (\<lambda>a ops d. ((0, o_len ops, 0), \<lambda>x. if x \<in> {a..<a + o_len ops} then o_datbuf ops ! (x - a) else d x)),
      nd_erase = (\<lambda>a d. (0, \<lambda>x. if a \<le> x \<and> x < a + 16 then CHR 0xFF else d x)),
      nd_isbad = (\<lambda>a d. 0), nd_markbad = (\<lambda>a d. (0, d))\<rparr>"

lemma ram_flash_driver: "flash_driver ram_nand (\<lambda>d. d) sz"
  by (simp add: flash_driver_def ram_nand_def)

definition demo_table :: "(nat \<Rightarrow> char) bbt_state" where
  "demo_table = \<lparr>bs_buf = [0x0C, 0], bs_blk_idx = 7, bs_data_buf = [], bs_dev = \<lambda>x. CHR 0xFF\<rparr>"

theorem bbt_write_read_witness:
  "\<exists>i st'. mtk_bmt_write demo_conf (mtk_bmt_bbt_ops demo_conf ram_nand) 14 (write_request ''abcd'') demo_table = Some ((0, i), st') \<and>
     i_retlen i = 4 \<and>
     (\<exists>j. mtk_bmt_read demo_conf (mtk_bmt_bbt_ops demo_conf ram_nand) 13 (read_request 4) st' = Some ((0, j), st') \<and>
        i_data j = [CHR 0xFF, CHR ''a'', CHR ''b'', CHR ''c''])"
proof -
  have r: "[13..<17] = [13, 14, 15, 16::nat]" by (simp add: upt_conv_Cons)
  have c: "c_bitflip_threshold demo_conf = 0" "c_total_blks demo_conf = 8" "c_blk_size demo_conf = 16"
    by (simp_all add: demo_conf_def)
  have v: "bmt_view B f (bs_dev demo_table) p = CHR 0xFF" for B f p by (simp add: bmt_view_def demo_table_def)
  obtain i st' where w: "mtk_bmt_write demo_conf (mtk_bmt_bbt_ops demo_conf ram_nand) 14 (write_request ''abcd'') demo_table = Some ((0, i), st')"
    "i_retlen i = 4"
    and rd: "\<And>q m. m < 2 ^ 32 \<and> q + m \<le> 128 \<Longrightarrow>
        \<exists>j. mtk_bmt_read demo_conf (mtk_bmt_bbt_ops demo_conf ram_nand) q (read_request m) st' = Some ((0, j), st') \<and>
           i_data j = map (\<lambda>p. if p \<in> {14..<18} then ''abcd'' ! (p - 14) else
             bmt_view (c_blk_size demo_conf) (\<lambda>b. nat (get_mapping_block_index_bbt demo_conf (bs_buf demo_table) b)) (bs_dev demo_table) p) [q..<q + m]"
    using bbt_write_read [where buf = "''abcd''" and to = 14 and st = demo_table, OF demo_layout ram_flash_driver]
    by (auto simp: c v)
  show ?thesis using w rd [of 4 13] by (simp add: r v)
qed


subsection \<open>Attaching\<close>

text \<open>
  When the buffer cannot be allocated or no table is found, attaching fails and the device is given back
  as it was: its own handlers and its size, and nothing stays recorded, so that another device can be
  attached. Only an out-of-band size the device tree overrides stays overridden. (The size of the device is
  a whole number of blocks, fewer than 65536, and below \<open>2\<^sup>3\<^sup>1\<close> bytes.)
\<close>

theorem failed_attach_restores:
  assumes "b_mtd b = None" "choose_ops np = Some Bbt" "init Bbt = (\<lambda>c sz. mtk_bmt_init_bbt c nd sz d)"
    "m_size mtd = n * 2 ^ ffs1 (m_erasesize mtd)" "n < 65536" "m_size mtd < 2 ^ 31"
    "alloc_ok \<longrightarrow> fst (mtk_bmt_init_bbt (attach_conf np (override_oobsize np mtd)) nd (m_size mtd) d) \<noteq> 0"
  shows "fst (mtk_bmt_attach hs init alloc_ok (Some np) (b, mtd)) \<noteq> 0 \<and>
     snd (mtk_bmt_attach hs init alloc_ok (Some np) (b, mtd)) = (bmtd_zero, override_oobsize np mtd)"
proof -
  let ?m = "override_oobsize np mtd" and ?c = "attach_conf np (override_oobsize np mtd)"
  have m: "m_handlers ?m = m_handlers mtd" "m_size ?m = m_size mtd" "m_id ?m = m_id mtd" "m_erasesize ?m = m_erasesize mtd"
    by (simp_all add: override_oobsize_def split: option.splits)
  have ov: "override_oobsize np (mtd\<lparr>m_handlers := hs\<rparr>) = ?m\<lparr>m_handlers := hs\<rparr>"
    by (simp add: override_oobsize_def split: option.splits)
  have c: "attach_conf np (?m\<lparr>m_handlers := hs\<rparr>) = ?c" by (simp add: attach_conf_def)
  have sz: "int_shl (c_total_blks ?c) (c_blk_shift ?c) = m_size mtd"
    using assms(4-6) m by (simp add: attach_conf_def int_shl_def)
  have bk2: "(?m\<lparr>m_handlers := hs, m_size := sz'\<rparr>)\<lparr>m_handlers := m_handlers mtd, m_size := m_size mtd\<rparr> = ?m" for sz'
    using m by simp
  have bk: "(?m\<lparr>m_handlers := hs\<rparr>)\<lparr>m_handlers := m_handlers mtd, m_size := m_size mtd\<rparr> = ?m"
    using m by simp
  show ?thesis
  proof (cases alloc_ok)
    case False
    then show ?thesis using assms(1,2) sz bk m
      by (simp add: mtk_bmt_attach_def mtk_bmt_replace_ops_def mtk_bmt_detach_def ov c)
  next
    case True
    obtain ret n' c' t where i: "mtk_bmt_init_bbt ?c nd (m_size mtd) d = (ret, n', c', t)" by (metis prod_cases4)
    have "ret \<noteq> 0" using assms(7) True i by simp
    moreover from this have "c' = ?c" using i by (auto simp: mtk_bmt_init_bbt_def Let_def split: prod.splits if_splits)
    ultimately show ?thesis using assms(1-3) sz bk2 m True i
      by (simp add: mtk_bmt_attach_def mtk_bmt_replace_ops_def mtk_bmt_detach_def ov c)
  qed
qed

lemma ram_no_table: "fst (read_bbt_loop c ram_nand n i s) = - 5"
  by (induction n arbitrary: i s) (simp_all add: bbt_nand_read_def ram_nand_def Let_def)

lemma ffs1_16: "ffs1 16 = 4"
  by code_simp

definition demo_handlers :: "nat handlers" where
  "demo_handlers = \<lparr>h_read_oob = 1, h_write_oob = 2, h_erase = 3, h_block_isbad = 4, h_block_markbad = 5\<rparr>"

definition demo_mtd :: "nat mtd_info" where
  "demo_mtd = \<lparr>m_id = 1, m_handlers = demo_handlers, m_size = 128, m_erasesize = 16, m_writesize = 8, m_oobsize = 8,
     m_bitflip_threshold = 0\<rparr>"

definition demo_node :: of_node where
  "demo_node = \<lparr>np_bmt_v2 = False, np_nmbm = False, np_bbt = True, np_remap_range = [(0, 64)], np_overridden_oobsize = None\<rparr>"

theorem failed_attach_restores_witness:
  "snd (mtk_bmt_attach (demo_handlers\<lparr>h_erase := 9\<rparr>) (\<lambda>_ c sz. mtk_bmt_init_bbt c ram_nand sz (\<lambda>x. CHR 0xFF)) True (Some demo_node)
     (bmtd_zero, demo_mtd)) = (bmtd_zero, demo_mtd)"
proof -
  have "fst (mtk_bmt_init_bbt c ram_nand sz d) = - 5" for c sz d
    using ram_no_table by (auto simp: mtk_bmt_init_bbt_def mtk_bmt_read_bbt_def Let_def split_beta)
  moreover have "override_oobsize demo_node demo_mtd = demo_mtd" "choose_ops demo_node = Some Bbt"
    by (simp_all add: override_oobsize_def demo_node_def choose_ops_def)
  moreover have "m_size demo_mtd = 8 * 2 ^ ffs1 (m_erasesize demo_mtd)" "m_size demo_mtd < 2 ^ 31"
    by (simp_all add: demo_mtd_def ffs1_16)
  ultimately show ?thesis
    using failed_attach_restores [where b = bmtd_zero and np = demo_node and mtd = demo_mtd and n = 8
        and nd = ram_nand and d = "\<lambda>x. CHR 0xFF" and alloc_ok = True and hs = "demo_handlers\<lparr>h_erase := 9\<rparr>"
        and init = "\<lambda>_ c sz. mtk_bmt_init_bbt c ram_nand sz (\<lambda>x. CHR 0xFF)"]
    by (simp add: bmtd_zero_def)
qed

end
