(* ===== verification/BmtV2.thy ===== *)
theory BmtV2
  imports Bmt
begin

text \<open>
  The second kind of table (src/target/linux/generic/files/drivers/mtd/nand/mtk_bmt_v2.c): an array gives the
  physical block of every logical block, and a pool of spare blocks behind the data takes over the blocks
  that fail. The table itself is written to the last good block of the pool.

  The buffer \<open>struct bbbt\<close> is the list of its 16 bit halfwords: two of signature and version, then
  \<open>bb_tbl\<close> with \<open>table_size\<close> entries, then \<open>bmt_tbl\<close> with two halfwords an entry. It is stored little
  endian. In the source an access behind the buffer is out of bounds; here it reads 0 and stores nothing.
\<close>

subsection \<open>The buffer\<close>

record v2_conf =
  vc_conf :: bmt_conf
  vc_pool_lba :: nat
  vc_table_size :: nat
  vc_bb_max :: nat

record 'd v2_state =
  v_buf :: "nat list"
  v_blk_idx :: nat
  v_pool_pba :: nat
  v_data_buf :: string
  v_dev :: 'd

abbreviation (input) NO_MAPPED :: nat where "NO_MAPPED \<equiv> 0"
abbreviation (input) NORMAL_MAPPED :: nat where "NORMAL_MAPPED \<equiv> 1"
abbreviation (input) BMT_MAPPED :: nat where "BMT_MAPPED \<equiv> 2"

definition hw :: "nat list \<Rightarrow> nat \<Rightarrow> nat" where
  "hw buf k = (if k < length buf then buf ! k else 0)"

definition bb_tbl :: "nat list \<Rightarrow> nat \<Rightarrow> nat" where
  "bb_tbl buf i = hw buf (2 + i)"

definition set_bb_tbl :: "nat \<Rightarrow> nat \<Rightarrow> nat list \<Rightarrow> nat list" where
  "set_bb_tbl i v buf = buf[2 + i := v mod 65536]"

text \<open>\<open>bmt_tbl(bbt)[i].block\<close> and \<open>bmt_tbl(bbt)[i].mapped\<close>, with a table of \<open>T\<close> entries.\<close>

definition bmt_block :: "nat \<Rightarrow> nat list \<Rightarrow> nat \<Rightarrow> nat" where
  "bmt_block T buf i = hw buf (2 + T + 2 * i)"

definition bmt_mapped :: "nat \<Rightarrow> nat list \<Rightarrow> nat \<Rightarrow> nat" where
  "bmt_mapped T buf i = hw buf (3 + T + 2 * i)"

definition set_bmt_block :: "nat \<Rightarrow> nat \<Rightarrow> nat \<Rightarrow> nat list \<Rightarrow> nat list" where
  "set_bmt_block T i v buf = buf[2 + T + 2 * i := v mod 65536]"

definition set_bmt_mapped :: "nat \<Rightarrow> nat \<Rightarrow> nat \<Rightarrow> nat list \<Rightarrow> nat list" where
  "set_bmt_mapped T i v buf = buf[3 + T + 2 * i := v]"

fun halfwords :: "string \<Rightarrow> nat list" where
  "halfwords (a # b # s) = (of_char a + 256 * of_char b) # halfwords s"
| "halfwords _ = []"

definition hw_bytes :: "nat list \<Rightarrow> string" where
  "hw_bytes buf = concat (map (\<lambda>h. [char_of (h mod 256), char_of (h div 256)]) buf)"

text \<open>\<open>memcpy(bbt->signature, "BMT", 3)\<close> and the version.\<close>

definition sign :: "nat list \<Rightarrow> nat list" where
  "sign buf = buf[0 := 0x4D42, 1 := 0x0254]"

definition is_valid_bmt :: "nat list \<Rightarrow> string \<Rightarrow> bool" where
  "is_valid_bmt buf fdm \<longleftrightarrow> hw buf 0 = 0x4D42 \<and> hw buf 1 mod 256 = 0x54 \<and> take 3 (drop 1 fdm) = ''bmt'' \<and> hw buf 1 div 256 = 2"

subsection \<open>Scanning a device for the first time\<close>

function find_valid_block :: "v2_conf \<Rightarrow> 'd nand \<Rightarrow> nat \<Rightarrow> nat \<Rightarrow> string \<times> 'd \<Rightarrow> nat \<times> string \<times> 'd" where
  "find_valid_block vc nd loop block bd =
     (let c = vc_conf vc in
      if block \<ge> c_total_blks c then (0, bd)
      else
        let ((ret, dat, fdm), d) = bbt_nand_read c nd (blk_pg c block) (c_pg_size c) 4 (snd bd);
            bd = (dat @ drop (length dat) (fst bd), d)
        in
        if ret \<noteq> 0 \<or> take 1 fdm \<noteq> [CHR 0xFF]
        then (if loop \<ge> vc_bb_max vc then (0, bd) else find_valid_block vc nd (loop + 1) (block + 1) bd)
        else (block, bd))"
  by pat_completeness auto
termination
  by (relation "measure (\<lambda>(vc, nd, loop, block, bd). c_total_blks (vc_conf vc) - block)") auto

declare find_valid_block.simps [simp del]

definition find_valid :: "v2_conf \<Rightarrow> 'd nand \<Rightarrow> nat \<Rightarrow> 'd v2_state \<Rightarrow> nat \<times> 'd v2_state" where
  "find_valid vc nd block s =
     (let (r, buf, d) = find_valid_block vc nd 0 block (v_data_buf s, v_dev s)
      in (r, s\<lparr>v_data_buf := buf, v_dev := d\<rparr>))"

text \<open>The first loop: \<open>n\<close> entries from entry \<open>i\<close> on. The result says whether it went through.\<close>

primrec scan_main :: "v2_conf \<Rightarrow> 'd nand \<Rightarrow> nat \<Rightarrow> nat \<Rightarrow> 'd v2_state \<Rightarrow> bool \<times> 'd v2_state" where
  "scan_main vc nd 0 = (\<lambda>i s. (True, s))"
| "scan_main vc nd (Suc n) = (\<lambda>i s.
     let (r, s) = find_valid vc nd ((bb_tbl (v_buf s) (i - 1) + 1) mod 65536) s;
         s = s\<lparr>v_buf := set_bb_tbl i r (v_buf s)\<rparr>
     in if r = 0 then (False, s) else scan_main vc nd n (i + 1) s)"

lemma find_valid_block_bounds:
  "fst (find_valid_block vc nd loop block bd) \<noteq> 0 \<Longrightarrow>
   block \<le> fst (find_valid_block vc nd loop block bd) \<and>
   fst (find_valid_block vc nd loop block bd) < c_total_blks (vc_conf vc)"
proof (induction vc nd loop block bd rule: find_valid_block.induct)
  case (1 vc nd loop block bd)
  then show ?case
    by (auto simp: find_valid_block.simps [of vc nd loop block bd] Let_def split: prod.splits if_splits) (metis Suc_leD fst_conv)+
qed

text \<open>
  The second loop fills the table of the pool; the final number of entries. \<open>block++\<close> stays in 16 bits,
  because the block found is below \<open>total_blks\<close>.
\<close>

function scan_pool :: "v2_conf \<Rightarrow> 'd nand \<Rightarrow> nat \<Rightarrow> nat \<Rightarrow> 'd v2_state \<Rightarrow> nat \<times> 'd v2_state" where
  "scan_pool vc nd i block s =
     (let rs = find_valid vc nd block s; r = fst rs; s = snd rs; T = vc_table_size vc in
      if r = 0 then (i, s)
      else scan_pool vc nd (i + 1) (r + 1)
             (s\<lparr>v_buf := set_bmt_mapped T i NO_MAPPED (set_bmt_block T i r (v_buf s))\<rparr>))"
  by pat_completeness auto
termination
proof (relation "measure (\<lambda>(vc, nd, i, block, s). c_total_blks (vc_conf vc) - block)", goal_cases)
  case (2 vc nd i block s rs r s' T)
  then show ?case
    using find_valid_block_bounds [of vc nd 0 block "(v_data_buf s, v_dev s)"]
    by (auto simp: find_valid_def Let_def split: prod.splits)
qed simp

declare scan_pool.simps [simp del]

definition scan_bad_blocks :: "v2_conf \<Rightarrow> 'd nand \<Rightarrow> 'd v2_state \<Rightarrow> int \<times> 'd v2_state" where
  "scan_bad_blocks vc nd s =
     (let T = vc_table_size vc;
          (ok, s) = scan_main vc nd (vc_pool_lba vc - 1) 1 (s\<lparr>v_buf := set_bb_tbl 0 0 (v_buf s)\<rparr>)
      in
      if \<not> ok then (-1, s)
      else
        let pba = (bb_tbl (v_buf s) (vc_pool_lba vc - 1) + 1) mod 65536; s = s\<lparr>v_pool_pba := pba\<rparr> in
        if pba + 2 \<ge> c_total_blks (vc_conf vc) then (-1, s)
        else
          let (i, s) = scan_pool vc nd 0 pba s;
              idx = (i + 65535) mod 65536;
              s = s\<lparr>v_blk_idx := idx, v_buf := set_bmt_mapped T idx BMT_MAPPED (v_buf s)\<rparr>
          in if i < 1 then (-1, s) else (0, s))"

subsection \<open>Storing the table\<close>

function get_bmt_index :: "nat \<Rightarrow> nat list \<Rightarrow> nat \<Rightarrow> nat" where
  "get_bmt_index T buf i =
     (if bmt_block T buf i = 0 then 0
      else if bmt_mapped T buf i = BMT_MAPPED then i mod 65536
      else get_bmt_index T buf (i + 1))"
  by pat_completeness auto
termination
  by (relation "measure (\<lambda>(T, buf, i). length buf - i)") (auto simp: bmt_block_def hw_def split: if_splits)

declare get_bmt_index.simps [simp del]

text \<open>\<open>upload_bmt(bbt, n - 1)\<close>; the result \<open>(u16)-1\<close> says that no block could take the table.\<close>

primrec upload_bmt :: "v2_conf \<Rightarrow> 'd nand \<Rightarrow> nat \<Rightarrow> 'd v2_state \<Rightarrow> nat \<times> 'd v2_state" where
  "upload_bmt vc nd 0 = (\<lambda>s. (65535, s))"
| "upload_bmt vc nd (Suc n) = (\<lambda>s.
     let T = vc_table_size vc; c = vc_conf vc in
     if bmt_mapped T (v_buf s) n = NORMAL_MAPPED then (65535, s)
     else
       let block = bmt_block T (v_buf s) n;
           (er, d) = bbt_nand_erase c nd block (v_dev s)
       in
       if er \<noteq> 0 then upload_bmt vc nd n (s\<lparr>v_dev := d, v_buf := set_bmt_block T n 0 (v_buf s)\<rparr>)
       else
         let buf = sign (v_buf s); (wr, d) = write_bmt c nd ''bmt'' block (hw_bytes buf) d in
         if wr \<noteq> 0 then upload_bmt vc nd n (s\<lparr>v_dev := d, v_buf := set_bmt_block T n 0 buf\<rparr>)
         else (n mod 65536, s\<lparr>v_dev := d, v_buf := buf\<rparr>))"

definition upload_table :: "v2_conf \<Rightarrow> 'd nand \<Rightarrow> 'd v2_state \<Rightarrow> 'd v2_state" where
  "upload_table vc nd s = (let (n, s) = upload_bmt vc nd (Suc (v_blk_idx s)) s in s\<lparr>v_blk_idx := n\<rparr>)"

subsection \<open>Remapping\<close>

text \<open>The block taken from the pool, 0 when there is none.\<close>

definition find_valid_block_in_pool :: "nat \<Rightarrow> nat \<Rightarrow> nat list \<Rightarrow> nat \<times> nat list" where
  "find_valid_block_in_pool T idx buf =
     (case List.find (\<lambda>i. bmt_block T buf i \<noteq> 0 \<and> bmt_mapped T buf i = NO_MAPPED) [0..<idx] of
        Some i \<Rightarrow> (bmt_block T buf i, set_bmt_mapped T i NORMAL_MAPPED buf)
      | None \<Rightarrow> (0, buf))"

definition remap_block_v2 :: "v2_conf \<Rightarrow> 'd nand \<Rightarrow> nat \<Rightarrow> nat \<Rightarrow> nat \<Rightarrow> 'd v2_state \<Rightarrow> bool \<times> 'd v2_state" where
  "remap_block_v2 vc nd block mapped_block copy_len s =
     (let c = vc_conf vc; (new_block, buf) = find_valid_block_in_pool (vc_table_size vc) (v_blk_idx s) (v_buf s) in
      if new_block = 0 then (False, s)
      else
        let s = s\<lparr>v_buf := set_bb_tbl block new_block buf\<rparr>;
            d = snd (bbt_nand_erase c nd new_block (v_dev s));
            (dbuf, d) = (if copy_len > 0 then snd (bbt_nand_copy c nd new_block mapped_block copy_len (v_data_buf s, d))
                         else (v_data_buf s, d))
        in (True, upload_table vc nd (s\<lparr>v_data_buf := dbuf, v_dev := d\<rparr>)))"

definition get_mapping_block_index_v2 :: "v2_conf \<Rightarrow> nat list \<Rightarrow> nat \<Rightarrow> nat" where
  "get_mapping_block_index_v2 vc buf block =
     (if block \<ge> vc_pool_lba vc then block
      else case mapping_block_in_range (vc_conf vc) block of None \<Rightarrow> block | Some _ \<Rightarrow> bb_tbl buf block)"

definition unmap_block_v2 :: "v2_conf \<Rightarrow> 'd nand \<Rightarrow> nat \<Rightarrow> 'd v2_state \<Rightarrow> 'd v2_state" where
  "unmap_block_v2 vc nd block s = upload_table vc nd (s\<lparr>v_buf := set_bb_tbl block block (v_buf s)\<rparr>)"

subsection \<open>Debugging\<close>

text \<open>The entries of the pool a logical block is mapped to.\<close>

definition mtk_bmt_get_mapping_mask :: "v2_conf \<Rightarrow> nat \<Rightarrow> 'd v2_state \<Rightarrow> nat list" where
  "mtk_bmt_get_mapping_mask vc main_blocks s =
     List.map_filter (\<lambda>i. let b = bb_tbl (v_buf s) i in
         if b = i then None else List.find (\<lambda>k. b = bmt_block (vc_table_size vc) (v_buf s) k) [0..<v_blk_idx s])
       [1..<main_blocks]"

definition debug_pool_line :: "v2_conf \<Rightarrow> nat list \<Rightarrow> 'd v2_state \<Rightarrow> nat \<Rightarrow> string option" where
  "debug_pool_line vc used s i =
     (let T = vc_table_size vc; m = bmt_mapped T (v_buf s) i in
      if m = NO_MAPPED then None
      else Some (''['' @ hex_lower i @ '':'' @
        (if m = NORMAL_MAPPED then (if i \<in> set used then ''M'' else ''m'') else if m = BMT_MAPPED then ''B'' else ''X'') @
        ''] = 0x'' @ hex_lower (bmt_block T (v_buf s) i)))"

definition mtk_bmt_debug_v2 :: "v2_conf \<Rightarrow> 'd nand \<Rightarrow> nat \<Rightarrow> nat \<Rightarrow> 'd v2_state \<Rightarrow> string list \<times> 'd v2_state" where
  "mtk_bmt_debug_v2 vc nd main_blocks val s =
     (let T = vc_table_size vc; used = mtk_bmt_get_mapping_mask vc main_blocks s in
      if val = 0 then
        (map (\<lambda>i. ''remap ['' @ hex_lower i @ ''->'' @ hex_lower (bb_tbl (v_buf s) i) @ '']'')
           (filter (\<lambda>i. bb_tbl (v_buf s) i \<noteq> i) [1..<main_blocks]) @
         List.map_filter (debug_pool_line vc used s) [0..<Suc (v_blk_idx s)], s)
      else if val = 100 then
        (let free = filter (\<lambda>i. bmt_mapped T (v_buf s) i = NORMAL_MAPPED \<and> i \<notin> set used) [0..<Suc (v_blk_idx s)];
             s' = s\<lparr>v_buf := fold (\<lambda>i. set_bmt_mapped T i NO_MAPPED) free (v_buf s)\<rparr>
         in (map (\<lambda>i. ''free block ['' @ dec_nat i @ '':'' @ hex_lower (bmt_block T (v_buf s) i) @ '']'') free,
             if free \<noteq> [] then upload_table vc nd s' else s'))
      else ([], s))"

subsection \<open>Starting\<close>

text \<open>The search for a stored table: \<open>n\<close> blocks, from block \<open>block\<close> down. The result says whether one was found.\<close>

primrec find_table :: "v2_conf \<Rightarrow> 'd nand \<Rightarrow> nat \<Rightarrow> nat \<Rightarrow> nat \<Rightarrow> 'd v2_state \<Rightarrow> bool \<times> 'd v2_state" where
  "find_table vc nd bufsz 0 = (\<lambda>block s. (False, s))"
| "find_table vc nd bufsz (Suc n) = (\<lambda>block s.
     let c = vc_conf vc;
         ((ret, dat, fdm), d) = bbt_nand_read c nd (blk_pg c block) bufsz 4 (v_dev s);
         buf = halfwords dat @ drop (length (halfwords dat)) (v_buf s);
         s = s\<lparr>v_dev := d, v_buf := buf\<rparr>
     in
     if ret \<noteq> 0 \<or> \<not> is_valid_bmt buf fdm then find_table vc nd bufsz n (block - 1) s
     else
       let idx = get_bmt_index (vc_table_size vc) buf 0; s = s\<lparr>v_blk_idx := idx\<rparr>
       in (idx \<noteq> 0, s))"

record v2_node =
  vn_pool_size :: "nat option"
  vn_oob_offset :: "nat option"
  vn_table_size :: "nat option"

definition or_default :: "'a option \<Rightarrow> 'a \<Rightarrow> 'a" where
  "or_default x d = (case x of Some v \<Rightarrow> v | None \<Rightarrow> d)"

definition v2_bufsz :: "nat \<Rightarrow> nat \<Rightarrow> nat" where
  "v2_bufsz T pg_size = round_up (4 + 4 * T) pg_size"

definition v2_pmt_block :: "bmt_conf \<Rightarrow> v2_node \<Rightarrow> nat" where
  "v2_pmt_block c vn = nat ((int (c_total_blks c) - int (or_default (vn_pool_size vn) 80) - 2) mod 65536)"

definition v2_setup :: "bmt_conf \<Rightarrow> v2_node \<Rightarrow> v2_conf" where
  "v2_setup c vn =
     (let T = or_default (vn_table_size vn) 0x2000 in
      \<lparr>vc_conf = c\<lparr>c_oob_offset := or_default (vn_oob_offset vn) 0, c_bmt_pgs := v2_bufsz T (c_pg_size c) div 2 ^ c_pg_shift c\<rparr>,
       vc_pool_lba = (v2_pmt_block c vn + 2) mod 65536, vc_table_size = T, vc_bb_max = c_total_blks c * 2 div 100\<rparr>)"

text \<open>
  \<open>memset(bmt_tbl(bmtd.bbt), 0, table_size * sizeof(struct bbmt))\<close> inside the buffer; it is twice as long as
  what the buffer has room for.
\<close>

definition clear_bmt_tbl :: "nat \<Rightarrow> nat list \<Rightarrow> nat list" where
  "clear_bmt_tbl T buf = take (2 + T) buf @ replicate (min (2 * T) (length buf - (2 + T))) 0 @ drop (2 + T + 2 * T) buf"

definition v2_first_start :: "v2_conf \<Rightarrow> 'd nand \<Rightarrow> 'd v2_state \<Rightarrow> int \<times> 'd v2_state" where
  "v2_first_start vc nd s =
     (let T = vc_table_size vc in
      if c_total_blks (vc_conf vc) > T + T * 2 div 100 then (-1, s)
      else
        let (ret, s) = scan_bad_blocks vc nd (s\<lparr>v_buf := clear_bmt_tbl T (v_buf s)\<rparr>) in
        if ret \<noteq> 0 then (-1, s)
        else let s = upload_table vc nd s in if v_blk_idx s = 65535 then (-1, s) else (0, s))"

definition mtk_bmt_init_v2 :: "bmt_conf \<Rightarrow> 'd nand \<Rightarrow> v2_node \<Rightarrow> 'd \<Rightarrow> int \<times> nat \<times> v2_conf \<times> 'd v2_state" where
  "mtk_bmt_init_v2 c nd vn d =
     (let vc = v2_setup c vn;
          bufsz = v2_bufsz (vc_table_size vc) (c_pg_size c);
          mtd_size = int_shl (v2_pmt_block c vn) (c_blk_shift c);
          s = \<lparr>v_buf = replicate (bufsz div 2) 65535, v_blk_idx = 0, v_pool_pba = 0,
               v_data_buf = replicate (c_pg_size c + c_oobsize c) (CHR 0xFF), v_dev = d\<rparr>;
          (found, s) = find_table vc nd bufsz (c_total_blks c - vc_pool_lba vc) (c_total_blks c - 1) s;
          (ret, s) = (if found then (0, s) else v2_first_start vc nd s)
      in (ret, mtd_size, vc, s))"

definition mtk_bmt_v2_ops :: "v2_conf \<Rightarrow> 'd nand \<Rightarrow> 'd v2_state layer" where
  "mtk_bmt_v2_ops vc nd =
     (let c = vc_conf vc in
     \<lparr>l_get = (\<lambda>block s. int (get_mapping_block_index_v2 vc (v_buf s) block)),
      l_remap = remap_block_v2 vc nd, l_unmap = unmap_block_v2 vc nd,
      l_read = (\<lambda>a ops s. let (r, d) = nd_read nd a ops (v_dev s) in (r, s\<lparr>v_dev := d\<rparr>)),
      l_write = (\<lambda>a ops s. let (r, d) = nd_write nd a ops (v_dev s) in (r, s\<lparr>v_dev := d\<rparr>)),
      l_erase = (\<lambda>a s. let (r, d) = nd_erase nd a (v_dev s) in (r, s\<lparr>v_dev := d\<rparr>)),
      l_isbad = (\<lambda>a s. nd_isbad nd a (v_dev s)),
      l_markbad = (\<lambda>a s. let (r, d) = nd_markbad nd a (v_dev s) in (r, s\<lparr>v_dev := d\<rparr>)),
      l_copy = (\<lambda>dest src len s. let (r, b, d) = bbt_nand_copy c nd dest src len (v_data_buf s, v_dev s)
                                 in (r, s\<lparr>v_data_buf := b, v_dev := d\<rparr>))\<rparr>)"

subsection \<open>Accessors\<close>

lemma odd_even_offset [simp]:
  "2 + T + 2 * j \<noteq> 3 + T + 2 * (i::nat)" "3 + T + 2 * i \<noteq> 2 + T + 2 * (j::nat)"
  by presburger+

lemma hw_update: "hw (buf[k := v]) j = (if j = k \<and> k < length buf then v else hw buf j)"
  by (simp add: hw_def nth_list_update)

lemma table_lengths [simp]:
  "length (set_bb_tbl i v buf) = length buf" "length (set_bmt_block T i v buf) = length buf"
  "length (set_bmt_mapped T i v buf) = length buf" "length (sign buf) = length buf"
  by (simp_all add: set_bb_tbl_def set_bmt_block_def set_bmt_mapped_def sign_def)

lemma bb_tbl_simps [simp]:
  "bb_tbl (set_bb_tbl i v buf) j = (if j = i \<and> 2 + i < length buf then v mod 65536 else bb_tbl buf j)"
  "j < T \<Longrightarrow> bb_tbl (set_bmt_block T i v buf) j = bb_tbl buf j"
  "j < T \<Longrightarrow> bb_tbl (set_bmt_mapped T i v buf) j = bb_tbl buf j"
  "bb_tbl (sign buf) j = bb_tbl buf j"
  by (auto simp: bb_tbl_def set_bb_tbl_def set_bmt_block_def set_bmt_mapped_def sign_def hw_update)

lemma bmt_block_simps [simp]:
  "i < T \<Longrightarrow> bmt_block T (set_bb_tbl i v buf) j = bmt_block T buf j"
  "bmt_block T (set_bmt_block T i v buf) j = (if j = i \<and> 2 + T + 2 * i < length buf then v mod 65536 else bmt_block T buf j)"
  "bmt_block T (set_bmt_mapped T i v buf) j = bmt_block T buf j"
  "bmt_block T (sign buf) j = bmt_block T buf j"
  by (auto simp: bmt_block_def set_bb_tbl_def set_bmt_block_def set_bmt_mapped_def sign_def hw_update
      double_not_eq_Suc_double Suc_double_not_eq_double)

lemma bmt_mapped_simps [simp]:
  "i < T \<Longrightarrow> bmt_mapped T (set_bb_tbl i v buf) j = bmt_mapped T buf j"
  "bmt_mapped T (set_bmt_block T i v buf) j = bmt_mapped T buf j"
  "bmt_mapped T (set_bmt_mapped T i v buf) j = (if j = i \<and> 3 + T + 2 * i < length buf then v else bmt_mapped T buf j)"
  "bmt_mapped T (sign buf) j = bmt_mapped T buf j"
  by (auto simp: bmt_mapped_def set_bb_tbl_def set_bmt_block_def set_bmt_mapped_def sign_def hw_update
      double_not_eq_Suc_double Suc_double_not_eq_double)

subsection \<open>The invariant of the table\<close>

text \<open>
  A table whose entries fit the buffer: no two logical blocks share a physical block, no two entries of the
  pool name the same block, and a block of the pool that is not handed out is not in use.
\<close>

definition v2_conf_ok :: "v2_conf \<Rightarrow> bool" where
  "v2_conf_ok vc \<longleftrightarrow> 0 < vc_pool_lba vc \<and> vc_pool_lba vc \<le> vc_table_size vc \<and> c_total_blks (vc_conf vc) < 65536"

definition v2_buf_ok :: "v2_conf \<Rightarrow> nat list \<Rightarrow> bool" where
  "v2_buf_ok vc buf \<longleftrightarrow> 2 + vc_table_size vc \<le> length buf \<and> length buf \<le> 2 + 3 * vc_table_size vc \<and>
     even (length buf + vc_table_size vc)"

definition v2_ok :: "v2_conf \<Rightarrow> nat list \<Rightarrow> bool" where
  "v2_ok vc buf \<longleftrightarrow> (let T = vc_table_size vc; used = bb_tbl buf ` {..<vc_pool_lba vc}; N = c_total_blks (vc_conf vc) in
     v2_buf_ok vc buf \<and> inj_on (bb_tbl buf) {..<vc_pool_lba vc} \<and> used \<subseteq> {..<N} \<and>
     (\<forall>i j. i \<noteq> j \<and> bmt_block T buf i \<noteq> 0 \<longrightarrow> bmt_block T buf i \<noteq> bmt_block T buf j) \<and>
     (\<forall>i. bmt_block T buf i \<noteq> 0 \<longrightarrow> bmt_block T buf i < N \<and> (bmt_mapped T buf i \<noteq> NORMAL_MAPPED \<longrightarrow> bmt_block T buf i \<notin> used)))"

lemmas v2_defs = v2_ok_def v2_buf_ok_def v2_conf_ok_def Let_def

lemma bmt_entry_inside:
  assumes "v2_buf_ok vc buf" "bmt_block (vc_table_size vc) buf i \<noteq> 0"
  shows "3 + vc_table_size vc + 2 * i < length buf"
proof -
  have "2 + vc_table_size vc + 2 * i < length buf" using assms(2) by (auto simp: bmt_block_def hw_def split: if_splits)
  moreover have "even (length buf + vc_table_size vc)" using assms(1) by (simp add: v2_buf_ok_def)
  ultimately show ?thesis by presburger
qed

lemma v2_ok_clear_block:
  assumes "v2_conf_ok vc" "v2_ok vc buf"
  shows "v2_ok vc (set_bmt_block (vc_table_size vc) n 0 buf)"
proof -
  have "bb_tbl (set_bmt_block (vc_table_size vc) n 0 buf) j = bb_tbl buf j" if "j \<in> {..<vc_pool_lba vc}" for j
    using that assms(1) by (simp add: v2_conf_ok_def)
  then have "bb_tbl (set_bmt_block (vc_table_size vc) n 0 buf) ` {..<vc_pool_lba vc} = bb_tbl buf ` {..<vc_pool_lba vc}"
    "inj_on (bb_tbl (set_bmt_block (vc_table_size vc) n 0 buf)) {..<vc_pool_lba vc} = inj_on (bb_tbl buf) {..<vc_pool_lba vc}"
    by (auto intro!: image_cong inj_on_cong)
  then show ?thesis using assms(2) by (auto simp: v2_ok_def v2_buf_ok_def Let_def split: if_splits)
qed

lemma v2_ok_sign: "v2_ok vc (sign buf) = v2_ok vc buf"
proof -
  have "bb_tbl (sign buf) = bb_tbl buf" by (rule ext) simp
  then show ?thesis by (simp add: v2_ok_def v2_buf_ok_def)
qed

lemma upload_bmt_ok:
  assumes "v2_conf_ok vc"
  shows "v2_ok vc (v_buf s) \<Longrightarrow> v2_ok vc (v_buf (snd (upload_bmt vc nd n s)))"
proof (induction n arbitrary: s)
  case (Suc n)
  then show ?case
    using v2_ok_clear_block [OF assms] by (auto simp: Let_def v2_ok_sign split: prod.splits)
qed simp

lemma upload_bmt_bb:
  "j < vc_table_size vc \<Longrightarrow> bb_tbl (v_buf (snd (upload_bmt vc nd n s))) j = bb_tbl (v_buf s) j"
  by (induction n arbitrary: s) (auto simp: Let_def split: prod.splits)

lemma upload_table_ok:
  assumes "v2_conf_ok vc" "v2_ok vc (v_buf s)"
  shows "v2_ok vc (v_buf (upload_table vc nd s))"
  using upload_bmt_ok [OF assms, of nd "Suc (v_blk_idx s)"]
  by (simp add: upload_table_def split_beta del: upload_bmt.simps)

lemma upload_table_bb:
  "j < vc_table_size vc \<Longrightarrow> bb_tbl (v_buf (upload_table vc nd s)) j = bb_tbl (v_buf s) j"
  by (simp add: upload_table_def split_beta upload_bmt_bb del: upload_bmt.simps)

lemma find_pool_cases:
  obtains (none) "find_valid_block_in_pool T idx buf = (0, buf)"
  | (some) i where "i < idx" "bmt_block T buf i \<noteq> 0" "bmt_mapped T buf i = NO_MAPPED"
      "find_valid_block_in_pool T idx buf = (bmt_block T buf i, set_bmt_mapped T i NORMAL_MAPPED buf)"
proof (cases "List.find (\<lambda>i. bmt_block T buf i \<noteq> 0 \<and> bmt_mapped T buf i = NO_MAPPED) [0..<idx]")
  case None
  show ?thesis by (rule none) (simp only: find_valid_block_in_pool_def None option.case)
next
  case (Some i)
  then have "i < idx" "bmt_block T buf i \<noteq> 0" "bmt_mapped T buf i = NO_MAPPED" by (auto simp: find_Some_iff)
  then show ?thesis by (rule some) (simp only: find_valid_block_in_pool_def Some option.case)
qed

lemma v2_ok_take:
  assumes "v2_conf_ok vc" "v2_ok vc buf" "b < vc_pool_lba vc"
    and i: "bmt_block (vc_table_size vc) buf i \<noteq> 0" "bmt_mapped (vc_table_size vc) buf i = NO_MAPPED"
  defines "buf' \<equiv> set_bb_tbl b (bmt_block (vc_table_size vc) buf i) (set_bmt_mapped (vc_table_size vc) i NORMAL_MAPPED buf)"
  shows "v2_ok vc buf'" "\<And>j. j < vc_table_size vc \<Longrightarrow>
      bb_tbl buf' j = (if j = b then bmt_block (vc_table_size vc) buf i else bb_tbl buf j)"
    "bmt_block (vc_table_size vc) buf i \<notin> bb_tbl buf ` {..<vc_pool_lba vc}"
proof -
  let ?T = "vc_table_size vc" and ?L = "{..<vc_pool_lba vc}" and ?x = "bmt_block (vc_table_size vc) buf i"
  have bT: "b < ?T" "vc_pool_lba vc \<le> ?T" "?x < c_total_blks (vc_conf vc)" "c_total_blks (vc_conf vc) < 65536"
    using assms(1-3) i(1) by (auto simp: v2_defs)
  have len: "2 + b < length buf" using assms(2) bT by (auto simp: v2_defs)
  show fresh: "?x \<notin> bb_tbl buf ` ?L" using assms(2) i by (auto simp: v2_ok_def Let_def)
  show bb: "bb_tbl buf' j = (if j = b then ?x else bb_tbl buf j)" if "j < ?T" for j
    using that len bT by (simp add: buf'_def)
  have inside: "3 + ?T + 2 * i < length buf" using bmt_entry_inside [OF _ i(1)] assms(2) by (auto simp: v2_ok_def Let_def)
  have blk: "bmt_block ?T buf' = bmt_block ?T buf" using bT by (intro ext) (simp add: buf'_def)
  have mp: "bmt_mapped ?T buf' j = (if j = i then 1 else bmt_mapped ?T buf j)" for j
    using bT inside by (simp add: buf'_def)
  have bbL: "bb_tbl buf' j = (if j = b then ?x else bb_tbl buf j)" if "j \<in> ?L" for j using bb that bT by auto
  have used: "bb_tbl buf' ` ?L \<subseteq> insert ?x (bb_tbl buf ` ?L)" using bbL by auto
  have inj: "inj_on (bb_tbl buf') ?L"
  proof (rule inj_onI)
    fix j k assume "j \<in> ?L" "k \<in> ?L" "bb_tbl buf' j = bb_tbl buf' k"
    moreover have "inj_on (bb_tbl buf) ?L" using assms(2) by (simp add: v2_ok_def Let_def)
    moreover have "bb_tbl buf m \<noteq> ?x" if "m \<in> ?L" for m using fresh that by (metis imageI)
    ultimately show "j = k" using bbL by (metis (mono_tags, lifting) inj_on_def)
  qed
  have "v2_buf_ok vc buf'" using assms(2) by (simp add: v2_ok_def v2_buf_ok_def Let_def buf'_def)
  moreover have "bb_tbl buf' ` ?L \<subseteq> {..<c_total_blks (vc_conf vc)}" using used
    by (rule order_trans) (use bT(3) assms(2) in \<open>simp add: v2_ok_def Let_def\<close>)
  moreover have "\<forall>k. bmt_block ?T buf k \<noteq> 0 \<longrightarrow> bmt_block ?T buf k < c_total_blks (vc_conf vc) \<and>
      (bmt_mapped ?T buf' k \<noteq> 1 \<longrightarrow> bmt_block ?T buf k \<notin> bb_tbl buf' ` ?L)"
  proof (intro allI impI conjI)
    fix k assume k: "bmt_block ?T buf k \<noteq> 0"
    show "bmt_block ?T buf k < c_total_blks (vc_conf vc)" using k assms(2) by (simp add: v2_ok_def Let_def)
    assume "bmt_mapped ?T buf' k \<noteq> 1"
    then have "k \<noteq> i" "bmt_mapped ?T buf k \<noteq> 1" by (auto simp: mp split: if_splits)
    then have "bmt_block ?T buf k \<noteq> ?x" "bmt_block ?T buf k \<notin> bb_tbl buf ` ?L" using k assms(2) by (auto simp: v2_ok_def Let_def)
    then show "bmt_block ?T buf k \<notin> bb_tbl buf' ` ?L" using used by blast
  qed
  ultimately show "v2_ok vc buf'" using inj assms(2) by (simp add: v2_ok_def Let_def blk)
qed

text \<open>The spare blocks: the entries below the table's that are not handed out.\<close>

definition pool_free :: "v2_conf \<Rightarrow> 'd v2_state \<Rightarrow> nat set" where
  "pool_free vc s = bmt_block (vc_table_size vc) (v_buf s) `
     {i. i < v_blk_idx s \<and> bmt_block (vc_table_size vc) (v_buf s) i \<noteq> 0 \<and> bmt_mapped (vc_table_size vc) (v_buf s) i = NO_MAPPED}"

lemma find_pool_none:
  assumes "find_valid_block_in_pool (vc_table_size vc) (v_blk_idx s) (v_buf s) = (0, buf)"
  shows "pool_free vc s = {}"
proof (cases "List.find (\<lambda>i. bmt_block (vc_table_size vc) (v_buf s) i \<noteq> 0 \<and> bmt_mapped (vc_table_size vc) (v_buf s) i = NO_MAPPED) [0..<v_blk_idx s]")
  case None
  then show ?thesis by (auto simp: find_None_iff pool_free_def)
next
  case (Some i)
  then have "bmt_block (vc_table_size vc) (v_buf s) i \<noteq> 0" by (auto simp: find_Some_iff)
  then show ?thesis using assms by (simp only: find_valid_block_in_pool_def Some option.case) simp
qed

lemma remap_v2_ok:
  assumes "v2_conf_ok vc" "v2_ok vc (v_buf s)" "b < vc_pool_lba vc" "remap_block_v2 vc nd b mb n s = (ok, s')"
  shows "v2_ok vc (v_buf s')"
    "\<not> ok \<Longrightarrow> s' = s \<and> pool_free vc s = {}"
    "ok \<Longrightarrow> j < vc_table_size vc \<Longrightarrow> j \<noteq> b \<Longrightarrow> bb_tbl (v_buf s') j = bb_tbl (v_buf s) j"
    "ok \<Longrightarrow> bb_tbl (v_buf s') b \<notin> bb_tbl (v_buf s) ` {..<vc_pool_lba vc} \<and> bb_tbl (v_buf s') b \<in> pool_free vc s"
proof -
  let ?T = "vc_table_size vc"
  have bT: "b < ?T" using assms(1,3) by (simp add: v2_conf_ok_def)
  have *: "v2_ok vc (v_buf s') \<and> (\<not> ok \<longrightarrow> s' = s \<and> pool_free vc s = {}) \<and> (ok \<longrightarrow> (\<forall>j<?T. j \<noteq> b \<longrightarrow> bb_tbl (v_buf s') j = bb_tbl (v_buf s) j) \<and>
      bb_tbl (v_buf s') b \<notin> bb_tbl (v_buf s) ` {..<vc_pool_lba vc} \<and> bb_tbl (v_buf s') b \<in> pool_free vc s)"
  proof (cases rule: find_pool_cases [of ?T "v_blk_idx s" "v_buf s"])
    case none
    then show ?thesis using assms(2,4) find_pool_none [OF none] by (auto simp: remap_block_v2_def)
  next
    case (some i)
    note t = v2_ok_take [OF assms(1-3) some(2,3)]
    let ?buf = "set_bb_tbl b (bmt_block ?T (v_buf s) i) (set_bmt_mapped ?T i 1 (v_buf s))"
    obtain s1 where s1: "ok" "s' = upload_table vc nd s1" "v_buf s1 = ?buf"
      using assms(4) some(2,4) by (auto simp: remap_block_v2_def Let_def split: prod.splits)
    have "v2_ok vc (v_buf s1)" using t(1) s1(3) by simp
    then have u: "v2_ok vc (v_buf s')" using upload_table_ok [OF assms(1)] s1(2) by simp
    have "bb_tbl (v_buf s') j = (if j = b then bmt_block ?T (v_buf s) i else bb_tbl (v_buf s) j)" if "j < ?T" for j
      using t(2) [OF that] unfolding s1(2) upload_table_bb [OF that] s1(3) .
    moreover have "bmt_block ?T (v_buf s) i \<in> pool_free vc s" using some(1-3) by (auto simp: pool_free_def)
    ultimately show ?thesis using u t(3) s1(1) bT by simp
  qed
  show "v2_ok vc (v_buf s')"
    "\<not> ok \<Longrightarrow> s' = s \<and> pool_free vc s = {}"
    "ok \<Longrightarrow> j < vc_table_size vc \<Longrightarrow> j \<noteq> b \<Longrightarrow> bb_tbl (v_buf s') j = bb_tbl (v_buf s) j"
    "ok \<Longrightarrow> bb_tbl (v_buf s') b \<notin> bb_tbl (v_buf s) ` {..<vc_pool_lba vc} \<and> bb_tbl (v_buf s') b \<in> pool_free vc s"
    using * by auto
qed

subsection \<open>The first scan\<close>

lemma find_valid_facts:
  assumes "find_valid vc nd block s = (r, s')"
  shows "v_buf s' = v_buf s" "r \<noteq> 0 \<Longrightarrow> block \<le> r \<and> r < c_total_blks (vc_conf vc)"
  using assms find_valid_block_bounds [of vc nd 0 block "(v_data_buf s, v_dev s)"]
  by (auto simp: find_valid_def split: prod.splits)

text \<open>What the first loop has done before entry \<open>i\<close>: the blocks go up.\<close>

definition main_ok :: "nat \<Rightarrow> nat list \<Rightarrow> bool" where
  "main_ok i buf \<longleftrightarrow> (\<forall>j<i. bb_tbl buf j < 65535) \<and> (\<forall>k<i. \<forall>j<k. bb_tbl buf j < bb_tbl buf k)"

lemma main_ok_step:
  assumes "main_ok i buf" "0 < i" "bb_tbl buf (i - 1) < r" "r < 65535" "2 + i < length buf"
  shows "main_ok (i + 1) (set_bb_tbl i r buf)"
proof -
  have "bb_tbl buf j < r" if "j < i" for j
  proof (cases "j = i - 1")
    case False
    then have "bb_tbl buf j < bb_tbl buf (i - 1)" using that assms(1,2) by (simp add: main_ok_def)
    then show ?thesis using assms(3) by simp
  qed (use assms(3) in simp)
  then show ?thesis using assms by (auto simp: main_ok_def less_Suc_eq)
qed

lemma scan_main_ok:
  assumes "v2_conf_ok vc"
  shows "scan_main vc nd n i s = (True, s') \<Longrightarrow> 0 < i \<Longrightarrow> i + n \<le> vc_table_size vc \<Longrightarrow>
     2 + vc_table_size vc \<le> length (v_buf s) \<Longrightarrow> main_ok i (v_buf s) \<Longrightarrow>
     main_ok (i + n) (v_buf s') \<and> length (v_buf s') = length (v_buf s) \<and>
     bmt_block (vc_table_size vc) (v_buf s') = bmt_block (vc_table_size vc) (v_buf s)"
proof (induction n arbitrary: i s)
  case (Suc n)
  let ?T = "vc_table_size vc"
  obtain r s1 where f: "find_valid vc nd ((bb_tbl (v_buf s) (i - 1) + 1) mod 65536) s = (r, s1)" by fastforce
  note ff = find_valid_facts [OF f]
  let ?s2 = "s1\<lparr>v_buf := set_bb_tbl i r (v_buf s1)\<rparr>"
  have r0: "r \<noteq> 0" and rec: "scan_main vc nd n (i + 1) ?s2 = (True, s')"
    using Suc.prems(1) f by (auto simp: Let_def split: if_splits)
  have "bb_tbl (v_buf s) (i - 1) < 65535" using Suc.prems(2,5) by (simp add: main_ok_def)
  then have "bb_tbl (v_buf s) (i - 1) < r" "r < 65535" using ff(2) [OF r0] assms by (auto simp: v2_conf_ok_def)
  then have "main_ok (i + 1) (v_buf ?s2)" using main_ok_step [OF Suc.prems(5,2)] Suc.prems(3,4) ff(1) by simp
  moreover have "bmt_block ?T (v_buf ?s2) = bmt_block ?T (v_buf s)" "length (v_buf ?s2) = length (v_buf s)"
    using Suc.prems(3) ff(1) by (auto intro!: ext)
  ultimately show ?case using Suc.IH [OF rec] Suc.prems(3,4) by simp
qed simp

text \<open>The table of the pool before entry \<open>i\<close>: distinct blocks from \<open>lo\<close> up to \<open>block\<close>, none beyond.\<close>

definition pool_ok :: "v2_conf \<Rightarrow> nat \<Rightarrow> nat \<Rightarrow> nat \<Rightarrow> nat list \<Rightarrow> bool" where
  "pool_ok vc lo i block buf \<longleftrightarrow> (let T = vc_table_size vc in
     (\<forall>k. bmt_block T buf k \<noteq> 0 \<longrightarrow> k < i \<and> lo \<le> bmt_block T buf k \<and> bmt_block T buf k < block \<and>
        bmt_block T buf k < c_total_blks (vc_conf vc)) \<and>
     (\<forall>j k. j \<noteq> k \<and> bmt_block T buf j \<noteq> 0 \<longrightarrow> bmt_block T buf j \<noteq> bmt_block T buf k))"

lemma pool_ok_step:
  assumes pool: "pool_ok vc lo i block buf" and b: "lo \<le> block" "block \<le> r" "r < c_total_blks (vc_conf vc)"
    and blk: "\<And>k. bmt_block (vc_table_size vc) buf' k = (if k = i \<and> inside then r else bmt_block (vc_table_size vc) buf k)"
  shows "pool_ok vc lo (i + 1) (r + 1) buf'"
proof -
  let ?T = "vc_table_size vc"
  have old: "k < i" "lo \<le> bmt_block ?T buf k" "bmt_block ?T buf k < block" "bmt_block ?T buf k < c_total_blks (vc_conf vc)"
    if "bmt_block ?T buf k \<noteq> 0" for k using pool that by (auto simp: pool_ok_def Let_def)
  have dist: "bmt_block ?T buf j \<noteq> bmt_block ?T buf k" if "j \<noteq> k" "bmt_block ?T buf j \<noteq> 0" for j k
    using pool that by (simp add: pool_ok_def Let_def)
  have ri: "bmt_block ?T buf k \<noteq> r" if "bmt_block ?T buf k \<noteq> 0" for k using old(3) [OF that] b(2) by simp
  have z: "bmt_block ?T buf i = 0" using old(1) [of i] by blast
  have 1: "k < i + 1 \<and> lo \<le> bmt_block ?T buf' k \<and> bmt_block ?T buf' k < r + 1 \<and> bmt_block ?T buf' k < c_total_blks (vc_conf vc)"
    if "bmt_block ?T buf' k \<noteq> 0" for k
  proof (cases "k = i \<and> inside")
    case True
    then show ?thesis using b by (simp add: blk)
  next
    case False
    then have "bmt_block ?T buf k \<noteq> 0" "bmt_block ?T buf' k = bmt_block ?T buf k" using that by (auto simp: blk split: if_splits)
    then show ?thesis using old [of k] b by simp
  qed
  have 2: "bmt_block ?T buf' j \<noteq> bmt_block ?T buf' k" if "j \<noteq> k" "bmt_block ?T buf' j \<noteq> 0" for j k
    using that dist [of j k] ri [of j] ri [of k] unfolding blk by (metis (full_types))
  show ?thesis unfolding pool_ok_def Let_def using 1 2 by blast
qed

lemma scan_pool_ok:
  "scan_pool vc nd i block s = (n, s') \<Longrightarrow> v2_conf_ok vc \<Longrightarrow> lo \<le> block \<Longrightarrow> pool_ok vc lo i block (v_buf s) \<Longrightarrow>
   (\<exists>b. pool_ok vc lo n b (v_buf s')) \<and> length (v_buf s') = length (v_buf s) \<and>
   (\<forall>j<vc_table_size vc. bb_tbl (v_buf s') j = bb_tbl (v_buf s) j)"
proof (induction vc nd i block s rule: scan_pool.induct)
  case (1 vc nd i block s)
  let ?T = "vc_table_size vc"
  obtain r s1 where f: "find_valid vc nd block s = (r, s1)" by fastforce
  note ff = find_valid_facts [OF f]
  show ?case
  proof (cases "r = 0")
    case True
    then show ?thesis using "1.prems" f ff by (auto simp: scan_pool.simps [of vc nd i block s])
  next
    case False
    let ?buf = "set_bmt_mapped ?T i 0 (set_bmt_block ?T i r (v_buf s1))"
    have b: "block \<le> r" "r < c_total_blks (vc_conf vc)" "r mod 65536 = r"
      using ff(2) [OF False] "1.prems"(2) by (auto simp: v2_conf_ok_def)
    have rec: "scan_pool vc nd (i + 1) (r + 1) (s1\<lparr>v_buf := ?buf\<rparr>) = (n, s')"
      using "1.prems"(1) f False by (simp add: scan_pool.simps [of vc nd i block s] Let_def)
    have blk: "bmt_block ?T ?buf k = (if k = i \<and> 2 + ?T + 2 * i < length (v_buf s) then r else bmt_block ?T (v_buf s) k)" for k
      using ff(1) b(3) by simp
    have "pool_ok vc lo (i + 1) (r + 1) ?buf"
      by (rule pool_ok_step [OF "1.prems"(4,3) b(1,2) blk])
    note pool = this
    have ne: "fst (find_valid vc nd block s) \<noteq> 0" using f False by simp
    have lo: "lo \<le> r + 1" using "1.prems"(3) b(1) by simp
    have rec': "scan_pool vc nd (i + 1) (fst (find_valid vc nd block s) + 1)
        (snd (find_valid vc nd block s)\<lparr>v_buf := set_bmt_mapped ?T i 0 (set_bmt_block ?T i (fst (find_valid vc nd block s))
          (v_buf (snd (find_valid vc nd block s))))\<rparr>) = (n, s')"
      unfolding f fst_conv snd_conv by (rule rec)
    show ?thesis using "1.IH" [OF refl refl refl refl ne rec' "1.prems"(2)] lo pool
      unfolding f fst_conv snd_conv by (simp add: ff(1))
  qed
qed

lemma clear_bmt_tbl_facts:
  assumes "v2_buf_ok vc buf"
  shows "length (clear_bmt_tbl (vc_table_size vc) buf) = length buf"
    "bmt_block (vc_table_size vc) (clear_bmt_tbl (vc_table_size vc) buf) k = 0"
  using assms by (auto simp: clear_bmt_tbl_def v2_buf_ok_def bmt_block_def hw_def nth_append)

lemma scan_ok:
  assumes conf: "v2_conf_ok vc" and buf: "v2_buf_ok vc (v_buf s)" and z: "\<And>k. bmt_block (vc_table_size vc) (v_buf s) k = 0"
    and scan: "scan_bad_blocks vc nd s = (0, s')"
  shows "v2_ok vc (v_buf s')"
proof -
  let ?T = "vc_table_size vc" and ?L = "vc_pool_lba vc" and ?N = "c_total_blks (vc_conf vc)"
  let ?s0 = "s\<lparr>v_buf := set_bb_tbl 0 0 (v_buf s)\<rparr>"
  have L: "0 < ?L" "?L \<le> ?T" "?N < 65536" and len: "2 + ?T \<le> length (v_buf s)" using conf buf by (auto simp: v2_defs)
  obtain s1 where m: "scan_main vc nd (?L - 1) 1 ?s0 = (True, s1)"
    using scan by (auto simp: scan_bad_blocks_def Let_def split: prod.splits if_splits)
  have "main_ok 1 (v_buf ?s0)" using L len by (simp add: main_ok_def)
  then have m1: "main_ok ?L (v_buf s1)" "length (v_buf s1) = length (v_buf s)"
    "bmt_block ?T (v_buf s1) = bmt_block ?T (v_buf ?s0)"
    using scan_main_ok [OF conf m] L len by auto
  define pba where "pba = bb_tbl (v_buf s1) (?L - 1) + 1"
  have pm: "pba mod 65536 = pba" using m1(1) L(1) by (simp add: main_ok_def pba_def)
  obtain n s2 where p: "scan_pool vc nd 0 pba (s1\<lparr>v_pool_pba := pba\<rparr>) = (n, s2)" by fastforce
  have low: "pba + 2 < ?N" and n: "v_buf s' = set_bmt_mapped ?T ((n + 65535) mod 65536) 2 (v_buf s2)"
    using scan unfolding scan_bad_blocks_def Let_def m case_prod_conv pba_def [symmetric] pm p by (auto split: if_splits)
  have "pool_ok vc pba 0 pba (v_buf s1)" using m1(3) z L by (simp add: pool_ok_def)
  then obtain b where q: "pool_ok vc pba n b (v_buf s2)" "length (v_buf s2) = length (v_buf s1)"
    "\<And>j. j < ?T \<Longrightarrow> bb_tbl (v_buf s2) j = bb_tbl (v_buf s1) j"
    using scan_pool_ok [OF p conf order_refl] by auto
  have bb: "bb_tbl (v_buf s') j = bb_tbl (v_buf s1) j" if "j < ?L" for j using that L q(3) by (simp add: n)
  have up: "bb_tbl (v_buf s1) j < pba" if "j < ?L" for j
  proof (cases "j = ?L - 1")
    case False
    then have "bb_tbl (v_buf s1) j < bb_tbl (v_buf s1) (?L - 1)" using m1(1) that by (simp add: main_ok_def)
    then show ?thesis by (simp add: pba_def)
  qed (simp add: pba_def)
  have 1: "inj_on (bb_tbl (v_buf s')) {..<?L}"
  proof (rule linorder_inj_onI)
    fix x y assume "x < y" "x \<in> {..<?L}" "y \<in> {..<?L}"
    then have "bb_tbl (v_buf s1) x < bb_tbl (v_buf s1) y" using m1(1) by (simp add: main_ok_def)
    then show "bb_tbl (v_buf s') x \<noteq> bb_tbl (v_buf s') y" using bb \<open>x \<in> _\<close> \<open>y \<in> _\<close> by simp
  qed auto
  have up': "bb_tbl (v_buf s') j < pba" if "j \<in> {..<?L}" for j using up bb that by simp
  have 2: "bb_tbl (v_buf s') ` {..<?L} \<subseteq> {..<?N}"
  proof (rule image_subsetI)
    fix j assume "j \<in> {..<?L}"
    then show "bb_tbl (v_buf s') j \<in> {..<?N}" using up' [of j] low by simp
  qed
  have 3: "bmt_block ?T (v_buf s') = bmt_block ?T (v_buf s2)" by (rule ext) (simp add: n)
  have 4: "v2_buf_ok vc (v_buf s')" using buf m1(2) q(2) by (simp add: n v2_buf_ok_def)
  have 5: "bmt_block ?T (v_buf s2) i < ?N \<and> bmt_block ?T (v_buf s2) i \<notin> bb_tbl (v_buf s') ` {..<?L}"
    if "bmt_block ?T (v_buf s2) i \<noteq> 0" for i
  proof -
    have "pba \<le> bmt_block ?T (v_buf s2) i" "bmt_block ?T (v_buf s2) i < ?N"
      using q(1) that by (simp_all add: pool_ok_def Let_def)
    then show ?thesis using up' by (auto simp: image_iff) (metis leD lessThan_iff)
  qed
  have 6: "\<forall>j k. j \<noteq> k \<and> bmt_block ?T (v_buf s2) j \<noteq> 0 \<longrightarrow> bmt_block ?T (v_buf s2) j \<noteq> bmt_block ?T (v_buf s2) k"
    using q(1) unfolding pool_ok_def Let_def by blast
  show ?thesis unfolding v2_ok_def Let_def 3 using 1 2 4 5 6 by blast
qed

lemma first_start_ok:
  assumes "v2_conf_ok vc" "v2_buf_ok vc (v_buf s)" "v2_first_start vc nd s = (0, s')"
  shows "v2_ok vc (v_buf s')"
proof -
  let ?s0 = "s\<lparr>v_buf := clear_bmt_tbl (vc_table_size vc) (v_buf s)\<rparr>"
  obtain s1 where s1: "scan_bad_blocks vc nd ?s0 = (0, s1)" "s' = upload_table vc nd s1"
    using assms(3) by (auto simp: v2_first_start_def Let_def split: prod.splits if_splits)
  have "v2_buf_ok vc (v_buf ?s0)" using clear_bmt_tbl_facts(1) [OF assms(2)] assms(2) by (simp add: v2_buf_ok_def)
  then have "v2_ok vc (v_buf s1)" using scan_ok [OF assms(1) _ _ s1(1)] clear_bmt_tbl_facts(2) [OF assms(2)] by simp
  then show ?thesis using upload_table_ok [OF assms(1)] s1(2) by simp
qed

subsection \<open>Reachable tables\<close>

text \<open>
  The logical blocks that the table moves: those of the data area that lie in a range of the device tree, all
  of it when the device tree gives none. \<open>mtk_bmt_remap_block\<close> remaps these alone.
\<close>

definition v2_blocks :: "v2_conf \<Rightarrow> nat set" where
  "v2_blocks vc = {b. b < vc_pool_lba vc \<and> mapping_block_in_range (vc_conf vc) b \<noteq> None}"

lemma v2_blocks_no_ranges: "c_remap_range (vc_conf vc) = [] \<Longrightarrow> v2_blocks vc = {..<vc_pool_lba vc}"
  by (auto simp: v2_blocks_def mapping_block_in_range_def)

text \<open>
  A device set up for the first time, then blocks remapped and the flash accessed in any order, as long as
  the entry of the table is inside the buffer: when no block takes the table any more, the index becomes 65535
  and the code searches the pool far behind the buffer.
\<close>

definition v2_index_inside :: "v2_conf \<Rightarrow> 'd v2_state \<Rightarrow> bool" where
  "v2_index_inside vc s \<longleftrightarrow> 3 + vc_table_size vc + 2 * v_blk_idx s < length (v_buf s)"

inductive v2_reach :: "v2_conf \<Rightarrow> 'd nand \<Rightarrow> 'd v2_state \<Rightarrow> bool" for vc nd where
  start: "v2_buf_ok vc (v_buf s) \<Longrightarrow> v2_first_start vc nd s = (0, s') \<Longrightarrow> v2_reach vc nd s'"
| remap: "v2_reach vc nd s \<Longrightarrow> v2_index_inside vc s \<Longrightarrow> b \<in> v2_blocks vc \<Longrightarrow>
    remap_block_v2 vc nd b mb n s = (ok, s') \<Longrightarrow> v2_reach vc nd s'"
| flash: "v2_reach vc nd s \<Longrightarrow> v2_reach vc nd (s\<lparr>v_dev := d\<rparr>)"

lemma v2_reach_ok:
  assumes "v2_conf_ok vc"
  shows "v2_reach vc nd s \<Longrightarrow> v2_ok vc (v_buf s)"
proof (induction rule: v2_reach.induct)
  case (start s s')
  then show ?case by (rule first_start_ok [OF assms])
next
  case (remap s b mb n ok s')
  then show ?case using remap_v2_ok(1) [OF assms] by (auto simp: v2_blocks_def)
qed simp

lemma v2_mapping_eq: "b \<in> v2_blocks vc \<Longrightarrow> get_mapping_block_index_v2 vc buf b = bb_tbl buf b"
  by (auto simp: v2_blocks_def get_mapping_block_index_v2_def)

lemma v2_mapping:
  assumes "v2_ok vc buf"
  shows "block_mapping (v2_blocks vc) {..<c_total_blks (vc_conf vc)} (get_mapping_block_index_v2 vc buf)"
proof
  have sub: "v2_blocks vc \<subseteq> {..<vc_pool_lba vc}" by (auto simp: v2_blocks_def)
  have "inj_on (bb_tbl buf) (v2_blocks vc)" using assms inj_on_subset [OF _ sub] by (auto simp: v2_ok_def Let_def)
  then show "inj_on (get_mapping_block_index_v2 vc buf) (v2_blocks vc)" by (auto simp: inj_on_def v2_mapping_eq)
  show "get_mapping_block_index_v2 vc buf b \<in> {..<c_total_blks (vc_conf vc)}" if "b \<in> v2_blocks vc" for b
    using assms sub that unfolding v2_mapping_eq [OF that] v2_ok_def Let_def by blast
qed

text \<open>
  C24. However a device is remapped after its first set-up, the logical blocks of the remapped ranges (all
  of the data area, when the device tree gives no range) are on distinct physical blocks of the device, so that
  no two of them share their data; the spare blocks of the pool that are not handed out, and the block that holds
  the table, are not among them; and remapping one more block moves this block alone, to a spare block that was not
  handed out, or, when there is none, changes nothing. Blocks outside the ranges stay on the physical blocks of
  their own numbers, which may be those of remapped ones (\<open>v2_ranges_collide\<close>).
\<close>

theorem v2_reachable_mapping:
  assumes "v2_conf_ok vc" "v2_reach vc nd s" "v2_index_inside vc s" "b \<in> v2_blocks vc"
    "remap_block_v2 vc nd b mb n s = (ok, s')"
  shows "let f = get_mapping_block_index_v2 vc (v_buf s); f' = get_mapping_block_index_v2 vc (v_buf s');
            D = v2_blocks vc; T = vc_table_size vc
     in inj_on f D \<and> f ` D \<subseteq> {..<c_total_blks (vc_conf vc)} \<and>
        (\<forall>i. bmt_block T (v_buf s) i \<noteq> 0 \<and> bmt_mapped T (v_buf s) i \<noteq> NORMAL_MAPPED \<longrightarrow> bmt_block T (v_buf s) i \<notin> f ` D) \<and>
        (if ok then inj_on f' D \<and> f' b \<in> pool_free vc s \<and> f' b \<notin> f ` D \<and> (\<forall>j. j \<noteq> b \<longrightarrow> f' j = f j)
         else s' = s \<and> pool_free vc s = {})"
proof -
  have ok: "v2_ok vc (v_buf s)" by (rule v2_reach_ok [OF assms(1,2)])
  have bL: "b < vc_pool_lba vc" and sub: "v2_blocks vc \<subseteq> {..<vc_pool_lba vc}" using assms(4) by (auto simp: v2_blocks_def)
  note rm = remap_v2_ok [OF assms(1) ok bL assms(5)]
  have img: "get_mapping_block_index_v2 vc (v_buf s) ` v2_blocks vc = bb_tbl (v_buf s) ` v2_blocks vc"
    by (intro image_cong) (simp_all add: v2_mapping_eq)
  have subimg: "x \<notin> bb_tbl (v_buf s) ` {..<vc_pool_lba vc} \<Longrightarrow> x \<notin> bb_tbl (v_buf s) ` v2_blocks vc" for x
    using image_mono [OF sub, of "bb_tbl (v_buf s)"] by (rule contra_subsetD)
  have LT: "vc_pool_lba vc \<le> vc_table_size vc" using assms(1) by (simp add: v2_conf_ok_def)
  have same: "get_mapping_block_index_v2 vc (v_buf s') j = get_mapping_block_index_v2 vc (v_buf s) j" if "ok" "j \<noteq> b" for j
    using rm(3) [OF that(1) _ that(2)] LT by (auto simp: get_mapping_block_index_v2_def split: option.splits)
  note inj = block_mapping.mapping_inj [OF v2_mapping [OF ok]] block_mapping.mapping_inj [OF v2_mapping [OF rm(1)]]
  have "get_mapping_block_index_v2 vc (v_buf s) ` v2_blocks vc \<subseteq> {..<c_total_blks (vc_conf vc)}"
    using block_mapping.mapping_range [OF v2_mapping [OF ok]] by blast
  moreover have "\<forall>i. bmt_block (vc_table_size vc) (v_buf s) i \<noteq> 0 \<and> bmt_mapped (vc_table_size vc) (v_buf s) i \<noteq> 1 \<longrightarrow>
      bmt_block (vc_table_size vc) (v_buf s) i \<notin> bb_tbl (v_buf s) ` v2_blocks vc"
  proof (intro allI impI)
    fix i assume "bmt_block (vc_table_size vc) (v_buf s) i \<noteq> 0 \<and> bmt_mapped (vc_table_size vc) (v_buf s) i \<noteq> 1"
    then have "bmt_block (vc_table_size vc) (v_buf s) i \<notin> bb_tbl (v_buf s) ` {..<vc_pool_lba vc}"
      using ok by (simp add: v2_ok_def Let_def)
    then show "bmt_block (vc_table_size vc) (v_buf s) i \<notin> bb_tbl (v_buf s) ` v2_blocks vc" by (rule subimg)
  qed
  moreover have "if ok then bb_tbl (v_buf s') b \<in> pool_free vc s \<and> bb_tbl (v_buf s') b \<notin> bb_tbl (v_buf s) ` v2_blocks vc
      else s' = s \<and> pool_free vc s = {}"
    using rm(2,4) subimg by (cases ok) (simp_all only: if_True if_False, blast+)
  ultimately show ?thesis
    unfolding Let_def img v2_mapping_eq [OF assms(4)] using inj same by (cases ok) (simp_all only: if_True if_False simp_thms, blast)
qed

definition quiet_nand :: "unit nand" where
  "quiet_nand =
     \<lparr>nd_read = (\<lambda>a ops d. ((0, [], replicate (o_ooblen ops) (CHR 0xFF)), d)), nd_write = (\<lambda>a ops d. ((0, o_len ops, o_ooblen ops), d)),
      nd_erase = (\<lambda>a d. (0, d)), nd_isbad = (\<lambda>a d. 0), nd_markbad = (\<lambda>a d. (0, d))\<rparr>"

definition demo_v2 :: v2_conf where
  "demo_v2 = \<lparr>vc_conf = demo_conf\<lparr>c_remap_range := []\<rparr>, vc_pool_lba = 3, vc_table_size = 8, vc_bb_max = 1\<rparr>"

definition demo_blank :: "unit v2_state" where
  "demo_blank = \<lparr>v_buf = [65535, 65535, 65535, 65535, 65535, 65535, 65535, 65535, 65535, 65535,
     65535, 65535, 65535, 65535, 65535, 65535, 65535, 65535, 65535, 65535], v_blk_idx = 0, v_pool_pba = 0, v_data_buf = [], v_dev = ()\<rparr>"

lemma quiet_ops [simp]:
  "nd_read quiet_nand a ops d = ((0, [], replicate (o_ooblen ops) (CHR 0xFF)), d)"
  "nd_write quiet_nand a ops d = ((0, o_len ops, o_ooblen ops), d)" "nd_erase quiet_nand a d = (0, d)"
  by (simp_all add: quiet_nand_def)

lemma quiet_find:
  "find_valid vc quiet_nand block s = (if block < c_total_blks (vc_conf vc) then block else 0, s)"
  by (cases s) (simp add: find_valid_def find_valid_block.simps [of vc quiet_nand 0] bbt_nand_read_def Let_def)

lemma list_update_numeral: "(x # xs)[numeral k := v] = x # xs[pred_numeral k := v]"
  by (simp add: numeral_eq_Suc)

lemma replicate_numeral_Cons: "replicate (numeral k) x = x # replicate (pred_numeral k) x"
  by (simp add: numeral_eq_Suc)

lemmas table_eval = list_update_numeral bb_tbl_def hw_def set_bb_tbl_def set_bmt_block_def set_bmt_mapped_def

definition demo_cleared :: "nat list" where
  "demo_cleared = [65535, 65535, 65535, 65535, 65535, 65535, 65535, 65535, 65535, 65535, 0, 0, 0, 0, 0, 0, 0, 0, 0, 0]"

lemma demo_clear: "clear_bmt_tbl 8 (v_buf demo_blank) = demo_cleared"
  by (simp add: clear_bmt_tbl_def demo_blank_def demo_cleared_def replicate_numeral_Cons)

lemma demo_main:
  "scan_main demo_v2 quiet_nand 2 1 (demo_blank\<lparr>v_buf := set_bb_tbl 0 0 demo_cleared\<rparr>) =
     (True, demo_blank\<lparr>v_buf := [65535, 65535, 0, 1, 2, 65535, 65535, 65535, 65535, 65535, 0, 0, 0, 0, 0, 0, 0, 0, 0, 0]\<rparr>)"
  by (simp add: numeral_2_eq_2 quiet_find Let_def table_eval demo_cleared_def demo_v2_def demo_conf_def)

lemma demo_pool:
  "scan_pool demo_v2 quiet_nand 0 3
     (demo_blank\<lparr>v_buf := [65535, 65535, 0, 1, 2, 65535, 65535, 65535, 65535, 65535, 0, 0, 0, 0, 0, 0, 0, 0, 0, 0], v_pool_pba := 3\<rparr>) =
     (5, demo_blank\<lparr>v_buf := [65535, 65535, 0, 1, 2, 65535, 65535, 65535, 65535, 65535, 3, 0, 4, 0, 5, 0, 6, 0, 7, 0], v_pool_pba := 3\<rparr>)"
  by (simp add: scan_pool.simps quiet_find Let_def table_eval demo_v2_def demo_conf_def)

definition demo_running :: "unit v2_state" where
  "demo_running = demo_blank\<lparr>v_buf := [0x4D42, 0x0254, 0, 1, 2, 65535, 65535, 65535, 65535, 65535, 3, 0, 4, 0, 5, 0, 6, 0, 7, 2],
     v_pool_pba := 3, v_blk_idx := 4\<rparr>"

lemma quiet_upload:
  assumes "bmt_mapped (vc_table_size vc) (v_buf s) (v_blk_idx s) \<noteq> 1" "v_blk_idx s < 65536"
  shows "upload_table vc quiet_nand s = s\<lparr>v_buf := sign (v_buf s)\<rparr>"
  using assms by (cases s) (simp add: upload_table_def bbt_nand_erase_def write_bmt_def Let_def)

lemma demo_v2_start: "v2_first_start demo_v2 quiet_nand demo_blank = (0, demo_running)"
proof -
  have "scan_bad_blocks demo_v2 quiet_nand (demo_blank\<lparr>v_buf := demo_cleared\<rparr>) =
      (0, demo_blank\<lparr>v_buf := [65535, 65535, 0, 1, 2, 65535, 65535, 65535, 65535, 65535, 3, 0, 4, 0, 5, 0, 6, 0, 7, 2],
        v_pool_pba := 3, v_blk_idx := 4\<rparr>)" (is "_ = (0, ?s)")
    using demo_main demo_pool
    by (simp add: scan_bad_blocks_def Let_def demo_v2_def demo_conf_def table_eval demo_blank_def)
  moreover have "upload_table demo_v2 quiet_nand ?s = demo_running"
    by (subst quiet_upload) (simp_all add: bmt_mapped_def hw_def demo_v2_def sign_def demo_running_def)
  moreover have "v_blk_idx demo_running = 4" "vc_table_size demo_v2 = 8" "c_total_blks (vc_conf demo_v2) = 8"
    by (simp_all add: demo_running_def demo_v2_def demo_conf_def)
  ultimately show ?thesis by (simp add: v2_first_start_def demo_clear Let_def)
qed

lemma demo_remap:
  "remap_block_v2 demo_v2 quiet_nand 1 1 0 demo_running =
     (True, demo_running\<lparr>v_buf := [0x4D42, 0x0254, 0, 3, 2, 65535, 65535, 65535, 65535, 65535, 3, 1, 4, 0, 5, 0, 6, 0, 7, 2]\<rparr>)"
proof -
  have u: "[0..<4] = [0, 1, 2, 3::nat]" by (simp add: upt_conv_Cons)
  have "find_valid_block_in_pool 8 4 (v_buf demo_running) = (3, (v_buf demo_running)[11 := 1])"
    by (simp add: find_valid_block_in_pool_def u demo_running_def bmt_block_def bmt_mapped_def hw_def set_bmt_mapped_def)
  then show ?thesis
    by (simp add: remap_block_v2_def demo_v2_def Let_def bbt_nand_erase_def quiet_upload)
      (simp add: quiet_upload demo_running_def table_eval bmt_mapped_def sign_def)
qed

theorem v2_reachable_mapping_witness:
  "map (get_mapping_block_index_v2 demo_v2 (v_buf demo_running)) [0, 1, 2] = [0, 1, 2] \<and>
   get_mapping_block_index_v2 demo_v2 (v_buf (snd (remap_block_v2 demo_v2 quiet_nand 1 1 0 demo_running))) 1
     \<notin> get_mapping_block_index_v2 demo_v2 (v_buf demo_running) ` {..<3}"
proof -
  have conf: "v2_conf_ok demo_v2" "v2_blocks demo_v2 = {..<3}"
    using v2_blocks_no_ranges [of demo_v2] by (simp_all add: v2_conf_ok_def demo_v2_def demo_conf_def)
  have "v2_buf_ok demo_v2 (v_buf demo_blank)" by (simp add: v2_buf_ok_def demo_v2_def demo_blank_def)
  then have r: "v2_reach demo_v2 quiet_nand demo_running" using demo_v2_start by (rule v2_reach.start)
  have lt: "1 \<in> v2_blocks demo_v2" by (simp add: conf(2))
  have inside: "v2_index_inside demo_v2 demo_running" by (simp add: v2_index_inside_def demo_v2_def demo_running_def)
  have "map (get_mapping_block_index_v2 demo_v2 (v_buf demo_running)) [0, 1, 2] = [0, 1, 2]"
    by (simp add: v2_mapping_eq conf(2)) (simp add: demo_running_def table_eval)
  moreover note v2_reachable_mapping [OF conf(1) r inside lt demo_remap]
  ultimately show ?thesis unfolding demo_remap snd_conv by (simp only: Let_def if_True conf(2)) blast
qed

subsection \<open>The table after a failed upload\<close>

lemma halfwords_bytes: "list_all (\<lambda>h. h < 65536) buf \<Longrightarrow> halfwords (hw_bytes buf) = buf"
proof (induction buf)
  case (Cons h buf)
  have "hw_bytes (h # buf) = char_of (h mod 256) # char_of (h div 256) # hw_bytes buf" by (simp add: hw_bytes_def)
  moreover have "h < 256 * 256" using Cons.prems by simp
  then have "h div 256 < 256" by (rule less_mult_imp_div_less)
  then have "h div 256 mod 256 = h div 256" by simp
  ultimately show ?case using Cons by (simp add: of_char_of)
qed (simp add: hw_bytes_def)

lemma get_bmt_index_stops:
  assumes "\<forall>i<n. bmt_block T buf i \<noteq> 0 \<and> bmt_mapped T buf i \<noteq> 2" "bmt_block T buf n = 0"
  shows "j \<le> n \<Longrightarrow> get_bmt_index T buf j = 0"
proof (induction "n - j" arbitrary: j)
  case 0
  then show ?case using assms(2) by (simp add: get_bmt_index.simps)
next
  case (Suc k)
  then show ?case using assms(1) Suc.hyps(1) [of "j + 1"] by (simp add: get_bmt_index.simps [of T buf j])
qed

text \<open>
  C28. When the block that holds the table (entry \<open>Suc n\<close> of the pool) cannot be erased, \<open>upload_bmt\<close> writes the
  table to the block before it without marking that entry as the table's. The stored table is signed and
  intact, but at the next start it is refused: its index is not found, and the search ends, so that the
  device is scanned anew and every remapping is lost.
\<close>

theorem v2_fallback_loses_table:
  assumes "v_blk_idx s = Suc n" "Suc n < 65536" "2 + vc_table_size vc + 2 * Suc n < length (v_buf s)"
    "\<forall>i\<le>n. bmt_block (vc_table_size vc) (v_buf s) i \<noteq> 0 \<and> bmt_mapped (vc_table_size vc) (v_buf s) i \<noteq> BMT_MAPPED"
    "bmt_mapped (vc_table_size vc) (v_buf s) (Suc n) = BMT_MAPPED" "bmt_mapped (vc_table_size vc) (v_buf s) n = NO_MAPPED"
    "list_all (\<lambda>h. h < 65536) (v_buf s)"
    "\<And>d. fst (bbt_nand_erase (vc_conf vc) nd (bmt_block (vc_table_size vc) (v_buf s) (Suc n)) d) \<noteq> 0"
    "\<And>d. fst (bbt_nand_erase (vc_conf vc) nd (bmt_block (vc_table_size vc) (v_buf s) n) d) = 0"
    "\<And>dat d. fst (write_bmt (vc_conf vc) nd ''bmt'' (bmt_block (vc_table_size vc) (v_buf s) n) dat d) = 0"
    "length (v_buf t) = length (v_buf s)"
    and stored: "bbt_nand_read (vc_conf vc) nd' (blk_pg (vc_conf vc) block) bufsz 4 (v_dev t)
      = ((0, hw_bytes (v_buf (upload_table vc nd s)), CHR 0xFF # ''bmt''), d')"
  shows "v_blk_idx (upload_table vc nd s) = n \<and>
     is_valid_bmt (v_buf (upload_table vc nd s)) (CHR 0xFF # ''bmt'') \<and>
     get_bmt_index (vc_table_size vc) (v_buf (upload_table vc nd s)) 0 = 0 \<and>
     fst (find_table vc nd' bufsz (Suc k) block t) = False"
proof -
  let ?T = "vc_table_size vc" and ?buf = "sign (set_bmt_block (vc_table_size vc) (Suc n) 0 (v_buf s))"
  have up: "v_blk_idx (upload_table vc nd s) = n" "v_buf (upload_table vc nd s) = ?buf"
    using assms(1,2,5,6,8-10) by (auto simp: upload_table_def Let_def split_beta)
  have blk: "\<forall>i<Suc n. bmt_block ?T ?buf i \<noteq> 0 \<and> bmt_mapped ?T ?buf i \<noteq> 2" "bmt_block ?T ?buf (Suc n) = 0"
    using assms(3,4) by (auto simp: less_Suc_eq_le)
  have idx: "get_bmt_index ?T ?buf 0 = 0" by (rule get_bmt_index_stops [OF blk]) simp
  have len: "2 < length (v_buf s)" using assms(3) by simp
  then have valid: "is_valid_bmt ?buf (CHR 0xFF # ''bmt'')" by (auto simp: is_valid_bmt_def hw_def sign_def)
  have "list_all (\<lambda>h. h < 65536) ?buf" using assms(7)
    by (auto simp: sign_def set_bmt_block_def list_all_iff dest!: set_update_subset_insert [THEN subsetD])
  then have hb: "halfwords (hw_bytes ?buf) = ?buf" by (rule halfwords_bytes)
  have "drop (length ?buf) (v_buf t) = []" using assms(11) by simp
  then show ?thesis using up idx valid stored hb by (simp add: Let_def)
qed

text \<open>The witness: blocks 3 to 7 are the pool, and block 7, with the table, cannot be erased.\<close>

definition tired_nand :: "string \<Rightarrow> unit nand" where
  "tired_nand img =
     quiet_nand\<lparr>nd_read := (\<lambda>a ops d. ((0, img, CHR 0xFF # ''bmt''), d)), nd_erase := (\<lambda>a d. (if a = 7 * 16 then - 5 else 0, d))\<rparr>"

theorem v2_fallback_loses_table_witness:
  "v_blk_idx (upload_table demo_v2 (tired_nand []) demo_running) = 3 \<and>
   fst (find_table demo_v2 (tired_nand (hw_bytes (v_buf (upload_table demo_v2 (tired_nand []) demo_running)))) 40 5 7 demo_running) = False"
proof -
  have a: "v_blk_idx demo_running = Suc 3" "vc_table_size demo_v2 = 8" "length (v_buf demo_running) = 20"
    "c_blk_shift (vc_conf demo_v2) = 4"
    by (simp_all add: demo_running_def demo_v2_def demo_conf_def)
  have b: "bmt_block 8 (v_buf demo_running) 0 = 3" "bmt_block 8 (v_buf demo_running) (Suc 0) = 4" "bmt_block 8 (v_buf demo_running) 2 = 5"
    "bmt_block 8 (v_buf demo_running) 3 = 6" "bmt_block 8 (v_buf demo_running) 4 = 7"
    "bmt_mapped 8 (v_buf demo_running) 0 = 0" "bmt_mapped 8 (v_buf demo_running) (Suc 0) = 0" "bmt_mapped 8 (v_buf demo_running) 2 = 0"
    "bmt_mapped 8 (v_buf demo_running) 3 = 0" "bmt_mapped 8 (v_buf demo_running) 4 = 2"
    by (simp_all add: demo_running_def bmt_block_def bmt_mapped_def hw_def)
  have l: "list_all (\<lambda>h. h < 65536) (v_buf demo_running)" by (simp add: demo_running_def)
  have le3: "i \<le> 3 \<longleftrightarrow> i = 0 \<or> i = Suc 0 \<or> i = 2 \<or> i = 3" for i :: nat by auto
  show ?thesis
    using v2_fallback_loses_table [where s = demo_running and n = 3 and vc = demo_v2 and nd = "tired_nand []"
        and nd' = "tired_nand (hw_bytes (v_buf (upload_table demo_v2 (tired_nand []) demo_running)))"
        and block = 7 and bufsz = 40 and t = demo_running and d' = "()" and k = 4]
    by (simp add: a b l le3 tired_nand_def bbt_nand_erase_def bbt_nand_read_def write_bmt_def blk_addr_def)
qed

subsection \<open>Weaknesses of the table\<close>

text \<open>
  With ranges in the device tree (as for the Xiaomi AX6S, mt7622-xiaomi-redmi-router-ax6s.dts), the blocks outside
  them stay on the physical blocks of their numbers, while the first scan has given these to the blocks before
  them as soon as one block is bad. On the device of the witness, with block 1 bad and the range of the first
  two blocks, logical blocks 1 and 2 share physical block 2 after the first set-up.
\<close>

definition ranged_v2 :: v2_conf where
  "ranged_v2 = demo_v2\<lparr>vc_conf := demo_conf\<lparr>c_remap_range := [(0, 32)]\<rparr>\<rparr>"

definition spotted_nand :: "unit nand" where
  "spotted_nand = quiet_nand\<lparr>nd_read :=
     (\<lambda>a ops d. ((0, [], replicate (o_ooblen ops) (if a = 16 then CHR 0x00 else CHR 0xFF)), d))\<rparr>"

lemma ranged_conf [simp]:
  "vc_pool_lba ranged_v2 = 3" "vc_table_size ranged_v2 = 8" "vc_bb_max ranged_v2 = 1" "c_total_blks (vc_conf ranged_v2) = 8"
  by (simp_all add: ranged_v2_def demo_v2_def demo_conf_def)

lemma spotted_read:
  assumes "block < 8"
  shows "bbt_nand_read (vc_conf ranged_v2) spotted_nand (blk_pg (vc_conf ranged_v2) block) n 4 d =
    ((0, [], replicate 4 (if block = 1 then CHR 0x00 else CHR 0xFF)), d)"
proof -
  have "blk_pg (vc_conf ranged_v2) block = 2 * block"
    using assms by (simp add: blk_pg_def ranged_v2_def demo_v2_def demo_conf_def)
  moreover have "16 * block = 16 \<longleftrightarrow> block = 1" by presburger
  ultimately show ?thesis
    using assms by (simp add: bbt_nand_read_def spotted_nand_def ranged_v2_def demo_v2_def demo_conf_def)
qed

lemma spotted_find:
  "find_valid ranged_v2 spotted_nand block s = (if block = 1 then 2 else if block < 8 then block else 0, s)"
proof -
  have r: "replicate 4 x = [x, x, x, x]" for x :: char by (simp add: numeral_eq_Suc)
  have "find_valid_block ranged_v2 spotted_nand k block bd = (if block < 8 then block else 0, bd)" if "block \<noteq> 1" for k block bd
    using that by (cases bd) (simp add: find_valid_block.simps [of ranged_v2 spotted_nand k] spotted_read r Let_def)
  note other = this
  have "find_valid_block ranged_v2 spotted_nand 0 1 bd = (2, bd)" for bd
    by (cases bd) (simp add: find_valid_block.simps [of ranged_v2 spotted_nand 0 "Suc 0"] spotted_read r Let_def other)
  then show ?thesis using other by (cases s) (simp add: find_valid_def)
qed

lemma spotted_upload:
  assumes "bmt_mapped (vc_table_size vc) (v_buf s) (v_blk_idx s) \<noteq> 1" "v_blk_idx s < 65536"
  shows "upload_table vc spotted_nand s = s\<lparr>v_buf := sign (v_buf s)\<rparr>"
  using assms by (cases s) (simp add: upload_table_def bbt_nand_erase_def write_bmt_def spotted_nand_def Let_def)

lemma spotted_start:
  "v2_first_start ranged_v2 spotted_nand demo_blank = (0, demo_blank\<lparr>v_buf := [0x4D42, 0x0254, 0, 2, 3, 65535, 65535, 65535, 65535, 65535,
     4, 0, 5, 0, 6, 0, 7, 2, 0, 0], v_pool_pba := 4, v_blk_idx := 3\<rparr>)"
proof -
  let ?s = "demo_blank\<lparr>v_buf := [65535, 65535, 0, 2, 3, 65535, 65535, 65535, 65535, 65535, 4, 0, 5, 0, 6, 0, 7, 2, 0, 0],
        v_pool_pba := 4, v_blk_idx := 3\<rparr>"
  have "scan_main ranged_v2 spotted_nand 2 1 (demo_blank\<lparr>v_buf := set_bb_tbl 0 0 demo_cleared\<rparr>) =
     (True, demo_blank\<lparr>v_buf := [65535, 65535, 0, 2, 3, 65535, 65535, 65535, 65535, 65535, 0, 0, 0, 0, 0, 0, 0, 0, 0, 0]\<rparr>)"
    by (simp add: numeral_2_eq_2 spotted_find Let_def table_eval demo_cleared_def)
  moreover have "scan_pool ranged_v2 spotted_nand 0 4
     (demo_blank\<lparr>v_buf := [65535, 65535, 0, 2, 3, 65535, 65535, 65535, 65535, 65535, 0, 0, 0, 0, 0, 0, 0, 0, 0, 0], v_pool_pba := 4\<rparr>) =
     (4, demo_blank\<lparr>v_buf := [65535, 65535, 0, 2, 3, 65535, 65535, 65535, 65535, 65535, 4, 0, 5, 0, 6, 0, 7, 0, 0, 0], v_pool_pba := 4\<rparr>)"
    by (simp add: scan_pool.simps spotted_find Let_def table_eval)
  ultimately have "scan_bad_blocks ranged_v2 spotted_nand (demo_blank\<lparr>v_buf := demo_cleared\<rparr>) = (0, ?s)"
    by (simp add: scan_bad_blocks_def Let_def table_eval demo_blank_def)
  moreover have "upload_table ranged_v2 spotted_nand ?s = ?s\<lparr>v_buf := sign (v_buf ?s)\<rparr>"
    by (subst spotted_upload) (simp_all add: bmt_mapped_def hw_def)
  ultimately show ?thesis by (simp add: v2_first_start_def demo_clear Let_def sign_def)
qed

lemma v2_ranges_collide:
  "fst (v2_first_start ranged_v2 spotted_nand demo_blank) = 0 \<and>
   map (get_mapping_block_index_v2 ranged_v2 (v_buf (snd (v2_first_start ranged_v2 spotted_nand demo_blank)))) [0, 1, 2]
     = [0, 2, 2]"
proof -
  have "mapping_block_in_range (vc_conf ranged_v2) 0 = Some (0, 32)" "mapping_block_in_range (vc_conf ranged_v2) (Suc 0) = Some (0, 32)"
    "mapping_block_in_range (vc_conf ranged_v2) 2 = None"
    by (simp_all add: mapping_block_in_range_def ranged_v2_def demo_v2_def demo_conf_def as_s32_def)
  then show ?thesis by (simp add: spotted_start get_mapping_block_index_v2_def bb_tbl_def hw_def)
qed

text \<open>
  Unmapping a block points it at the physical block of its own number, also when the first scan has given
  this block to another logical block.
\<close>

lemma v2_unmap_collides:
  assumes "v2_conf_ok vc" "v2_ok vc (v_buf s)" "b \<in> v2_blocks vc" "j \<in> v2_blocks vc"
    "j \<noteq> b" "bb_tbl (v_buf s) j = b"
  shows "get_mapping_block_index_v2 vc (v_buf (unmap_block_v2 vc nd b s)) b
     = get_mapping_block_index_v2 vc (v_buf (unmap_block_v2 vc nd b s)) j"
  using assms by (auto simp: v2_mapping_eq unmap_block_v2_def upload_table_bb v2_blocks_def v2_defs)

text \<open>
  The table of the pool is cleared over \<open>4 * table_size\<close> bytes behind \<open>bb_tbl\<close>, more than the buffer has.
\<close>

lemma v2_memset_overflow:
  assumes "0 < pg" "pg \<le> 2 * T"
  shows "v2_bufsz T pg < (4 + 2 * T) + 4 * T"
proof -
  have "v2_bufsz T pg \<le> 4 + 4 * T + pg - 1" unfolding v2_bufsz_def round_up_def by (rule div_times_less_eq_dividend)
  then show ?thesis using assms by simp
qed

end
