(* ===== verification/Nmbm.thy ===== *)
theory Nmbm
  imports Bmt
begin

text \<open>
  The third kind of table of the flash layer (src/target/linux/generic/files/drivers/mtd/nand/mtk_bmt_nmbm.c):
  a bitmap with the state of every physical block, an array with the physical block of every logical one, and
  behind the data a management area that holds two copies of the table, the spare blocks, and at the end of
  the flash a signature.

  The instance is the record \<open>nmbm\<close>; what \<open>nmbm_init_structure\<close> computes once from the device is
  a definition over the record \<open>nmbm_conf\<close>. The CRC-32 of the kernel is the parameter \<open>nc_crc\<close>. Structures are
  stored little endian. Block numbers are natural numbers below \<open>2\<^sup>3\<^sup>2\<close>; an entry of the mapping is an \<open>int\<close> that
  the source compares as an unsigned number, \<open>as_u32\<close>. Behind the arrays, where the source accesses foreign
  memory, the model reads 0 or -1 and stores nothing. Every call of the source transfers page data and no
  out-of-band data. Log messages are left out.
\<close>

subsection \<open>Structures as bytes\<close>

fun le_bytes :: "nat \<Rightarrow> nat \<Rightarrow> string" where
  "le_bytes 0 v = []"
| "le_bytes (Suc n) v = char_of (v mod 256) # le_bytes n (v div 256)"

fun le_num :: "string \<Rightarrow> nat" where
  "le_num [] = 0"
| "le_num (c # cs) = of_char c + 256 * le_num cs"

definition u32_at :: "nat \<Rightarrow> string \<Rightarrow> nat" where
  "u32_at off s = le_num (take 4 (drop off s))"

definition u32_bytes :: "nat list \<Rightarrow> string" where
  "u32_bytes xs = concat (map (le_bytes 4) xs)"

text \<open>\<open>memcpy(buf + off, s, length s)\<close>\<close>

definition put_at :: "nat \<Rightarrow> string \<Rightarrow> string \<Rightarrow> string" where
  "put_at off s buf = take off buf @ s @ drop (off + length s) buf"

record nmbm_signature =
  sg_magic :: nat
  sg_version :: nat
  sg_size :: nat
  sg_checksum :: nat
  sg_nand_size :: nat
  sg_block_size :: nat
  sg_page_size :: nat
  sg_spare_size :: nat
  sg_mgmt_start_pb :: nat
  sg_max_try_count :: nat
  sg_padding :: string

definition signature_bytes :: "nmbm_signature \<Rightarrow> string" where
  "signature_bytes g =
     u32_bytes [sg_magic g, sg_version g, sg_size g, sg_checksum g] @ le_bytes 8 (sg_nand_size g) @
     u32_bytes [sg_block_size g, sg_page_size g, sg_spare_size g, sg_mgmt_start_pb g] @
     le_bytes 1 (sg_max_try_count g) @ sg_padding g"

definition signature_of :: "string \<Rightarrow> nmbm_signature" where
  "signature_of s =
     \<lparr>sg_magic = u32_at 0 s, sg_version = u32_at 4 s, sg_size = u32_at 8 s, sg_checksum = u32_at 12 s,
      sg_nand_size = le_num (take 8 (drop 16 s)), sg_block_size = u32_at 24 s, sg_page_size = u32_at 28 s,
      sg_spare_size = u32_at 32 s, sg_mgmt_start_pb = u32_at 36 s, sg_max_try_count = le_num (take 1 (drop 40 s)),
      sg_padding = take 3 (drop 41 s)\<rparr>"

text \<open>\<open>sizeof(struct nmbm_signature)\<close>: 44 bytes of members, aligned to 8.\<close>

abbreviation (input) SIG_SIZE :: nat where "SIG_SIZE \<equiv> 48"

record nmbm_info_header =
  ih_magic :: nat
  ih_version :: nat
  ih_size :: nat
  ih_checksum :: nat
  ih_write_count :: nat
  ih_state_off :: nat
  ih_mapping_off :: nat
  ih_padding :: nat

definition info_bytes :: "nmbm_info_header \<Rightarrow> string" where
  "info_bytes h = u32_bytes [ih_magic h, ih_version h, ih_size h, ih_checksum h, ih_write_count h, ih_state_off h,
     ih_mapping_off h, ih_padding h]"

definition info_of :: "string \<Rightarrow> nmbm_info_header" where
  "info_of s =
     \<lparr>ih_magic = u32_at 0 s, ih_version = u32_at 4 s, ih_size = u32_at 8 s, ih_checksum = u32_at 12 s,
      ih_write_count = u32_at 16 s, ih_state_off = u32_at 20 s, ih_mapping_off = u32_at 24 s, ih_padding = u32_at 28 s\<rparr>"

abbreviation (input) NMBM_MAGIC_SIGNATURE :: nat where "NMBM_MAGIC_SIGNATURE \<equiv> 0x304d4d4e"
abbreviation (input) NMBM_MAGIC_INFO_TABLE :: nat where "NMBM_MAGIC_INFO_TABLE \<equiv> 0x314d4d4e"
abbreviation (input) NMBM_VER :: nat where "NMBM_VER \<equiv> 1"
abbreviation (input) BLOCK_ST_BAD :: nat where "BLOCK_ST_BAD \<equiv> 0"
abbreviation (input) BLOCK_ST_GOOD :: nat where "BLOCK_ST_GOOD \<equiv> 3"
abbreviation (input) NMBM_TRY_COUNT :: nat where "NMBM_TRY_COUNT \<equiv> 3"
abbreviation (input) EBADMSG :: int where "EBADMSG \<equiv> 74"
abbreviation (input) EINVAL :: int where "EINVAL \<equiv> 22"
abbreviation (input) ENODEV :: int where "ENODEV \<equiv> 19"
abbreviation (input) ENOMEM :: int where "ENOMEM \<equiv> 12"

subsection \<open>The instance\<close>

record nmbm_conf =
  nc_conf :: bmt_conf
  nc_crc :: "nat \<Rightarrow> string \<Rightarrow> nat"
  nc_ecc_strength :: nat
  nc_max_ratio :: nat
  nc_max_reserved :: nat
  nc_empty_page_ecc_ok :: bool
  nc_force_create :: bool

record 'd nmbm =
  ni_signature :: nmbm_signature
  ni_cache :: string
  ni_info_table :: nmbm_info_header
  ni_block_state :: "32 word list"
  ni_state_changed :: nat
  ni_mapping :: "int list"
  ni_mapping_changed :: nat
  ni_protected :: bool
  ni_data_blocks :: nat
  ni_mgmt_start :: nat
  ni_main_table :: nat
  ni_backup_table :: nat
  ni_mapping_blocks :: nat
  ni_mapping_top :: nat
  ni_signature_ba :: nat
  ni_page :: string
  ni_dev :: 'd

definition nmbm_get_spare_block_count :: "nat \<Rightarrow> nat" where
  "nmbm_get_spare_block_count block_count = max ((block_count + 1) div 2) 2"

definition ba2addr :: "nmbm_conf \<Rightarrow> nat \<Rightarrow> nat" where
  "ba2addr nc ba = ba * 2 ^ c_blk_shift (nc_conf nc)"

definition size2blk :: "nmbm_conf \<Rightarrow> nat \<Rightarrow> nat" where
  "size2blk nc sz = (sz + c_blk_size (nc_conf nc) - 1) div 2 ^ c_blk_shift (nc_conf nc)"

abbreviation (input) chip_blocks :: "nmbm_conf \<Rightarrow> nat" where
  "chip_blocks nc \<equiv> c_total_blks (nc_conf nc)"

definition state_table_size :: "nmbm_conf \<Rightarrow> nat" where
  "state_table_size nc = ((chip_blocks nc + 15) div 16) * 4"

definition mapping_table_size :: "nmbm_conf \<Rightarrow> nat" where
  "mapping_table_size nc = chip_blocks nc * 4"

definition state_table_off :: "nmbm_conf \<Rightarrow> nat" where
  "state_table_off nc = round_up 32 (c_pg_size (nc_conf nc))"

definition mapping_table_off :: "nmbm_conf \<Rightarrow> nat" where
  "mapping_table_off nc = state_table_off nc + round_up (state_table_size nc) (c_pg_size (nc_conf nc))"

definition info_table_size :: "nmbm_conf \<Rightarrow> nat" where
  "info_table_size nc = mapping_table_off nc + round_up (mapping_table_size nc) (c_pg_size (nc_conf nc))"

definition info_table_blocks :: "nmbm_conf \<Rightarrow> nat" where
  "info_table_blocks nc = size2blk nc (info_table_size nc)"

definition info_table_spare_blocks :: "nmbm_conf \<Rightarrow> nat" where
  "info_table_spare_blocks nc = nmbm_get_spare_block_count (info_table_blocks nc)"

definition rawpage_size :: "nmbm_conf \<Rightarrow> nat" where
  "rawpage_size nc = c_pg_size (nc_conf nc) + c_oobsize (nc_conf nc)"

text \<open>The bytes of an instance behind the structure itself.\<close>

definition nmbm_calc_structure_size :: "nmbm_conf \<Rightarrow> nat" where
  "nmbm_calc_structure_size nc = info_table_size nc + state_table_size nc + mapping_table_size nc"

text \<open>The instance is allocated as zeroes; \<open>page\<close> is \<open>bmtd.data_buf\<close>.\<close>

definition nmbm_init_structure :: "nmbm_conf \<Rightarrow> string \<Rightarrow> 'd \<Rightarrow> 'd nmbm" where
  "nmbm_init_structure nc page d =
     \<lparr>ni_signature = signature_of (replicate SIG_SIZE NUL),
      ni_cache = replicate (info_table_size nc) NUL,
      ni_info_table = (info_of (replicate 32 NUL))\<lparr>ih_state_off := state_table_off nc, ih_mapping_off := mapping_table_off nc\<rparr>,
      ni_block_state = replicate (state_table_size nc div 4) (-1), ni_state_changed = 0,
      ni_mapping = replicate (chip_blocks nc) 0, ni_mapping_changed = 0, ni_protected = False,
      ni_data_blocks = 0, ni_mgmt_start = 0, ni_main_table = 0, ni_backup_table = 0, ni_mapping_blocks = 0,
      ni_mapping_top = 0, ni_signature_ba = 0, ni_page = page, ni_dev = d\<rparr>"

subsection \<open>Access to the chip, with retries\<close>

text \<open>The contents of a buffer after a read that delivers \<open>dat\<close> to its start.\<close>

definition fill :: "string \<Rightarrow> string \<Rightarrow> string" where
  "fill dat buf = dat @ drop (length dat) buf"

definition page_request :: "nmbm_conf \<Rightarrow> string \<Rightarrow> mtd_oob_ops" where
  "page_request nc dat = \<lparr>o_mode = MTD_OPS_PLACE_OOB, o_len = c_pg_size (nc_conf nc), o_ooblen = 0, o_ooboffs = 0,
     o_datbuf = dat, o_oobbuf = []\<rparr>"

primrec read_tries :: "nmbm_conf \<Rightarrow> 'd nand \<Rightarrow> nat \<Rightarrow> nat \<Rightarrow> int \<Rightarrow> string \<Rightarrow> 'd \<Rightarrow> int \<times> string \<times> 'd" where
  "read_tries nc nd addr 0 = (\<lambda>ret buf d. (ret, buf, d))"
| "read_tries nc nd addr (Suc n) = (\<lambda>ret buf d.
     let ((ret, dat, oob), d) = nd_read nd addr (page_request nc []) d; buf = fill dat buf in
     if mtd_is_bitflip ret
     then (as_s32 (min ((c_bitflip_threshold (nc_conf nc) + 1) mod 2 ^ 32) (nc_ecc_strength nc)), buf, d)
     else if ret \<ge> 0 then (0, buf, d)
     else read_tries nc nd addr n ret buf d)"

definition nmbm_read_phys_page :: "nmbm_conf \<Rightarrow> 'd nand \<Rightarrow> nat \<Rightarrow> string \<Rightarrow> 'd \<Rightarrow> int \<times> string \<times> 'd" where
  "nmbm_read_phys_page nc nd addr buf d = read_tries nc nd addr NMBM_TRY_COUNT 0 buf d"

primrec write_tries :: "nmbm_conf \<Rightarrow> 'd nand \<Rightarrow> nat \<Rightarrow> string \<Rightarrow> nat \<Rightarrow> 'd \<Rightarrow> bool \<times> 'd" where
  "write_tries nc nd addr dat 0 = (\<lambda>d. (False, d))"
| "write_tries nc nd addr dat (Suc n) = (\<lambda>d.
     let ((ret, _), d) = nd_write nd addr (page_request nc dat) d
     in if ret = 0 then (True, d) else write_tries nc nd addr dat n d)"

definition nmbm_write_phys_page :: "nmbm_conf \<Rightarrow> 'd nand \<Rightarrow> nat \<Rightarrow> string \<Rightarrow> 'd \<Rightarrow> bool \<times> 'd" where
  "nmbm_write_phys_page nc nd addr dat d = write_tries nc nd addr dat NMBM_TRY_COUNT d"

primrec erase_tries :: "'d nand \<Rightarrow> nat \<Rightarrow> nat \<Rightarrow> 'd \<Rightarrow> bool \<times> 'd" where
  "erase_tries nd addr 0 = (\<lambda>d. (False, d))"
| "erase_tries nd addr (Suc n) = (\<lambda>d.
     let (ret, d) = nd_erase nd addr d in if ret = 0 then (True, d) else erase_tries nd addr n d)"

definition nmbm_erase_phys_block :: "'d nand \<Rightarrow> nat \<Rightarrow> 'd \<Rightarrow> bool \<times> 'd" where
  "nmbm_erase_phys_block nd addr d = erase_tries nd addr NMBM_TRY_COUNT d"

definition nmbm_check_bad_phys_block :: "nmbm_conf \<Rightarrow> 'd nand \<Rightarrow> nat \<Rightarrow> 'd nmbm \<Rightarrow> bool" where
  "nmbm_check_bad_phys_block nc nd ba s \<longleftrightarrow> nd_isbad nd (ba2addr nc ba) (ni_dev s) \<noteq> 0"

definition nmbm_mark_phys_bad_block :: "nmbm_conf \<Rightarrow> 'd nand \<Rightarrow> nat \<Rightarrow> 'd nmbm \<Rightarrow> int \<times> 'd nmbm" where
  "nmbm_mark_phys_bad_block nc nd ba s =
     (let (ret, d) = nd_markbad nd (ba2addr nc ba) (ni_dev s) in (ret, s\<lparr>ni_dev := d\<rparr>))"

text \<open>A read into the page buffer of the instance.\<close>

definition read_page :: "nmbm_conf \<Rightarrow> 'd nand \<Rightarrow> nat \<Rightarrow> 'd nmbm \<Rightarrow> int \<times> 'd nmbm" where
  "read_page nc nd addr s =
     (let (ret, buf, d) = nmbm_read_phys_page nc nd addr (ni_page s) (ni_dev s)
      in (ret, s\<lparr>ni_page := buf, ni_dev := d\<rparr>))"

subsection \<open>Checksums\<close>

function nmbm_crc32 :: "nmbm_conf \<Rightarrow> nat \<Rightarrow> string \<Rightarrow> nat" where
  "nmbm_crc32 nc crcval buf =
     (if buf = [] then crcval
      else nmbm_crc32 nc (nc_crc nc crcval (take 0xFFFFFFFF buf)) (drop 0xFFFFFFFF buf))"
  by pat_completeness auto
termination
  by (relation "measure (\<lambda>(nc, v, buf). length buf)") auto

declare nmbm_crc32.simps [simp del]

definition nmbm_check_header :: "nmbm_conf \<Rightarrow> string \<Rightarrow> nat \<Rightarrow> bool" where
  "nmbm_check_header nc dat sz \<longleftrightarrow>
     (let hsize = u32_at 8 dat in
      if hsize > sz then False
      else
        let sum = nmbm_crc32 nc 0 (take 16 (put_at 12 (le_bytes 4 0) dat));
            sum = (if hsize > 16 then nmbm_crc32 nc sum (take (hsize - 16) (drop 16 dat)) else sum)
        in u32_at 12 dat = sum)"

definition nmbm_update_checksum :: "nmbm_conf \<Rightarrow> string \<Rightarrow> string" where
  "nmbm_update_checksum nc dat =
     (let dat0 = put_at 12 (le_bytes 4 0) dat
      in put_at 12 (le_bytes 4 (nmbm_crc32 nc 0 (take (u32_at 8 dat) dat0))) dat0)"

subsection \<open>The state of blocks\<close>

definition state_unit :: "32 word list \<Rightarrow> nat \<Rightarrow> 32 word" where
  "state_unit bs u = (if u < length bs then bs ! u else 0)"

definition nmbm_get_block_state_raw :: "32 word list \<Rightarrow> nat \<Rightarrow> nat" where
  "nmbm_get_block_state_raw bs ba = unat (drop_bit (2 * (ba mod 16)) (state_unit bs (ba div 16)) AND 3)"

definition nmbm_get_block_state :: "'d nmbm \<Rightarrow> nat \<Rightarrow> nat" where
  "nmbm_get_block_state s ba = nmbm_get_block_state_raw (ni_block_state s) ba"

definition put_state :: "32 word list \<Rightarrow> nat \<Rightarrow> nat \<Rightarrow> 32 word list" where
  "put_state bs ba st =
     (let shift = 2 * (ba mod 16); u = ba div 16;
          uv = (state_unit bs u AND NOT (push_bit shift 3)) OR push_bit shift (of_nat st AND 3)
      in bs[u := uv])"

definition nmbm_set_block_state :: "nat \<Rightarrow> nat \<Rightarrow> 'd nmbm \<Rightarrow> bool \<times> 'd nmbm" where
  "nmbm_set_block_state ba st s =
     (let orig = nmbm_get_block_state s ba;
          s = s\<lparr>ni_block_state := put_state (ni_block_state s) ba st\<rparr>
      in if orig \<noteq> st mod 4 then (True, s\<lparr>ni_state_changed := (ni_state_changed s + 1) mod 2 ^ 32\<rparr>) else (False, s))"

definition set_bad :: "nat \<Rightarrow> 'd nmbm \<Rightarrow> 'd nmbm" where
  "set_bad ba s = snd (nmbm_set_block_state ba BLOCK_ST_BAD s)"

subsection \<open>Walking over good blocks\<close>

function walk_asc :: "32 word list \<Rightarrow> nat \<Rightarrow> nat \<Rightarrow> int \<Rightarrow> nat option" where
  "walk_asc bs limit ba nblock =
     (if ba < limit then
        let nblock = (if nmbm_get_block_state_raw bs ba = BLOCK_ST_GOOD then nblock - 1 else nblock)
        in if nblock < 0 then Some ba else walk_asc bs limit (ba + 1) nblock
      else None)"
  by pat_completeness auto
termination
  by (relation "measure (\<lambda>(bs, limit, ba, nblock). limit - ba)") auto

function walk_desc :: "32 word list \<Rightarrow> nat \<Rightarrow> nat \<Rightarrow> int \<Rightarrow> nat option" where
  "walk_desc bs limit ba nblock =
     (if ba > limit then
        let nblock = (if nmbm_get_block_state_raw bs ba = BLOCK_ST_GOOD then nblock - 1 else nblock)
        in if nblock < 0 then Some ba else walk_desc bs limit (ba - 1) nblock
      else None)"
  by pat_completeness auto
termination
  by (relation "measure (\<lambda>(bs, limit, ba, nblock). ba - limit)") auto

declare walk_asc.simps [simp del] walk_desc.simps [simp del]

definition walk_limit :: "nmbm_conf \<Rightarrow> nat \<Rightarrow> nat" where
  "walk_limit nc limit = (if limit \<ge> chip_blocks nc then chip_blocks nc - 1 else limit)"

definition nmbm_block_walk_asc :: "nmbm_conf \<Rightarrow> 'd nmbm \<Rightarrow> nat \<Rightarrow> int \<Rightarrow> nat \<Rightarrow> nat option" where
  "nmbm_block_walk_asc nc s ba count limit = walk_asc (ni_block_state s) (walk_limit nc limit) ba count"

definition nmbm_block_walk_desc :: "nmbm_conf \<Rightarrow> 'd nmbm \<Rightarrow> nat \<Rightarrow> int \<Rightarrow> nat \<Rightarrow> nat option" where
  "nmbm_block_walk_desc nc s ba count limit = walk_desc (ni_block_state s) (walk_limit nc limit) ba count"

definition nmbm_block_walk :: "nmbm_conf \<Rightarrow> 'd nmbm \<Rightarrow> bool \<Rightarrow> nat \<Rightarrow> int \<Rightarrow> nat \<Rightarrow> nat option" where
  "nmbm_block_walk nc s ascending ba count limit =
     (if ascending then nmbm_block_walk_asc nc s ba count limit else nmbm_block_walk_desc nc s ba count limit)"

function nmbm_try_reserve_blocks :: "nmbm_conf \<Rightarrow> 'd nmbm \<Rightarrow> nat \<Rightarrow> int \<Rightarrow> int \<Rightarrow> nat \<Rightarrow> nat option" where
  "nmbm_try_reserve_blocks nc s ba nblocks min_count limit =
     (if nblocks \<ge> min_count then
        (case nmbm_block_walk nc s True ba nblocks limit of
           Some nba \<Rightarrow> Some nba
         | None \<Rightarrow> nmbm_try_reserve_blocks nc s ba (nblocks - 1) min_count limit)
      else None)"
  by pat_completeness auto
termination
  by (relation "measure (\<lambda>(nc, s, ba, nblocks, min_count, limit). nat (nblocks - min_count + 1))") auto

declare nmbm_try_reserve_blocks.simps [simp del]

subsection \<open>Scanning and the first mapping\<close>

definition nmbm_scan_badblocks :: "nmbm_conf \<Rightarrow> 'd nand \<Rightarrow> 'd nmbm \<Rightarrow> 'd nmbm" where
  "nmbm_scan_badblocks nc nd s =
     fold (\<lambda>ba s. if nmbm_check_bad_phys_block nc nd ba s then set_bad ba s else s) [0..<chip_blocks nc] s"

text \<open>The first loop fills \<open>n\<close> entries from \<open>lb\<close> on.\<close>

fun map_good :: "32 word list \<Rightarrow> nat list \<Rightarrow> nat \<Rightarrow> int list \<Rightarrow> nat \<times> int list" where
  "map_good bs [] lb m = (lb, m)"
| "map_good bs (pb # pbs) lb m =
     (if nmbm_get_block_state_raw bs pb = BLOCK_ST_BAD then map_good bs pbs lb m
      else map_good bs pbs (lb + 1) (m[lb := int pb]))"

definition nmbm_build_mapping_table :: "nmbm_conf \<Rightarrow> 'd nmbm \<Rightarrow> 'd nmbm" where
  "nmbm_build_mapping_table nc s =
     (let (lb, m) = map_good (ni_block_state s) [0..<ni_mgmt_start s] 0 (ni_mapping s)
      in s\<lparr>ni_mapping := fold (\<lambda>pb m. m[pb := -1]) [lb..<chip_blocks nc] m, ni_data_blocks := lb\<rparr>)"

subsection \<open>Erasing and writing blocks\<close>

definition page_offsets :: "nmbm_conf \<Rightarrow> nat list" where
  "page_offsets nc = (let c = nc_conf nc in
     map (\<lambda>k. k * c_pg_size c) [0..<(c_blk_size c + c_pg_size c - 1) div c_pg_size c])"

fun check_pages :: "nmbm_conf \<Rightarrow> 'd nand \<Rightarrow> nat \<Rightarrow> nat list \<Rightarrow> 'd nmbm \<Rightarrow> bool \<times> 'd nmbm" where
  "check_pages nc nd addr [] s = (True, s)"
| "check_pages nc nd addr (off # offs) s =
     (let (ret, s) = read_page nc nd (addr + off) s
      in if ret = - EBADMSG then (False, s) else check_pages nc nd addr offs s)"

definition nmbm_erase_block_and_check :: "nmbm_conf \<Rightarrow> 'd nand \<Rightarrow> nat \<Rightarrow> 'd nmbm \<Rightarrow> bool \<times> 'd nmbm" where
  "nmbm_erase_block_and_check nc nd ba s =
     (let (ok, d) = nmbm_erase_phys_block nd (ba2addr nc ba) (ni_dev s); s = s\<lparr>ni_dev := d\<rparr> in
      if \<not> ok then (False, s)
      else if \<not> nc_empty_page_ecc_ok nc then (True, s)
      else check_pages nc nd (ba2addr nc ba) (page_offsets nc) s)"

text \<open>
  What \<open>nmbm_erase_range\<close>, \<open>nmbm_write_signature\<close> and \<open>nmbm_write_mgmt_range\<close> do with one block: it is passed
  over when it is not good, or found to be marked; otherwise it is erased and written by \<open>wr\<close>, and marked bad
  when that fails. The result says whether it has been written.
\<close>

definition use_block :: "nmbm_conf \<Rightarrow> 'd nand \<Rightarrow> ('d nmbm \<Rightarrow> bool \<times> 'd nmbm) \<Rightarrow> nat \<Rightarrow> 'd nmbm \<Rightarrow> bool \<times> 'd nmbm" where
  "use_block nc nd wr ba s =
     (if nmbm_get_block_state s ba \<noteq> BLOCK_ST_GOOD then (False, s)
      else if nmbm_check_bad_phys_block nc nd ba s then (False, set_bad ba s)
      else
        let (ok, s) = nmbm_erase_block_and_check nc nd ba s;
            (ok, s) = (if ok then wr s else (False, s))
        in if ok then (True, s) else (False, set_bad ba (snd (nmbm_mark_phys_bad_block nc nd ba s))))"

function nmbm_erase_range :: "nmbm_conf \<Rightarrow> 'd nand \<Rightarrow> nat \<Rightarrow> nat \<Rightarrow> 'd nmbm \<Rightarrow> 'd nmbm" where
  "nmbm_erase_range nc nd ba limit s =
     (if ba < limit
      then nmbm_erase_range nc nd (ba + 1) limit (snd (use_block nc nd (\<lambda>s. (True, s)) ba s))
      else s)"
  by pat_completeness auto
termination
  by (relation "measure (\<lambda>(nc, nd, ba, limit, s). limit - ba)") auto

declare nmbm_erase_range.simps [simp del]

fun repeat_pages :: "nmbm_conf \<Rightarrow> 'd nand \<Rightarrow> nat \<Rightarrow> string \<Rightarrow> nat list \<Rightarrow> 'd nmbm \<Rightarrow> bool \<times> 'd nmbm" where
  "repeat_pages nc nd addr dat [] s = (True, s)"
| "repeat_pages nc nd addr dat (off # offs) s =
     (let page = dat @ replicate (rawpage_size nc - length dat) (CHR 0xFF);
          (ok, d) = nmbm_write_phys_page nc nd (addr + off) page (ni_dev s);
          s = s\<lparr>ni_page := page, ni_dev := d\<rparr>
      in
      if \<not> ok then (False, s)
      else
        let (ret, s) = read_page nc nd (addr + off) s in
        if ret < 0 then (False, s)
        else if take (length dat) (ni_page s) \<noteq> dat then (False, s)
        else repeat_pages nc nd addr dat offs s)"

definition nmbm_write_repeated_data :: "nmbm_conf \<Rightarrow> 'd nand \<Rightarrow> nat \<Rightarrow> string \<Rightarrow> 'd nmbm \<Rightarrow> bool \<times> 'd nmbm" where
  "nmbm_write_repeated_data nc nd ba dat s =
     (if length dat > c_pg_size (nc_conf nc) then (False, s)
      else repeat_pages nc nd (ba2addr nc ba) dat (page_offsets nc) s)"

text \<open>The block the signature is written to.\<close>

function write_signature_from :: "nmbm_conf \<Rightarrow> 'd nand \<Rightarrow> nat \<Rightarrow> string \<Rightarrow> nat \<Rightarrow> 'd nmbm \<Rightarrow> nat option \<times> 'd nmbm" where
  "write_signature_from nc nd limit dat ba s =
     (if ba > limit then
        let (ok, s) = use_block nc nd (nmbm_write_repeated_data nc nd ba dat) ba s
        in if ok then (Some ba, s) else write_signature_from nc nd limit dat (ba - 1) s
      else (None, s))"
  by pat_completeness auto
termination
  by (relation "measure (\<lambda>(nc, nd, limit, dat, ba, s). ba)") auto

declare write_signature_from.simps [simp del]

definition nmbm_write_signature :: "nmbm_conf \<Rightarrow> 'd nand \<Rightarrow> nat \<Rightarrow> nmbm_signature \<Rightarrow> 'd nmbm \<Rightarrow> nat option \<times> 'd nmbm" where
  "nmbm_write_signature nc nd limit sig s =
     write_signature_from nc nd limit (take SIG_SIZE (signature_bytes sig @ replicate SIG_SIZE NUL)) (chip_blocks nc - 1) s"

text \<open>
  \<open>nmbn_read_data\<close>: \<open>buf\<close> is the destination. A page size of 0, with which the loops here would not end, counts
  as nothing left to do; a device has none.
\<close>

definition chunk_at :: "nmbm_conf \<Rightarrow> nat \<Rightarrow> nat \<Rightarrow> nat \<times> nat" where
  "chunk_at nc off sizeremain =
     (let pg = c_pg_size (nc_conf nc); leading = off AND (pg - 1) in (leading, min (pg - leading) sizeremain))"

lemma and_below: "x AND y \<le> (y::nat)"
  by (metis AND_upper2 and_nat_def nat_int of_nat_0_le_iff nat_mono)

lemma chunk_positive: "0 < c_pg_size (nc_conf nc) \<Longrightarrow> 0 < n \<Longrightarrow> 0 < snd (chunk_at nc off n)"
  using and_below [of off "c_pg_size (nc_conf nc) - 1"] by (auto simp: chunk_at_def Let_def)

function nmbn_read_data :: "nmbm_conf \<Rightarrow> 'd nand \<Rightarrow> nat \<Rightarrow> string \<Rightarrow> nat \<Rightarrow> 'd nmbm \<Rightarrow> int \<times> string \<times> 'd nmbm" where
  "nmbn_read_data nc nd off buf sizeremain s =
     (if sizeremain = 0 \<or> c_pg_size (nc_conf nc) = 0 then (0, buf, s)
      else
        let lc = chunk_at nc off sizeremain; leading = fst lc; chunk = snd lc;
            (ret, buf, s) =
              (if chunk = c_pg_size (nc_conf nc) then
                 let (ret, buf, d) = nmbm_read_phys_page nc nd (off - leading) buf (ni_dev s) in (ret, buf, s\<lparr>ni_dev := d\<rparr>)
               else
                 let (ret, s) = read_page nc nd (off - leading) s
                 in (ret, if ret < 0 then buf else fill (take chunk (drop leading (ni_page s))) buf, s))
        in
        if ret < 0 then (ret, buf, s)
        else
          let (ret, rest, s) = nmbn_read_data nc nd (off + chunk) (drop chunk buf) (sizeremain - chunk) s
          in (ret, take chunk buf @ rest, s))"
  by pat_completeness auto
termination
  by (relation "measure (\<lambda>(nc, nd, off, buf, n, s). n)") (use chunk_positive in auto)

declare nmbn_read_data.simps [simp del]

function nmbn_write_verify_data :: "nmbm_conf \<Rightarrow> 'd nand \<Rightarrow> nat \<Rightarrow> string \<Rightarrow> nat \<Rightarrow> 'd nmbm \<Rightarrow> bool \<times> 'd nmbm" where
  "nmbn_write_verify_data nc nd off ptr sizeremain s =
     (if sizeremain = 0 \<or> c_pg_size (nc_conf nc) = 0 then (True, s)
      else
        let lc = chunk_at nc off sizeremain; leading = fst lc; chunk = snd lc;
            page = put_at leading (take chunk ptr) (replicate (rawpage_size nc) (CHR 0xFF));
            okd = nmbm_write_phys_page nc nd (off - leading) page (ni_dev s);
            s = s\<lparr>ni_page := page, ni_dev := snd okd\<rparr>
        in
        if \<not> fst okd then (False, s)
        else
          let rs = read_page nc nd (off - leading) s; s = snd rs in
          if fst rs < 0 then (False, s)
          else if take chunk (drop leading (ni_page s)) \<noteq> take chunk ptr then (False, s)
          else nmbn_write_verify_data nc nd (off + chunk) (drop chunk ptr) (sizeremain - chunk) s)"
  by pat_completeness auto
termination
  by (relation "measure (\<lambda>(nc, nd, off, ptr, n, s). n)") (use chunk_positive in auto)

declare nmbn_write_verify_data.simps [simp del]

text \<open>The first block written and the block behind the last one.\<close>

function nmbm_write_mgmt_range :: "nmbm_conf \<Rightarrow> 'd nand \<Rightarrow> nat \<Rightarrow> nat \<Rightarrow> nat \<Rightarrow> string \<Rightarrow> nat \<Rightarrow> nat \<Rightarrow> 'd nmbm \<Rightarrow>
    (nat \<times> nat) option \<times> 'd nmbm" where
  "nmbm_write_mgmt_range nc nd limit sz start ptr sizeremain ba s =
     (if sizeremain \<noteq> 0 \<and> ba < limit then
        let chunk = min sizeremain (c_blk_size (nc_conf nc));
            oks = use_block nc nd (nmbn_write_verify_data nc nd (ba2addr nc ba) ptr chunk) ba s; s = snd oks
        in
        if fst oks
        then nmbm_write_mgmt_range nc nd limit sz (if sizeremain = sz then ba else start) (drop chunk ptr)
               (sizeremain - chunk) (ba + 1) s
        else nmbm_write_mgmt_range nc nd limit sz start ptr sizeremain (ba + 1) s
      else if sizeremain \<noteq> 0 then (None, s)
      else (Some (start, ba), s))"
  by pat_completeness auto
termination
  by (relation "measure (\<lambda>(nc, nd, limit, sz, start, ptr, n, ba, s). limit - ba)") auto

declare nmbm_write_mgmt_range.simps [simp del]

subsection \<open>The table on the chip\<close>

definition changed :: "'d nmbm \<Rightarrow> bool" where
  "changed s \<longleftrightarrow> ni_state_changed s \<noteq> 0 \<or> ni_mapping_changed s \<noteq> 0"

definition next_header :: "nmbm_conf \<Rightarrow> 'd nmbm \<Rightarrow> nmbm_info_header" where
  "next_header nc s = (let it = ni_info_table s in
     it\<lparr>ih_magic := NMBM_MAGIC_INFO_TABLE, ih_version := NMBM_VER, ih_size := info_table_size nc,
        ih_write_count := (if changed s then (ih_write_count it + 1) mod 2 ^ 32 else ih_write_count it)\<rparr>)"

definition table_arrays :: "nmbm_conf \<Rightarrow> 'd nmbm \<Rightarrow> string" where
  "table_arrays nc s =
     put_at (ih_mapping_off (ni_info_table s)) (u32_bytes (map as_u32 (ni_mapping s)))
       (put_at (ih_state_off (ni_info_table s)) (u32_bytes (map unat (ni_block_state s)))
         (replicate (info_table_size nc) (CHR 0xFF)))"

definition nmbm_generate_info_table_cache :: "nmbm_conf \<Rightarrow> 'd nmbm \<Rightarrow> bool \<times> 'd nmbm" where
  "nmbm_generate_info_table_cache nc s =
     (let it = next_header nc s;
          cache = nmbm_update_checksum nc (put_at 0 (info_bytes it) (table_arrays nc s))
      in (changed s, s\<lparr>ni_cache := cache, ni_info_table := it\<rparr>))"

definition nmbm_write_info_table :: "nmbm_conf \<Rightarrow> 'd nand \<Rightarrow> nat \<Rightarrow> nat \<Rightarrow> 'd nmbm \<Rightarrow> (nat \<times> nat) option \<times> 'd nmbm" where
  "nmbm_write_info_table nc nd ba limit s =
     nmbm_write_mgmt_range nc nd limit (info_table_size nc) 0 (ni_cache s) (info_table_size nc) ba s"

definition nmbm_mark_tables_clean :: "'d nmbm \<Rightarrow> 'd nmbm" where
  "nmbm_mark_tables_clean s = s\<lparr>ni_state_changed := 0, ni_mapping_changed := 0\<rparr>"

text \<open>The room for spare blocks of a table that ends at \<open>ba\<close>: where the next table may start.\<close>

definition reserve_after :: "nmbm_conf \<Rightarrow> 'd nmbm \<Rightarrow> nat \<Rightarrow> nat option" where
  "reserve_after nc s ba = nmbm_try_reserve_blocks nc s ba (int (info_table_spare_blocks nc)) 0
     (usub 32 (ni_mapping_top s) (info_table_blocks nc))"

text \<open>The second half of \<open>nmbm_rebuild_info_table\<close>, behind a main table that ends at \<open>main_end\<close>.\<close>

definition build_backup :: "nmbm_conf \<Rightarrow> 'd nand \<Rightarrow> nat \<Rightarrow> 'd nmbm \<Rightarrow> bool \<times> 'd nmbm" where
  "build_backup nc nd main_end s =
     (case reserve_after nc s main_end of
        None \<Rightarrow> (True, s)
      | Some next_start \<Rightarrow>
          (case nmbm_write_info_table nc nd next_start (ni_mapping_top s) s of
             (None, s) \<Rightarrow> (True, s)
           | (Some (start, end), s) \<Rightarrow>
               (True, nmbm_erase_range nc nd main_end start (s\<lparr>ni_backup_table := start, ni_mapping_blocks := end\<rparr>))))"

definition nmbm_rebuild_info_table :: "nmbm_conf \<Rightarrow> 'd nand \<Rightarrow> 'd nmbm \<Rightarrow> bool \<times> 'd nmbm" where
  "nmbm_rebuild_info_table nc nd s =
     (let s = s\<lparr>ni_main_table := 0, ni_backup_table := 0, ni_mapping_blocks := ni_mapping_top s\<rparr> in
      case nmbm_write_info_table nc nd (ni_mgmt_start s) (ni_mapping_top s) s of
        (None, s) \<Rightarrow> (False, s\<lparr>ni_protected := True\<rparr>)
      | (Some (start, end), s) \<Rightarrow>
          build_backup nc nd end (nmbm_mark_tables_clean (s\<lparr>ni_main_table := start, ni_mapping_blocks := end\<rparr>)))"

text \<open>
  The loops \<open>while (write_ba >= low)\<close>. \<open>low\<close> is the end of a table and so not 0, for which the counter of the
  source would wrap round.
\<close>

function write_down :: "nmbm_conf \<Rightarrow> 'd nand \<Rightarrow> nat \<Rightarrow> nat \<Rightarrow> nat \<Rightarrow> 'd nmbm \<Rightarrow> (nat \<times> nat) option \<times> 'd nmbm" where
  "write_down nc nd low limit write_ba s =
     (if write_ba \<ge> low then
        let rs = nmbm_write_info_table nc nd write_ba limit s in
        if fst rs \<noteq> None \<or> write_ba = 0 then rs else write_down nc nd low limit (write_ba - 1) (snd rs)
      else (None, s))"
  by pat_completeness auto
termination
  by (relation "measure (\<lambda>(nc, nd, low, limit, write_ba, s). write_ba)") auto

declare write_down.simps [simp del]

definition nmbm_rescue_single_info_table :: "nmbm_conf \<Rightarrow> 'd nand \<Rightarrow> 'd nmbm \<Rightarrow> bool \<times> 'd nmbm" where
  "nmbm_rescue_single_info_table nc nd s =
     (case nmbm_write_info_table nc nd (ni_mgmt_start s) (ni_main_table s) s of
        (Some (start, end), s) \<Rightarrow>
          let s = nmbm_mark_tables_clean (s\<lparr>ni_backup_table := ni_main_table s, ni_main_table := start\<rparr>)
          in (True, nmbm_erase_range nc nd end (ni_backup_table s) s)
      | (None, s) \<Rightarrow>
          (case reserve_after nc s (ni_mapping_blocks s) of
             None \<Rightarrow> (False, s)
           | Some write_ba \<Rightarrow>
               (case write_down nc nd (ni_mapping_blocks s) (ni_mapping_top s) write_ba s of
                  (None, s) \<Rightarrow> (False, s)
                | (Some (start, end), s) \<Rightarrow>
                    let s = nmbm_erase_range nc nd (ni_mapping_blocks s) start s
                    in (True, nmbm_mark_tables_clean (s\<lparr>ni_backup_table := start, ni_mapping_blocks := end\<rparr>)))))"

definition nmbm_update_single_info_table :: "nmbm_conf \<Rightarrow> 'd nand \<Rightarrow> bool \<Rightarrow> 'd nmbm \<Rightarrow> bool \<times> 'd nmbm" where
  "nmbm_update_single_info_table nc nd update_main_table s =
     (let (write_start, write_limit) = (if update_main_table then (ni_main_table s, ni_backup_table s)
                                        else (ni_backup_table s, ni_mapping_top s)) in
      case nmbm_write_info_table nc nd write_start write_limit s of
        (Some (start, end), s) \<Rightarrow>
          (True, nmbm_mark_tables_clean (if update_main_table then s\<lparr>ni_main_table := start\<rparr>
                                         else s\<lparr>ni_backup_table := start, ni_mapping_blocks := end\<rparr>))
      | (None, s) \<Rightarrow>
          if update_main_table
          then nmbm_rescue_single_info_table nc nd (s\<lparr>ni_main_table := ni_backup_table s, ni_backup_table := 0\<rparr>)
          else (False, s\<lparr>ni_mapping_blocks := ni_backup_table s, ni_backup_table := 0\<rparr>))"

definition backup_becomes_main :: "'d nmbm \<Rightarrow> 'd nmbm" where
  "backup_becomes_main s = s\<lparr>ni_main_table := ni_backup_table s, ni_backup_table := 0\<rparr>"

text \<open>The end of \<open>nmbm_rescue_main_info_table\<close>: the new main table has overwritten the temporary one.\<close>

definition rescue_new_backup :: "nmbm_conf \<Rightarrow> 'd nand \<Rightarrow> nat \<Rightarrow> 'd nmbm \<Rightarrow> bool \<times> 'd nmbm" where
  "rescue_new_backup nc nd main_end s =
     (let s = s\<lparr>ni_mapping_blocks := main_end\<rparr> in
      case reserve_after nc s main_end of
        None \<Rightarrow> (True, s\<lparr>ni_backup_table := 0\<rparr>)
      | Some write_ba \<Rightarrow>
          (case write_down nc nd main_end (ni_mapping_top s) write_ba s of
             (None, s) \<Rightarrow> (True, s\<lparr>ni_backup_table := 0\<rparr>)
           | (Some (start, end), s) \<Rightarrow>
               (True, nmbm_erase_range nc nd main_end start (s\<lparr>ni_backup_table := start, ni_mapping_blocks := end\<rparr>))))"

definition nmbm_rescue_main_info_table :: "nmbm_conf \<Rightarrow> 'd nand \<Rightarrow> 'd nmbm \<Rightarrow> bool \<times> 'd nmbm" where
  "nmbm_rescue_main_info_table nc nd s =
     (case reserve_after nc s (ni_mapping_blocks s) of
        None \<Rightarrow> (True, backup_becomes_main s)
      | Some write_ba \<Rightarrow>
          (case write_down nc nd (ni_mapping_blocks s) (ni_mapping_top s) write_ba s of
             (None, s) \<Rightarrow> (True, backup_becomes_main s)
           | (Some (tmp_start, tmp_end), s) \<Rightarrow>
               let s = s\<lparr>ni_mapping_blocks := tmp_end\<rparr> in
               (case nmbm_write_info_table nc nd (ni_mgmt_start s) tmp_start s of
                  (None, s) \<Rightarrow> (True, nmbm_mark_tables_clean (s\<lparr>ni_main_table := tmp_start, ni_backup_table := 0\<rparr>))
                | (Some (main_start, main_end), s) \<Rightarrow>
                    let s = nmbm_mark_tables_clean (s\<lparr>ni_main_table := main_start\<rparr>) in
                    if main_end \<le> tmp_start then (True, s\<lparr>ni_backup_table := tmp_start\<rparr>)
                    else rescue_new_backup nc nd main_end s)))"

text \<open>The label \<open>write_main_table\<close> of \<open>nmbm_update_info_table_once\<close>.\<close>

definition write_main_table :: "nmbm_conf \<Rightarrow> 'd nand \<Rightarrow> nat \<Rightarrow> 'd nmbm \<Rightarrow> bool \<times> 'd nmbm" where
  "write_main_table nc nd limit s =
     (if ni_main_table s = 0 then nmbm_rebuild_info_table nc nd s
      else
        case nmbm_write_info_table nc nd (ni_main_table s) limit s of
          (None, s) \<Rightarrow> if ni_backup_table s = 0 then nmbm_rebuild_info_table nc nd s
                       else nmbm_rescue_main_info_table nc nd s
        | (Some (start, end), s) \<Rightarrow>
            let s = s\<lparr>ni_main_table := start\<rparr>;
                s = (if ni_backup_table s = 0 then s\<lparr>ni_mapping_blocks := end\<rparr> else s)
            in (True, nmbm_mark_tables_clean s))"

definition nmbm_update_info_table_once :: "nmbm_conf \<Rightarrow> 'd nand \<Rightarrow> bool \<Rightarrow> 'd nmbm \<Rightarrow> bool \<times> 'd nmbm" where
  "nmbm_update_info_table_once nc nd force s =
     (let (changed, s) = nmbm_generate_info_table_cache nc s in
      if \<not> changed \<and> \<not> force then (True, s)
      else if ni_backup_table s = 0 then write_main_table nc nd (ni_mapping_top s) s
      else
        case nmbm_write_info_table nc nd (ni_backup_table s) (ni_mapping_top s) s of
          (None, s) \<Rightarrow>
            write_main_table nc nd (ni_mapping_top s) (s\<lparr>ni_mapping_blocks := ni_backup_table s, ni_backup_table := 0\<rparr>)
        | (Some (start, end), s) \<Rightarrow>
            let s = nmbm_mark_tables_clean (s\<lparr>ni_backup_table := start, ni_mapping_blocks := end\<rparr>)
            in write_main_table nc nd (ni_backup_table s) s)"

subsection \<open>The bitmap\<close>

text \<open>The blocks that are not bad in the table; their number bounds the updates of the table.\<close>

definition not_bad :: "32 word list \<Rightarrow> nat set" where
  "not_bad bs = {ba. nmbm_get_block_state_raw bs ba \<noteq> BLOCK_ST_BAD}"

lemma mask2: "(3 :: 32 word) = mask 2"
  by (simp add: mask_eq_exp_minus_1)

lemma unit_put_get:
  fixes w :: "32 word"
  assumes "i < 16" "j < 16"
  shows "drop_bit (2 * j) ((w AND NOT (push_bit (2 * i) (mask 2))) OR push_bit (2 * i) (v AND mask 2)) AND mask 2
    = (if j = i then v AND mask 2 else drop_bit (2 * j) w AND mask 2)"
proof (rule bit_eqI)
  fix n
  assume "possible_bit TYPE(32 word) n"
  moreover have "n < 2 \<Longrightarrow> 2 * i \<le> 2 * j + n \<Longrightarrow> 2 * j + n - 2 * i < 2 \<Longrightarrow> i = j" by linarith
  ultimately show "bit (drop_bit (2 * j) ((w AND NOT (push_bit (2 * i) (mask 2))) OR push_bit (2 * i) (v AND mask 2)) AND mask 2) n
      = bit (if j = i then v AND mask 2 else drop_bit (2 * j) w AND mask 2) n"
    using assms by (auto simp: bit_simps)
qed

lemma unat_two_bits: "unat (of_nat st AND mask 2 :: 32 word) = st mod 4"
proof -
  have "unat (of_nat st AND mask 2 :: 32 word) = take_bit 2 (take_bit 32 st)"
    by (simp flip: take_bit_eq_mask add: unsigned_take_bit_eq unsigned_of_nat)
  then show ?thesis by (simp add: take_bit_take_bit) (simp add: take_bit_eq_mod)
qed

lemma get_put_state:
  assumes "ba div 16 < length bs"
  shows "nmbm_get_block_state_raw (put_state bs ba st) ba' = (if ba' = ba then st mod 4 else nmbm_get_block_state_raw bs ba')"
proof (cases "ba' div 16 = ba div 16")
  case True
  have "nmbm_get_block_state_raw (put_state bs ba st) ba'
      = unat (if ba' mod 16 = ba mod 16 then of_nat st AND mask 2 else drop_bit (2 * (ba' mod 16)) (bs ! (ba div 16)) AND mask 2)"
    using assms True unit_put_get [of "ba mod 16" "ba' mod 16" "bs ! (ba div 16)" "of_nat st"]
    by (simp add: nmbm_get_block_state_raw_def put_state_def state_unit_def Let_def mask2)
  moreover have "ba' mod 16 = ba mod 16 \<longleftrightarrow> ba' = ba" using True by (metis div_mult_mod_eq)
  ultimately show ?thesis using assms True
    by (simp add: unat_two_bits nmbm_get_block_state_raw_def state_unit_def mask2)
next
  case False
  then show ?thesis using assms
    by (auto simp: nmbm_get_block_state_raw_def put_state_def state_unit_def Let_def nth_list_update)
qed

lemma put_state_outside [simp]: "length bs \<le> ba div 16 \<Longrightarrow> put_state bs ba st = bs"
  by (simp add: put_state_def Let_def list_update_beyond)

lemma length_put_state [simp]: "length (put_state bs ba st) = length bs"
  by (simp add: put_state_def Let_def)

lemma get_state_inside: "nmbm_get_block_state_raw bs ba \<noteq> 0 \<Longrightarrow> ba div 16 < length bs"
  by (rule ccontr) (simp add: nmbm_get_block_state_raw_def state_unit_def)

lemma finite_live [simp]: "finite (not_bad bs)"
  by (rule finite_subset [of _ "{..<16 * length bs}"])
    (use get_state_inside in \<open>auto simp: not_bad_def div_less_iff_less_mult mult.commute\<close>)

text \<open>How the bitmap may change while tables are stored: good blocks of \<open>B\<close> become bad.\<close>

definition worse :: "nat set \<Rightarrow> 32 word list \<Rightarrow> 32 word list \<Rightarrow> bool" where
  "worse B bs bs' \<longleftrightarrow> length bs' = length bs \<and>
     (\<forall>ba. nmbm_get_block_state_raw bs' ba = nmbm_get_block_state_raw bs ba \<or>
        ba \<in> B \<and> nmbm_get_block_state_raw bs ba = BLOCK_ST_GOOD \<and> nmbm_get_block_state_raw bs' ba = BLOCK_ST_BAD)"

lemma worse_refl [simp]: "worse B bs bs"
  by (simp add: worse_def)

lemma worse_trans: "worse B bs bs' \<Longrightarrow> worse B bs' bs'' \<Longrightarrow> worse B bs bs''"
  unfolding worse_def by (metis zero_neq_numeral)

lemma worse_live: "worse B bs bs' \<Longrightarrow> not_bad bs' \<subseteq> not_bad bs"
  by (auto simp: worse_def not_bad_def) (metis neq0_conv)

lemma worse_card: "worse B bs bs' \<Longrightarrow> card (not_bad bs') \<le> card (not_bad bs)"
  by (intro card_mono worse_live) simp_all

lemma worse_bad:
  assumes "ba \<in> B" "nmbm_get_block_state_raw bs ba = BLOCK_ST_GOOD"
  shows "worse B bs (put_state bs ba 0)" "card (not_bad (put_state bs ba 0)) < card (not_bad bs)"
proof -
  have "ba div 16 < length bs" using assms(2) get_state_inside [of bs ba] by simp
  note g = get_put_state [OF this, of 0]
  then show "worse B bs (put_state bs ba 0)" using assms by (simp add: worse_def)
  have "not_bad (put_state bs ba 0) = not_bad bs - {ba}" using g by (auto simp: not_bad_def)
  moreover have "ba \<in> not_bad bs" using assms(2) by (simp add: not_bad_def)
  ultimately show "card (not_bad (put_state bs ba 0)) < card (not_bad bs)" by (metis card_Diff1_less finite_live)
qed

subsection \<open>What storing a table may touch\<close>

text \<open>
  A property \<open>P\<close> of the chip that no read disturbs, and no erasure, marking or writing of the blocks \<open>B\<close>: what is
  stored in other blocks.
\<close>

definition apart :: "nmbm_conf \<Rightarrow> 'd nand \<Rightarrow> nat set \<Rightarrow> ('d \<Rightarrow> bool) \<Rightarrow> bool" where
  "apart nc nd B P \<longleftrightarrow> (\<forall>d. P d \<longrightarrow>
     (\<forall>a ops. P (snd (nd_read nd a ops d))) \<and>
     (\<forall>ba\<in>B. P (snd (nd_erase nd (ba2addr nc ba) d)) \<and> P (snd (nd_markbad nd (ba2addr nc ba) d)) \<and>
        (\<forall>off ops. off + o_len ops \<le> c_blk_size (nc_conf nc) \<longrightarrow> P (snd (nd_write nd (ba2addr nc ba + off) ops d)))))"

definition conf_ok :: "nmbm_conf \<Rightarrow> bool" where
  "conf_ok nc \<longleftrightarrow> (let c = nc_conf nc in c_pg_size c = 2 ^ c_pg_shift c \<and> c_blk_size c = 2 ^ c_blk_shift c \<and>
     c_pg_shift c \<le> c_blk_shift c \<and> 0 < c_total_blks c \<and> c_total_blks c < 65536)"

text \<open>What one operation on the chip does to the instance.\<close>

definition upkeep :: "nmbm_conf \<Rightarrow> 'd nand \<Rightarrow> nat set \<Rightarrow> ('d \<Rightarrow> bool) \<Rightarrow> 'd nmbm \<Rightarrow> 'd nmbm \<Rightarrow> bool" where
  "upkeep nc nd B P s s' \<longleftrightarrow> (\<exists>bs n p d.
     s' = s\<lparr>ni_block_state := bs, ni_state_changed := n, ni_page := p, ni_dev := d\<rparr> \<and>
     worse B (ni_block_state s) bs \<and> (n = ni_state_changed s \<or> card (not_bad bs) < card (not_bad (ni_block_state s))) \<and>
     (P (ni_dev s) \<longrightarrow> P d))"

lemma upkeep_refl [simp]: "upkeep nc nd B P s s"
  unfolding upkeep_def by (intro exI [of _ "ni_block_state s"] exI [of _ "ni_state_changed s"] exI [of _ "ni_page s"] exI [of _ "ni_dev s"]) simp

lemma upkeep_trans: "upkeep nc nd B P s s' \<Longrightarrow> upkeep nc nd B P s' s'' \<Longrightarrow> upkeep nc nd B P s s''"
  unfolding upkeep_def
  apply (elim exE conjE)
  subgoal for bs bs' n n' p p' d d'
    using worse_card [of B "ni_block_state s" bs] worse_card [of B bs bs']
    by (intro exI [of _ bs'] exI [of _ n'] exI [of _ p'] exI [of _ d']) (auto intro: worse_trans)
  done

lemma upkeep_io: "(P (ni_dev s) \<Longrightarrow> P d) \<Longrightarrow> upkeep nc nd B P s (s\<lparr>ni_page := p, ni_dev := d\<rparr>)"
  unfolding upkeep_def
  by (intro exI [of _ "ni_block_state s"] exI [of _ "ni_state_changed s"] exI [of _ p] exI [of _ d]) simp

lemma put_bad:
  assumes "ba \<in> B" "nmbm_get_block_state_raw bs ba = BLOCK_ST_GOOD \<or> nmbm_get_block_state_raw bs ba = BLOCK_ST_BAD"
  shows "worse B bs (put_state bs ba 0)"
    "nmbm_get_block_state_raw bs ba \<noteq> BLOCK_ST_BAD \<Longrightarrow> card (not_bad (put_state bs ba 0)) < card (not_bad bs)"
proof -
  show "worse B bs (put_state bs ba 0)"
  proof (cases "ba div 16 < length bs")
    case True
    then show ?thesis using assms(2) by (auto simp: worse_def get_put_state assms(1))
  next
    case False
    then show ?thesis by simp
  qed
  show "nmbm_get_block_state_raw bs ba \<noteq> BLOCK_ST_BAD \<Longrightarrow> card (not_bad (put_state bs ba 0)) < card (not_bad bs)"
    using worse_bad(2) [OF assms(1)] assms(2) by metis
qed

lemma upkeep_bad:
  assumes "ba \<in> B" "nmbm_get_block_state s ba = BLOCK_ST_GOOD \<or> nmbm_get_block_state s ba = BLOCK_ST_BAD"
  shows "upkeep nc nd B P s (set_bad ba s)"
proof (cases "nmbm_get_block_state s ba = BLOCK_ST_BAD")
  case True
  then have "set_bad ba s = s\<lparr>ni_block_state := put_state (ni_block_state s) ba 0, ni_state_changed := ni_state_changed s,
      ni_page := ni_page s, ni_dev := ni_dev s\<rparr>" by (simp add: set_bad_def nmbm_set_block_state_def)
  then show ?thesis unfolding upkeep_def using put_bad(1) [OF assms(1)] assms(2) unfolding nmbm_get_block_state_def by blast
next
  case False
  then have "set_bad ba s = s\<lparr>ni_block_state := put_state (ni_block_state s) ba 0,
      ni_state_changed := (ni_state_changed s + 1) mod 2 ^ 32, ni_page := ni_page s, ni_dev := ni_dev s\<rparr>"
    by (simp add: set_bad_def nmbm_set_block_state_def)
  then show ?thesis unfolding upkeep_def using put_bad [OF assms(1)] assms(2) False unfolding nmbm_get_block_state_def by blast
qed

lemma read_tries_keeps:
  assumes "apart nc nd B P"
  shows "P d \<Longrightarrow> P (snd (snd (read_tries nc nd addr n ret buf d)))"
proof (induction n arbitrary: ret buf d)
  case (Suc n)
  have "P (snd (nd_read nd addr (page_request nc []) d))" using assms Suc.prems by (auto simp: apart_def)
  then show ?case using Suc.IH by (auto simp: Let_def split: prod.splits)
qed simp

lemma read_page_upkeep: "apart nc nd B P \<Longrightarrow> upkeep nc nd B P s (snd (read_page nc nd addr s))"
  using read_tries_keeps [of nc nd B P "ni_dev s" addr NMBM_TRY_COUNT 0 "ni_page s"]
  by (simp add: read_page_def nmbm_read_phys_page_def split_beta upkeep_io)

lemma write_tries_keeps:
  assumes "apart nc nd B P" "ba \<in> B" "off + c_pg_size (nc_conf nc) \<le> c_blk_size (nc_conf nc)"
  shows "P d \<Longrightarrow> P (snd (write_tries nc nd (ba2addr nc ba + off) dat n d))"
proof (induction n arbitrary: d)
  case (Suc n)
  have "P (snd (nd_write nd (ba2addr nc ba + off) (page_request nc dat) d))"
    using assms Suc.prems by (auto simp: apart_def page_request_def)
  then show ?case using Suc.IH by (auto simp: Let_def split: prod.splits)
qed simp

lemma erase_tries_keeps:
  assumes "apart nc nd B P" "ba \<in> B"
  shows "P d \<Longrightarrow> P (snd (erase_tries nd (ba2addr nc ba) n d))"
proof (induction n arbitrary: d)
  case (Suc n)
  have "P (snd (nd_erase nd (ba2addr nc ba) d))" using assms Suc.prems by (auto simp: apart_def)
  then show ?case using Suc.IH by (auto simp: Let_def split: prod.splits)
qed simp

lemma check_pages_upkeep: "apart nc nd B P \<Longrightarrow> upkeep nc nd B P s (snd (check_pages nc nd addr offs s))"
proof (induction offs arbitrary: s)
  case (Cons off offs)
  from read_page_upkeep [OF Cons.prems, of s "addr + off"] Cons.IH [OF Cons.prems]
  show ?case by (auto simp: Let_def split: prod.splits intro: upkeep_trans)
qed simp

lemma erase_check_upkeep:
  assumes "apart nc nd B P" "ba \<in> B"
  shows "upkeep nc nd B P s (snd (nmbm_erase_block_and_check nc nd ba s))"
proof -
  obtain ok d where e: "nmbm_erase_phys_block nd (ba2addr nc ba) (ni_dev s) = (ok, d)" by fastforce
  have "upkeep nc nd B P s (s\<lparr>ni_page := ni_page s, ni_dev := d\<rparr>)"
    using erase_tries_keeps [OF assms, of "ni_dev s" NMBM_TRY_COUNT] e
    by (intro upkeep_io) (simp add: nmbm_erase_phys_block_def)
  then have d: "upkeep nc nd B P s (s\<lparr>ni_dev := d\<rparr>)" by simp
  then show ?thesis using upkeep_trans [OF d check_pages_upkeep [OF assms(1)]]
    by (simp add: nmbm_erase_block_and_check_def e Let_def)
qed

lemma mark_bad_upkeep:
  assumes "apart nc nd B P" "ba \<in> B"
  shows "upkeep nc nd B P s (snd (nmbm_mark_phys_bad_block nc nd ba s))"
proof -
  have "upkeep nc nd B P s (s\<lparr>ni_page := ni_page s, ni_dev := snd (nd_markbad nd (ba2addr nc ba) (ni_dev s))\<rparr>)"
    using assms by (intro upkeep_io) (auto simp: apart_def)
  then show ?thesis by (simp add: nmbm_mark_phys_bad_block_def split_beta)
qed

lemma upkeep_fields: "upkeep nc nd B P s s' \<Longrightarrow> ni_backup_table s' = ni_backup_table s"
  by (auto simp: upkeep_def)

lemma upkeep_state: "upkeep nc nd B P s s' \<Longrightarrow> nmbm_get_block_state s' ba = nmbm_get_block_state s ba \<or>
    ba \<in> B \<and> nmbm_get_block_state s ba = BLOCK_ST_GOOD \<and> nmbm_get_block_state s' ba = BLOCK_ST_BAD"
  by (auto simp: upkeep_def worse_def nmbm_get_block_state_def)

lemma use_block_upkeep:
  assumes "apart nc nd B P" "ba \<in> B" "\<And>s. upkeep nc nd B P s (snd (wr s))"
  shows "upkeep nc nd B P s (snd (use_block nc nd wr ba s))"
proof (cases "nmbm_get_block_state s ba = BLOCK_ST_GOOD \<and> \<not> nmbm_check_bad_phys_block nc nd ba s")
  case True
  define r1 where "r1 = nmbm_erase_block_and_check nc nd ba s"
  define r2 where "r2 = (if fst r1 then wr (snd r1) else (False, snd r1))"
  have "upkeep nc nd B P s (snd r1)" unfolding r1_def by (rule erase_check_upkeep [OF assms(1,2)])
  then have r2: "upkeep nc nd B P s (snd r2)" using assms(3) by (auto simp: r2_def intro: upkeep_trans)
  let ?s3 = "snd (nmbm_mark_phys_bad_block nc nd ba (snd r2))"
  have r3: "upkeep nc nd B P s ?s3" by (rule upkeep_trans [OF r2 mark_bad_upkeep [OF assms(1,2)]])
  then have "upkeep nc nd B P ?s3 (set_bad ba ?s3)"
    using upkeep_state [OF r3, of ba] True by (intro upkeep_bad assms(2)) auto
  then have bad: "upkeep nc nd B P s (set_bad ba ?s3)" by (rule upkeep_trans [OF r3])
  have "use_block nc nd wr ba s = (if fst r2 then (True, snd r2) else (False, set_bad ba ?s3))"
    using True by (simp add: use_block_def split_beta r2_def r1_def)
  then show ?thesis using r2 bad by simp
qed (use upkeep_bad [OF assms(2)] in \<open>auto simp: use_block_def\<close>)

lemma erase_range_upkeep:
  "apart nc nd B P \<Longrightarrow> {ba..<limit} \<subseteq> B \<Longrightarrow> upkeep nc nd B P s (nmbm_erase_range nc nd ba limit s)"
proof (induction nc nd ba limit s rule: nmbm_erase_range.induct)
  case (1 nc nd ba limit s)
  show ?case
  proof (cases "ba < limit")
    case True
    then have "upkeep nc nd B P s (snd (use_block nc nd (\<lambda>s. (True, s)) ba s))"
      using "1.prems" by (intro use_block_upkeep) auto
    moreover have "{ba + 1..<limit} \<subseteq> B" using "1.prems"(2) by (auto simp: subset_iff)
    ultimately show ?thesis using "1.IH" [OF True "1.prems"(1)] True
      by (auto simp: nmbm_erase_range.simps [of nc nd ba limit s] intro: upkeep_trans)
  qed (simp add: nmbm_erase_range.simps)
qed

text \<open>Writing inside one block: the pages a piece of data that starts at a page takes.\<close>

lemma page_mask: "conf_ok nc \<Longrightarrow> off AND (c_pg_size (nc_conf nc) - 1) = off mod c_pg_size (nc_conf nc)"
  using and_block_mask by (simp add: conf_ok_def Let_def)

lemma block_pages:
  assumes "conf_ok nc"
  shows "c_pg_size (nc_conf nc) dvd c_blk_size (nc_conf nc)" "c_pg_size (nc_conf nc) dvd ba2addr nc ba"
    "0 < c_pg_size (nc_conf nc)" "ba2addr nc ba = ba * c_blk_size (nc_conf nc)"
  using assms by (auto simp: conf_ok_def Let_def ba2addr_def le_imp_power_dvd intro: dvd_mult)

lemma page_inside:
  fixes k pg blk :: nat
  assumes "pg dvd k" "pg dvd blk" "k < blk"
  shows "k + pg \<le> blk"
proof -
  have "pg dvd blk - k" using assms by simp
  then show ?thesis using assms(3) dvd_imp_le [of pg "blk - k"] by simp
qed

lemma chunk_in_block:
  assumes "conf_ok nc" "c_pg_size (nc_conf nc) dvd k" "0 < n"
  shows "chunk_at nc (ba2addr nc ba + k) n = (0, min (c_pg_size (nc_conf nc)) n)"
proof -
  have "(ba2addr nc ba + k) mod c_pg_size (nc_conf nc) = 0"
    using block_pages(2) [OF assms(1), of ba] assms(2) by (meson dvd_add dvd_imp_mod_0)
  then show ?thesis by (simp add: chunk_at_def Let_def page_mask [OF assms(1), simplified])
qed

text \<open>One page of \<open>nmbn_write_verify_data\<close>: it is written, read back and compared.\<close>

definition write_page :: "nmbm_conf \<Rightarrow> 'd nand \<Rightarrow> nat \<Rightarrow> string \<Rightarrow> 'd nmbm \<Rightarrow> bool \<times> 'd nmbm" where
  "write_page nc nd addr dat s =
     (let page = dat @ replicate (rawpage_size nc - length dat) (CHR 0xFF);
          (ok, d) = nmbm_write_phys_page nc nd addr page (ni_dev s);
          s = s\<lparr>ni_page := page, ni_dev := d\<rparr>
      in if \<not> ok then (False, s)
         else let (ret, s) = read_page nc nd addr s in (0 \<le> ret \<and> take (length dat) (ni_page s) = dat, s))"

lemma repeat_pages_page:
  "repeat_pages nc nd addr dat (off # offs) s =
     (let (ok, s) = write_page nc nd (addr + off) dat s in if ok then repeat_pages nc nd addr dat offs s else (False, s))"
  by (simp add: write_page_def Let_def split_beta)

lemma write_page_upkeep:
  assumes "apart nc nd B P" "ba \<in> B" "off + c_pg_size (nc_conf nc) \<le> c_blk_size (nc_conf nc)"
  shows "upkeep nc nd B P s (snd (write_page nc nd (ba2addr nc ba + off) dat s))"
proof -
  let ?page = "dat @ replicate (rawpage_size nc - length dat) (CHR 0xFF)"
  obtain ok d where w: "nmbm_write_phys_page nc nd (ba2addr nc ba + off) ?page (ni_dev s) = (ok, d)" by fastforce
  have "upkeep nc nd B P s (s\<lparr>ni_page := ?page, ni_dev := d\<rparr>)"
    using write_tries_keeps [OF assms, of "ni_dev s" ?page NMBM_TRY_COUNT] w
    by (intro upkeep_io) (simp add: nmbm_write_phys_page_def)
  then show ?thesis using upkeep_trans [OF _ read_page_upkeep [OF assms(1)]]
    by (auto simp: write_page_def w Let_def split_beta)
qed

lemma verify_page:
  assumes "conf_ok nc" "c_pg_size (nc_conf nc) dvd k" "0 < n" "n \<le> length ptr"
  defines "m \<equiv> min (c_pg_size (nc_conf nc)) n"
  shows "nmbn_write_verify_data nc nd (ba2addr nc ba + k) ptr n s =
     (let (ok, s) = write_page nc nd (ba2addr nc ba + k) (take m ptr) s
      in if ok then nmbn_write_verify_data nc nd (ba2addr nc ba + k + m) (drop m ptr) (n - m) s else (False, s))"
proof -
  have m: "m \<le> length ptr" "m \<le> c_pg_size (nc_conf nc)" using assms(4) by (auto simp: m_def)
  have page: "put_at 0 (take m ptr) (replicate (rawpage_size nc) (CHR 0xFF)) =
      take m ptr @ replicate (rawpage_size nc - m) (CHR 0xFF)"
    using m by (simp add: put_at_def drop_replicate)
  show ?thesis
    using m assms(3) block_pages(3) [OF assms(1)] chunk_in_block [OF assms(1-3), of ba]
    by (simp add: nmbn_write_verify_data.simps [of nc nd "ba2addr nc ba + k"] page write_page_def Let_def split_beta min_absorb2
        flip: m_def)
qed

lemma verify_upkeep:
  assumes "apart nc nd B P" "ba \<in> B" "conf_ok nc"
  shows "c_pg_size (nc_conf nc) dvd k \<Longrightarrow> k + n \<le> c_blk_size (nc_conf nc) \<Longrightarrow>
    upkeep nc nd B P s (snd (nmbn_write_verify_data nc nd (ba2addr nc ba + k) ptr n s))"
proof (induction n arbitrary: k ptr s rule: less_induct)
  case (less n)
  let ?pg = "c_pg_size (nc_conf nc)"
  define m where "m = min ?pg n"
  show ?case
  proof (cases "n = 0")
    case False
    then have lc: "chunk_at nc (ba2addr nc ba + k) n = (0, m)"
      using chunk_in_block [OF assms(3) less.prems(1), of n ba] by (simp add: m_def)
    have "k + ?pg \<le> c_blk_size (nc_conf nc)"
      using page_inside [OF less.prems(1) block_pages(1) [OF assms(3)]] less.prems(2) False by simp
    note w = write_tries_keeps [OF assms(1,2) this]
    have m: "m < n \<longrightarrow> m = ?pg" "0 < m" "m \<le> n" using block_pages(3) [OF assms(3)] False by (auto simp: m_def)
    have rec: "upkeep nc nd B P s' (snd (nmbn_write_verify_data nc nd (ba2addr nc ba + k + m) ptr' (n - m) s'))" for ptr' s'
    proof (cases "m < n")
      case True
      then show ?thesis using less.IH [of "n - m" "k + m" s' ptr'] less.prems m by (simp add: add.assoc)
    next
      case False
      then show ?thesis using m by (simp add: nmbn_write_verify_data.simps)
    qed
    define page where "page = put_at 0 (take m ptr) (replicate (rawpage_size nc) (CHR 0xFF))"
    define r where "r = nmbm_write_phys_page nc nd (ba2addr nc ba + k) page (ni_dev s)"
    have s1: "upkeep nc nd B P s (s\<lparr>ni_page := page, ni_dev := snd r\<rparr>)"
      by (rule upkeep_io) (simp add: r_def nmbm_write_phys_page_def w)
    note s2 = upkeep_trans [OF s1 read_page_upkeep [OF assms(1)]]
    show ?thesis using False block_pages(3) [OF assms(3)] s1 s2 upkeep_trans [OF s2 rec]
      by (simp add: nmbn_write_verify_data.simps [of nc nd "ba2addr nc ba + k"] lc Let_def flip: page_def r_def)
  qed (simp add: nmbn_write_verify_data.simps)
qed

text \<open>Reading and writing pages changes the page buffer and the chip alone.\<close>

definition page_io :: "'d nmbm \<Rightarrow> 'd nmbm \<Rightarrow> bool" where
  "page_io s s' \<longleftrightarrow> s = s'\<lparr>ni_page := ni_page s, ni_dev := ni_dev s\<rparr>"

lemma page_io_simps [simp]:
  "page_io s s" "page_io s (s\<lparr>ni_page := p, ni_dev := d\<rparr>)" "page_io s (snd (read_page nc nd addr s))"
  by (simp_all add: page_io_def read_page_def split_beta)

lemma page_io_trans: "page_io s s' \<Longrightarrow> page_io s' s'' \<Longrightarrow> page_io s s''"
  unfolding page_io_def by (cases s; cases s'; cases s'') simp

lemma page_io_upkeep: "page_io s s' \<Longrightarrow> upkeep nc nd B (\<lambda>_. True) s s'"
  using upkeep_io [of "\<lambda>_. True" s "ni_dev s'" nc nd B "ni_page s'"]
  unfolding page_io_def by (cases s; cases s') simp

lemma verify_io: "page_io s (snd (nmbn_write_verify_data nc nd off ptr n s))"
proof (induction nc nd off ptr n s rule: nmbn_write_verify_data.induct)
  case (1 nc nd off ptr n s)
  show ?case
  proof (cases "n = 0 \<or> c_pg_size (nc_conf nc) = 0")
    case False
    define lc where "lc = chunk_at nc off n"
    define page where "page = put_at (fst lc) (take (snd lc) ptr) (replicate (rawpage_size nc) (CHR 0xFF))"
    define r where "r = nmbm_write_phys_page nc nd (off - fst lc) page (ni_dev s)"
    define s1 where "s1 = s\<lparr>ni_page := page, ni_dev := snd r\<rparr>"
    define s2 where "s2 = snd (read_page nc nd (off - fst lc) s1)"
    have s1: "page_io s s1" by (simp add: s1_def)
    have s2: "page_io s s2" unfolding s2_def by (rule page_io_trans [OF s1]) simp
    have "page_io s (snd (nmbn_write_verify_data nc nd (off + snd lc) (drop (snd lc) ptr) (n - snd lc) s2))"
      if "fst r" "\<not> fst (read_page nc nd (off - fst lc) s1) < 0" "take (snd lc) (drop (fst lc) (ni_page s2)) = take (snd lc) ptr"
      by (rule page_io_trans [OF s2], rule 1 [OF False lc_def refl refl page_def r_def _ _ refl])
        (use that in \<open>simp_all add: s1_def s2_def\<close>)
    then show ?thesis using False s1 s2
      by (simp add: nmbn_write_verify_data.simps [of nc nd off ptr n s] Let_def flip: lc_def page_def r_def s1_def s2_def)
  qed (simp add: nmbn_write_verify_data.simps)
qed

lemma mgmt_step:
  fixes nc :: nmbm_conf and nd :: "'d nand" and s :: "'d nmbm" and ptr :: string
  assumes "n \<noteq> 0" "ba < limit"
  defines "m \<equiv> min n (c_blk_size (nc_conf nc))"
  defines "r \<equiv> use_block nc nd (nmbn_write_verify_data nc nd (ba2addr nc ba) ptr m) ba s"
  shows "nmbm_write_mgmt_range nc nd limit sz start ptr n ba s =
     (if fst r then nmbm_write_mgmt_range nc nd limit sz (if n = sz then ba else start) (drop m ptr) (n - m) (ba + 1) (snd r)
      else nmbm_write_mgmt_range nc nd limit sz start ptr n (ba + 1) (snd r))"
  unfolding m_def r_def using assms(1,2) by (simp add: nmbm_write_mgmt_range.simps [of nc nd limit sz start ptr n ba s] Let_def)

lemma mgmt_end:
  "n = 0 \<Longrightarrow> nmbm_write_mgmt_range nc nd limit sz start ptr n ba s = (Some (start, ba), s)"
  "n \<noteq> 0 \<Longrightarrow> limit \<le> ba \<Longrightarrow> nmbm_write_mgmt_range nc nd limit sz start ptr n ba s = (None, s)"
  by (simp_all add: nmbm_write_mgmt_range.simps)

lemma mgmt_range_upkeep:
  assumes "apart nc nd B P"
    "\<And>ba ptr n s. ba \<in> B \<Longrightarrow> n \<le> c_blk_size (nc_conf nc) \<Longrightarrow>
       upkeep nc nd B P s (snd (nmbn_write_verify_data nc nd (ba2addr nc ba) ptr n s))"
  shows "{ba..<limit} \<subseteq> B \<Longrightarrow> upkeep nc nd B P s (snd (nmbm_write_mgmt_range nc nd limit sz start ptr n ba s))"
proof (induction "limit - ba" arbitrary: ba start ptr n s)
  case 0
  then show ?case by (cases "n = 0") (simp_all add: mgmt_end)
next
  case (Suc k)
  show ?case
  proof (cases "n = 0")
    case False
    let ?m = "min n (c_blk_size (nc_conf nc))"
    define r where "r = use_block nc nd (nmbn_write_verify_data nc nd (ba2addr nc ba) ptr ?m) ba s"
    have b: "ba \<in> B" "{ba + 1..<limit} \<subseteq> B" "ba < limit" "k = limit - (ba + 1)"
      using Suc.hyps(2) Suc.prems by (auto simp: subset_iff)
    have r: "upkeep nc nd B P s (snd r)" unfolding r_def
      by (intro use_block_upkeep [OF assms(1) b(1)] assms(2) b(1)) simp
    have u: "upkeep nc nd B P s (snd (nmbm_write_mgmt_range nc nd limit sz start' ptr' n' (ba + 1) (snd r)))" for start' ptr' n'
      by (rule upkeep_trans [OF r Suc.hyps(1) [OF b(4) b(2)]])
    show ?thesis unfolding mgmt_step [OF False b(3)] r_def [symmetric]
      using u [of _ "drop ?m ptr" "n - ?m"] u [of _ ptr n] by simp
  qed (simp add: mgmt_end)
qed

lemma write_mgmt_range_upkeep:
  assumes "apart nc nd B P" "conf_ok nc" "{ba..<limit} \<subseteq> B"
  shows "upkeep nc nd B P s (snd (nmbm_write_mgmt_range nc nd limit sz start ptr n ba s))"
  by (rule mgmt_range_upkeep [OF assms(1) _ assms(3)])
    (use verify_upkeep [OF assms(1) _ assms(2), of _ 0] in simp)

lemma apart_trivial [simp]: "apart nc nd B (\<lambda>_. True)"
  by (simp add: apart_def)

lemma write_mgmt_range_upkeep_all:
  "upkeep nc nd UNIV (\<lambda>_. True) s (snd (nmbm_write_mgmt_range nc nd limit sz start ptr n ba s))"
  by (rule mgmt_range_upkeep) (simp_all add: page_io_upkeep [OF verify_io])

lemma write_mgmt_range_bounds:
  "nmbm_write_mgmt_range nc nd limit sz start ptr n ba s = (Some (st, en), s') \<Longrightarrow> 0 < n \<Longrightarrow> n \<le> sz \<Longrightarrow>
     0 < c_blk_size (nc_conf nc) \<Longrightarrow> ba < en \<and> en \<le> limit \<and> (if n = sz then ba \<le> st \<and> st < en else st = start)"
proof (induction "limit - ba" arbitrary: ba start ptr n s)
  case 0
  then show ?case by (simp add: mgmt_end)
next
  case (Suc k)
  let ?m = "min n (c_blk_size (nc_conf nc))"
  define r where "r = use_block nc nd (nmbn_write_verify_data nc nd (ba2addr nc ba) ptr ?m) ba s"
  have b: "n \<noteq> 0" "ba < limit" "k = limit - (ba + 1)" using Suc.hyps(2) Suc.prems(2) by auto
  note eq = Suc.prems(1) [unfolded mgmt_step [OF b(1,2)], folded r_def]
  show ?case
  proof (cases "fst r")
    case False
    then show ?thesis using Suc.hyps(1) [OF b(3), of start ptr n "snd r"] eq Suc.prems by (auto split: if_splits)
  next
    case True
    show ?thesis
    proof (cases "n - ?m = 0")
      case True
      then show ?thesis using \<open>fst r\<close> eq b by (auto simp: mgmt_end split: if_splits)
    next
      case False
      have "n - ?m \<noteq> sz" "n - ?m \<le> sz" using Suc.prems(2-4) by simp_all
      then show ?thesis using \<open>fst r\<close> False eq Suc.prems(2-4)
        Suc.hyps(1) [OF b(3), of "if n = sz then ba else start" "drop ?m ptr" "n - ?m" "snd r"] by auto
    qed
  qed
qed

subsection \<open>Updating the tables\<close>

text \<open>What an update leaves as it is.\<close>

definition maintain :: "nat set \<Rightarrow> ('d \<Rightarrow> bool) \<Rightarrow> 'd nmbm \<Rightarrow> 'd nmbm \<Rightarrow> bool" where
  "maintain B P s s' \<longleftrightarrow>
     ni_mapping s' = ni_mapping s \<and> ni_data_blocks s' = ni_data_blocks s \<and> ni_mgmt_start s' = ni_mgmt_start s \<and>
     ni_mapping_top s' = ni_mapping_top s \<and> ni_signature s' = ni_signature s \<and> ni_signature_ba s' = ni_signature_ba s \<and>
     length (ni_cache s') = length (ni_cache s) \<and>
     worse B (ni_block_state s) (ni_block_state s') \<and> (P (ni_dev s) \<longrightarrow> P (ni_dev s'))"

lemma maintain_refl [simp]: "maintain B P s s"
  by (simp add: maintain_def)

lemma maintain_trans: "maintain B P s s' \<Longrightarrow> maintain B P s' s'' \<Longrightarrow> maintain B P s s''"
  by (auto simp: maintain_def intro: worse_trans)

lemma upkeep_maintain: "upkeep nc nd B P s s' \<Longrightarrow> maintain B P s s'"
  by (auto simp: upkeep_def maintain_def)

text \<open>Assignments to the addresses of the tables.\<close>

lemma maintain_assign [simp]:
  "maintain B P s (s'\<lparr>ni_main_table := x\<rparr>) = maintain B P s s'"
  "maintain B P s (s'\<lparr>ni_backup_table := x\<rparr>) = maintain B P s s'"
  "maintain B P s (s'\<lparr>ni_mapping_blocks := x\<rparr>) = maintain B P s s'"
  "maintain B P s (s'\<lparr>ni_protected := b\<rparr>) = maintain B P s s'"
  "maintain B P s s' \<Longrightarrow> maintain B P s (nmbm_mark_tables_clean s')"
  "maintain B P s s' \<Longrightarrow> maintain B P s (backup_becomes_main s')"
  by (simp_all add: maintain_def nmbm_mark_tables_clean_def backup_becomes_main_def)

text \<open>The tables stay in the management area, whose blocks an update may use.\<close>

definition mgmt_area :: "'d nmbm \<Rightarrow> nat set" where
  "mgmt_area s = {ni_mgmt_start s..<ni_mapping_top s}"

definition info_fits :: "nmbm_conf \<Rightarrow> 'd nmbm \<Rightarrow> bool" where
  "info_fits nc s \<longleftrightarrow> 4 * length (ni_block_state s) = state_table_size nc \<and> length (ni_mapping s) = chip_blocks nc \<and>
     ih_state_off (ni_info_table s) + state_table_size nc \<le> info_table_size nc \<and>
     ih_mapping_off (ni_info_table s) + mapping_table_size nc \<le> info_table_size nc"

definition tables_ok :: "nmbm_conf \<Rightarrow> 'd nmbm \<Rightarrow> bool" where
  "tables_ok nc s \<longleftrightarrow> length (ni_cache s) = info_table_size nc \<and> info_fits nc s \<and>
     (ni_main_table s = 0 \<or> ni_mgmt_start s \<le> ni_main_table s) \<and>
     (ni_backup_table s = 0 \<or> ni_mgmt_start s \<le> ni_backup_table s) \<and>
     ni_mgmt_start s \<le> ni_mapping_blocks s"

lemma maintain_area: "maintain B P s s' \<Longrightarrow> mgmt_area s' = mgmt_area s"
  by (simp add: maintain_def mgmt_area_def)

lemma round_up_ge: "0 < y \<Longrightarrow> x \<le> round_up x y"
  unfolding round_up_def using div_mult_mod_eq [of "x + y - 1" y] mod_less_divisor [of y "x + y - 1"] by linarith

lemma table_offsets:
  assumes "conf_ok nc"
  shows "32 \<le> state_table_off nc" "state_table_off nc + state_table_size nc \<le> mapping_table_off nc"
    "mapping_table_off nc + mapping_table_size nc \<le> info_table_size nc" "0 < info_table_size nc"
proof -
  note r = round_up_ge [OF block_pages(3) [OF assms]]
  show "32 \<le> state_table_off nc" "state_table_off nc + state_table_size nc \<le> mapping_table_off nc"
    "mapping_table_off nc + mapping_table_size nc \<le> info_table_size nc" "0 < info_table_size nc"
    using r [of 32] r [of "state_table_size nc"] r [of "mapping_table_size nc"]
    by (simp_all add: state_table_off_def mapping_table_off_def info_table_size_def)
qed

lemma write_info_table_facts:
  assumes "nmbm_write_info_table nc nd ba limit s = (r, s')" "conf_ok nc" "apart nc nd (mgmt_area s) P"
    "length (ni_cache s) = info_table_size nc" "ni_mgmt_start s \<le> ba" "limit \<le> ni_mapping_top s"
  shows "upkeep nc nd (mgmt_area s) P s s'"
    "r = Some (st, en) \<Longrightarrow> ba \<le> st \<and> st < en \<and> en \<le> limit"
proof -
  have "{ba..<limit} \<subseteq> mgmt_area s" using assms(5,6) by (auto simp: mgmt_area_def)
  then show "upkeep nc nd (mgmt_area s) P s s'"
    using write_mgmt_range_upkeep [OF assms(3,2), of ba limit s "info_table_size nc" 0 "ni_cache s" "info_table_size nc"]
      assms(1) by (simp add: nmbm_write_info_table_def)
  have "0 < c_blk_size (nc_conf nc)" using assms(2) by (simp add: conf_ok_def Let_def)
  then show "r = Some (st, en) \<Longrightarrow> ba \<le> st \<and> st < en \<and> en \<le> limit"
    using write_mgmt_range_bounds [of nc nd limit "info_table_size nc" 0 "ni_cache s" "info_table_size nc" ba s st en s']
      assms(1) table_offsets(4) [OF assms(2)] by (auto simp: nmbm_write_info_table_def)
qed

lemma walk_asc_bounds: "walk_asc bs limit ba n = Some x \<Longrightarrow> ba \<le> x \<and> x < limit"
proof (induction bs limit ba n rule: walk_asc.induct)
  case (1 bs limit ba n)
  then show ?case by (auto simp: walk_asc.simps [of bs limit ba n] Let_def split: if_splits)
qed

lemma reserve_bounds: "nmbm_try_reserve_blocks nc s ba n m limit = Some x \<Longrightarrow> ba \<le> x"
proof (induction nc s ba n m limit rule: nmbm_try_reserve_blocks.induct)
  case (1 nc s ba n m limit)
  then show ?case
    by (auto simp: nmbm_try_reserve_blocks.simps [of nc s ba n m limit] nmbm_block_walk_def nmbm_block_walk_asc_def
        dest!: walk_asc_bounds split: if_splits option.splits)
qed

text \<open>A table operation done right: it keeps the invariant and maintains the rest.\<close>

definition sound :: "nmbm_conf \<Rightarrow> ('d \<Rightarrow> bool) \<Rightarrow> 'd nmbm \<Rightarrow> 'd nmbm \<Rightarrow> bool" where
  "sound nc P s s' \<longleftrightarrow> maintain (mgmt_area s) P s s' \<and> tables_ok nc s'"

lemma sound_area: "sound nc P s s' \<Longrightarrow> mgmt_area s' = mgmt_area s"
  by (auto simp: sound_def maintain_def mgmt_area_def)

lemma sound_trans: "sound nc P s s' \<Longrightarrow> sound nc P s' s'' \<Longrightarrow> sound nc P s s''"
  using sound_area [of nc P s s'] by (auto simp: sound_def dest: maintain_trans)

lemma upkeep_sound:
  assumes "upkeep nc nd (mgmt_area s) P s s'" "tables_ok nc s"
  shows "sound nc P s s'"
proof -
  obtain bs n p d where "s' = s\<lparr>ni_block_state := bs, ni_state_changed := n, ni_page := p, ni_dev := d\<rparr>"
    and "length bs = length (ni_block_state s)" using assms(1) by (auto simp: upkeep_def worse_def)
  then have "tables_ok nc s'" using assms(2) by (simp add: tables_ok_def info_fits_def)
  then show ?thesis using upkeep_maintain [OF assms(1)] by (simp add: sound_def)
qed

lemma sound_clean [simp]: "sound nc P s s' \<Longrightarrow> sound nc P s (nmbm_mark_tables_clean s')"
  by (simp add: sound_def) (simp add: tables_ok_def info_fits_def nmbm_mark_tables_clean_def)

lemma sound_backup_main [simp]: "sound nc P s s' \<Longrightarrow> sound nc P s (backup_becomes_main s')"
  by (simp add: sound_def) (simp add: tables_ok_def info_fits_def backup_becomes_main_def)

lemma sound_erase_range:
  assumes "apart nc nd (mgmt_area s) P" "tables_ok nc s" "ni_mgmt_start s \<le> ba" "limit \<le> ni_mapping_top s"
  shows "sound nc P s (nmbm_erase_range nc nd ba limit s)"
  by (rule upkeep_sound [OF erase_range_upkeep [OF assms(1)] assms(2)]) (use assms(3,4) in \<open>auto simp: mgmt_area_def\<close>)

lemma sound_write:
  assumes "nmbm_write_info_table nc nd ba limit s = (r, s')" "conf_ok nc" "apart nc nd (mgmt_area s) P"
    "tables_ok nc s" "ni_mgmt_start s \<le> ba" "limit \<le> ni_mapping_top s"
  shows "sound nc P s s'"
    "ni_main_table s' = ni_main_table s" "ni_backup_table s' = ni_backup_table s" "ni_mapping_blocks s' = ni_mapping_blocks s"
    "ni_mgmt_start s' = ni_mgmt_start s" "ni_mapping_top s' = ni_mapping_top s"
    "r = Some (st, en) \<Longrightarrow> ba \<le> st \<and> st < en \<and> en \<le> limit"
proof -
  have c: "length (ni_cache s) = info_table_size nc" using assms(4) by (simp add: tables_ok_def info_fits_def)
  note f = write_info_table_facts [OF assms(1-3) c assms(5,6)]
  show "sound nc P s s'" using f(1) assms(4) by (rule upkeep_sound)
  show "ni_main_table s' = ni_main_table s" "ni_backup_table s' = ni_backup_table s" "ni_mapping_blocks s' = ni_mapping_blocks s"
    "ni_mgmt_start s' = ni_mgmt_start s" "ni_mapping_top s' = ni_mapping_top s"
    using f(1) by (auto simp: upkeep_def)
  show "r = Some (st, en) \<Longrightarrow> ba \<le> st \<and> st < en \<and> en \<le> limit" by (rule f(2))
qed

lemma sound_write_down:
  "write_down nc nd low limit wb s = (r, s') \<Longrightarrow> conf_ok nc \<Longrightarrow> apart nc nd (mgmt_area s) P \<Longrightarrow> tables_ok nc s \<Longrightarrow>
     ni_mgmt_start s \<le> low \<Longrightarrow> limit \<le> ni_mapping_top s \<Longrightarrow>
     sound nc P s s' \<and> ni_mgmt_start s' = ni_mgmt_start s \<and> ni_mapping_top s' = ni_mapping_top s \<and>
     ni_mapping_blocks s' = ni_mapping_blocks s \<and> ni_main_table s' = ni_main_table s \<and> ni_backup_table s' = ni_backup_table s \<and>
     (\<forall>st en. r = Some (st, en) \<longrightarrow> low \<le> st \<and> st < en \<and> en \<le> limit)"
proof (induction wb arbitrary: s r s')
  case 0
  then show ?case
    using sound_write [of nc nd 0 limit s _ _ P] by (auto simp: write_down.simps [of nc nd low limit 0] sound_def Let_def split: if_splits prod.splits)
next
  case (Suc wb)
  obtain r1 s1 where w: "nmbm_write_info_table nc nd (Suc wb) limit s = (r1, s1)" by fastforce
  show ?case
  proof (cases "Suc wb \<ge> low")
    case False
    then show ?thesis using Suc.prems by (auto simp: write_down.simps [of nc nd low limit "Suc wb"] sound_def)
  next
    case True
    note f = sound_write [OF w Suc.prems(2-4) order_trans [OF Suc.prems(5) True] Suc.prems(6)]
    have s1: "apart nc nd (mgmt_area s1) P" "tables_ok nc s1" using sound_area [OF f(1)] f(1) Suc.prems(3) by (simp_all add: sound_def)
    show ?thesis
    proof (cases r1)
      case None
      then have "write_down nc nd low limit wb s1 = (r, s')"
        using Suc.prems(1) True w by (simp add: write_down.simps [of nc nd low limit "Suc wb"] Let_def)
      from Suc.IH [OF this Suc.prems(2) s1] Suc.prems(5,6) f show ?thesis by (auto intro: sound_trans)
    next
      case (Some p)
      then show ?thesis using Suc.prems(1) True w f
        by (auto simp: write_down.simps [of nc nd low limit "Suc wb"] Let_def)
    qed
  qed
qed

lemma sound_D:
  "sound nc P s s' \<Longrightarrow> tables_ok nc s'"
  "sound nc P s s' \<Longrightarrow> apart nc nd (mgmt_area s) P \<Longrightarrow> apart nc nd (mgmt_area s') P"
  by (auto dest: sound_area) (simp add: sound_def)

lemma soundI: "tables_ok nc s' \<Longrightarrow> maintain (mgmt_area s) P s s' \<Longrightarrow> sound nc P s s'"
  by (simp add: sound_def)

lemma clean_fields [simp]:
  "ni_main_table (nmbm_mark_tables_clean s) = ni_main_table s" "ni_backup_table (nmbm_mark_tables_clean s) = ni_backup_table s"
  "ni_mapping_blocks (nmbm_mark_tables_clean s) = ni_mapping_blocks s" "ni_mapping_top (nmbm_mark_tables_clean s) = ni_mapping_top s"
  "ni_mgmt_start (nmbm_mark_tables_clean s) = ni_mgmt_start s" "ni_cache (nmbm_mark_tables_clean s) = ni_cache s"
  "ni_state_changed (nmbm_mark_tables_clean s) = 0" "ni_mapping_changed (nmbm_mark_tables_clean s) = 0"
  "ni_block_state (nmbm_mark_tables_clean s) = ni_block_state s" "ni_mapping (nmbm_mark_tables_clean s) = ni_mapping s"
  "tables_ok nc (nmbm_mark_tables_clean s) = tables_ok nc s" "ni_protected (nmbm_mark_tables_clean s) = ni_protected s"
  by (simp_all add: nmbm_mark_tables_clean_def tables_ok_def info_fits_def)

lemma reserve_after_bounds: "reserve_after nc s ba = Some x \<Longrightarrow> ba \<le> x"
  unfolding reserve_after_def by (rule reserve_bounds)

lemma sound_set_main:
  "sound nc P s s' \<Longrightarrow> m = 0 \<or> ni_mgmt_start s' \<le> m \<Longrightarrow> sound nc P s (s'\<lparr>ni_main_table := m\<rparr>)"
  "sound nc P s s' \<Longrightarrow> m = 0 \<or> ni_mgmt_start s' \<le> m \<Longrightarrow> sound nc P s (s'\<lparr>ni_backup_table := m\<rparr>)"
  "sound nc P s s' \<Longrightarrow> ni_mgmt_start s' \<le> m \<Longrightarrow> sound nc P s (s'\<lparr>ni_mapping_blocks := m\<rparr>)"
  by (simp_all add: sound_def tables_ok_def info_fits_def)

lemma sound_refl: "tables_ok nc s \<Longrightarrow> sound nc P s s"
  by (simp add: sound_def)

lemma build_backup_sound:
  assumes "conf_ok nc" "apart nc nd (mgmt_area s) P" "tables_ok nc s" "ni_mgmt_start s \<le> me"
  shows "sound nc P s (snd (build_backup nc nd me s)) \<and> fst (build_backup nc nd me s)"
proof (cases "reserve_after nc s me")
  case None
  then show ?thesis using sound_refl [OF assms(3)] by (simp add: build_backup_def)
next
  case (Some nx)
  have nx: "ni_mgmt_start s \<le> nx" using reserve_after_bounds [OF Some] assms(4) by simp
  obtain r s1 where w: "nmbm_write_info_table nc nd nx (ni_mapping_top s) s = (r, s1)" by fastforce
  note f = sound_write [OF w assms(1-3) nx order_refl]
  show ?thesis
  proof (cases r)
    case None
    then show ?thesis using Some w f(1) by (simp add: build_backup_def)
  next
    case (Some q)
    obtain st en where q: "q = (st, en)" by fastforce
    have b: "nx \<le> st" "st < en" "en \<le> ni_mapping_top s" using f(7) Some q by auto
    define s2 where "s2 = s1\<lparr>ni_backup_table := st, ni_mapping_blocks := en\<rparr>"
    have s2: "sound nc P s s2" unfolding s2_def by (intro sound_set_main f(1)) (use b nx f(5,6) in auto)
    have "sound nc P s2 (nmbm_erase_range nc nd me st s2)"
      by (rule sound_erase_range) (use sound_D [OF s2] assms(2,4) b f(5,6) in \<open>auto simp: s2_def\<close>)
    from sound_trans [OF s2 this] show ?thesis
      using Some q w \<open>reserve_after nc s me = Some nx\<close> by (simp add: build_backup_def flip: s2_def)
  qed
qed

lemma rebuild_sound:
  assumes "conf_ok nc" "apart nc nd (mgmt_area s) P" "tables_ok nc s" "ni_mgmt_start s \<le> ni_mapping_top s"
  shows "sound nc P s (snd (nmbm_rebuild_info_table nc nd s))"
proof -
  define s0 where "s0 = s\<lparr>ni_main_table := 0, ni_backup_table := 0, ni_mapping_blocks := ni_mapping_top s\<rparr>"
  have s0: "sound nc P s s0" "ni_mgmt_start s0 = ni_mgmt_start s" "ni_mapping_top s0 = ni_mapping_top s"
    using assms(3,4) by (auto simp: s0_def sound_def tables_ok_def info_fits_def)
  note a0 = sound_D [OF s0(1)]
  obtain r1 s1 where w1: "nmbm_write_info_table nc nd (ni_mgmt_start s0) (ni_mapping_top s0) s0 = (r1, s1)" by fastforce
  note f1 = sound_write [OF w1 assms(1) a0(2) [OF assms(2)] a0(1) order_refl order_refl]
  have s1: "sound nc P s s1" by (rule sound_trans [OF s0(1) f1(1)])
  show ?thesis
  proof (cases r1)
    case None
    have "tables_ok nc (s1\<lparr>ni_protected := True\<rparr>) = tables_ok nc s1" by (simp add: tables_ok_def info_fits_def)
    then show ?thesis using s1 w1 None by (simp add: nmbm_rebuild_info_table_def flip: s0_def) (simp add: sound_def)
  next
    case (Some p)
    obtain st me where p: "p = (st, me)" by fastforce
    have b: "ni_mgmt_start s \<le> st" "st < me" "me \<le> ni_mapping_top s" using f1(7) Some p s0 by auto
    define s2 where "s2 = nmbm_mark_tables_clean (s1\<lparr>ni_main_table := st, ni_mapping_blocks := me\<rparr>)"
    have s2: "sound nc P s s2" unfolding s2_def by (intro sound_clean sound_set_main s1) (use b f1(5,6) s0(2,3) in auto)
    have "ni_mgmt_start s2 \<le> me" using b f1(5) s0(2) by (simp add: s2_def)
    note bb = build_backup_sound [OF assms(1) sound_D(2) [OF s2 assms(2)] sound_D(1) [OF s2] this]
    show ?thesis using w1 Some p sound_trans [OF s2 conjunct1 [OF bb]]
      by (simp add: nmbm_rebuild_info_table_def Let_def s2_def flip: s0_def)
  qed
qed

lemma rescue_new_backup_sound:
  assumes "conf_ok nc" "apart nc nd (mgmt_area s) P" "tables_ok nc s" "ni_mgmt_start s \<le> me"
  shows "sound nc P s (snd (rescue_new_backup nc nd me s)) \<and> fst (rescue_new_backup nc nd me s)"
proof -
  define s0 where "s0 = s\<lparr>ni_mapping_blocks := me\<rparr>"
  have s0: "sound nc P s s0" unfolding s0_def by (rule sound_set_main(3) [OF sound_refl [OF assms(3)] assms(4)])
  note a0 = sound_D(1) [OF s0] sound_D(2) [OF s0 assms(2)]
  have fields: "ni_mgmt_start s0 = ni_mgmt_start s" "ni_mapping_top s0 = ni_mapping_top s" by (simp_all add: s0_def)
  show ?thesis
  proof (cases "reserve_after nc s0 me")
    case None
    then show ?thesis using sound_set_main(2) [OF s0, of 0] by (simp add: rescue_new_backup_def Let_def flip: s0_def)
  next
    case (Some wb)
    obtain r s1 where w: "write_down nc nd me (ni_mapping_top s0) wb s0 = (r, s1)" by fastforce
    have "ni_mgmt_start s0 \<le> me" using assms(4) fields by simp
    note f = sound_write_down [OF w assms(1) a0(2,1) this order_refl]
    show ?thesis
    proof (cases r)
      case None
      then show ?thesis using sound_set_main(2) [OF sound_trans [OF s0, of s1], of 0] Some w f
        by (simp add: rescue_new_backup_def Let_def flip: s0_def)
    next
      case (Some q)
      obtain st en where q: "q = (st, en)" by fastforce
      have b: "me \<le> st" "st < en" "en \<le> ni_mapping_top s0" using f Some q by auto
      define s2 where "s2 = s1\<lparr>ni_backup_table := st, ni_mapping_blocks := en\<rparr>"
      have s1: "sound nc P s s1" using f sound_trans [OF s0] by blast
      have s2: "sound nc P s s2" unfolding s2_def
        by (intro sound_set_main s1) (use f b assms(4) fields in auto)
      have "sound nc P s2 (nmbm_erase_range nc nd me st s2)"
        by (rule sound_erase_range) (use sound_D [OF s2] assms(2,4) b f fields in \<open>auto simp: s2_def\<close>)
      from sound_trans [OF s2 this] show ?thesis
        using Some q w \<open>reserve_after nc s0 me = Some wb\<close> by (simp add: rescue_new_backup_def Let_def flip: s0_def s2_def)
    qed
  qed
qed

lemma rescue_main_sound:
  assumes "conf_ok nc" "apart nc nd (mgmt_area s) P" "tables_ok nc s"
  shows "sound nc P s (snd (nmbm_rescue_main_info_table nc nd s)) \<and> fst (nmbm_rescue_main_info_table nc nd s)"
proof (cases "reserve_after nc s (ni_mapping_blocks s)")
  case None
  then show ?thesis using sound_backup_main [OF sound_refl [OF assms(3)]] by (simp add: nmbm_rescue_main_info_table_def)
next
  case (Some wb)
  have lo: "ni_mgmt_start s \<le> ni_mapping_blocks s" using assms(3) by (simp add: tables_ok_def info_fits_def)
  obtain r s1 where w: "write_down nc nd (ni_mapping_blocks s) (ni_mapping_top s) wb s = (r, s1)" by fastforce
  note f = sound_write_down [OF w assms lo order_refl]
  show ?thesis
  proof (cases r)
    case None
    then show ?thesis using sound_backup_main f w Some by (simp add: nmbm_rescue_main_info_table_def)
  next
    case (Some q)
    obtain ts te where q: "q = (ts, te)" by fastforce
    have b: "ni_mapping_blocks s \<le> ts" "ts < te" "te \<le> ni_mapping_top s" using f Some q by auto
    define s2 where "s2 = s1\<lparr>ni_mapping_blocks := te\<rparr>"
    have s2: "sound nc P s s2" "ni_mgmt_start s2 = ni_mgmt_start s" "ni_mapping_top s2 = ni_mapping_top s"
      using f b lo sound_set_main(3) [of nc P s s1 te] by (auto simp: s2_def)
    have e: "ni_mgmt_start s1 = ni_mgmt_start s2" by (simp add: s2_def)
    note a2 = sound_D(1) [OF s2(1)] sound_D(2) [OF s2(1) assms(2)]
    obtain r3 s3 where w3: "nmbm_write_info_table nc nd (ni_mgmt_start s2) ts s2 = (r3, s3)" by fastforce
    have "ts \<le> ni_mapping_top s2" using b s2 by simp
    note f3 = sound_write [OF w3 assms(1) a2(2,1) order_refl this]
    have s3: "sound nc P s s3" by (rule sound_trans [OF s2(1) f3(1)])
    show ?thesis
    proof (cases r3)
      case None
      have "sound nc P s (s3\<lparr>ni_main_table := ts, ni_backup_table := 0\<rparr>)"
        by (intro sound_set_main s3) (use b lo f3(5,6) s2 in auto)
      then show ?thesis using None w3 w Some q \<open>reserve_after nc s (ni_mapping_blocks s) = _\<close>
        by (simp add: nmbm_rescue_main_info_table_def Let_def e flip: s2_def)
    next
      case (Some p)
      obtain ms me where p: "p = (ms, me)" by fastforce
      have mb: "ni_mgmt_start s \<le> ms" "ms < me" "me \<le> ts" using f3(7) Some p s2 by auto
      define s4 where "s4 = nmbm_mark_tables_clean (s3\<lparr>ni_main_table := ms\<rparr>)"
      have s4: "sound nc P s s4" unfolding s4_def
        by (intro sound_clean sound_set_main s3) (use mb b f3(5,6) s2 in auto)
      have "sound nc P s (s4\<lparr>ni_backup_table := ts\<rparr>)"
        by (intro sound_set_main s4) (use b lo f3(5,6) s2 in \<open>auto simp: s4_def\<close>)
      then show ?thesis using Some p w3 w \<open>r = Some q\<close> q mb(3) \<open>reserve_after nc s (ni_mapping_blocks s) = _\<close>
        by (simp add: nmbm_rescue_main_info_table_def Let_def e flip: s2_def s4_def)
    qed
  qed
qed

lemma write_main_table_sound:
  assumes "conf_ok nc" "apart nc nd (mgmt_area s) P" "tables_ok nc s" "limit \<le> ni_mapping_top s" "ni_mgmt_start s \<le> ni_mapping_top s"
  shows "sound nc P s (snd (write_main_table nc nd limit s))"
proof (cases "ni_main_table s = 0")
  case True
  then show ?thesis using rebuild_sound [OF assms(1-3,5)] by (simp add: write_main_table_def)
next
  case False
  then have lo: "ni_mgmt_start s \<le> ni_main_table s" using assms(3) by (auto simp: tables_ok_def)
  obtain r s1 where w: "nmbm_write_info_table nc nd (ni_main_table s) limit s = (r, s1)" by fastforce
  note f = sound_write [OF w assms(1-3) lo assms(4)]
  note a1 = sound_D(2) [OF f(1) assms(2)] sound_D(1) [OF f(1)]
  show ?thesis
  proof (cases r)
    case None
    have "ni_mgmt_start s1 \<le> ni_mapping_top s1" using assms(5) f(5,6) by simp
    then show ?thesis
      using False None w sound_trans [OF f(1)] rebuild_sound [OF assms(1) a1] rescue_main_sound [OF assms(1) a1]
      by (simp add: write_main_table_def)
  next
    case (Some q)
    obtain st en where q: "q = (st, en)" by fastforce
    have b: "ni_main_table s \<le> st" "st < en" "en \<le> limit" using f(7) Some q by auto
    have m: "sound nc P s (s1\<lparr>ni_main_table := st\<rparr>)" "sound nc P s (s1\<lparr>ni_main_table := st, ni_mapping_blocks := en\<rparr>)"
      by (intro sound_set_main f(1); use b lo f(5,6) assms(4) in auto)+
    show ?thesis using False Some q w sound_clean [OF m(1)] sound_clean [OF m(2)]
      by (simp add: write_main_table_def Let_def)
  qed
qed

subsection \<open>Updates come to an end\<close>

text \<open>
  The counters of changes only become non-zero again when a good block has become bad (\<open>headway\<close>), and an update
  that succeeds has cleared them on the way (\<open>settled\<close>).
\<close>

abbreviation (input) live_blocks :: "'d nmbm \<Rightarrow> nat" where
  "live_blocks s \<equiv> card (not_bad (ni_block_state s))"

definition headway :: "'d nmbm \<Rightarrow> 'd nmbm \<Rightarrow> bool" where
  "headway s s' \<longleftrightarrow> live_blocks s' \<le> live_blocks s \<and> (changed s' \<longrightarrow> changed s \<or> live_blocks s' < live_blocks s)"

definition settled :: "'d nmbm \<Rightarrow> 'd nmbm \<Rightarrow> bool" where
  "settled s s' \<longleftrightarrow> live_blocks s' \<le> live_blocks s \<and> (changed s' \<longrightarrow> live_blocks s' < live_blocks s)"

lemma progress_trans:
  "headway s s1 \<Longrightarrow> headway s1 s2 \<Longrightarrow> headway s s2"
  "settled s s1 \<Longrightarrow> headway s1 s2 \<Longrightarrow> settled s s2"
  "headway s s1 \<Longrightarrow> settled s1 s2 \<Longrightarrow> settled s s2"
  "headway s s1 \<Longrightarrow> settled s (nmbm_mark_tables_clean s1)"
  "settled s s1 \<Longrightarrow> headway s s1"
  by (auto simp: headway_def settled_def changed_def nmbm_mark_tables_clean_def)

lemma progress_assign [simp]:
  "headway s s"
  "headway s (s'\<lparr>ni_main_table := x\<rparr>) = headway s s'" "settled s (s'\<lparr>ni_main_table := x\<rparr>) = settled s s'"
  "headway s (s'\<lparr>ni_backup_table := x\<rparr>) = headway s s'" "settled s (s'\<lparr>ni_backup_table := x\<rparr>) = settled s s'"
  "headway s (s'\<lparr>ni_mapping_blocks := x\<rparr>) = headway s s'" "settled s (s'\<lparr>ni_mapping_blocks := x\<rparr>) = settled s s'"
  "headway s (s'\<lparr>ni_protected := b\<rparr>) = headway s s'"
  "headway s (backup_becomes_main s') = headway s s'" "settled s (backup_becomes_main s') = settled s s'"
  by (simp_all add: headway_def settled_def changed_def backup_becomes_main_def)

lemma upkeep_progress: "upkeep nc nd B P s s' \<Longrightarrow> headway s s'"
  using worse_card [of B "ni_block_state s" "ni_block_state s'"] by (auto simp: upkeep_def headway_def changed_def)

lemma write_progress: "nmbm_write_info_table nc nd ba limit s = (r, s') \<Longrightarrow> headway s s'"
  using upkeep_progress [OF write_mgmt_range_upkeep_all] by (metis nmbm_write_info_table_def snd_conv)

lemma erase_range_progress: "headway s (nmbm_erase_range nc nd ba limit s)"
  by (rule upkeep_progress [OF erase_range_upkeep [of nc nd UNIV "\<lambda>_. True"]]) simp_all

lemma write_down_progress: "write_down nc nd low limit wb s = (r, s') \<Longrightarrow> headway s s'"
proof (induction nc nd low limit wb s rule: write_down.induct)
  case (1 nc nd low limit wb s)
  obtain r1 s1 where w: "nmbm_write_info_table nc nd wb limit s = (r1, s1)" by fastforce
  show ?case
    using 1(2) "1.IH" [OF _ w [symmetric]] write_progress [OF w]
    by (auto simp: write_down.simps [of nc nd low limit wb s] w Let_def split: if_splits intro: progress_trans(1))
qed

lemmas progress_steps = write_progress write_down_progress erase_range_progress

lemma build_backup_progress: "headway s (snd (build_backup nc nd me s))"
proof (cases "reserve_after nc s me")
  case (Some nx)
  obtain r s1 where w: "nmbm_write_info_table nc nd nx (ni_mapping_top s) s = (r, s1)" by fastforce
  have "headway s (nmbm_erase_range nc nd me st (s1\<lparr>ni_backup_table := st, ni_mapping_blocks := en\<rparr>))" for st en
    by (rule progress_trans(1) [OF _ erase_range_progress]) (simp add: write_progress [OF w])
  then show ?thesis using Some w write_progress [OF w] by (auto simp: build_backup_def split: option.split)
qed (simp add: build_backup_def)

lemma rebuild_settled:
  assumes "nmbm_rebuild_info_table nc nd s = (True, s')"
  shows "settled s s'"
proof -
  define s0 where "s0 = s\<lparr>ni_main_table := 0, ni_backup_table := 0, ni_mapping_blocks := ni_mapping_top s\<rparr>"
  obtain r s1 where w: "nmbm_write_info_table nc nd (ni_mgmt_start s0) (ni_mapping_top s0) s0 = (r, s1)" by fastforce
  have "headway s s0" by (simp add: s0_def)
  from progress_trans(1) [OF this write_progress [OF w]] have s1: "headway s s1" .
  have "settled s (snd (build_backup nc nd en (nmbm_mark_tables_clean (s1\<lparr>ni_main_table := st, ni_mapping_blocks := en\<rparr>))))"
    for st en by (rule progress_trans(2) [OF progress_trans(4) build_backup_progress]) (simp add: s1)
  then show ?thesis using assms w
    by (cases r) (auto simp: nmbm_rebuild_info_table_def Let_def simp flip: s0_def, metis snd_conv)
qed

lemma new_backup_progress: "headway s (snd (rescue_new_backup nc nd me s))"
proof -
  define s0 where "s0 = s\<lparr>ni_mapping_blocks := me\<rparr>"
  have s0: "headway s s0" by (simp add: s0_def)
  show ?thesis
  proof (cases "reserve_after nc s0 me")
    case None
    then show ?thesis using s0 by (simp add: rescue_new_backup_def Let_def flip: s0_def)
  next
    case (Some wb)
    obtain r s1 where w: "write_down nc nd me (ni_mapping_top s0) wb s0 = (r, s1)" by fastforce
    have s1: "headway s s1" by (rule progress_trans(1) [OF s0 write_down_progress [OF w]])
    have "headway s (nmbm_erase_range nc nd me st (s1\<lparr>ni_backup_table := st, ni_mapping_blocks := en\<rparr>))" for st en
      by (rule progress_trans(1) [OF _ erase_range_progress]) (simp add: s1)
    then show ?thesis using s1 Some w by (auto simp: rescue_new_backup_def Let_def split: option.split simp flip: s0_def)
  qed
qed

lemma rescue_main_progress: "headway s (snd (nmbm_rescue_main_info_table nc nd s))"
proof (cases "reserve_after nc s (ni_mapping_blocks s)")
  case (Some wb)
  obtain r s1 where w: "write_down nc nd (ni_mapping_blocks s) (ni_mapping_top s) wb s = (r, s1)" by fastforce
  note s1 = write_down_progress [OF w]
  show ?thesis
  proof (cases r)
    case None
    then show ?thesis using s1 Some w by (simp add: nmbm_rescue_main_info_table_def)
  next
    case (Some q)
    obtain ts te where q: "q = (ts, te)" by fastforce
    define s2 where "s2 = s1\<lparr>ni_mapping_blocks := te\<rparr>"
    obtain r3 s3 where w3: "nmbm_write_info_table nc nd (ni_mgmt_start s2) ts s2 = (r3, s3)" by fastforce
    have "headway s s2" using s1 by (simp add: s2_def)
    from progress_trans(1) [OF this write_progress [OF w3]] have s3: "headway s s3" .
    have clean: "headway s (nmbm_mark_tables_clean s4)" if "headway s s4" for s4
      using progress_trans(4) [OF that] by (rule progress_trans(5))
    have new: "headway s (snd (rescue_new_backup nc nd me (nmbm_mark_tables_clean (s3\<lparr>ni_main_table := ms\<rparr>))))" for ms me
      by (rule progress_trans(1) [OF clean new_backup_progress]) (simp add: s3)
    have e: "ni_mgmt_start s1 = ni_mgmt_start s2" by (simp add: s2_def)
    show ?thesis using Some q w w3 s3 new \<open>reserve_after nc s (ni_mapping_blocks s) = _\<close>
      by (auto simp: nmbm_rescue_main_info_table_def Let_def e clean split: option.split simp flip: s2_def)
  qed
qed (simp add: nmbm_rescue_main_info_table_def)

lemma write_main_settled:
  assumes "write_main_table nc nd limit s = (True, s')"
  shows "headway s s'" "ni_backup_table s = 0 \<Longrightarrow> settled s s'"
proof -
  have "headway s s' \<and> (ni_backup_table s = 0 \<longrightarrow> settled s s')"
  proof (cases "ni_main_table s = 0")
    case True
    then show ?thesis using assms rebuild_settled [of nc nd s s'] progress_trans(5) by (auto simp: write_main_table_def)
  next
    case False
    obtain r s1 where w: "nmbm_write_info_table nc nd (ni_main_table s) limit s = (r, s1)" by fastforce
    have bk: "ni_backup_table s1 = ni_backup_table s"
      using write_mgmt_range_upkeep_all [of nc nd s] w by (metis (no_types, lifting) nmbm_write_info_table_def upkeep_fields snd_conv)
    note s1 = write_progress [OF w]
    show ?thesis
    proof (cases r)
      case None
      then show ?thesis
        using assms False w bk progress_trans(3) [OF s1 rebuild_settled [of nc nd s1 s']] progress_trans(5) [of s s']
          progress_trans(1) [OF s1 rescue_main_progress [of s1 nc nd]]
        by (auto simp: write_main_table_def split: if_splits)
    next
      case (Some q)
      obtain st en where q: "q = (st, en)" by fastforce
      have "settled s (nmbm_mark_tables_clean (s1\<lparr>ni_main_table := st\<rparr>))"
        "settled s (nmbm_mark_tables_clean (s1\<lparr>ni_main_table := st, ni_mapping_blocks := en\<rparr>))"
        using s1 by (intro progress_trans(4); simp)+
      then have "settled s s'" using assms False w Some q by (auto simp: write_main_table_def Let_def split: if_splits)
      then show ?thesis using progress_trans(5) by blast
    qed
  qed
  then show "headway s s'" "ni_backup_table s = 0 \<Longrightarrow> settled s s'" by blast+
qed

lemma once_settled:
  assumes "nmbm_update_info_table_once nc nd force s = (True, s')" "changed s"
  shows "settled s s'"
proof -
  obtain s0 where g: "nmbm_generate_info_table_cache nc s = (True, s0)" and s0: "headway s s0"
    using assms(2) by (simp add: nmbm_generate_info_table_cache_def Let_def headway_def changed_def)
  show ?thesis
  proof (cases "ni_backup_table s0 = 0")
    case True
    then have "write_main_table nc nd (ni_mapping_top s0) s0 = (True, s')"
      using assms(1) g by (simp add: nmbm_update_info_table_once_def)
    then show ?thesis using progress_trans(3) [OF s0 write_main_settled(2)] True by blast
  next
    case False
    obtain r s1 where w: "nmbm_write_info_table nc nd (ni_backup_table s0) (ni_mapping_top s0) s0 = (r, s1)" by fastforce
    have s1: "headway s s1" by (rule progress_trans(1) [OF s0 write_progress [OF w]])
    show ?thesis
    proof (cases r)
      case None
      let ?s2 = "s1\<lparr>ni_mapping_blocks := ni_backup_table s1, ni_backup_table := 0\<rparr>"
      have "write_main_table nc nd (ni_mapping_top s1) ?s2 = (True, s')"
        using assms(1) g w None False by (simp add: nmbm_update_info_table_once_def)
      then have "settled ?s2 s'" by (rule write_main_settled(2)) simp
      moreover have "headway s ?s2" using s1 by simp
      ultimately show ?thesis by (rule progress_trans(3) [rotated])
    next
      case (Some q)
      obtain st en where q: "q = (st, en)" by fastforce
      let ?s2 = "nmbm_mark_tables_clean (s1\<lparr>ni_backup_table := st, ni_mapping_blocks := en\<rparr>)"
      have "write_main_table nc nd (ni_backup_table ?s2) ?s2 = (True, s')"
        using assms(1) g w Some q False by (simp add: nmbm_update_info_table_once_def Let_def)
      then have "headway ?s2 s'" by (rule write_main_settled(1))
      moreover have "settled s ?s2" by (rule progress_trans(4)) (simp add: s1)
      ultimately show ?thesis by (rule progress_trans(2) [rotated])
    qed
  qed
qed

text \<open>
  The loop ends: each round that succeeds and has to be repeated has found a bad block.
\<close>

function update_rounds :: "nmbm_conf \<Rightarrow> 'd nand \<Rightarrow> 'd nmbm \<Rightarrow> bool \<times> 'd nmbm" where
  "update_rounds nc nd s =
     (if changed s then
        let rs = nmbm_update_info_table_once nc nd False s in
        if fst rs then update_rounds nc nd (snd rs) else (False, snd rs)
      else (True, s))"
  by pat_completeness auto
termination
proof (relation "measure (\<lambda>(nc, nd, s). 2 * live_blocks s + (if changed s then 1 else 0))", goal_cases)
  case (2 nc nd s rs)
  then have "nmbm_update_info_table_once nc nd False s = (True, snd rs)" by (simp add: prod_eq_iff)
  from once_settled [OF this 2(1)] 2(1) show ?case by (auto simp: settled_def)
qed simp

declare update_rounds.simps [simp del]

definition nmbm_update_info_table :: "nmbm_conf \<Rightarrow> 'd nand \<Rightarrow> 'd nmbm \<Rightarrow> bool \<times> 'd nmbm" where
  "nmbm_update_info_table nc nd s = (if ni_protected s then (True, s) else update_rounds nc nd s)"

lemma length_le_bytes [simp]: "length (le_bytes n v) = n"
  by (induction n arbitrary: v) simp_all

lemma length_u32_bytes [simp]: "length (u32_bytes xs) = 4 * length xs"
  by (induction xs) (simp_all add: u32_bytes_def)

lemma length_info_bytes [simp]: "length (info_bytes h) = 32"
  by (simp add: info_bytes_def)

lemma length_put_at: "off + length s \<le> length buf \<Longrightarrow> length (put_at off s buf) = length buf"
  by (simp add: put_at_def)

lemma length_update_checksum: "16 \<le> length dat \<Longrightarrow> length (nmbm_update_checksum nc dat) = length dat"
  by (simp add: nmbm_update_checksum_def Let_def length_put_at)

lemma length_table_arrays: "info_fits nc s \<Longrightarrow> length (table_arrays nc s) = info_table_size nc"
  by (simp add: table_arrays_def info_fits_def length_put_at mapping_table_size_def)

lemma next_header_fields [simp]:
  "ih_state_off (next_header nc s) = ih_state_off (ni_info_table s)"
  "ih_mapping_off (next_header nc s) = ih_mapping_off (ni_info_table s)"
  by (simp_all add: next_header_def Let_def)

lemma generate_sound:
  assumes "nmbm_generate_info_table_cache nc s = (ch, s')" "conf_ok nc" "tables_ok nc s"
  shows "sound nc P s s'" "ni_main_table s' = ni_main_table s" "ni_backup_table s' = ni_backup_table s"
    "ni_mapping_top s' = ni_mapping_top s" "ni_mgmt_start s' = ni_mgmt_start s" "ch = changed s" "changed s' = changed s"
proof -
  define c where "c = nmbm_update_checksum nc (put_at 0 (info_bytes (next_header nc s)) (table_arrays nc s))"
  have s': "s' = s\<lparr>ni_cache := c, ni_info_table := next_header nc s\<rparr>" "ch = changed s"
    using assms(1) by (auto simp: nmbm_generate_info_table_cache_def Let_def c_def)
  have "length c = info_table_size nc"
    using assms(3) table_offsets [OF assms(2)]
    by (simp add: c_def length_put_at length_update_checksum length_table_arrays tables_ok_def)
  then show "sound nc P s s'" using assms(3) by (simp add: s' sound_def maintain_def) (simp add: tables_ok_def info_fits_def)
  show "ni_main_table s' = ni_main_table s" "ni_backup_table s' = ni_backup_table s"
    "ni_mapping_top s' = ni_mapping_top s" "ni_mgmt_start s' = ni_mgmt_start s" "ch = changed s" "changed s' = changed s"
    by (simp_all add: s' changed_def)
qed

lemma once_sound:
  assumes "conf_ok nc" "apart nc nd (mgmt_area s) P" "tables_ok nc s" "ni_mgmt_start s \<le> ni_mapping_top s"
  shows "sound nc P s (snd (nmbm_update_info_table_once nc nd force s))"
proof -
  obtain ch s0 where g: "nmbm_generate_info_table_cache nc s = (ch, s0)" by fastforce
  note f0 = generate_sound [OF g assms(1,3)]
  note s0 = f0(1) [of P]
  note a0 = sound_D(2) [OF s0 assms(2)] sound_D(1) [OF s0]
  have top0: "ni_mgmt_start s0 \<le> ni_mapping_top s0" using assms(4) f0(4,5) by simp
  note main = write_main_table_sound [OF assms(1)]
  show ?thesis
  proof (cases "ni_backup_table s0 = 0")
    case True
    then show ?thesis using g s0 sound_trans [OF s0 main [OF a0 order_refl top0]]
      by (simp add: nmbm_update_info_table_once_def)
  next
    case False
    then have lo: "ni_mgmt_start s0 \<le> ni_backup_table s0" using a0(2) by (auto simp: tables_ok_def)
    obtain r s1 where w: "nmbm_write_info_table nc nd (ni_backup_table s0) (ni_mapping_top s0) s0 = (r, s1)" by fastforce
    note f = sound_write [OF w assms(1) a0 lo order_refl]
    have s1: "sound nc P s s1" by (rule sound_trans [OF s0 f(1)])
    show ?thesis
    proof (cases r)
      case None
      define s2 where "s2 = s1\<lparr>ni_mapping_blocks := ni_backup_table s1, ni_backup_table := 0\<rparr>"
      have s2: "sound nc P s s2" unfolding s2_def by (intro sound_set_main s1) (use lo f in auto)
      have "ni_mapping_top s1 \<le> ni_mapping_top s2" "ni_mgmt_start s2 \<le> ni_mapping_top s2" using top0 f(5,6) by (simp_all add: s2_def)
      note m = main [OF sound_D(2) [OF s2 assms(2)] sound_D(1) [OF s2] this]
      show ?thesis using g w None False s0 sound_trans [OF s2 m] by (simp add: nmbm_update_info_table_once_def flip: s2_def)
    next
      case (Some q)
      obtain st en where q: "q = (st, en)" by fastforce
      have b: "ni_backup_table s0 \<le> st" "st < en" "en \<le> ni_mapping_top s0" using f(7) Some q by auto
      define s2 where "s2 = nmbm_mark_tables_clean (s1\<lparr>ni_backup_table := st, ni_mapping_blocks := en\<rparr>)"
      have s2: "sound nc P s s2" unfolding s2_def by (intro sound_clean sound_set_main s1) (use b lo f(5,6) in auto)
      have e: "ni_backup_table s2 = st" by (simp add: s2_def)
      have "ni_backup_table s2 \<le> ni_mapping_top s2" "ni_mgmt_start s2 \<le> ni_mapping_top s2"
        using top0 b f(5,6) by (simp_all add: s2_def)
      note m = main [OF sound_D(2) [OF s2 assms(2)] sound_D(1) [OF s2] this]
      show ?thesis using g w Some q False s0 sound_trans [OF s2 m]
        by (simp add: nmbm_update_info_table_once_def Let_def e flip: s2_def)
    qed
  qed
qed

lemma update_rounds_sound:
  "conf_ok nc \<Longrightarrow> apart nc nd (mgmt_area s) P \<Longrightarrow> tables_ok nc s \<Longrightarrow> ni_mgmt_start s \<le> ni_mapping_top s \<Longrightarrow>
    sound nc P s (snd (update_rounds nc nd s)) \<and> (fst (update_rounds nc nd s) \<longrightarrow> \<not> changed (snd (update_rounds nc nd s)))"
proof (induction nc nd s rule: update_rounds.induct)
  case (1 nc nd s)
  define rs where "rs = nmbm_update_info_table_once nc nd False s"
  have o: "sound nc P s (snd rs)" unfolding rs_def by (rule once_sound [OF "1.prems"])
  have "ni_mgmt_start (snd rs) \<le> ni_mapping_top (snd rs)" using o "1.prems"(4) by (simp add: sound_def maintain_def)
  note rec = "1.IH" [OF _ rs_def _ "1.prems"(1) sound_D(2) [OF o "1.prems"(2)] sound_D(1) [OF o] this]
  show ?case
    using rec sound_trans [OF o] o sound_refl [OF "1.prems"(3)]
    by (auto simp: update_rounds.simps [of nc nd s] Let_def simp flip: rs_def)
qed

subsection \<open>Mapping a block to a spare one\<close>

definition nmbm_map_block :: "nmbm_conf \<Rightarrow> 'd nand \<Rightarrow> nat \<Rightarrow> 'd nmbm \<Rightarrow> bool \<times> 'd nmbm" where
  "nmbm_map_block nc nd lb s =
     (if ni_mapping_blocks s = ni_mapping_top s then (False, s)
      else
        case nmbm_block_walk nc s False (ni_mapping_top s) 0 (ni_mapping_blocks s) of
          None \<Rightarrow> let s = snd (nmbm_update_info_table nc nd s) in (False, s\<lparr>ni_mapping_top := ni_mapping_blocks s\<rparr>)
        | Some pb \<Rightarrow>
            (True, s\<lparr>ni_mapping := (ni_mapping s)[lb := int pb], ni_mapping_top := ni_mapping_top s - 1,
                     ni_mapping_changed := (ni_mapping_changed s + 1) mod 2 ^ 32\<rparr>))"

definition map_at :: "'d nmbm \<Rightarrow> nat \<Rightarrow> int" where
  "map_at s i = (if i < length (ni_mapping s) then ni_mapping s ! i else -1)"

subsection \<open>Creating the tables\<close>

function remap_tail :: "nmbm_conf \<Rightarrow> 'd nand \<Rightarrow> nat \<Rightarrow> nat \<Rightarrow> 'd nmbm \<Rightarrow> 'd nmbm" where
  "remap_tail nc nd mgmt lb s =
     (if lb < mgmt then
        let rs = nmbm_map_block nc nd lb s in
        if fst rs then remap_tail nc nd mgmt (lb + 1) ((snd rs)\<lparr>ni_data_blocks := ni_data_blocks (snd rs) + 1\<rparr>)
        else snd rs
      else s)"
  by pat_completeness auto
termination
  by (relation "measure (\<lambda>(nc, nd, mgmt, lb, s). mgmt - lb)") auto

declare remap_tail.simps [simp del]

definition nmbm_create_info_table :: "nmbm_conf \<Rightarrow> 'd nand \<Rightarrow> 'd nmbm \<Rightarrow> bool \<times> 'd nmbm" where
  "nmbm_create_info_table nc nd s =
     (case nmbm_block_walk nc s False (ni_signature_ba s) 1 (ni_mgmt_start s) of
        None \<Rightarrow> (False, s)
      | Some new_top \<Rightarrow>
          let s = snd (nmbm_generate_info_table_cache nc (s\<lparr>ni_mapping_top := new_top\<rparr>));
              (ok, s) = nmbm_rebuild_info_table nc nd s
          in
          if \<not> ok then (False, s)
          else nmbm_update_info_table nc nd (remap_tail nc nd (ni_mgmt_start s) (ni_data_blocks s) s))"

definition nmbm_mgmt_start :: "nmbm_conf \<Rightarrow> nat" where
  "nmbm_mgmt_start nc =
     (let n = chip_blocks nc; m = (n * usub 32 16 (nc_max_ratio nc)) mod 2 ^ 32 div 16 in
      if nc_max_reserved nc \<noteq> 0 \<and> usub 32 n m > nc_max_reserved nc then usub 32 n (nc_max_reserved nc) else m)"

text \<open>The signature of a new chip, over the padding of the old one.\<close>

definition new_signature :: "nmbm_conf \<Rightarrow> nat \<Rightarrow> nmbm_signature \<Rightarrow> nmbm_signature" where
  "new_signature nc mgmt sig =
     (let c = nc_conf nc;
          g = sig\<lparr>sg_magic := NMBM_MAGIC_SIGNATURE, sg_version := NMBM_VER, sg_size := SIG_SIZE, sg_checksum := 0,
                  sg_nand_size := int_shl (c_total_blks c) (c_blk_shift c), sg_block_size := c_blk_size c,
                  sg_page_size := c_pg_size c, sg_spare_size := c_oobsize c, sg_mgmt_start_pb := mgmt,
                  sg_max_try_count := NMBM_TRY_COUNT\<rparr>
      in g\<lparr>sg_checksum := nmbm_crc32 nc 0 (take SIG_SIZE (signature_bytes g @ replicate SIG_SIZE NUL))\<rparr>)"

definition nmbm_create_new :: "nmbm_conf \<Rightarrow> 'd nand \<Rightarrow> 'd nmbm \<Rightarrow> bool \<times> 'd nmbm" where
  "nmbm_create_new nc nd s =
     (let s = nmbm_build_mapping_table nc (nmbm_scan_badblocks nc nd (s\<lparr>ni_mgmt_start := nmbm_mgmt_start nc\<rparr>));
          s = s\<lparr>ni_signature := new_signature nc (ni_mgmt_start s) (ni_signature s)\<rparr>
      in
      case nmbm_write_signature nc nd (ni_mgmt_start s) (ni_signature s) s of
        (None, s) \<Rightarrow> (False, s)
      | (Some ba, s) \<Rightarrow> nmbm_create_info_table nc nd (s\<lparr>ni_signature_ba := ba\<rparr>))"

subsection \<open>Loading the tables\<close>

definition nmbm_check_info_table_header :: "nmbm_conf \<Rightarrow> string \<Rightarrow> bool" where
  "nmbm_check_info_table_header nc dat \<longleftrightarrow> (let h = info_of dat in
     ih_magic h = NMBM_MAGIC_INFO_TABLE \<and> ih_size h = info_table_size nc \<and>
     \<not> usub 32 (ih_mapping_off h) (ih_state_off h) < state_table_size nc \<and>
     \<not> usub 32 (info_table_size nc) (ih_mapping_off h) < mapping_table_size nc)"

text \<open>The arrays inside the image of a table, with \<open>n\<close> entries.\<close>

primrec u32s :: "nat \<Rightarrow> string \<Rightarrow> nat list" where
  "u32s 0 s = []"
| "u32s (Suc n) s = le_num (take 4 s) # u32s n (drop 4 s)"

definition image_mapping :: "string \<Rightarrow> nat \<Rightarrow> nat list" where
  "image_mapping dat n = u32s n (drop (ih_mapping_off (info_of dat)) dat)"

definition image_states :: "string \<Rightarrow> nat \<Rightarrow> 32 word list" where
  "image_states dat n = map of_nat (u32s n (drop (ih_state_off (info_of dat)) dat))"

text \<open>The smallest physical block behind the table that is in use.\<close>

fun lowest_mapped :: "nat \<Rightarrow> nat \<Rightarrow> nat \<Rightarrow> nat list \<Rightarrow> nat \<Rightarrow> nat option" where
  "lowest_mapped data_blocks end_ba sig [] low = Some low"
| "lowest_mapped data_blocks end_ba sig (m # ms) low =
     (if (m \<ge> data_blocks \<and> m < end_ba) \<or> m = sig then None
      else lowest_mapped data_blocks end_ba sig ms (if m \<ge> end_ba \<and> m < low then m else low))"

definition nmbm_check_info_table :: "nmbm_conf \<Rightarrow> nat \<Rightarrow> nat \<Rightarrow> string \<Rightarrow> 'd nmbm \<Rightarrow> nat option" where
  "nmbm_check_info_table nc start_ba end_ba dat s =
     (case lowest_mapped (ni_data_blocks s) end_ba (ni_signature_ba s) (image_mapping dat (ni_data_blocks s)) (ni_signature_ba s) of
        None \<Rightarrow> None
      | Some low \<Rightarrow>
          if list_all (\<lambda>ba. nmbm_get_block_state s ba = BLOCK_ST_GOOD \<longrightarrow>
               nmbm_get_block_state_raw (image_states dat (length (ni_block_state s))) ba = BLOCK_ST_GOOD) [start_ba..<end_ba]
          then Some (usub 32 low 1) else None)"

text \<open>
  The loop of \<open>nmbm_try_load_info_table\<close>: it reads into the cache, of which \<open>sizeremain\<close> bytes are missing, and
  ends with the first block of the table and the block behind it. A positive status does not occur.
\<close>

function load_blocks :: "nmbm_conf \<Rightarrow> 'd nand \<Rightarrow> nat \<Rightarrow> nat \<Rightarrow> bool \<Rightarrow> nat \<Rightarrow> nat \<Rightarrow> 'd nmbm \<Rightarrow> (nat \<times> nat) option \<times> 'd nmbm" where
  "load_blocks nc nd limit start checkhdr sizeremain ba s =
     (if sizeremain \<noteq> 0 \<and> ba < limit then
        if nmbm_get_block_state s ba \<noteq> BLOCK_ST_GOOD then load_blocks nc nd limit start checkhdr sizeremain (ba + 1) s
        else if nmbm_check_bad_phys_block nc nd ba s
        then load_blocks nc nd limit start checkhdr sizeremain (ba + 1) (set_bad ba s)
        else
          let chunk = min sizeremain (c_blk_size (nc_conf nc));
              k = info_table_size nc - sizeremain;
              (ret, buf, s) = nmbn_read_data nc nd (ba2addr nc ba) (drop k (ni_cache s)) chunk s;
              s = s\<lparr>ni_cache := take k (ni_cache s) @ buf\<rparr>
          in
          if ret < 0 then load_blocks nc nd limit start checkhdr sizeremain (ba + 1) (set_bad ba s)
          else if ret > 0 then (None, s)
          else if checkhdr \<and> \<not> nmbm_check_info_table_header nc buf then (None, s)
          else load_blocks nc nd limit (if checkhdr then ba else start) False (sizeremain - chunk) (ba + 1) s
      else if sizeremain \<noteq> 0 then (None, s)
      else (Some (start, ba), s))"
  by pat_completeness auto
termination
  by (relation "measure (\<lambda>(nc, nd, limit, start, checkhdr, n, ba, s). limit - ba)") auto

declare load_blocks.simps [simp del]

definition take_table :: "'d nmbm \<Rightarrow> 'd nmbm" where
  "take_table s =
     s\<lparr>ni_info_table := info_of (ni_cache s),
       ni_block_state := image_states (ni_cache s) (length (ni_block_state s)),
       ni_mapping := map as_s32 (image_mapping (ni_cache s) (length (ni_mapping s)))\<rparr>"

text \<open>The block behind the table, its write count, and the top of the free blocks.\<close>

definition nmbm_try_load_info_table :: "nmbm_conf \<Rightarrow> 'd nand \<Rightarrow> nat \<Rightarrow> bool \<Rightarrow> 'd nmbm \<Rightarrow>
    (nat \<times> nat \<times> nat) option \<times> 'd nmbm" where
  "nmbm_try_load_info_table nc nd ba table_loaded s =
     (case load_blocks nc nd (ba + info_table_blocks nc) 0 True (info_table_size nc) ba s of
        (None, s) \<Rightarrow> (None, s)
      | (Some (start, end), s) \<Rightarrow>
          if \<not> nmbm_check_header nc (ni_cache s) (info_table_size nc) then (None, s)
          else
            let write_count = ih_write_count (info_of (ni_cache s)) in
            (case nmbm_check_info_table nc start end (ni_cache s) s of
               None \<Rightarrow> (None, s)
             | Some new_top \<Rightarrow>
                 (Some (end, write_count, new_top),
                  if \<not> table_loaded \<or> write_count > ih_write_count (ni_info_table s) then take_table s else s)))"

function nmbm_search_info_table :: "nmbm_conf \<Rightarrow> 'd nand \<Rightarrow> nat \<Rightarrow> bool \<Rightarrow> nat \<Rightarrow> 'd nmbm \<Rightarrow>
    (nat \<times> nat \<times> nat \<times> nat) option \<times> 'd nmbm" where
  "nmbm_search_info_table nc nd limit table_loaded ba s =
     (if ba < usub 32 limit (info_table_blocks nc) then
        let rs = nmbm_try_load_info_table nc nd ba table_loaded s in
        (case fst rs of
           Some r \<Rightarrow> (Some (ba, r), snd rs)
         | None \<Rightarrow> nmbm_search_info_table nc nd limit table_loaded (ba + 1) (snd rs))
      else (None, s))"
  by pat_completeness auto
termination
  by (relation "measure (\<lambda>(nc, nd, limit, table_loaded, ba, s). usub 32 limit (info_table_blocks nc) - ba)") auto

declare nmbm_search_info_table.simps [simp del]

text \<open>The last lines of \<open>nmbm_load_info_table\<close>: the second table is brought up to date.\<close>

definition sync_tables :: "nmbm_conf \<Rightarrow> 'd nand \<Rightarrow> nat \<Rightarrow> nat \<Rightarrow> 'd nmbm \<Rightarrow> 'd nmbm" where
  "sync_tables nc nd main_count backup_count s =
     (let (ok, s) =
        (if ni_backup_table s = 0 then nmbm_rescue_single_info_table nc nd s
         else if main_count \<noteq> backup_count
         then nmbm_update_single_info_table nc nd (main_count < backup_count) (s\<lparr>ni_state_changed := 1, ni_mapping_changed := 1\<rparr>)
         else (True, s))
      in if ni_mapping_blocks s = ni_mapping_top s \<or> \<not> ok then s\<lparr>ni_protected := True\<rparr> else s)"

definition nmbm_load_info_table :: "nmbm_conf \<Rightarrow> 'd nand \<Rightarrow> nat \<Rightarrow> nat \<Rightarrow> 'd nmbm \<Rightarrow> bool \<times> 'd nmbm" where
  "nmbm_load_info_table nc nd ba limit s =
     (let mgmt = sg_mgmt_start_pb (ni_signature s);
          s = s\<lparr>ni_main_table := 0, ni_backup_table := 0, ni_info_table := (ni_info_table s)\<lparr>ih_write_count := 0\<rparr>,
                ni_mapping_top := usub 32 (ni_signature_ba s) 1, ni_data_blocks := mgmt\<rparr>
      in
      case nmbm_search_info_table nc nd limit False ba s of
        (None, s) \<Rightarrow> (False, s)
      | (Some (main, main_end, main_count, main_top), s) \<Rightarrow>
          let s = s\<lparr>ni_main_table := main\<rparr>;
              (second, s) = nmbm_search_info_table nc nd limit True main_end s;
              (backup, table_end, backup_count, backup_top) =
                (case second of None \<Rightarrow> (0, main_end, 0, 0) | Some b \<Rightarrow> b);
              s = s\<lparr>ni_backup_table := backup,
                    ni_mapping_top := (if backup = 0 \<or> main_count \<ge> backup_count then main_top else backup_top),
                    ni_mapping_blocks := table_end,
                    ni_data_blocks := (case List.find (\<lambda>i. map_at s (i - 1) \<ge> 0) (rev [1..<Suc mgmt]) of
                                         Some i \<Rightarrow> i | None \<Rightarrow> ni_data_blocks s)\<rparr>;
              s = snd (nmbm_generate_info_table_cache nc s)
          in (True, sync_tables nc nd main_count backup_count s))"

definition nmbm_load_existing :: "nmbm_conf \<Rightarrow> 'd nand \<Rightarrow> 'd nmbm \<Rightarrow> bool \<times> 'd nmbm" where
  "nmbm_load_existing nc nd s =
     (let s = s\<lparr>ni_mgmt_start := sg_mgmt_start_pb (ni_signature s)\<rparr>;
          (ok, s) = nmbm_load_info_table nc nd (ni_mgmt_start s) (ni_signature_ba s) s
      in if ok then (True, s)
         else if \<not> nc_force_create nc then (False, s)
         else nmbm_create_info_table nc nd (nmbm_build_mapping_table nc (nmbm_scan_badblocks nc nd s)))"

subsection \<open>Finding the signature and attaching\<close>

text \<open>The pages of one block; the buffer on the stack counts as zeroes.\<close>

fun signature_in :: "nmbm_conf \<Rightarrow> 'd nand \<Rightarrow> nat \<Rightarrow> nat list \<Rightarrow> 'd nmbm \<Rightarrow> nmbm_signature option \<times> 'd nmbm" where
  "signature_in nc nd addr [] s = (None, s)"
| "signature_in nc nd addr (off # offs) s =
     (let (ret, sig, s) = nmbn_read_data nc nd (addr + off) (replicate SIG_SIZE NUL) SIG_SIZE s in
      if ret = 0 \<and> nmbm_check_header nc sig SIG_SIZE \<and> u32_at 0 sig = NMBM_MAGIC_SIGNATURE
      then (Some (signature_of sig), s)
      else signature_in nc nd addr offs s)"

definition signature_limit :: "nmbm_conf \<Rightarrow> nat" where
  "signature_limit nc =
     (let n = chip_blocks nc; m = (n div 16 * usub 32 16 (nc_max_ratio nc)) mod 2 ^ 32 in
      if nc_max_reserved nc \<noteq> 0 \<and> usub 32 n m > nc_max_reserved nc then usub 32 n (nc_max_reserved nc) else m)"

text \<open>
  One round of the search. It examines the block below \<open>ba\<close>, and so also the one below the limit; with a limit
  of 0 it does not end.
\<close>

definition signature_step :: "nmbm_conf \<Rightarrow> 'd nand \<Rightarrow> nat \<times> 'd nmbm \<Rightarrow>
    ((nmbm_signature \<times> nat) option \<times> 'd nmbm) + nat \<times> 'd nmbm" where
  "signature_step nc nd = (\<lambda>(ba, s).
     if \<not> ba \<ge> signature_limit nc then Inl (None, s)
     else
       let ba = usub 32 ba 1 in
       if nmbm_check_bad_phys_block nc nd ba s then Inr (ba, s)
       else
         case signature_in nc nd (ba2addr nc ba) (page_offsets nc) s of
           (Some sig, s) \<Rightarrow> Inl (Some (sig, ba), s)
         | (None, s) \<Rightarrow> Inr (ba, s))"

definition nmbm_find_signature :: "nmbm_conf \<Rightarrow> 'd nand \<Rightarrow> 'd nmbm \<Rightarrow> ((nmbm_signature \<times> nat) option \<times> 'd nmbm) option" where
  "nmbm_find_signature nc nd s = drive (signature_step nc nd) (chip_blocks nc, s)"

definition config_matches :: "nmbm_conf \<Rightarrow> nmbm_signature \<Rightarrow> bool" where
  "config_matches nc sig \<longleftrightarrow> (let c = nc_conf nc in
     sg_nand_size sig = int_shl (c_total_blks c) (c_blk_shift c) \<and> sg_block_size sig = c_blk_size c \<and>
     sg_page_size sig = c_pg_size c \<and> sg_spare_size sig = c_oobsize c)"

definition nmbm_attach :: "nmbm_conf \<Rightarrow> 'd nand \<Rightarrow> string \<Rightarrow> 'd \<Rightarrow> (int \<times> 'd nmbm) option" where
  "nmbm_attach nc nd page d =
     (case nmbm_find_signature nc nd (nmbm_init_structure nc page d) of
        None \<Rightarrow> None
      | Some (None, s) \<Rightarrow>
          Some (if \<not> nc_force_create nc then (- ENODEV, s)
                else let (ok, s) = nmbm_create_new nc nd s in (if ok then 0 else - ENODEV, s))
      | Some (Some (sig, ba), s) \<Rightarrow>
          let s = s\<lparr>ni_signature := sig, ni_signature_ba := ba\<rparr> in
          Some (if sg_version sig \<noteq> NMBM_VER then (- EINVAL, s)
                else if \<not> config_matches nc sig then (- EINVAL, s)
                else let (ok, s) = nmbm_load_existing nc nd s in (if ok then 0 else - ENODEV, s)))"

record nmbm_node =
  nn_max_ratio :: "nat option"
  nn_max_reserved :: "nat option"
  nn_empty_page_ecc :: bool
  nn_force_create :: bool

definition nmbm_setup :: "bmt_conf \<Rightarrow> (nat \<Rightarrow> string \<Rightarrow> nat) \<Rightarrow> nat \<Rightarrow> nmbm_node \<Rightarrow> nmbm_conf" where
  "nmbm_setup c crc ecc nn =
     \<lparr>nc_conf = c, nc_crc = crc, nc_ecc_strength = ecc,
      nc_max_ratio = (case nn_max_ratio nn of Some n \<Rightarrow> n | None \<Rightarrow> 1),
      nc_max_reserved = (case nn_max_reserved nn of Some n \<Rightarrow> n | None \<Rightarrow> 256),
      nc_empty_page_ecc_ok = nn_empty_page_ecc nn, nc_force_create = nn_force_create nn\<rparr>"

text \<open>The status, and with status 0 the new size of the device and the instance.\<close>

definition mtk_bmt_init_nmbm :: "nmbm_conf \<Rightarrow> 'd nand \<Rightarrow> bool \<Rightarrow> string \<Rightarrow> 'd \<Rightarrow> (int \<times> (nat \<times> 'd nmbm) option) option" where
  "mtk_bmt_init_nmbm nc nd alloc_ok page d =
     (if \<not> alloc_ok then Some (- ENOMEM, None)
      else
        case nmbm_attach nc nd page d of
          None \<Rightarrow> None
        | Some (ret, s) \<Rightarrow>
            Some (if ret \<noteq> 0 then (ret, None)
                  else (0, Some ((ni_data_blocks s * 2 ^ c_blk_shift (nc_conf nc)) mod 2 ^ 32, s))))"

subsection \<open>The operations of the layer\<close>

definition remap_block_nmbm :: "nmbm_conf \<Rightarrow> 'd nand \<Rightarrow> nat \<Rightarrow> nat \<Rightarrow> nat \<Rightarrow> 'd nmbm \<Rightarrow> bool \<times> 'd nmbm" where
  "remap_block_nmbm nc nd block mapped_block copy_len s =
     (if block \<ge> ni_data_blocks s then (False, s)
      else
        let (ok, s) = nmbm_map_block nc nd block (set_bad mapped_block s) in
        if \<not> ok then (False, s)
        else
          let new_block = as_u32 (map_at s block) mod 65536;
              d = snd (bbt_nand_erase (nc_conf nc) nd new_block (ni_dev s));
              (buf, d) = (if copy_len > 0 then snd (bbt_nand_copy (nc_conf nc) nd new_block mapped_block copy_len (ni_page s, d))
                          else (ni_page s, d))
          in (True, snd (nmbm_update_info_table nc nd (s\<lparr>ni_page := buf, ni_dev := d\<rparr>))))"

definition get_mapping_block_index_nmbm :: "'d nmbm \<Rightarrow> nat \<Rightarrow> int" where
  "get_mapping_block_index_nmbm s block = (if block \<ge> ni_data_blocks s then -1 else map_at s block)"

text \<open>The nearest logical block at or below \<open>start\<close> that is in the data area, and its distance.\<close>

fun unmapped_below :: "'d nmbm \<Rightarrow> nat \<Rightarrow> nat \<Rightarrow> (nat \<times> nat) option" where
  "unmapped_below s start offset =
     (if as_u32 (map_at s start) \<ge> ni_mapping_blocks s then
        (case start of 0 \<Rightarrow> None | Suc k \<Rightarrow> unmapped_below s k (offset + 1))
      else Some (start, offset))"

declare unmapped_below.simps [simp del]

definition top_after_unmap :: "'d nmbm \<Rightarrow> int" where
  "top_after_unmap s =
     fold (\<lambda>cur new_block. if as_u32 cur < ni_mapping_blocks s then new_block
                           else if cur \<le> new_block then cur - 1 else new_block)
       (map (map_at s) [0..<ni_data_blocks s]) (int (ni_signature_ba s) - 1)"

definition unmap_block_nmbm :: "nmbm_conf \<Rightarrow> 'd nand \<Rightarrow> nat \<Rightarrow> 'd nmbm \<Rightarrow> 'd nmbm" where
  "unmap_block_nmbm nc nd block s =
     (if block \<ge> ni_data_blocks s then s
      else
        case unmapped_below s block 0 of
          None \<Rightarrow> s
        | Some (start, offset) \<Rightarrow>
            if offset = 0 then s
            else
              let new_block = map_at s start + int offset;
                  s = snd (nmbm_set_block_state (as_u32 new_block) BLOCK_ST_GOOD s);
                  s = s\<lparr>ni_mapping := (ni_mapping s)[block := new_block],
                        ni_mapping_changed := (ni_mapping_changed s + 1) mod 2 ^ 32\<rparr>;
                  s = s\<lparr>ni_mapping_top := as_u32 (top_after_unmap s)\<rparr>
              in snd (nmbm_update_info_table nc nd s))"

definition mtk_bmt_debug_nmbm :: "nat \<Rightarrow> 'd nmbm \<Rightarrow> string list" where
  "mtk_bmt_debug_nmbm val s =
     (if val = 0 then
        map (\<lambda>i. ''remap ['' @ hex_lower i @ ''->'' @ hex_lower (as_u32 (map_at s i)) @ '']'')
          (filter (\<lambda>i. \<not> as_u32 (map_at s i) < ni_mapping_blocks s) [1..<ni_data_blocks s])
      else [])"

definition lift_nmbm :: "('d \<Rightarrow> 'r \<times> 'd) \<Rightarrow> 'd nmbm \<Rightarrow> 'r \<times> 'd nmbm" where
  "lift_nmbm f s = (let (r, d) = f (ni_dev s) in (r, s\<lparr>ni_dev := d\<rparr>))"

definition mtk_bmt_nmbm_ops :: "nmbm_conf \<Rightarrow> 'd nand \<Rightarrow> 'd nmbm layer" where
  "mtk_bmt_nmbm_ops nc nd =
     \<lparr>l_get = (\<lambda>block s. get_mapping_block_index_nmbm s block),
      l_remap = remap_block_nmbm nc nd, l_unmap = unmap_block_nmbm nc nd,
      l_read = (\<lambda>a ops. lift_nmbm (nd_read nd a ops)), l_write = (\<lambda>a ops. lift_nmbm (nd_write nd a ops)),
      l_erase = (\<lambda>a. lift_nmbm (nd_erase nd a)), l_isbad = (\<lambda>a s. nd_isbad nd a (ni_dev s)),
      l_markbad = (\<lambda>a. lift_nmbm (nd_markbad nd a)),
      l_copy = (\<lambda>dest src len s. let (r, b, d) = bbt_nand_copy (nc_conf nc) nd dest src len (ni_page s, ni_dev s)
                                 in (r, s\<lparr>ni_page := b, ni_dev := d\<rparr>))\<rparr>"


subsection \<open>Remapping\<close>

lemma update_sound:
  assumes "conf_ok nc" "apart nc nd (mgmt_area s) P" "tables_ok nc s" "ni_mgmt_start s \<le> ni_mapping_top s"
  shows "sound nc P s (snd (nmbm_update_info_table nc nd s))"
    "fst (nmbm_update_info_table nc nd s) \<Longrightarrow> \<not> ni_protected s \<Longrightarrow> \<not> changed (snd (nmbm_update_info_table nc nd s))"
  using update_rounds_sound [OF assms] sound_refl [OF assms(3)] by (auto simp: nmbm_update_info_table_def)

lemma walk_desc_here: "limit < ba \<Longrightarrow> nmbm_get_block_state_raw bs ba = BLOCK_ST_GOOD \<Longrightarrow> walk_desc bs limit ba 0 = Some ba"
  by (simp add: walk_desc.simps)

lemma walk_desc_skip: "limit < ba \<Longrightarrow> nmbm_get_block_state_raw bs ba \<noteq> BLOCK_ST_GOOD \<Longrightarrow> walk_desc bs limit ba 0 = walk_desc bs limit (ba - 1) 0"
  by (simp add: walk_desc.simps [of bs limit ba])

lemma map_block_walk:
  assumes "ni_mapping_blocks s < ni_mapping_top s" "ni_mapping_top s < chip_blocks nc"
    "walk_desc (ni_block_state s) (ni_mapping_blocks s) (ni_mapping_top s) 0 = Some pb"
  shows "nmbm_map_block nc nd lb s = (True, s\<lparr>ni_mapping := (ni_mapping s)[lb := int pb],
     ni_mapping_top := ni_mapping_top s - 1, ni_mapping_changed := (ni_mapping_changed s + 1) mod 2 ^ 32\<rparr>)"
  using assms by (simp add: nmbm_map_block_def nmbm_block_walk_def nmbm_block_walk_desc_def walk_limit_def)

text \<open>
  The top of the spare blocks moves down by one block per mapping, however many bad blocks are skipped: when
  the topmost spare block is bad, the block below it is given to two logical blocks.\<close>

lemma nmbm_spare_used_twice:
  assumes "ni_mapping_blocks s + 1 < ni_mapping_top s" "ni_mapping_top s < chip_blocks nc"
    "nmbm_get_block_state s (ni_mapping_top s) \<noteq> BLOCK_ST_GOOD" "nmbm_get_block_state s (ni_mapping_top s - 1) = BLOCK_ST_GOOD"
    "a \<noteq> b" "a < length (ni_mapping s)" "b < length (ni_mapping s)"
    "nmbm_map_block nc nd a s = (ok1, s1)" "nmbm_map_block nc nd b s1 = (ok2, s2)"
  shows "ok1 \<and> ok2 \<and> map_at s2 a = int (ni_mapping_top s - 1) \<and> map_at s2 b = int (ni_mapping_top s - 1)"
proof -
  let ?t = "ni_mapping_top s" and ?l = "ni_mapping_blocks s"
  have "walk_desc (ni_block_state s) ?l ?t 0 = Some (?t - 1)"
    using assms(1,3,4) walk_desc_skip [of ?l ?t "ni_block_state s"] walk_desc_here [of ?l "?t - 1" "ni_block_state s"]
    by (simp add: nmbm_get_block_state_def)
  then have 1: "ok1" "s1 = s\<lparr>ni_mapping := (ni_mapping s)[a := int (?t - 1)], ni_mapping_top := ?t - 1,
      ni_mapping_changed := (ni_mapping_changed s + 1) mod 2 ^ 32\<rparr>"
    using map_block_walk [of s nc "?t - 1" nd a] assms(1,2,8) by auto
  have "ni_mapping_blocks s1 < ni_mapping_top s1" "ni_mapping_top s1 < chip_blocks nc"
    "walk_desc (ni_block_state s1) (ni_mapping_blocks s1) (ni_mapping_top s1) 0 = Some (?t - 1)"
    using assms(1,2,4) walk_desc_here [of ?l "?t - 1" "ni_block_state s"] by (simp_all add: 1(2) nmbm_get_block_state_def)
  then have "ok2" "ni_mapping s2 = (ni_mapping s1)[b := int (?t - 1)]"
    using map_block_walk [of s1 nc "?t - 1" nd b] assms(9) by auto
  then show ?thesis using 1 assms(5-7) by (simp add: map_at_def)
qed

text \<open>
  A consistent instance: the logical blocks are on distinct physical blocks, none of them in the management area or
  among the spare blocks up to the top.
\<close>

definition nmbm_ok :: "nmbm_conf \<Rightarrow> 'd nmbm \<Rightarrow> bool" where
  "nmbm_ok nc s \<longleftrightarrow> tables_ok nc s \<and> ni_mgmt_start s \<le> ni_mapping_top s \<and> ni_mapping_top s < chip_blocks nc \<and>
     ni_data_blocks s \<le> chip_blocks nc \<and> inj_on (map_at s) {..<ni_data_blocks s} \<and>
     (\<forall>lb<ni_data_blocks s. 0 \<le> map_at s lb \<and> map_at s lb < int (chip_blocks nc) \<and>
        (map_at s lb < int (ni_mgmt_start s) \<or> int (ni_mapping_top s) < map_at s lb))"

lemma copy_pages_keeps:
  assumes "apart nc nd B P" "ba \<in> B" "\<And>a ops d. length (fst (snd (fst (nd_read nd a ops d)))) \<le> o_len ops"
  shows "P d \<Longrightarrow> off + pages * c_pg_size (nc_conf nc) \<le> c_blk_size (nc_conf nc) \<Longrightarrow>
    P (snd (snd (copy_pages (nc_conf nc) nd (ba2addr nc ba) src max_offset pages off (buf, d))))"
proof (induction pages arbitrary: off buf d)
  case (Suc pages)
  let ?c = "nc_conf nc"
  define rd where "rd = \<lparr>o_mode = MTD_OPS_PLACE_OOB, o_len = c_pg_size ?c,
    o_ooblen = min (c_oobsize ?c div (c_blk_size ?c div 2 ^ c_pg_shift ?c)) 64, o_ooboffs = 0, o_datbuf = [], o_oobbuf = []\<rparr>"
  obtain ret dat oob d1 where r: "nd_read nd (src + off) rd d = ((ret, dat, oob), d1)" by (metis prod_cases3 surj_pair)
  have d1: "P d1" using assms(1) Suc.prems(1) r by (metis apart_def snd_conv)
  have len: "length dat \<le> c_pg_size ?c" using assms(3) [of "src + off" rd d] r by (simp add: rd_def)
  define wr where "wr = \<lparr>o_mode = MTD_OPS_PLACE_OOB, o_len = c_pg_size ?c, o_ooblen = 0, o_ooboffs = 0,
    o_datbuf = dat @ drop (length dat) buf, o_oobbuf = oob\<rparr>"
  obtain ret' n m d2 where w: "nd_write nd (ba2addr nc ba + off) wr d1 = ((ret', n, m), d2)" by (metis prod_cases3 surj_pair)
  have "off + o_len wr \<le> c_blk_size ?c" using Suc.prems(2) by (simp add: wr_def)
  then have d2: "P d2" using assms(1,2) d1 w unfolding apart_def by (metis snd_conv)
  show ?case using Suc.IH [OF d2, of "off + length dat"] Suc.prems len d1 d2 r w
    by (auto simp: Let_def rd_def [symmetric] wr_def [symmetric])
qed simp

lemma set_bad_simps [simp]:
  "ni_mapping (set_bad ba s) = ni_mapping s" "ni_data_blocks (set_bad ba s) = ni_data_blocks s"
  "ni_mgmt_start (set_bad ba s) = ni_mgmt_start s" "ni_mapping_top (set_bad ba s) = ni_mapping_top s"
  "ni_mapping_blocks (set_bad ba s) = ni_mapping_blocks s" "ni_dev (set_bad ba s) = ni_dev s" "ni_page (set_bad ba s) = ni_page s"
  "tables_ok nc (set_bad ba s) = tables_ok nc s" "map_at (set_bad ba s) = map_at s"
  by (auto simp: set_bad_def nmbm_set_block_state_def Let_def tables_ok_def info_fits_def map_at_def fun_eq_iff)

lemma set_bad_state: "ba' \<noteq> ba \<Longrightarrow> nmbm_get_block_state (set_bad ba s) ba' = nmbm_get_block_state s ba'"
  using get_put_state [of ba "ni_block_state s" 0 ba']
  by (cases "ba div 16 < length (ni_block_state s)")
    (simp_all add: set_bad_def nmbm_set_block_state_def Let_def nmbm_get_block_state_def not_less)

lemma set_bad_bad: "nmbm_get_block_state (set_bad ba s) ba = BLOCK_ST_BAD"
  using get_put_state [of ba "ni_block_state s" 0 ba] get_state_inside [of "ni_block_state s" ba]
  by (cases "ba div 16 < length (ni_block_state s)")
    (auto simp: set_bad_def nmbm_set_block_state_def Let_def nmbm_get_block_state_def)

lemma maintain_bad:
  "maintain B P s s' \<Longrightarrow> nmbm_get_block_state s ba = BLOCK_ST_BAD \<Longrightarrow> nmbm_get_block_state s' ba = BLOCK_ST_BAD"
  unfolding maintain_def worse_def nmbm_get_block_state_def by (metis zero_neq_numeral)

lemma map_at_update [simp]:
  "lb < length (ni_mapping s) \<Longrightarrow> map_at (s\<lparr>ni_mapping := (ni_mapping s)[lb := x]\<rparr>) = (map_at s)(lb := x)"
  by (auto simp: map_at_def fun_eq_iff)

text \<open>What taking the top spare block does to the mapping.\<close>

lemma nmbm_ok_take:
  assumes "nmbm_ok nc s" "lb < ni_data_blocks s" "ni_mapping_blocks s < ni_mapping_top s"
    and s': "ni_mapping s' = (ni_mapping s)[lb := int (ni_mapping_top s)]" "ni_mapping_top s' = ni_mapping_top s - 1"
    "ni_mgmt_start s' = ni_mgmt_start s" "ni_data_blocks s' = ni_data_blocks s" "tables_ok nc s'"
  shows "nmbm_ok nc s'" "map_at s' = (map_at s)(lb := int (ni_mapping_top s))"
proof -
  have len: "length (ni_mapping s) = chip_blocks nc" and lo: "ni_mgmt_start s \<le> ni_mapping_blocks s"
    using assms(1) by (auto simp: nmbm_ok_def tables_ok_def info_fits_def)
  have lb: "lb < length (ni_mapping s)" using assms(1,2) len by (simp add: nmbm_ok_def)
  show m: "map_at s' = (map_at s)(lb := int (ni_mapping_top s))"
    using s'(1) lb by (auto simp: map_at_def fun_eq_iff)
  have "int (ni_mapping_top s) \<notin> map_at s ` {..<ni_data_blocks s}"
    using assms(1,3) lo by (auto simp: nmbm_ok_def)
  then have "inj_on (map_at s') {..<ni_data_blocks s}"
    using assms(1) unfolding m nmbm_ok_def by (intro inj_on_fun_updI) auto
  then show "nmbm_ok nc s'" using assms(1,3) lo s' by (auto simp: nmbm_ok_def m)
qed

lemma remap_io_keeps:
  assumes "conf_ok nc" "apart nc nd B P" "ba \<in> B" "ba < 65536" "P d"
    "\<forall>a ops d. length (fst (snd (fst (nd_read nd a ops d)))) \<le> o_len ops"
  shows "P (snd (bbt_nand_erase (nc_conf nc) nd ba d))" "P (snd (snd (bbt_nand_copy (nc_conf nc) nd ba src n (buf, d))))"
proof -
  let ?c = "nc_conf nc"
  have ad: "blk_addr ?c (ba mod 65536) = ba2addr nc ba" using assms(4) by (simp add: blk_addr_def ba2addr_def)
  show "P (snd (bbt_nand_erase ?c nd ba d))" using assms(2,3,5) assms(4) ad unfolding bbt_nand_erase_def apart_def by simp
  have pages: "0 + c_blk_size ?c div 2 ^ c_pg_shift ?c * c_pg_size ?c \<le> c_blk_size ?c"
    using assms(1) by (simp add: conf_ok_def Let_def)
  show "P (snd (snd (bbt_nand_copy ?c nd ba src n (buf, d))))" unfolding bbt_nand_copy_def
    using assms(4) ad copy_pages_keeps [OF assms(2,3) spec [OF spec [OF spec [OF assms(6)]]] assms(5) pages] by simp
qed

text \<open>The state in which the table is stored at the end of a remapping to the block at the top.\<close>

lemma remap_to_top:
  assumes "nmbm_ok nc s" "lb < ni_data_blocks s" "ni_mapping_blocks s < ni_mapping_top s" "ni_mapping_top s < 65536"
    "nmbm_get_block_state s (ni_mapping_top s) = BLOCK_ST_GOOD"
  obtains buf d where
    "remap_block_nmbm nc nd lb (nat (map_at s lb)) n s = (True, snd (nmbm_update_info_table nc nd
       ((set_bad (nat (map_at s lb)) s)\<lparr>ni_mapping := (ni_mapping s)[lb := int (ni_mapping_top s)],
          ni_mapping_top := ni_mapping_top s - 1,
          ni_mapping_changed := (ni_mapping_changed (set_bad (nat (map_at s lb)) s) + 1) mod 2 ^ 32,
          ni_page := buf, ni_dev := d\<rparr>)))"
    "(let d0 = snd (bbt_nand_erase (nc_conf nc) nd (ni_mapping_top s) (ni_dev s)) in
      (buf, d) = (if n > 0 then snd (bbt_nand_copy (nc_conf nc) nd (ni_mapping_top s) (nat (map_at s lb)) n (ni_page s, d0))
                  else (ni_page s, d0)))"
proof -
  let ?t = "ni_mapping_top s" and ?s = "set_bad (nat (map_at s lb)) s"
  have "0 \<le> map_at s lb" "map_at s lb < int (ni_mgmt_start s) \<or> int ?t < map_at s lb" "ni_mgmt_start s \<le> ?t"
    using assms(1,2) by (simp_all add: nmbm_ok_def)
  then have "?t \<noteq> nat (map_at s lb)" by linarith
  then have "nmbm_get_block_state ?s ?t = BLOCK_ST_GOOD" using assms(5) by (simp add: set_bad_state)
  then have "nmbm_map_block nc nd lb ?s = (True, ?s\<lparr>ni_mapping := (ni_mapping s)[lb := int ?t], ni_mapping_top := ?t - 1,
      ni_mapping_changed := (ni_mapping_changed ?s + 1) mod 2 ^ 32\<rparr>)"
    using assms map_block_walk [of ?s nc ?t nd lb] walk_desc_here [of "ni_mapping_blocks s" ?t "ni_block_state ?s"]
    by (simp add: nmbm_ok_def nmbm_get_block_state_def)
  moreover have "lb < length (ni_mapping s)" using assms(1,2) by (simp add: nmbm_ok_def tables_ok_def info_fits_def)
  ultimately show thesis using assms(2,4)
    by (intro that) (auto simp: remap_block_nmbm_def Let_def split_beta map_at_def as_u32_def)
qed

text \<open>
  C35. Remapping a logical block while the topmost spare block is good: the block moves to that spare block, the block it
  leaves is marked bad, every other logical block stays where it is, the mapping remains one to one and apart from the
  management area, and what is stored in the other blocks is untouched, whatever the driver does in the blocks it is
  asked to erase or write.
\<close>

theorem nmbm_remap_takes_spare:
  assumes "conf_ok nc" "nmbm_ok nc s" "lb < ni_data_blocks s" "ni_mapping_blocks s < ni_mapping_top s"
    "nmbm_get_block_state s (ni_mapping_top s) = BLOCK_ST_GOOD"
    "\<forall>a ops d. length (fst (snd (fst (nd_read nd a ops d)))) \<le> o_len ops"
    "apart nc nd {ni_mgmt_start s..ni_mapping_top s} P" "P (ni_dev s)"
    "remap_block_nmbm nc nd lb (nat (map_at s lb)) n s = (ok, s')"
  shows "ok \<and> nmbm_ok nc s' \<and> P (ni_dev s') \<and> ni_data_blocks s' = ni_data_blocks s \<and>
    map_at s' = (map_at s)(lb := int (ni_mapping_top s)) \<and> nmbm_get_block_state s' (nat (map_at s lb)) = BLOCK_ST_BAD"
proof -
  let ?t = "ni_mapping_top s" and ?pb = "nat (map_at s lb)"
  have t: "?t < 65536" "?t \<in> {ni_mgmt_start s..?t}" and tab: "tables_ok nc (set_bad ?pb s)"
    using assms(1,2) by (auto simp: nmbm_ok_def conf_ok_def Let_def)
  note io = remap_io_keeps [OF assms(1,7) t(2,1) _ assms(6)]
  obtain buf d where
    r: "remap_block_nmbm nc nd lb ?pb n s = (True, snd (nmbm_update_info_table nc nd
         ((set_bad ?pb s)\<lparr>ni_mapping := (ni_mapping s)[lb := int ?t], ni_mapping_top := ?t - 1,
            ni_mapping_changed := (ni_mapping_changed (set_bad ?pb s) + 1) mod 2 ^ 32, ni_page := buf, ni_dev := d\<rparr>)))"
      (is "_ = (_, snd (nmbm_update_info_table nc nd ?s2))")
    and bd: "(let d0 = snd (bbt_nand_erase (nc_conf nc) nd ?t (ni_dev s)) in
       (buf, d) = (if n > 0 then snd (bbt_nand_copy (nc_conf nc) nd ?t ?pb n (ni_page s, d0)) else (ni_page s, d0)))"
    by (rule remap_to_top [OF assms(2-4) t(1) assms(5), where n = n and nd = nd])
  have "P d" using bd io(1) [OF assms(8)] io(2) [of "snd (bbt_nand_erase (nc_conf nc) nd ?t (ni_dev s))" ?pb n "ni_page s"]
    by (auto simp: Let_def split: if_splits dest: arg_cong [where f = snd])
  have "tables_ok nc ?s2" using tab by (simp add: tables_ok_def info_fits_def)
  then have ok2: "nmbm_ok nc ?s2" "map_at ?s2 = (map_at s)(lb := int ?t)"
    by (intro nmbm_ok_take [OF assms(2-4)]; simp)+
  have "mgmt_area ?s2 \<subseteq> {ni_mgmt_start s..?t}" by (auto simp: mgmt_area_def)
  then have "apart nc nd (mgmt_area ?s2) P" using assms(7) by (auto simp: apart_def)
  then have "sound nc P ?s2 s'" "ok"
    using update_sound(1) [OF assms(1), of nd ?s2 P] ok2 assms(9) r by (auto simp: nmbm_ok_def)
  then have m: "maintain (mgmt_area ?s2) P ?s2 s'" "tables_ok nc s'" by (simp_all add: sound_def)
  then have "map_at s' = map_at ?s2" by (simp add: maintain_def map_at_def fun_eq_iff)
  moreover have "nmbm_ok nc s'" using ok2(1) m calculation by (simp add: maintain_def nmbm_ok_def)
  moreover have "nmbm_get_block_state s' ?pb = BLOCK_ST_BAD"
    using maintain_bad [OF m(1)] set_bad_bad [of ?pb s] by (simp add: nmbm_get_block_state_def)
  ultimately show ?thesis using ok2 m \<open>ok\<close> \<open>P d\<close> by (simp add: maintain_def)
qed

text \<open>A chip of eight blocks: three logical ones, the table behind them, spare blocks up to block 6.\<close>

definition demo_nmbm_conf :: nmbm_conf where
  "demo_nmbm_conf = \<lparr>nc_conf = demo_conf, nc_crc = (\<lambda>c s. 0), nc_ecc_strength = 4, nc_max_ratio = 1, nc_max_reserved = 256,
     nc_empty_page_ecc_ok = False, nc_force_create = True\<rparr>"

definition demo_nmbm :: "(nat \<Rightarrow> char) nmbm" where
  "demo_nmbm = (nmbm_init_structure demo_nmbm_conf [] (\<lambda>_. CHR ''x''))\<lparr>
     ni_mapping := [0, 1, 2, -1, -1, -1, -1, -1], ni_data_blocks := 3, ni_mgmt_start := 3, ni_main_table := 3,
     ni_mapping_blocks := 4, ni_mapping_top := 6, ni_signature_ba := 7\<rparr>"

lemma demo_nmbm_conf_ok: "conf_ok demo_nmbm_conf"
  by (simp add: conf_ok_def demo_nmbm_conf_def demo_conf_def)

lemma demo_nmbm_ok: "nmbm_ok demo_nmbm_conf demo_nmbm"
proof -
  have "m < 3 \<Longrightarrow> m = 0 \<or> m = 1 \<or> m = (2::nat)" for m by linarith
  then show ?thesis
    by (auto simp: nmbm_ok_def tables_ok_def info_fits_def demo_nmbm_def nmbm_init_structure_def map_at_def demo_nmbm_conf_def
        demo_conf_def state_table_size_def mapping_table_size_def info_table_size_def mapping_table_off_def state_table_off_def
        round_up_def nth_Cons' inj_on_def)
qed

lemma demo_nmbm_good: "nmbm_get_block_state demo_nmbm 6 = BLOCK_ST_GOOD"
  by (simp add: nmbm_get_block_state_def nmbm_get_block_state_raw_def state_unit_def demo_nmbm_def nmbm_init_structure_def
      state_table_size_def demo_nmbm_conf_def demo_conf_def) (simp add: mask_eq_exp_minus_1)

lemma demo_nmbm_apart: "apart demo_nmbm_conf ram_nand {3..6} (\<lambda>d. \<forall>x<48. d x = CHR ''x'')"
  by (auto simp: apart_def ram_nand_def ba2addr_def demo_nmbm_conf_def demo_conf_def)

theorem nmbm_remap_takes_spare_witness:
  "(case remap_block_nmbm demo_nmbm_conf ram_nand 1 1 1 demo_nmbm of (ok, s') \<Rightarrow>
     ok \<and> nmbm_ok demo_nmbm_conf s' \<and> map (get_mapping_block_index_nmbm s') [0, 1, 2] = [0, 6, 2] \<and>
     nmbm_get_block_state s' 1 = BLOCK_ST_BAD \<and> map (ni_dev s') [0..<48] = replicate 48 (CHR ''x''))"
proof -
  obtain ok s' where r: "remap_block_nmbm demo_nmbm_conf ram_nand 1 1 1 demo_nmbm = (ok, s')" by fastforce
  have f: "ni_data_blocks demo_nmbm = 3" "ni_mgmt_start demo_nmbm = 3" "ni_mapping_top demo_nmbm = 6" "ni_mapping_blocks demo_nmbm = 4"
    "map_at demo_nmbm 0 = 0" "map_at demo_nmbm (Suc 0) = 1" "map_at demo_nmbm 2 = 2" "ni_dev demo_nmbm = (\<lambda>_. CHR ''x'')"
    by (simp_all add: demo_nmbm_def nmbm_init_structure_def map_at_def)
  have "\<forall>a ops d. length (fst (snd (fst (nd_read ram_nand a ops d)))) \<le> o_len ops" by (simp add: ram_nand_def)
  then have *: "ok \<and> nmbm_ok demo_nmbm_conf s' \<and> (\<forall>x<48. ni_dev s' x = CHR ''x'') \<and> ni_data_blocks s' = 3 \<and>
      map_at s' = (map_at demo_nmbm)(1 := 6) \<and> nmbm_get_block_state s' 1 = BLOCK_ST_BAD"
    using nmbm_remap_takes_spare [OF demo_nmbm_conf_ok demo_nmbm_ok, of 1 ram_nand "\<lambda>d. \<forall>x<48. d x = CHR ''x''" 1 ok s']
      r demo_nmbm_good demo_nmbm_apart by (simp add: f)
  then have "map (ni_dev s') [0..<48] = replicate 48 (CHR ''x'')" by (intro nth_equalityI) simp_all
  with * show ?thesis using r f by (simp add: get_mapping_block_index_nmbm_def)
qed

text \<open>
  Storing the tables ends, over any driver, and touches nothing but the management area: the mapping stays, what is
  stored outside stays, only good blocks of the area become bad; and when it succeeds nothing is left to be stored.\<close>

lemma nmbm_update_confined:
  assumes "conf_ok nc" "tables_ok nc s" "ni_mgmt_start s \<le> ni_mapping_top s" "apart nc nd (mgmt_area s) P" "P (ni_dev s)"
    "nmbm_update_info_table nc nd s = (ok, s')"
  shows "P (ni_dev s') \<and> tables_ok nc s' \<and> ni_mapping s' = ni_mapping s \<and> ni_mapping_top s' = ni_mapping_top s \<and>
    worse (mgmt_area s) (ni_block_state s) (ni_block_state s') \<and> (ok \<and> \<not> ni_protected s \<longrightarrow> \<not> changed s')"
  using update_sound [OF assms(1,4,2,3)] assms(5,6) by (simp add: sound_def maintain_def)


end
