(* ===== verification/Bytes.thy ===== *)
theory Bytes
  imports CLib
begin

text \<open>
  Numbers as bytes in network order and as decimal text, with the lemmas that the IP calculator and the
  translation catalogues share.
\<close>

subsection \<open>Bytes in network order\<close>

text \<open>The number a list of bytes stands for, most significant byte first, and its bytes.\<close>

definition be_val :: "nat list \<Rightarrow> nat" where
  "be_val bs = foldl (\<lambda>v b. 256 * v + b) 0 bs"

fun be_bytes :: "nat \<Rightarrow> nat \<Rightarrow> nat list" where
  "be_bytes 0 v = []"
| "be_bytes (Suc n) v = be_bytes n (v div 256) @ [v mod 256]"

fun le_val :: "nat list \<Rightarrow> nat" where
  "le_val [] = 0"
| "le_val (b # bs) = b + 256 * le_val bs"

abbreviation (input) bytes :: "nat list \<Rightarrow> bool" where
  "bytes bs \<equiv> list_all (\<lambda>b. b < 256) bs"

lemma be_val_snoc [simp]: "be_val (bs @ [b]) = 256 * be_val bs + b" "be_val [] = 0"
  by (simp_all add: be_val_def)

lemma be_val_single [simp]: "be_val [b] = b"
  by (simp add: be_val_def)

lemma be_val_rev: "be_val (rev bs) = le_val bs"
  by (induction bs) simp_all

lemma be_val_le: "be_val bs = le_val (rev bs)"
  using be_val_rev [of "rev bs"] by simp

lemma le_val_bound: "bytes bs \<Longrightarrow> le_val bs < 256 ^ length bs"
proof (induction bs)
  case (Cons b bs)
  then have "b < 256" "le_val bs + 1 \<le> 256 ^ length bs" by auto
  then have "b + 256 * le_val bs < 256 * (le_val bs + 1)" by simp
  also have "\<dots> \<le> 256 * 256 ^ length bs" using \<open>le_val bs + 1 \<le> _\<close> by (intro mult_le_mono2)
  finally show ?case by simp
qed simp

lemma be_val_bound: "bytes bs \<Longrightarrow> be_val bs < 256 ^ length bs"
  using le_val_bound [of "rev bs"] by (simp add: be_val_le list_all_iff)

lemma be_bytes_length [simp]: "length (be_bytes n v) = n"
  by (induction n arbitrary: v) simp_all

lemma be_bytes_bytes: "bytes (be_bytes n v)"
  by (induction n arbitrary: v) simp_all

lemma be_val_be_bytes: "be_val (be_bytes n v) = v mod 256 ^ n"
proof (induction n arbitrary: v)
  case (Suc n)
  then show ?case by (simp add: mod_mult2_eq [of v 256 "256 ^ n"] ac_simps)
qed simp

lemma be_bytes_be_val: "bytes bs \<Longrightarrow> be_bytes (length bs) (be_val bs) = bs"
  by (induction bs rule: rev_induct) simp_all

lemma be_val_append: "be_val (xs @ ys) = be_val xs * 256 ^ length ys + be_val ys"
  by (induction ys rule: rev_induct) (simp_all add: algebra_simps flip: append_assoc)

lemma be_val_inj: "length xs = length ys \<Longrightarrow> bytes xs \<Longrightarrow> bytes ys \<Longrightarrow> be_val xs = be_val ys \<longleftrightarrow> xs = ys"
  using be_bytes_be_val by metis

lemma be_val_zeros [simp]: "be_val (replicate i 0) = 0"
  by (induction i) (simp_all add: be_val_def)

lemma bytes_zeros [simp]: "bytes (replicate i 0)"
  by (auto simp: list_all_iff)

lemma nth_byte: "bytes bs \<Longrightarrow> j < length bs \<Longrightarrow> bs ! j < 256"
  by (simp add: list_all_length)

lemma bytes_take: "bytes bs \<Longrightarrow> bytes (take n bs)"
  by (auto simp: list_all_iff dest: in_set_takeD)

subsection \<open>Decimal text\<close>

lemma dec_nat_digits: "list_all isdigit (dec_nat n) \<and> dec_nat n \<noteq> [] \<and> digits_value 10 (dec_nat n) = n"
proof (induction n rule: dec_nat.induct)
  case (1 n)
  have digit: "isdigit (char_of (48 + d)) \<and> the (digit_value (char_of (48 + d))) = d" if "d < 10" for d :: nat
    using that by (simp add: isdigit_def digit_value_def Let_def)
  show ?case
  proof (cases "n < 10")
    case True
    then show ?thesis using digit [OF True] by (simp add: dec_nat.simps [of n] digits_value_def)
  next
    case False
    then show ?thesis using 1 digit [of "n mod 10"]
      by (subst (1 2 3) dec_nat.simps [of n]) (simp add: digits_value_def list_all_append)
  qed
qed

lemma dec_nat_length: "n < 10 ^ Suc k \<Longrightarrow> length (dec_nat n) \<le> Suc k"
proof (induction k arbitrary: n)
  case 0
  then show ?case by (simp add: dec_nat.simps [of n])
next
  case (Suc k)
  then have "n div 10 < 10 ^ Suc k" by (simp add: less_mult_imp_div_less mult.commute)
  from Suc.IH [OF this] show ?case by (subst dec_nat.simps) simp
qed

lemma dec_nat_hd: "0 < n \<Longrightarrow> hd (dec_nat n) \<noteq> CHR ''0''"
proof (induction n rule: dec_nat.induct)
  case (1 n)
  show ?case
  proof (cases "n < 10")
    case True
    have "char_of (48 + n) \<noteq> CHR ''0''"
    proof
      assume "char_of (48 + n) = CHR ''0''"
      then have "(of_char (char_of (48 + n) :: char) :: nat) = of_char CHR ''0''" by simp
      then show False using True "1.prems" by simp
    qed
    then show ?thesis using True by (simp add: dec_nat.simps [of n])
  next
    case False
    then show ?thesis using 1 dec_nat_digits [of "n div 10"] by (subst dec_nat.simps) (simp add: hd_append)
  qed
qed

lemma dec_nat_free: "\<not> isdigit c \<Longrightarrow> c \<notin> set (dec_nat n)"
  using dec_nat_digits [of n] by (auto simp: list_all_iff)

lemma not_digit: "\<not> isdigit CHR ''.''" "\<not> isdigit CHR ''/''" "isdigit c \<Longrightarrow> \<not> isspace c"
  by (auto simp: isdigit_def isspace_def Let_def)

lemma digit_in_10: "isdigit c \<Longrightarrow> is_digit_in 10 c"
  by (auto simp: isdigit_def is_digit_in_def digit_value_def Let_def)

lemma strtou_dec:
  assumes "n < 2 ^ w"
  shows "strtou w 10 (dec_nat n) = n" "strtou_end 10 (dec_nat n) = []"
proof -
  have d: "list_all isdigit (dec_nat n)" "dec_nat n \<noteq> []" "digits_value 10 (dec_nat n) = n" using dec_nat_digits [of n] by auto
  obtain c cs where c: "dec_nat n = c # cs" "isdigit c" using d by (cases "dec_nat n") auto
  have sign: "c \<noteq> CHR ''-''" "c \<noteq> CHR ''+''" using c(2) by (auto simp: isdigit_def Let_def)
  have all: "\<And>x. x \<in> set (dec_nat n) \<Longrightarrow> is_digit_in 10 x" using d digit_in_10 by (auto simp: list_all_iff)
  then have run: "takeWhile (is_digit_in 10) (dec_nat n) = dec_nat n" "dropWhile (is_digit_in 10) (dec_nat n) = []"
    by (simp_all add: takeWhile_eq_all_conv dropWhile_eq_Nil_conv)
  have sp: "dropWhile isspace (dec_nat n) = dec_nat n" using c not_digit(3) by simp
  have hd: "hd (dec_nat n) \<noteq> CHR ''-''" "hd (dec_nat n) \<noteq> CHR ''+''" "is_digit_in 10 (hd (dec_nat n))"
    using c sign digit_in_10 by auto
  show "strtou w 10 (dec_nat n) = n" using assms d hd by (simp add: strtou_def sp run strtou_base_def Let_def)
  show "strtou_end 10 (dec_nat n) = []" using d hd by (simp add: strtou_end_def sp run strtou_base_def Let_def)
qed

end
