(* ===== verification/OwIpcalc.thy ===== *)
theory OwIpcalc
  imports Bytes
begin

text \<open>
  The IP calculator of OpenWrt (src/package/net/owipcalc/src/owipcalc.c, owipcalc.h and main.c): a stack
  machine on IPv4 and IPv6 prefixes, with one operation per argument of the command line.

  An address is its bytes in network order (natural numbers below 256). \<open>s_addr\<close> reads the first four as the
  machine does: the parameter \<open>be\<close> says whether it is big endian. The bytes an IPv4 address leaves
  unset are 0 here; no operation reads them. A shift count of 32 or more, an index outside an address and a
  null pointer make the behaviour undefined, the value \<open>None\<close>; \<open>int\<close> arithmetic wraps, \<open>unsigned long\<close> has
  64 bits and memory does not run out. The text form of IPv6
  addresses is the C library's, the parameter \<open>inet6\<close>. Messages on standard error are not recorded.
\<close>

unbundle bit_operations_syntax

subsection \<open>Addresses\<close>

datatype family = AF_INET | AF_INET6

record cidr =
  family :: family
  prefix :: nat
  addr :: "nat list"

record inet6 =
  pton6 :: "string \<Rightarrow> nat list option"
  ntop6 :: "nat list \<Rightarrow> string"

definition s_addr :: "bool \<Rightarrow> nat list \<Rightarrow> nat" where
  "s_addr be bs = be_val (if be then take 4 bs else rev (take 4 bs))"

definition set_s_addr :: "bool \<Rightarrow> nat \<Rightarrow> nat list \<Rightarrow> nat list" where
  "set_s_addr be v bs = (if be then be_bytes 4 v else rev (be_bytes 4 v)) @ drop 4 bs"

definition htonl :: "bool \<Rightarrow> nat \<Rightarrow> nat" where
  "htonl be v = (if be then v else be_val (rev (be_bytes 4 v)))"

abbreviation (input) ntohl :: "bool \<Rightarrow> nat \<Rightarrow> nat" where "ntohl \<equiv> htonl"

text \<open>\<open>inet_pton(AF_INET, ...)\<close> and \<open>inet_ntop(AF_INET, ...)\<close>.\<close>

definition pton_octet :: "string \<Rightarrow> nat option" where
  "pton_octet s =
     (if s = [] \<or> 3 < length s \<or> \<not> list_all isdigit s \<or> (1 < length s \<and> hd s = CHR ''0'') \<or> 255 < digits_value 10 s
      then None else Some (digits_value 10 s))"

definition inet_pton4 :: "string \<Rightarrow> nat list option" where
  "inet_pton4 s =
     (let os = map pton_octet (split_on (CHR ''.'') s) in
      if length os = 4 \<and> None \<notin> set os then Some (map the os) else None)"

definition inet_ntop4 :: "nat list \<Rightarrow> string" where
  "inet_ntop4 bs =
     dec_nat (bs ! 0) @ ''.'' @ dec_nat (bs ! 1) @ ''.'' @ dec_nat (bs ! 2) @ ''.'' @ dec_nat (bs ! 3)"

subsection \<open>The machine\<close>

record calc =
  k_stack :: "cidr list"
  k_quiet :: bool
  k_printed :: bool
  k_out :: string

definition qprintf :: "string \<Rightarrow> calc \<Rightarrow> calc" where
  "qprintf s k = k\<lparr>k_out := (if k_quiet k then k_out k else k_out k @ s), k_printed := True\<rparr>"

definition qspace :: "calc \<Rightarrow> calc" where
  "qspace k = (if k_printed k then qprintf '' '' k else k)"

definition cidr_push :: "cidr \<Rightarrow> calc \<Rightarrow> calc" where
  "cidr_push a k = k\<lparr>k_stack := a # k_stack k\<rparr>"

definition cidr_pop :: "calc \<Rightarrow> bool \<times> calc" where
  "cidr_pop k = (case k_stack k of [] \<Rightarrow> (False, k) | _ # st \<Rightarrow> (True, k\<lparr>k_stack := st\<rparr>))"

text \<open>\<open>1 << n\<close> of an \<open>int\<close>, seen as 32 bits; the count is a \<open>uint32_t\<close>.\<close>

definition shl1 :: "nat \<Rightarrow> nat option" where
  "shl1 n = (if n < 32 then Some (2 ^ n) else None)"

definition u32_sub :: "nat \<Rightarrow> nat \<Rightarrow> nat" where
  "u32_sub a b = nat ((int a - int b) mod 2 ^ 32)"

text \<open>\<open>(1 << (32 - prefix)) - 1\<close> and its complement.\<close>

definition host_mask :: "nat \<Rightarrow> nat option" where
  "host_mask p = map_option (\<lambda>m. m - 1) (shl1 (u32_sub 32 p))"

definition net_mask :: "nat \<Rightarrow> nat option" where
  "net_mask p = map_option (\<lambda>m. 2 ^ 32 - 1 - m) (host_mask p)"

subsection \<open>IPv4\<close>

definition popcount :: "nat \<Rightarrow> nat" where
  "popcount v = length (filter (bit v) [0..<32])"

definition cidr_parse4 :: "string \<Rightarrow> cidr option" where
  "cidr_parse4 s =
     (if length s \<ge> 33 then None
      else
        let has_p = (CHR ''/'' \<in> set s);
            host = takeWhile (\<lambda>c. c \<noteq> CHR ''/'') s;
            p = tl (dropWhile (\<lambda>c. c \<noteq> CHR ''/'') s);
            pref = (if \<not> has_p then Some 32
                    else if CHR ''.'' \<in> set p then map_option (\<lambda>m. popcount (be_val m)) (inet_pton4 p)
                    else let n = strtou 64 10 p mod 2 ^ 32; r = strtou_end 10 p in
                         if r = p \<or> r \<noteq> [] \<or> n > 32 then None else Some n)
        in case pref of None \<Rightarrow> None
           | Some n \<Rightarrow>
               (case (if has_p \<and> host = [] then Some [0, 0, 0, 0] else inet_pton4 host) of
                  None \<Rightarrow> None
                | Some bs \<Rightarrow> Some \<lparr>family = AF_INET, prefix = n, addr = bs @ replicate 12 0\<rparr>))"

text \<open>
  The operations of one argument take the address \<open>a\<close> on top of the stack, those of two a second one \<open>b\<close>. The
  result is the truth value returned.
\<close>

type_synonym op1 = "cidr \<Rightarrow> calc \<Rightarrow> (bool \<times> calc) option"
type_synonym op2 = "cidr \<Rightarrow> cidr \<Rightarrow> calc \<Rightarrow> (bool \<times> calc) option"

definition cidr_add4 :: "bool \<Rightarrow> op2" where
  "cidr_add4 be a b k =
     (let x = ntohl be (s_addr be (addr a)); y = ntohl be (s_addr be (addr b)); n = a in
      if family n \<noteq> AF_INET \<or> family b \<noteq> AF_INET then Some (False, cidr_push n k)
      else if (x + y) mod 2 ^ 32 < x then Some (False, cidr_push n k)
      else Some (True, cidr_push (n\<lparr>addr := set_s_addr be (htonl be ((x + y) mod 2 ^ 32)) (addr n)\<rparr>) k))"

definition cidr_sub4 :: "bool \<Rightarrow> op2" where
  "cidr_sub4 be a b k =
     (let x = ntohl be (s_addr be (addr a)); y = ntohl be (s_addr be (addr b)); n = a in
      if family n \<noteq> AF_INET \<or> family b \<noteq> AF_INET then Some (False, cidr_push n k)
      else if u32_sub x y > x then Some (False, cidr_push n k)
      else Some (True, cidr_push (n\<lparr>addr := set_s_addr be (htonl be (u32_sub x y)) (addr n)\<rparr>) k))"

definition cidr_network4 :: "bool \<Rightarrow> op1" where
  "cidr_network4 be a k =
     (case net_mask (prefix a) of None \<Rightarrow> None
      | Some m \<Rightarrow> Some (True, cidr_push (a\<lparr>addr := set_s_addr be (s_addr be (addr a) AND htonl be m) (addr a), prefix := 32\<rparr>) k))"

definition cidr_broadcast4 :: "bool \<Rightarrow> op1" where
  "cidr_broadcast4 be a k =
     (case host_mask (prefix a) of None \<Rightarrow> None
      | Some m \<Rightarrow> Some (True, cidr_push (a\<lparr>addr := set_s_addr be (s_addr be (addr a) OR htonl be m) (addr a), prefix := 32\<rparr>) k))"

definition qanswer :: "bool \<Rightarrow> calc \<Rightarrow> (bool \<times> calc) option" where
  "qanswer yes k = Some (yes, qprintf (if yes then ''1'' else ''0'') (qspace k))"

definition cidr_contains4 :: "bool \<Rightarrow> op2" where
  "cidr_contains4 be a b k =
     (case net_mask (prefix a) of None \<Rightarrow> None
      | Some m \<Rightarrow>
          let net1 = s_addr be (addr a) AND htonl be m; net2 = s_addr be (addr b) AND htonl be m
          in qanswer (prefix a = 0 \<or> (prefix b \<ge> prefix a \<and> net1 = net2)) k)"

definition cidr_netmask4 :: "bool \<Rightarrow> op1" where
  "cidr_netmask4 be a k =
     (case net_mask (prefix a) of None \<Rightarrow> None
      | Some m \<Rightarrow> Some (True, cidr_push (a\<lparr>addr := set_s_addr be (htonl be m) (addr a), prefix := 32\<rparr>) k))"

definition cidr_private4 :: "bool \<Rightarrow> op1" where
  "cidr_private4 be a k =
     (let x = ntohl be (s_addr be (addr a)) in
      qanswer ((x \<ge> 0x0A000000 \<and> x \<le> 0x0AFFFFFF) \<or> (x \<ge> 0xAC100000 \<and> x \<le> 0xAC1FFFFF) \<or>
               (x \<ge> 0xC0A80000 \<and> x \<le> 0xC0A8FFFF)) k)"

definition cidr_linklocal4 :: "bool \<Rightarrow> op1" where
  "cidr_linklocal4 be a k =
     (let x = ntohl be (s_addr be (addr a)) in qanswer (x \<ge> 0xA9FE0000 \<and> x \<le> 0xA9FEFFFF) k)"

definition cidr_prev4 :: "bool \<Rightarrow> op2" where
  "cidr_prev4 be a b k =
     (case shl1 (u32_sub 32 (prefix b)) of None \<Rightarrow> None
      | Some m \<Rightarrow> Some (True, cidr_push (a\<lparr>prefix := prefix b, addr := set_s_addr be (u32_sub (s_addr be (addr a)) (htonl be m)) (addr a)\<rparr>) k))"

definition cidr_next4 :: "bool \<Rightarrow> op2" where
  "cidr_next4 be a b k =
     (case shl1 (u32_sub 32 (prefix b)) of None \<Rightarrow> None
      | Some m \<Rightarrow> Some (True, cidr_push (a\<lparr>prefix := prefix b, addr := set_s_addr be ((s_addr be (addr a) + htonl be m) mod 2 ^ 32) (addr a)\<rparr>) k))"

definition cidr_6to4 :: "bool \<Rightarrow> op1" where
  "cidr_6to4 be a k =
     (let x = s_addr be (addr a) in
      Some (True, cidr_push \<lparr>family = AF_INET6, prefix = 48, addr = [0x20, 0x02] @ be_bytes 4 x @ replicate 10 0\<rparr> k))"

definition cidr_print4 :: "op1" where
  "cidr_print4 a k =
     (if family a \<noteq> AF_INET then Some (False, k)
      else
        let k = qprintf (inet_ntop4 (addr a)) (qspace k);
            k = (if prefix a < 32 then qprintf (''/'' @ dec_nat (prefix a)) k else k)
        in Some (True, snd (cidr_pop k)))"

subsection \<open>IPv6\<close>

definition cidr_parse6 :: "inet6 \<Rightarrow> string \<Rightarrow> cidr option" where
  "cidr_parse6 I s =
     (if length s \<ge> 51 then None
      else
        let has_p = (CHR ''/'' \<in> set s);
            host = takeWhile (\<lambda>c. c \<noteq> CHR ''/'') s;
            p = tl (dropWhile (\<lambda>c. c \<noteq> CHR ''/'') s);
            pref = (if \<not> has_p then Some 128
                    else let n = strtou 64 10 p mod 2 ^ 32; r = strtou_end 10 p in
                         if r = p \<or> r \<noteq> [] \<or> n > 128 then None else Some n)
        in case pref of None \<Rightarrow> None
           | Some n \<Rightarrow>
               (case (if has_p \<and> host = [] then Some (replicate 16 0) else pton6 I host) of
                  None \<Rightarrow> None
                | Some bs \<Rightarrow> Some \<lparr>family = AF_INET6, prefix = n, addr = bs\<rparr>))"

text \<open>The loops from the last byte to the first, on the reversed bytes; the carry is a \<open>uint8_t\<close>.\<close>

fun add_bytes :: "nat list \<Rightarrow> nat list \<Rightarrow> nat \<Rightarrow> nat list \<times> nat" where
  "add_bytes (x # xs) (y # ys) carry =
     (let overflow = (if x + y + carry \<ge> 256 then 1 else 0);
          (zs, c) = add_bytes xs ys overflow
      in ((x + y + carry) mod 256 # zs, c))"
| "add_bytes xs ys carry = (xs, carry)"

fun sub_bytes :: "nat list \<Rightarrow> nat list \<Rightarrow> nat \<Rightarrow> nat list \<times> nat" where
  "sub_bytes (x # xs) (y # ys) carry =
     (let underflow = (if int x - int y - int carry < 0 then 1 else 0);
          (zs, c) = sub_bytes xs ys underflow
      in (nat ((int x - int (y + carry)) mod 256) # zs, c))"
| "sub_bytes xs ys carry = (xs, carry)"

definition cidr_add6 :: "op2" where
  "cidr_add6 a b k =
     (if family a \<noteq> AF_INET6 \<or> family b \<noteq> AF_INET6 then Some (False, cidr_push a k)
      else let (zs, c) = add_bytes (rev (addr a)) (rev (addr b)) 0
           in Some (c = 0, cidr_push (a\<lparr>addr := rev zs\<rparr>) k))"

definition cidr_sub6 :: "op2" where
  "cidr_sub6 a b k =
     (if family a \<noteq> AF_INET6 \<or> family b \<noteq> AF_INET6 then Some (False, cidr_push a k)
      else let (zs, c) = sub_bytes (rev (addr a)) (rev (addr b)) 0
           in Some (c = 0, cidr_push (a\<lparr>addr := rev zs\<rparr>) k))"

text \<open>\<open>prev\<close> and \<open>next\<close> work on the bytes 0 to \<open>idx\<close>, adding or subtracting 1 at byte \<open>idx\<close>.\<close>

definition cidr_prev6 :: "op2" where
  "cidr_prev6 a b k =
     (if prefix b = 0 then Some (False, cidr_push a k)
      else
        let idx = ((prefix b - 1) div 8) mod 256 in
        if idx > 15 then None
        else
          let hi = rev (take (idx + 1) (addr a));
              (zs, c) = sub_bytes hi (replicate (length hi) 0) 1;
              n = a\<lparr>addr := rev zs @ drop (idx + 1) (addr a)\<rparr>
          in Some (if c \<noteq> 0 then (False, cidr_push n k) else (True, cidr_push (n\<lparr>prefix := prefix b\<rparr>) k)))"

definition cidr_next6 :: "op2" where
  "cidr_next6 a b k =
     (if prefix b = 0 then Some (False, cidr_push a k)
      else
        let idx = ((prefix b - 1) div 8) mod 256 in
        if idx > 15 then None
        else
          let hi = rev (take (idx + 1) (addr a));
              (zs, c) = add_bytes hi (replicate (length hi) 0) 1;
              n = a\<lparr>addr := rev zs @ drop (idx + 1) (addr a)\<rparr>
          in Some (if c \<noteq> 0 then (False, cidr_push n k) else (True, cidr_push (n\<lparr>prefix := prefix b\<rparr>) k)))"

definition cidr_network6 :: "op1" where
  "cidr_network6 a k =
     (if prefix a > 128 then None
      else
        let i = (128 - prefix a) div 8; r = (128 - prefix a) mod 8;
            bs = take (16 - i) (addr a) @ replicate i 0;
            bs = (if r \<noteq> 0 then bs[15 - i := (bs ! (15 - i)) AND (256 - 2 ^ r)] else bs)
        in Some (True, cidr_push (a\<lparr>addr := bs\<rparr>) k))"

definition cidr_contains6 :: "op2" where
  "cidr_contains6 a b k =
     (let i = (u32_sub 128 (prefix a) div 8) mod 16;
          m = 256 - 2 ^ (u32_sub 128 (prefix a) mod 8);
          net1 = (addr a ! (15 - i)) AND m;
          net2 = (addr b ! (15 - i)) AND m
      in qanswer (prefix a = 0 \<or> (prefix b \<ge> prefix a \<and> net1 = net2 \<and>
           (i = 15 \<or> take (15 - i) (addr a) = take (15 - i) (addr b)))) k)"

definition cidr_linklocal6 :: "op1" where
  "cidr_linklocal6 a k = qanswer (addr a ! 0 = 0xFE \<and> addr a ! 1 \<ge> 0x80 \<and> addr a ! 1 \<le> 0xBF) k"

definition cidr_ula6 :: "op1" where
  "cidr_ula6 a k = qanswer (addr a ! 0 \<ge> 0xFC \<and> addr a ! 0 \<le> 0xFD) k"

definition cidr_print6 :: "inet6 \<Rightarrow> op1" where
  "cidr_print6 I a k =
     (if family a \<noteq> AF_INET6 then Some (False, k)
      else
        let k = qprintf (ntop6 I (addr a)) (qspace k);
            k = (if prefix a < 128 then qprintf (''/'' @ dec_nat (prefix a)) k else k)
        in Some (True, snd (cidr_pop k)))"

subsection \<open>Arguments and the command line\<close>

text \<open>\<open>cidr_parse\<close>: an address, or nothing when it is not valid, or the end of the process with status 4.\<close>

datatype parse_result = Parsed cidr | Invalid | Mismatch

definition cidr_parse :: "bool \<Rightarrow> inet6 \<Rightarrow> string \<Rightarrow> family \<Rightarrow> parse_result" where
  "cidr_parse be I s af_hint =
     (let sum = strtou 64 0 s mod 2 ^ 32; r = strtou_end 0 s in
      if r \<noteq> s \<and> r = [] then
        Parsed (if af_hint = AF_INET
                then \<lparr>family = AF_INET, prefix = sum, addr = set_s_addr be (htonl be sum) (replicate 16 0)\<rparr>
                else \<lparr>family = AF_INET6, prefix = sum, addr = be_bytes 16 sum\<rparr>)
      else
        case (if CHR '':'' \<in> set s then cidr_parse6 I s else cidr_parse4 s) of
          None \<Rightarrow> Invalid
        | Some a \<Rightarrow> if family a \<noteq> af_hint then Mismatch else Parsed a)"

definition cidr_howmany :: "op2" where
  "cidr_howmany a b k =
     (if prefix b < prefix a then Some (True, qprintf ''0'' (qspace k))
      else case shl1 (prefix b - prefix a) of None \<Rightarrow> None
           | Some n \<Rightarrow> Some (True, qprintf (dec_nat n) (qspace k)))"

text \<open>\<open>cidr_prefix\<close> changes the address on the stack itself.\<close>

definition cidr_prefix :: "op2" where
  "cidr_prefix a b k =
     Some (True, k\<lparr>k_stack := (case k_stack k of [] \<Rightarrow> [] | t # st \<Rightarrow> t\<lparr>prefix := prefix b\<rparr> # st)\<rparr>)"

definition cidr_quiet :: "op1" where
  "cidr_quiet a k = Some (True, k\<lparr>k_quiet := True\<rparr>)"

record op =
  op_name :: string
  f4a1 :: "op1 option"
  f4a2 :: "op2 option"
  f6a1 :: "op1 option"
  f6a2 :: "op2 option"

definition op_a1 :: "string \<Rightarrow> op1 option \<Rightarrow> op1 option \<Rightarrow> op" where
  "op_a1 name f4 f6 = \<lparr>op_name = name, f4a1 = f4, f4a2 = None, f6a1 = f6, f6a2 = None\<rparr>"

definition op_a2 :: "string \<Rightarrow> op2 option \<Rightarrow> op2 option \<Rightarrow> op" where
  "op_a2 name f4 f6 = \<lparr>op_name = name, f4a1 = None, f4a2 = f4, f6a1 = None, f6a2 = f6\<rparr>"

definition pop_op :: "op1" where
  "pop_op a k = Some (cidr_pop k)"

definition ops :: "bool \<Rightarrow> inet6 \<Rightarrow> op list" where
  "ops be I =
     [op_a2 ''add'' (Some (cidr_add4 be)) (Some cidr_add6), op_a2 ''sub'' (Some (cidr_sub4 be)) (Some cidr_sub6),
      op_a2 ''next'' (Some (cidr_next4 be)) (Some cidr_next6), op_a2 ''prev'' (Some (cidr_prev4 be)) (Some cidr_prev6),
      op_a1 ''network'' (Some (cidr_network4 be)) (Some cidr_network6), op_a1 ''broadcast'' (Some (cidr_broadcast4 be)) None,
      op_a2 ''prefix'' (Some cidr_prefix) (Some cidr_prefix), op_a1 ''netmask'' (Some (cidr_netmask4 be)) None,
      op_a1 ''6to4'' (Some (cidr_6to4 be)) None, op_a2 ''howmany'' (Some cidr_howmany) (Some cidr_howmany),
      op_a2 ''contains'' (Some (cidr_contains4 be)) (Some cidr_contains6), op_a1 ''private'' (Some (cidr_private4 be)) None,
      op_a1 ''linklocal'' (Some (cidr_linklocal4 be)) (Some cidr_linklocal6), op_a1 ''ula'' None (Some cidr_ula6),
      op_a1 ''quiet'' (Some cidr_quiet) (Some cidr_quiet), op_a1 ''pop'' (Some pop_op) (Some pop_op),
      op_a1 ''print'' (Some cidr_print4) (Some (cidr_print6 I))]"

text \<open>
  \<open>runop\<close>: it goes on with the remaining arguments and a new status, or stops there (the arguments that
  \<open>*arg\<close> points to, and the status), or ends the process, or has no defined behaviour.
\<close>

datatype run_result = Go "string list" int calc | Halt "string list" int calc | Exits int calc | Undefined

definition finish_op :: "string list \<Rightarrow> (bool \<times> calc) option \<Rightarrow> run_result" where
  "finish_op args r = (case r of None \<Rightarrow> Undefined | Some (ok, k) \<Rightarrow> Go args (if ok then 0 else 1) k)"

definition runop :: "bool \<Rightarrow> inet6 \<Rightarrow> string list \<Rightarrow> int \<Rightarrow> calc \<Rightarrow> run_result" where
  "runop be I args status k =
     (case args of [] \<Rightarrow> Halt args status k
      | arg1 # rest \<Rightarrow>
          (case List.find (\<lambda>p. op_name p = arg1) (ops be I) of
             None \<Rightarrow> Halt args status k
           | Some p \<Rightarrow>
               if f4a2 p \<noteq> None \<or> f6a2 p \<noteq> None then
                 (case rest of [] \<Rightarrow> Halt args 2 k
                  | arg2 # rest2 \<Rightarrow>
                      (case k_stack k of [] \<Rightarrow> Undefined
                       | a # _ \<Rightarrow>
                           (case cidr_parse be I arg2 (family a) of
                              Mismatch \<Rightarrow> Exits 4 k
                            | Invalid \<Rightarrow> Halt args 3 k
                            | Parsed b \<Rightarrow>
                                (case (if family a = AF_INET then f4a2 p else f6a2 p) of
                                   None \<Rightarrow> Halt rest2 5 k
                                 | Some f \<Rightarrow> finish_op rest2 (f a b k)))))
               else
                 (case k_stack k of [] \<Rightarrow> Undefined
                  | a # _ \<Rightarrow>
                      (case (if family a = AF_INET then f4a1 p else f6a1 p) of
                         None \<Rightarrow> Halt rest 5 k
                       | Some f \<Rightarrow> finish_op rest (f a k)))))"

lemma runop_consumes:
  "runop be I args status k = Go args' status' k' \<Longrightarrow> length args' < length args"
  by (auto simp: runop_def finish_op_def split: list.splits option.splits if_splits parse_result.splits prod.splits)

function runops :: "bool \<Rightarrow> inet6 \<Rightarrow> string list \<Rightarrow> int \<Rightarrow> calc \<Rightarrow> run_result" where
  "runops be I args status k =
     (case runop be I args status k of Go args' status' k' \<Rightarrow> runops be I args' status' k' | r \<Rightarrow> r)"
  by pat_completeness auto
termination
  by (relation "measure (\<lambda>(be, I, args, status, k). length args)") (auto dest: runop_consumes)

declare runops.simps [simp del]

definition print_top :: "inet6 \<Rightarrow> calc \<Rightarrow> calc option" where
  "print_top I k =
     (case k_stack k of [] \<Rightarrow> None
      | a # _ \<Rightarrow> map_option snd (if family a = AF_INET then cidr_print4 a k else cidr_print6 I a k))"

text \<open>The arguments after the name of the program: the exit status and the output, or no defined behaviour.\<close>

definition ipcalc_main :: "bool \<Rightarrow> inet6 \<Rightarrow> string list \<Rightarrow> (int \<times> string) option" where
  "ipcalc_main be I argv =
     (case argv of
        base # arg # args \<Rightarrow>
          (case (if CHR '':'' \<in> set base then cidr_parse6 I base else cidr_parse4 base) of
             None \<Rightarrow> Some (1, [])
           | Some a \<Rightarrow>
               (case runops be I (arg # args) 0 \<lparr>k_stack = [a], k_quiet = False, k_printed = False, k_out = []\<rparr> of
                  Exits st k \<Rightarrow> Some (st, k_out k)
                | Halt rest st k \<Rightarrow>
                    if rest \<noteq> [] then Some (6, k_out k)
                    else
                      (case (if \<not> k_printed k \<and> st < 2 then print_top I k else Some k) of
                         None \<Rightarrow> None
                       | Some k \<Rightarrow> Some (st, k_out (qprintf [newline] k)))
                | _ \<Rightarrow> None))
      | _ \<Rightarrow> Some (1, []))"

lemma mult_add_eq_iff: "(x::nat) < n \<Longrightarrow> y < n \<Longrightarrow> n * p + x = n * q + y \<longleftrightarrow> p = q \<and> x = y"
proof -
  assume lt: "x < n" "y < n"
  then have "(n * p + x) div n = p" "(n * q + y) div n = q" by simp_all
  then show ?thesis by auto
qed

subsection \<open>Addition and subtraction\<close>

lemma add_bytes_spec:
  "length xs = length ys \<Longrightarrow> bytes xs \<Longrightarrow> bytes ys \<Longrightarrow> carry \<le> 1 \<Longrightarrow>
   (case add_bytes xs ys carry of (zs, c) \<Rightarrow>
      length zs = length xs \<and> bytes zs \<and> c \<le> 1 \<and> le_val zs + c * 256 ^ length xs = le_val xs + le_val ys + carry)"
proof (induction xs ys carry rule: add_bytes.induct)
  case (1 x xs y ys carry)
  define o' where "o' = (if x + y + carry \<ge> 256 then 1 else (0::nat))"
  obtain zs c where r: "add_bytes xs ys o' = (zs, c)" by fastforce
  have IH: "length zs = length xs" "bytes zs" "c \<le> 1" "le_val zs + c * 256 ^ length xs = le_val xs + le_val ys + o'"
    using "1.IH" [OF o'_def] r "1.prems" by (auto simp: o'_def)
  have "(x + y + carry) mod 256 + 256 * o' = x + y + carry"
    using "1.prems" by (auto simp: o'_def mod_if)
  then have "(x + y + carry) mod 256 + 256 * le_val zs + c * (256 * 256 ^ length xs) = x + 256 * le_val xs + (y + 256 * le_val ys) + carry"
    using IH(4) by (simp add: algebra_simps)
  then show ?case using IH r by (simp add: o'_def [symmetric])
qed auto

lemma sub_bytes_spec:
  "length xs = length ys \<Longrightarrow> bytes xs \<Longrightarrow> bytes ys \<Longrightarrow> carry \<le> 1 \<Longrightarrow>
   (case sub_bytes xs ys carry of (zs, c) \<Rightarrow>
      length zs = length xs \<and> bytes zs \<and> c \<le> 1 \<and> le_val zs + le_val ys + carry = le_val xs + c * 256 ^ length xs)"
proof (induction xs ys carry rule: sub_bytes.induct)
  case (1 x xs y ys carry)
  define u where "u = (if int x - int y - int carry < 0 then 1 else (0::nat))"
  define z where "z = nat ((int x - int (y + carry)) mod 256)"
  obtain zs c where r: "sub_bytes xs ys u = (zs, c)" by fastforce
  have IH: "length zs = length xs" "bytes zs" "c \<le> 1" "le_val zs + le_val ys + u = le_val xs + c * 256 ^ length xs"
    using "1.IH" [OF u_def] r "1.prems" by (auto simp: u_def)
  have "int z = int x + 256 * int u - int y - int carry"
  proof (cases "int x - int y - int carry < 0")
    case True
    have "(int x - int (y + carry)) mod 256 = (int x - int (y + carry) + 256) mod 256" by simp
    also have "\<dots> = int x - int (y + carry) + 256" using True "1.prems" by (intro mod_pos_pos_trivial) auto
    finally show ?thesis using True "1.prems" by (simp add: z_def u_def)
  next
    case False
    then have "(int x - int (y + carry)) mod 256 = int x - int (y + carry)" using "1.prems" by (intro mod_pos_pos_trivial) auto
    then show ?thesis using False by (simp add: z_def u_def)
  qed
  then have z: "z + y + carry = x + 256 * u" by linarith
  have "z < 256" by (simp add: z_def nat_less_iff)
  have "z + 256 * le_val zs + (y + 256 * le_val ys) + carry = x + 256 * le_val xs + c * (256 * 256 ^ length xs)"
    using z IH(4) by (simp add: algebra_simps)
  moreover have "sub_bytes (x # xs) (y # ys) carry = (z # zs, c)"
    by (simp only: sub_bytes.simps Let_def u_def [symmetric] z_def [symmetric] r case_prod_conv)
  ultimately show ?case using IH \<open>z < 256\<close> by simp
qed auto

definition addr_ok :: "cidr \<Rightarrow> bool" where
  "addr_ok a \<longleftrightarrow> length (addr a) = 16 \<and> bytes (addr a)"

text \<open>
  C38. IPv6 addition and subtraction, done byte by byte with a carry, are those of 128 bit numbers: the new
  address on the stack is the sum or the difference modulo \<open>2\<^sup>1\<^sup>2\<^sup>8\<close>, with the prefix of the base, the base
  stays below it, and failure is reported exactly when the true result is outside the range.
\<close>

theorem ipcalc_arith6:
  assumes "addr_ok a" "addr_ok b" "family a = AF_INET6" "family b = AF_INET6"
  shows "\<exists>s d. addr_ok s \<and> addr_ok d \<and> family s = AF_INET6 \<and> family d = AF_INET6 \<and> prefix s = prefix a \<and> prefix d = prefix a \<and>
     cidr_add6 a b k = Some (be_val (addr a) + be_val (addr b) < 2 ^ 128, cidr_push s k) \<and>
     be_val (addr s) = (be_val (addr a) + be_val (addr b)) mod 2 ^ 128 \<and>
     cidr_sub6 a b k = Some (be_val (addr b) \<le> be_val (addr a), cidr_push d k) \<and>
     int (be_val (addr d)) = (int (be_val (addr a)) - int (be_val (addr b))) mod 2 ^ 128"
proof -
  let ?X = "be_val (addr a)" and ?Y = "be_val (addr b)"
  obtain zs c where add: "add_bytes (rev (addr a)) (rev (addr b)) 0 = (zs, c)" by fastforce
  obtain ws e where sub: "sub_bytes (rev (addr a)) (rev (addr b)) 0 = (ws, e)" by fastforce
  have pow: "(256::nat) ^ 16 = 2 ^ 128" by simp
  have A: "length zs = 16" "bytes zs" "c \<le> 1" "le_val zs + c * 2 ^ 128 = ?X + ?Y"
    using add_bytes_spec [of "rev (addr a)" "rev (addr b)" 0] assms add by (auto simp: addr_ok_def be_val_le list_all_iff)
  have S: "length ws = 16" "bytes ws" "e \<le> 1" "le_val ws + ?Y = ?X + e * 2 ^ 128"
    using sub_bytes_spec [of "rev (addr a)" "rev (addr b)" 0] assms sub by (auto simp: addr_ok_def be_val_le list_all_iff)
  have lt: "le_val zs < 2 ^ 128" "le_val ws < 2 ^ 128"
    using le_val_bound [OF A(2)] le_val_bound [OF S(2)] A(1) S(1) by simp_all
  have "(?X + ?Y) mod 2 ^ 128 = le_val zs" using A(4) lt(1) by (metis mod_less mod_mult_self2 mult.commute)
  moreover have "c = 0 \<longleftrightarrow> ?X + ?Y < 2 ^ 128" using A(3,4) lt(1) by (cases c) auto
  moreover have "(int ?X - int ?Y) mod 2 ^ 128 = int (le_val ws)"
  proof -
    have "int (le_val ws) + int ?Y = int ?X + int e * 2 ^ 128" using arg_cong [OF S(4), of int] by simp
    then have "int ?X - int ?Y = int (le_val ws) + 2 ^ 128 * (- int e)" by (simp add: algebra_simps)
    then have "(int ?X - int ?Y) mod 2 ^ 128 = int (le_val ws) mod 2 ^ 128" by (simp only: mod_mult_self2)
    also have "\<dots> = int (le_val ws)" using lt(2) by (intro mod_pos_pos_trivial) simp_all
    finally show ?thesis .
  qed
  moreover have "e = 0 \<longleftrightarrow> ?Y \<le> ?X" using S(3,4) lt(2) by (cases e) auto
  ultimately show ?thesis
    using A S assms add sub
    by (intro exI [of _ "a\<lparr>addr := rev zs\<rparr>"] exI [of _ "a\<lparr>addr := rev ws\<rparr>"])
      (simp add: cidr_add6_def cidr_sub6_def addr_ok_def be_val_rev list_all_iff)
qed

subsection \<open>Bitwise operations on bytes\<close>

lemma byte_take_bit: "(b::nat) < 256 \<longleftrightarrow> take_bit 8 b = b"
  by (simp add: take_bit_nat_eq_self_iff)

lemma byte_bit: "(b::nat) < 256 \<Longrightarrow> bit b n \<Longrightarrow> n < 8"
  by (metis bit_take_bit_iff byte_take_bit)

lemma bit_byte:
  assumes "b < 256"
  shows "bit (256 * a + b) n = (if n < 8 then bit b n else bit (a::nat) (n - 8))"
proof -
  have "256 * a + b = push_bit 8 a + b" by (simp add: push_bit_eq_mult)
  moreover have "\<And>n. \<not> bit (push_bit 8 a) n \<or> \<not> bit b n" using byte_bit [OF assms] by (fastforce simp: bit_push_bit_iff)
  ultimately have "bit (256 * a + b) n = (bit (push_bit 8 a) n \<or> bit b n)" by (simp only: bit_disjunctive_add_iff)
  then show ?thesis using byte_bit [OF assms, of n] by (auto simp: bit_push_bit_iff)
qed

lemma byte_ops: "(b::nat) < 256 \<Longrightarrow> d < 256 \<Longrightarrow> b AND d < 256" "(b::nat) < 256 \<Longrightarrow> d < 256 \<Longrightarrow> b OR d < 256"
  by (simp_all add: byte_take_bit)

lemma and_byte: "b < 256 \<Longrightarrow> d < 256 \<Longrightarrow> (256 * a + b) AND (256 * c + d) = 256 * (a AND c) + ((b::nat) AND d)"
  by (rule bit_eqI) (simp add: bit_and_iff bit_byte byte_ops)

lemma or_byte: "b < 256 \<Longrightarrow> d < 256 \<Longrightarrow> (256 * a + b) OR (256 * c + d) = 256 * (a OR c) + ((b::nat) OR d)"
  by (rule bit_eqI) (simp add: bit_or_iff bit_byte byte_ops)

lemma set_s_addr_s_addr: "length xs = 4 \<Longrightarrow> bytes xs \<Longrightarrow> set_s_addr be (s_addr be (xs @ ys)) zs = xs @ drop 4 zs"
  using be_bytes_be_val [of xs] be_bytes_be_val [of "rev xs"] by (simp add: set_s_addr_def s_addr_def list_all_iff)

lemma s_addr_inj:
  "length xs = 4 \<Longrightarrow> bytes xs \<Longrightarrow> length ys = 4 \<Longrightarrow> bytes ys \<Longrightarrow> s_addr be (xs @ us) = s_addr be (ys @ vs) \<longleftrightarrow> xs = ys"
  using be_val_inj [of xs ys] be_val_inj [of "rev xs" "rev ys"] by (simp add: s_addr_def list_all_iff)

text \<open>A bitwise operation that works on each byte for itself.\<close>

locale bytewise =
  fixes f :: "nat \<Rightarrow> nat \<Rightarrow> nat"
  assumes byte_step: "b < 256 \<Longrightarrow> d < 256 \<Longrightarrow> f (256 * a + b) (256 * c + d) = 256 * f a c + f b d"
    and byte_closed: "b < 256 \<Longrightarrow> d < 256 \<Longrightarrow> f b d < 256"
    and zero: "f 0 0 = 0"
begin

lemma be_val_map2:
  "length xs = length ys \<Longrightarrow> bytes xs \<Longrightarrow> bytes ys \<Longrightarrow> f (be_val xs) (be_val ys) = be_val (map2 f xs ys)"
proof (induction xs arbitrary: ys rule: rev_induct)
  case Nil
  then show ?case by (simp add: zero)
next
  case (snoc x xs)
  then obtain y ys' where "ys = ys' @ [y]" by (metis append_Nil2 append_is_Nil_conv length_0_conv rev_exhaust snoc_eq_iff_butlast)
  then show ?case using snoc by (simp add: byte_step)
qed

lemma bytes_map2: "bytes xs \<Longrightarrow> bytes ys \<Longrightarrow> bytes (map2 f xs ys)"
  by (auto simp: list_all_iff intro!: byte_closed dest: set_zip_leftD set_zip_rightD)

lemma s_addr_htonl:
  assumes "4 \<le> length bs" "bytes bs" "m < 2 ^ 32"
  shows "f (s_addr be bs) (htonl be m) = s_addr be (map2 f (take 4 bs) (be_bytes 4 m) @ drop 4 bs)"
proof -
  have b: "bytes (take 4 bs)" using assms(2) by (auto simp: list_all_iff dest: in_set_takeD)
  have m: "m = be_val (be_bytes 4 m)" using assms(3) by (simp add: be_val_be_bytes)
  show ?thesis
  proof (cases be)
    case True
    then show ?thesis using be_val_map2 [of "take 4 bs" "be_bytes 4 m"] m b be_bytes_bytes [of 4 m] assms(1)
      by (simp add: s_addr_def htonl_def)
  next
    case False
    have "f (be_val (rev (take 4 bs))) (be_val (rev (be_bytes 4 m))) = be_val (map2 f (rev (take 4 bs)) (rev (be_bytes 4 m)))"
      using b be_bytes_bytes [of 4 m] assms(1) by (intro be_val_map2) (simp_all add: list_all_iff)
    then show ?thesis using False assms(1) by (simp add: s_addr_def htonl_def zip_rev rev_map)
  qed
qed

text \<open>Masking in the byte order of the machine is masking of the value of the address.\<close>

lemma set_s_addr_masked:
  assumes "4 \<le> length bs" "bytes bs" "m < 2 ^ 32"
  shows "be_val (take 4 (set_s_addr be (f (s_addr be bs) (htonl be m)) bs)) = f (be_val (take 4 bs)) m"
    and "bytes (set_s_addr be (f (s_addr be bs) (htonl be m)) bs)"
    and "length (set_s_addr be (f (s_addr be bs) (htonl be m)) bs) = length bs"
proof -
  let ?z = "map2 f (take 4 bs) (be_bytes 4 m)"
  have b: "bytes (take 4 bs)" and d: "bytes (drop 4 bs)"
    using assms(2) by (auto simp: list_all_iff dest: in_set_takeD in_set_dropD)
  have z: "bytes ?z" "length ?z = 4" using bytes_map2 [OF b be_bytes_bytes] assms(1) by simp_all
  have "set_s_addr be (f (s_addr be bs) (htonl be m)) bs = ?z @ drop 4 bs"
    unfolding s_addr_htonl [OF assms] using z by (simp add: set_s_addr_s_addr)
  moreover have "be_val ?z = f (be_val (take 4 bs)) m"
    using be_val_map2 [of "take 4 bs" "be_bytes 4 m"] b be_bytes_bytes [of 4 m] assms(1,3) by (simp add: be_val_be_bytes)
  ultimately show "be_val (take 4 (set_s_addr be (f (s_addr be bs) (htonl be m)) bs)) = f (be_val (take 4 bs)) m"
    "bytes (set_s_addr be (f (s_addr be bs) (htonl be m)) bs)"
    "length (set_s_addr be (f (s_addr be bs) (htonl be m)) bs) = length bs"
    using z d assms(1) by simp_all
qed

lemma s_addr_masked_eq:
  assumes "4 \<le> length xs" "bytes xs" "4 \<le> length ys" "bytes ys" "m < 2 ^ 32"
  shows "f (s_addr be xs) (htonl be m) = f (s_addr be ys) (htonl be m) \<longleftrightarrow> f (be_val (take 4 xs)) m = f (be_val (take 4 ys)) m"
proof -
  have b: "bytes (take 4 xs)" "bytes (take 4 ys)" using assms(2,4) by (auto simp: list_all_iff dest: in_set_takeD)
  let ?x = "map2 f (take 4 xs) (be_bytes 4 m)" and ?y = "map2 f (take 4 ys) (be_bytes 4 m)"
  have z: "bytes ?x" "length ?x = 4" "bytes ?y" "length ?y = 4"
    using bytes_map2 [OF _ be_bytes_bytes] b assms by simp_all
  have "s_addr be (?x @ drop 4 xs) = s_addr be (?y @ drop 4 ys) \<longleftrightarrow> ?x = ?y"
    using z by (intro s_addr_inj) simp_all
  also have "\<dots> \<longleftrightarrow> be_val ?x = be_val ?y" using be_val_inj [of ?x ?y] z by simp
  also have "\<dots> \<longleftrightarrow> f (be_val (take 4 xs)) m = f (be_val (take 4 ys)) m"
    using be_val_map2 [of "take 4 xs" "be_bytes 4 m"] be_val_map2 [of "take 4 ys" "be_bytes 4 m"] b be_bytes_bytes [of 4 m] assms
    by (simp add: be_val_be_bytes)
  finally show ?thesis using s_addr_htonl [OF assms(1,2,5)] s_addr_htonl [OF assms(3,4,5)] by simp
qed

end

interpretation and_bytes: bytewise "\<lambda>x y. x AND y"
  by unfold_locales (simp_all add: and_byte byte_ops)

interpretation or_bytes: bytewise "\<lambda>x y. x OR y"
  by unfold_locales (simp_all add: or_byte byte_ops)

subsection \<open>Prefixes as sets of addresses\<close>

text \<open>The addresses of \<open>W\<close> bits that share the first \<open>p\<close> bits with \<open>X\<close>.\<close>

definition block :: "nat \<Rightarrow> nat \<Rightarrow> nat \<Rightarrow> nat set" where
  "block W p X = {Z. Z < 2 ^ W \<and> Z div 2 ^ (W - p) = X div 2 ^ (W - p)}"

lemma div_pow_mono: "x div 2 ^ k = y div (2 ^ k :: nat) \<Longrightarrow> k \<le> l \<Longrightarrow> x div 2 ^ l = y div 2 ^ l"
  by (metis div_exp_eq le_add_diff_inverse)

lemma block_least:
  fixes k W X :: nat
  assumes "X < 2 ^ W" "k \<le> W"
  shows "X div 2 ^ k * 2 ^ k + (2 ^ k - 1) < 2 ^ W"
proof -
  have "X div 2 ^ k < 2 ^ (W - k)" using assms by (simp add: less_mult_imp_div_less flip: power_add)
  then have "Suc (X div 2 ^ k) * 2 ^ k \<le> 2 ^ (W - k) * 2 ^ k" by (intro mult_le_mono1) simp
  also have "\<dots> = 2 ^ W" using assms(2) by (simp flip: power_add)
  finally have "X div 2 ^ k * 2 ^ k + 2 ^ k \<le> 2 ^ W" by simp
  then show ?thesis using zero_less_power [of "2::nat" k] by linarith
qed

lemma block_sub_same: "Z \<in> block W p X \<Longrightarrow> Z div 2 ^ (W - p) = X div 2 ^ (W - p)"
  by (simp add: block_def)

lemma block_subset:
  assumes "X < 2 ^ W" "Y < 2 ^ W" "p \<le> W" "q \<le> W"
  shows "block W q Y \<subseteq> block W p X \<longleftrightarrow> p = 0 \<or> (p \<le> q \<and> X div 2 ^ (W - p) = Y div 2 ^ (W - p))"
proof (cases "p \<le> q")
  case True
  have step: "Z div 2 ^ (W - p) = Y div 2 ^ (W - p)" if "Z \<in> block W q Y" for Z
    by (rule div_pow_mono [OF block_sub_same [OF that]]) (use True in simp)
  have self: "Y \<in> block W q Y" using assms(2) by (simp add: block_def)
  have zero: "X div 2 ^ (W - p) = Y div 2 ^ (W - p)" if "p = 0" using that assms by simp
  have "block W q Y \<subseteq> block W p X \<longleftrightarrow> X div 2 ^ (W - p) = Y div 2 ^ (W - p)" (is "?l \<longleftrightarrow> ?r")
  proof
    assume ?l
    then show ?r using block_sub_same [of Y W p X] self by auto
  next
    assume r: ?r
    show ?l
    proof
      fix Z assume "Z \<in> block W q Y"
      then show "Z \<in> block W p X" using step [of Z] r by (simp add: block_def)
    qed
  qed
  then show ?thesis using True zero by blast
next
  case False
  let ?K = "2 ^ (W - q) :: nat" and ?k = "2 ^ (W - p) :: nat"
  have "Suc (W - p) \<le> W - q" using False assms(3) by simp
  then have kk: "?k * 2 \<le> ?K" using power_increasing [of "Suc (W - p)" "W - q" "2::nat"] by simp
  have pos: "0 < ?k" by simp
  have less: "?k < ?K" using kk pos by linarith
  define Z where "Z = Y div ?K * ?K"
  have low: "Z + (?K - 1) < 2 ^ W" unfolding Z_def by (rule block_least [OF assms(2)]) simp
  have ge: "?k \<le> ?K - 1" using less by linarith
  have "Z < 2 ^ W" using low by linarith
  then have inZ: "Z \<in> block W q Y" by (simp add: block_def Z_def)
  have "(Z + ?k) div ?K = Y div ?K" unfolding Z_def using less by simp
  then have inZk: "Z + ?k \<in> block W q Y" using order_le_less_trans [OF add_left_mono [OF ge] low] by (simp add: block_def)
  have "\<not> block W q Y \<subseteq> block W p X"
  proof
    assume "block W q Y \<subseteq> block W p X"
    then have "(Z + ?k) div ?k = X div ?k" "Z div ?k = X div ?k"
      using block_sub_same [of _ W p X] inZ inZk by blast+
    moreover have "(Z + ?k) div ?k = Suc (Z div ?k)" using pos by (simp only: div_add_self2)
    ultimately show False by linarith
  qed
  then show ?thesis using False by blast
qed


lemma block_Min_Max:
  assumes "X < 2 ^ W" "p \<le> W"
  shows "Min (block W p X) = X div 2 ^ (W - p) * 2 ^ (W - p)"
    and "Max (block W p X) = X div 2 ^ (W - p) * 2 ^ (W - p) + (2 ^ (W - p) - 1)"
proof -
  let ?k = "2 ^ (W - p) :: nat"
  define L where "L = X div ?k * ?k"
  have fin: "finite (block W p X)" by (rule finite_subset [of _ "{..<2 ^ W}"]) (auto simp: block_def)
  have high: "L + (?k - 1) < 2 ^ W" unfolding L_def by (rule block_least [OF assms(1)]) simp
  have pos: "0 < ?k" by simp
  have div: "(L + j) div ?k = X div ?k" if "j < ?k" for j unfolding L_def using that by simp
  have mem: "L + j \<in> block W p X" if "j < ?k" for j
    using div [OF that] that high by (simp add: block_def)
  have split: "L \<le> Z \<and> Z \<le> L + (?k - 1)" if "Z \<in> block W p X" for Z
  proof -
    have "Z = X div ?k * ?k + Z mod ?k" using block_sub_same [OF that] div_mult_mod_eq [of Z ?k] by simp
    moreover have "Z mod ?k < ?k" using pos by (rule mod_less_divisor)
    ultimately show ?thesis unfolding L_def by linarith
  qed
  show "Min (block W p X) = X div ?k * ?k"
    using mem [OF pos] split fin unfolding L_def [symmetric] by (intro Min_eqI) auto
  have "?k - 1 < ?k" using pos by linarith
  then show "Max (block W p X) = X div ?k * ?k + (?k - 1)"
    using mem [of "?k - 1"] split fin unfolding L_def [symmetric] by (intro Max_eqI) auto
qed

lemma bit_below: "(x::nat) < 2 ^ w \<Longrightarrow> bit x n \<Longrightarrow> n < w"
  by (metis bit_take_bit_iff take_bit_nat_eq_self_iff)

lemma high_mask: "k \<le> w \<Longrightarrow> 2 ^ w - 2 ^ k = (push_bit k (mask (w - k)) :: nat)"
  by (simp add: push_bit_eq_mult mask_eq_exp_minus_1 diff_mult_distrib flip: power_add)

lemma and_high_mask:
  assumes "(x::nat) < 2 ^ w" "k \<le> w"
  shows "x AND (2 ^ w - 2 ^ k) = x div 2 ^ k * 2 ^ k"
proof -
  have "x AND push_bit k (mask (w - k)) = push_bit k (drop_bit k x)"
    by (rule bit_eqI) (use bit_below [OF assms(1)] in \<open>auto simp: bit_and_iff bit_push_bit_iff bit_mask_iff bit_drop_bit_eq intro!: diff_less_mono\<close>)
  then show ?thesis by (simp add: high_mask [OF assms(2)] push_bit_eq_mult drop_bit_eq_div)
qed

lemma or_low_mask: "(x::nat) OR (2 ^ k - 1) = x div 2 ^ k * 2 ^ k + (2 ^ k - 1)"
proof -
  have "push_bit k (drop_bit k x) + mask k = (x OR mask k :: nat)"
    by (rule bit_eqI) (subst bit_disjunctive_add_iff, auto simp: bit_or_iff bit_push_bit_iff bit_mask_iff bit_drop_bit_eq)
  then show ?thesis by (simp add: push_bit_eq_mult drop_bit_eq_div mask_eq_exp_minus_1)
qed

subsection \<open>Containment, network and broadcast address\<close>

definition width :: "cidr \<Rightarrow> nat" where
  "width a = (case family a of AF_INET \<Rightarrow> 32 | AF_INET6 \<Rightarrow> 128)"

definition addr_value :: "cidr \<Rightarrow> nat" where
  "addr_value a = be_val (take (width a div 8) (addr a))"

definition cidr_block :: "cidr \<Rightarrow> nat set" where
  "cidr_block a = block (width a) (prefix a) (addr_value a)"

definition cidr_ok :: "cidr \<Rightarrow> bool" where
  "cidr_ok a \<longleftrightarrow> addr_ok a \<and> prefix a \<le> width a"

lemma host_mask_ok: "0 < p \<Longrightarrow> p \<le> 32 \<Longrightarrow> host_mask p = Some (2 ^ (32 - p) - 1)"
proof -
  assume p: "0 < p" "p \<le> 32"
  then have "u32_sub 32 p = 32 - p" by (simp add: u32_sub_def)
  then show ?thesis using p by (simp add: host_mask_def shl1_def)
qed

lemma net_mask_ok: "0 < p \<Longrightarrow> p \<le> 32 \<Longrightarrow> net_mask p = Some (2 ^ 32 - 2 ^ (32 - p))"
proof -
  assume p: "0 < p" "p \<le> 32"
  have "(0::nat) < 2 ^ (32 - p)" by simp
  then have "(2::nat) ^ 32 - 1 - (2 ^ (32 - p) - 1) = 2 ^ 32 - 2 ^ (32 - p)" by linarith
  then show ?thesis using host_mask_ok [OF p] by (simp add: net_mask_def)
qed

lemma high_mask_less: "(2::nat) ^ w - 2 ^ k < 2 ^ w"
  by (rule diff_less) simp_all

lemma addr_value_bound: "addr_ok a \<Longrightarrow> addr_value a < 2 ^ width a"
proof -
  assume ok: "addr_ok a"
  then have "bytes (take (width a div 8) (addr a))" by (auto simp: addr_ok_def list_all_iff dest: in_set_takeD)
  from be_val_bound [OF this] ok show ?thesis
    by (cases "family a") (simp_all add: addr_value_def width_def addr_ok_def)
qed

lemma contains4_block:
  assumes "cidr_ok a" "cidr_ok b" "family a = AF_INET" "family b = AF_INET" "0 < prefix a"
  shows "cidr_contains4 be a b k = qanswer (cidr_block b \<subseteq> cidr_block a) k"
proof -
  let ?m = "2 ^ 32 - 2 ^ (32 - prefix a) :: nat"
  have p: "prefix a \<le> 32" "prefix b \<le> 32" using assms by (simp_all add: cidr_ok_def width_def)
  have ok: "addr_ok a" "addr_ok b" using assms by (simp_all add: cidr_ok_def)
  have v: "addr_value a = be_val (take 4 (addr a))" "addr_value b = be_val (take 4 (addr b))"
    using assms by (simp_all add: addr_value_def width_def)
  have lt: "addr_value a < 2 ^ 32" "addr_value b < 2 ^ 32"
    using addr_value_bound [OF ok(1)] addr_value_bound [OF ok(2)] assms by (simp_all add: width_def)
  have "s_addr be (addr a) AND htonl be ?m = s_addr be (addr b) AND htonl be ?m \<longleftrightarrow> addr_value a AND ?m = addr_value b AND ?m"
    unfolding v using ok by (intro and_bytes.s_addr_masked_eq high_mask_less) (simp_all add: addr_ok_def)
  also have "\<dots> \<longleftrightarrow> addr_value a div 2 ^ (32 - prefix a) = addr_value b div 2 ^ (32 - prefix a)"
    unfolding and_high_mask [OF lt(1) diff_le_self] and_high_mask [OF lt(2) diff_le_self] by simp
  finally show ?thesis
    using assms p by (simp add: cidr_contains4_def net_mask_ok cidr_block_def width_def block_subset [OF lt p])
qed

text \<open>An IPv6 address around the byte that the prefix ends in: \<open>i\<close> whole bytes and \<open>r\<close> bits of one are host bits.\<close>

lemma addr_split:
  assumes "length bs = 16" "i \<le> 15"
  shows "bs = take (15 - i) bs @ bs ! (15 - i) # drop (16 - i) bs"
proof -
  have "15 - i < length bs" "Suc (15 - i) = 16 - i" using assms by auto
  then show ?thesis using id_take_nth_drop [of "15 - i" bs] by metis
qed

lemma addr_value_split:
  assumes "length bs = 16" "bytes bs" "i \<le> 15"
  shows "be_val bs div 256 ^ i = 256 * be_val (take (15 - i) bs) + bs ! (15 - i)"
proof -
  let ?pre = "take (15 - i) bs" and ?x = "bs ! (15 - i)" and ?post = "drop (16 - i) bs"
  have post: "be_val ?post < 256 ^ i" using be_val_bound [of ?post] assms by (auto simp: list_all_iff dest: in_set_dropD)
  have "be_val bs = be_val ((?pre @ [?x]) @ ?post)" using addr_split [OF assms(1,3)] by simp
  also have "\<dots> = (256 * be_val ?pre + ?x) * 256 ^ i + be_val ?post" unfolding be_val_append using assms by simp
  finally show ?thesis using post by simp
qed

lemma div_host_bits: "(x::nat) div 2 ^ d = x div 256 ^ (d div 8) div 2 ^ (d mod 8)"
proof -
  have "(2::nat) ^ d = 256 ^ (d div 8) * 2 ^ (d mod 8)"
    using power_add [of "2::nat" "8 * (d div 8)" "d mod 8"] by (simp add: power_mult)
  then show ?thesis by (simp add: div_mult2_eq)
qed

lemma byte_div:
  assumes "r < 8"
  shows "(256 * p + x) div 2 ^ r = 2 ^ (8 - r) * p + (x::nat) div 2 ^ r"
proof -
  have "(256::nat) = 2 ^ r * 2 ^ (8 - r)" using assms by (simp flip: power_add)
  then have "256 * p + x = x + 2 ^ r * (2 ^ (8 - r) * p)" by (metis add.commute mult.assoc)
  also have "\<dots> div 2 ^ r = 2 ^ (8 - r) * p + x div 2 ^ r" by (rule div_mult_self2) simp
  finally show ?thesis .
qed

lemma byte_high_less: "r < 8 \<Longrightarrow> (x::nat) < 256 \<Longrightarrow> x div 2 ^ r < 2 ^ (8 - r)"
  by (rule less_mult_imp_div_less) (simp flip: power_add)

lemma same_prefix6:
  assumes "length xs = 16" "bytes xs" "length ys = 16" "bytes ys" "d < 128"
  defines "i \<equiv> d div 8" and "r \<equiv> d mod 8"
  shows "be_val xs div 2 ^ d = be_val ys div 2 ^ d \<longleftrightarrow>
     take (15 - i) xs = take (15 - i) ys \<and> (xs ! (15 - i)) AND (256 - 2 ^ r) = (ys ! (15 - i)) AND (256 - 2 ^ r)"
proof -
  let ?x = "xs ! (15 - i)" and ?y = "ys ! (15 - i)"
  have i: "i \<le> 15" and r: "r < 8" using assms(5) by (auto simp: i_def r_def)
  have b: "?x < 256" "?y < 256" using nth_byte assms by auto
  have val: "be_val bs div 2 ^ d = 2 ^ (8 - r) * be_val (take (15 - i) bs) + bs ! (15 - i) div 2 ^ r"
    if "length bs = 16" "bytes bs" for bs
    unfolding div_host_bits [of _ d] i_def [symmetric] r_def [symmetric] addr_value_split [OF that i] by (rule byte_div [OF r])
  have mask: "z AND (256 - 2 ^ r) = z div 2 ^ r * 2 ^ r" if "z < 256" for z :: nat
    using and_high_mask [of z 8 r] that r by simp
  have "be_val xs div 2 ^ d = be_val ys div 2 ^ d \<longleftrightarrow>
    be_val (take (15 - i) xs) = be_val (take (15 - i) ys) \<and> ?x div 2 ^ r = ?y div 2 ^ r"
    unfolding val [OF assms(1,2)] val [OF assms(3,4)]
    using byte_high_less [OF r b(1)] byte_high_less [OF r b(2)] by (rule mult_add_eq_iff)
  also have "be_val (take (15 - i) xs) = be_val (take (15 - i) ys) \<longleftrightarrow> take (15 - i) xs = take (15 - i) ys"
    using assms by (intro be_val_inj bytes_take) simp_all
  finally show ?thesis by (simp add: mask [OF b(1)] mask [OF b(2)])
qed

lemma contains6_block:
  assumes "cidr_ok a" "cidr_ok b" "family a = AF_INET6" "family b = AF_INET6"
  shows "cidr_contains6 a b k = qanswer (cidr_block b \<subseteq> cidr_block a) k"
proof -
  let ?d = "128 - prefix a"
  have p: "prefix a \<le> 128" "prefix b \<le> 128" using assms by (simp_all add: cidr_ok_def width_def)
  have ok: "length (addr a) = 16" "bytes (addr a)" "length (addr b) = 16" "bytes (addr b)"
    using assms by (simp_all add: cidr_ok_def addr_ok_def)
  have v: "addr_value a = be_val (addr a)" "addr_value b = be_val (addr b)"
    using assms ok by (simp_all add: addr_value_def width_def)
  have lt: "addr_value a < 2 ^ 128" "addr_value b < 2 ^ 128"
    using addr_value_bound [of a] addr_value_bound [of b] assms by (simp_all add: width_def cidr_ok_def)
  have u: "u32_sub 128 (prefix a) = ?d" using p by (simp add: u32_sub_def)
  have d: "prefix a \<noteq> 0 \<Longrightarrow> ?d < 128" by simp
  have i: "prefix a \<noteq> 0 \<Longrightarrow> (?d div 8) mod 16 = ?d div 8" by simp
  have blk: "cidr_block b \<subseteq> cidr_block a \<longleftrightarrow>
    prefix a = 0 \<or> prefix a \<le> prefix b \<and> be_val (addr a) div 2 ^ ?d = be_val (addr b) div 2 ^ ?d"
    using block_subset [OF lt p] assms v by (simp add: cidr_block_def width_def)
  show ?thesis
  proof (cases "prefix a = 0")
    case True
    then show ?thesis unfolding cidr_contains6_def blk by (simp add: Let_def)
  next
    case False
    show ?thesis
      unfolding cidr_contains6_def blk same_prefix6 [OF ok d [OF False]] Let_def u i [OF False]
      using False by (intro arg_cong [where f = "\<lambda>c. qanswer c k"]) auto
  qed
qed

text \<open>
  C36. The operation \<open>contains\<close> answers the question whether every address of the argument's prefix is an address
  of the base prefix, for both families and for both byte orders. (The prefix length 0 of an IPv4 base shifts by
  32 and is excluded.)
\<close>

theorem ipcalc_contains:
  assumes "cidr_ok a" "cidr_ok b" "family a = family b" "family a = AF_INET \<longrightarrow> 0 < prefix a"
  shows "(if family a = AF_INET then cidr_contains4 be a b k else cidr_contains6 a b k) =
     qanswer (cidr_block b \<subseteq> cidr_block a) k"
  using contains4_block [of a b be k] contains6_block [of a b k] assms by (cases "family a") auto

lemma pushed4:
  assumes "cidr_ok a" "family a = AF_INET" "be_val (take 4 bs) = v" "bytes bs" "length bs = length (addr a)"
  shows "cidr_ok (a\<lparr>addr := bs, prefix := 32\<rparr>) \<and> family (a\<lparr>addr := bs, prefix := 32\<rparr>) = AF_INET \<and>
    addr_value (a\<lparr>addr := bs, prefix := 32\<rparr>) = v"
  using assms by (simp add: cidr_ok_def addr_ok_def addr_value_def width_def)

lemma cidr_block4:
  assumes "cidr_ok a" "family a = AF_INET"
  shows "Min (cidr_block a) = addr_value a div 2 ^ (32 - prefix a) * 2 ^ (32 - prefix a)"
    and "Max (cidr_block a) = addr_value a div 2 ^ (32 - prefix a) * 2 ^ (32 - prefix a) + (2 ^ (32 - prefix a) - 1)"
proof -
  have w: "width a = 32" and ok: "addr_ok a" "prefix a \<le> width a" using assms by (simp_all add: cidr_ok_def width_def)
  show "Min (cidr_block a) = addr_value a div 2 ^ (32 - prefix a) * 2 ^ (32 - prefix a)"
    "Max (cidr_block a) = addr_value a div 2 ^ (32 - prefix a) * 2 ^ (32 - prefix a) + (2 ^ (32 - prefix a) - 1)"
    using block_Min_Max [OF addr_value_bound [OF ok(1)] ok(2)] unfolding cidr_block_def w by blast+
qed

lemma network4_value:
  assumes "cidr_ok a" "family a = AF_INET" "0 < prefix a"
  shows "\<exists>n. cidr_network4 be a k = Some (True, cidr_push n k) \<and> cidr_ok n \<and> family n = AF_INET \<and> addr_value n = Min (cidr_block a)"
    and "\<exists>n. cidr_broadcast4 be a k = Some (True, cidr_push n k) \<and> cidr_ok n \<and> family n = AF_INET \<and> addr_value n = Max (cidr_block a)"
proof -
  have ok: "4 \<le> length (addr a)" "bytes (addr a)" and p: "prefix a \<le> 32"
    using assms by (simp_all add: cidr_ok_def addr_ok_def width_def)
  have v: "be_val (take 4 (addr a)) = addr_value a" using assms by (simp add: addr_value_def width_def)
  have lt: "addr_value a < 2 ^ 32" using addr_value_bound [of a] assms by (simp add: width_def cidr_ok_def)
  have h: "2 ^ (32 - prefix a) - 1 < (2 ^ 32 :: nat)" using power_increasing [of "32 - prefix a" 32 "2::nat"] by simp
  note net = and_bytes.set_s_addr_masked [OF ok high_mask_less, of be "32 - prefix a", unfolded v and_high_mask [OF lt diff_le_self],
    folded cidr_block4(1) [OF assms(1,2)]]
  note bro = or_bytes.set_s_addr_masked [OF ok h, of be, unfolded v or_low_mask, folded cidr_block4(2) [OF assms(1,2)]]
  show "\<exists>n. cidr_network4 be a k = Some (True, cidr_push n k) \<and> cidr_ok n \<and> family n = AF_INET \<and> addr_value n = Min (cidr_block a)"
    unfolding cidr_network4_def net_mask_ok [OF assms(3) p] option.case using pushed4 [OF assms(1,2) net] by blast
  show "\<exists>n. cidr_broadcast4 be a k = Some (True, cidr_push n k) \<and> cidr_ok n \<and> family n = AF_INET \<and> addr_value n = Max (cidr_block a)"
    unfolding cidr_broadcast4_def host_mask_ok [OF assms(3) p] option.case using pushed4 [OF assms(1,2) bro] by blast
qed

definition network_bytes :: "nat \<Rightarrow> nat list \<Rightarrow> nat list" where
  "network_bytes d bs =
     (let i = d div 8; r = d mod 8; zs = take (16 - i) bs @ replicate i 0
      in if r \<noteq> 0 then zs[15 - i := (zs ! (15 - i)) AND (256 - 2 ^ r)] else zs)"

lemma network_bytes_whole:
  assumes "length bs = 16" "bytes bs" "i \<le> 16"
  shows "be_val (take (16 - i) bs @ replicate i 0) = be_val bs div 256 ^ i * 256 ^ i"
proof -
  have "be_val bs = be_val (take (16 - i) bs) * 256 ^ i + be_val (drop (16 - i) bs)"
    using be_val_append [of "take (16 - i) bs" "drop (16 - i) bs"] assms by simp
  moreover have "be_val (drop (16 - i) bs) < 256 ^ i"
    using be_val_bound [of "drop (16 - i) bs"] assms by (auto simp: list_all_iff dest: in_set_dropD)
  ultimately show ?thesis by (simp add: be_val_append)
qed

lemma network_bytes_spec:
  assumes "length bs = 16" "bytes bs" "d \<le> 128"
  shows "be_val (network_bytes d bs) = be_val bs div 2 ^ d * 2 ^ d"
    and "bytes (network_bytes d bs)" "length (network_bytes d bs) = 16"
proof -
  define i where "i = d div 8"
  define r where "r = d mod 8"
  have i: "i \<le> 16" and r: "r < 8" using assms(3) by (auto simp: i_def r_def)
  have ir: "i \<le> 15" if "r \<noteq> 0" using that assms(3) unfolding i_def r_def by presburger
  have pow: "(2::nat) ^ d = 2 ^ r * 256 ^ i"
    using power_add [of "2::nat" "8 * i" r] by (simp add: power_mult i_def r_def)
  have nb: "network_bytes d bs = (let zs = take (16 - i) bs @ replicate i 0
      in if r \<noteq> 0 then zs[15 - i := (zs ! (15 - i)) AND (256 - 2 ^ r)] else zs)"
    by (simp add: network_bytes_def i_def r_def Let_def)
  have tk: "bytes (take (16 - i) bs)" using assms(2) by (rule bytes_take)
  have "be_val (network_bytes d bs) = be_val bs div 2 ^ d * 2 ^ d \<and> bytes (network_bytes d bs) \<and> length (network_bytes d bs) = 16"
  proof (cases "r = 0")
    case True
    then show ?thesis unfolding nb Let_def pow using network_bytes_whole [OF assms(1,2) i] tk i assms(1) by (auto simp: list_all_iff)
  next
    case False
    let ?pre = "take (15 - i) bs" and ?x = "bs ! (15 - i)"
    have i15: "i \<le> 15" by (rule ir [OF False])
    have x: "?x < 256" using nth_byte [OF assms(2)] assms(1) by simp
    have xm: "?x AND (256 - 2 ^ r) = ?x div 2 ^ r * 2 ^ r" using and_high_mask [of ?x 8 r] x r by simp
    have "16 - i = Suc (15 - i)" using i15 by simp
    then have "take (16 - i) bs = ?pre @ [?x]" using assms(1) by (simp add: take_Suc_conv_app_nth)
    then have eq: "network_bytes d bs = (?pre @ [?x div 2 ^ r * 2 ^ r]) @ replicate i 0"
      using False assms(1) i15 by (simp add: nb Let_def nth_append list_update_append xm)
    have "be_val (network_bytes d bs) = (256 * be_val ?pre + ?x div 2 ^ r * 2 ^ r) * 256 ^ i"
      unfolding eq be_val_append [of "?pre @ _"] by simp
    also have "256 * be_val ?pre + ?x div 2 ^ r * 2 ^ r = (256 * be_val ?pre + ?x) div 2 ^ r * 2 ^ r"
    proof -
      have "(256::nat) = 2 ^ (8 - r) * 2 ^ r" using r by (simp flip: power_add)
      then have "256 * be_val ?pre = 2 ^ (8 - r) * be_val ?pre * 2 ^ r" by (metis mult.assoc mult.commute)
      then show ?thesis unfolding byte_div [OF r] add_mult_distrib by linarith
    qed
    also have "(256 * be_val ?pre + ?x) div 2 ^ r = be_val bs div 2 ^ d"
      unfolding div_host_bits [of _ d] i_def [symmetric] r_def [symmetric] addr_value_split [OF assms(1,2) i15] ..
    finally have "be_val (network_bytes d bs) = be_val bs div 2 ^ d * 2 ^ d" unfolding pow by (simp add: mult.assoc)
    moreover have "?x div 2 ^ r * 2 ^ r < 256" using x by (meson div_times_less_eq_dividend order_le_less_trans)
    ultimately show ?thesis using eq bytes_take [OF assms(2)] assms(1) i15 by simp
  qed
  then show "be_val (network_bytes d bs) = be_val bs div 2 ^ d * 2 ^ d" "bytes (network_bytes d bs)" "length (network_bytes d bs) = 16"
    by blast+
qed

lemma network6_value:
  assumes "cidr_ok a" "family a = AF_INET6"
  shows "\<exists>n. cidr_network6 a k = Some (True, cidr_push n k) \<and> cidr_ok n \<and> family n = AF_INET6 \<and> addr_value n = Min (cidr_block a)"
proof -
  have ok: "length (addr a) = 16" "bytes (addr a)" and p: "prefix a \<le> 128"
    using assms by (simp_all add: cidr_ok_def addr_ok_def width_def)
  have lt: "be_val (addr a) < 2 ^ 128"
    using addr_value_bound [of a] assms ok by (simp add: width_def cidr_ok_def addr_value_def)
  have "cidr_network6 a k = Some (True, cidr_push (a\<lparr>addr := network_bytes (128 - prefix a) (addr a)\<rparr>) k)"
    using p by (simp add: cidr_network6_def network_bytes_def Let_def)
  then show ?thesis
    using assms ok p network_bytes_spec [OF ok, of "128 - prefix a"] block_Min_Max(1) [OF lt p]
    by (intro exI [of _ "a\<lparr>addr := network_bytes (128 - prefix a) (addr a)\<rparr>"])
      (simp add: cidr_ok_def addr_ok_def width_def addr_value_def cidr_block_def)
qed

text \<open>
  C37. The network address is the least address of the prefix, for both families and both byte orders, and the
  broadcast address of an IPv4 prefix the greatest; each is pushed above the base, which stays.
\<close>

theorem ipcalc_network_broadcast:
  assumes "cidr_ok a" "family a = AF_INET \<longrightarrow> 0 < prefix a"
  shows "\<exists>n. (if family a = AF_INET then cidr_network4 be a k else cidr_network6 a k) = Some (True, cidr_push n k) \<and>
           cidr_ok n \<and> family n = family a \<and> addr_value n = Min (cidr_block a) \<and>
           (family a = AF_INET \<longrightarrow> (\<exists>h. cidr_broadcast4 be a k = Some (True, cidr_push h k) \<and>
              cidr_ok h \<and> family h = AF_INET \<and> addr_value h = Max (cidr_block a)))"
proof (cases "family a")
  case AF_INET
  then show ?thesis using network4_value [of a be k] assms by auto
next
  case AF_INET6
  then show ?thesis using network6_value [of a k] assms by auto
qed

subsection \<open>Next prefixes and the byte order\<close>

lemma le_val_update: "j < length bs \<Longrightarrow> le_val (bs[j := bs ! j + s]) = le_val bs + s * 256 ^ j"
proof (induction bs arbitrary: j)
  case (Cons b bs)
  then show ?case by (cases j) (simp_all add: algebra_simps)
qed simp

lemma be_val_update:
  assumes "j < length bs"
  shows "be_val (bs[j := bs ! j + s]) = be_val bs + s * 256 ^ (length bs - Suc j)"
    and "be_val (rev (bs[j := bs ! j + s])) = be_val (rev bs) + s * 256 ^ j"
  using le_val_update [of "length bs - Suc j" "rev bs" s] le_val_update [OF assms] assms
  by (simp_all add: be_val_rev be_val_le rev_update rev_nth)

lemma be_bytes_4: "be_bytes 4 v = [v div 16777216 mod 256, v div 65536 mod 256, v div 256 mod 256, v mod 256]"
proof -
  have "be_bytes (Suc (Suc (Suc (Suc 0)))) v = [v div 16777216 mod 256, v div 65536 mod 256, v div 256 mod 256, v mod 256]"
    by (simp flip: div_mult2_eq)
  moreover have "Suc (Suc (Suc (Suc 0))) = 4" by simp
  ultimately show ?thesis by metis
qed

lemma htonl_power:
  assumes "0 < p" "p \<le> 32"
  shows "htonl be (2 ^ (32 - p)) = 2 ^ (7 - (p - 1) mod 8) * 256 ^ (if be then 3 - (p - 1) div 8 else (p - 1) div 8)"
proof -
  have "\<forall>p \<in> set [1..<33]. htonl False (2 ^ (32 - p)) = 2 ^ (7 - (p - 1) mod 8) * 256 ^ ((p - 1) div 8) \<and>
    (2::nat) ^ (32 - p) = 2 ^ (7 - (p - 1) mod 8) * 256 ^ (3 - (p - 1) div 8)"
    by (simp add: upt_conv_Cons htonl_def be_bytes_4 be_val_def)
  moreover have "p \<in> set [1..<33]" using assms by simp
  ultimately have "htonl False (2 ^ (32 - p)) = 2 ^ (7 - (p - 1) mod 8) * 256 ^ ((p - 1) div 8)"
    "(2::nat) ^ (32 - p) = 2 ^ (7 - (p - 1) mod 8) * 256 ^ (3 - (p - 1) div 8)" by blast+
  then show ?thesis by (cases be) (simp_all only: if_True if_False, simp add: htonl_def)
qed

text \<open>
  The operation \<open>next\<close> on IPv4 addresses moves the base forward by one prefix of the given length, modulo
  \<open>2\<^sup>3\<^sup>2\<close>, on a big endian machine; on a little endian one it does so when the byte the prefix ends in does not
  overflow. Otherwise the carry goes to the byte after it: the step from 192.168.255.0 over a prefix of 24 bits
  gives 192.168.0.1 there.
\<close>

theorem ipcalc_next4:
  assumes "cidr_ok a" "family a = AF_INET" "0 < prefix b" "prefix b \<le> 32"
    and "be \<or> addr a ! ((prefix b - 1) div 8) + 2 ^ (7 - (prefix b - 1) mod 8) < 256"
  shows "\<exists>n. cidr_next4 be a b k = Some (True, cidr_push n k) \<and> cidr_ok n \<and> family n = AF_INET \<and> prefix n = prefix b \<and>
     addr_value n = (addr_value a + 2 ^ (32 - prefix b)) mod 2 ^ 32"
proof -
  let ?j = "(prefix b - 1) div 8" and ?s = "2 ^ (7 - (prefix b - 1) mod 8) :: nat" and ?A = "take 4 (addr a)"
  let ?v = "(s_addr be (addr a) + htonl be (2 ^ (32 - prefix b))) mod 2 ^ 32"
  let ?bs = "set_s_addr be ?v (addr a)"
  have ok: "length (addr a) = 16" "bytes (addr a)" using assms by (simp_all add: cidr_ok_def addr_ok_def)
  have v: "addr_value a = be_val ?A" using assms by (simp add: addr_value_def width_def)
  have j: "?j < 4" using assms(3,4) by simp
  have pow: "(2::nat) ^ (32 - prefix b) = ?s * 256 ^ (3 - ?j)"
    using htonl_power [OF assms(3,4), of True] by (simp add: htonl_def)
  have "u32_sub 32 (prefix b) = 32 - prefix b" using assms(4) by (simp add: u32_sub_def)
  then have next4: "cidr_next4 be a b k = Some (True, cidr_push (a\<lparr>prefix := prefix b, addr := ?bs\<rparr>) k)"
    using assms(3) by (simp add: cidr_next4_def shl1_def)
  have bs: "bytes ?bs" "length ?bs = 16"
    using ok be_bytes_bytes [of 4 ?v] by (auto simp: set_s_addr_def list_all_iff dest: in_set_dropD)
  have "be_val (take 4 ?bs) = (be_val ?A + 2 ^ (32 - prefix b)) mod 2 ^ 32"
  proof (cases be)
    case True
    then show ?thesis by (simp add: set_s_addr_def s_addr_def htonl_def be_val_be_bytes)
  next
    case False
    let ?B = "?A[?j := ?A ! ?j + ?s]"
    have sum: "?A ! ?j + ?s < 256" using False assms(5) j by simp
    have len: "length ?A = 4" using ok by simp
    have B: "bytes ?B" "length ?B = 4" using sum bytes_take [OF ok(2)] len by (auto simp: list_all_iff dest!: set_update_subset_insert [THEN subsetD])
    have "?v = be_val (rev ?B) mod 2 ^ 32"
      using be_val_update(2) [of ?j ?A ?s] htonl_power [OF assms(3,4), of False] False j len ok(1) by (simp add: s_addr_def)
    also have "\<dots> = be_val (rev ?B)" using be_val_bound [of "rev ?B"] B by (simp add: list_all_iff)
    finally have val: "?v = be_val (rev ?B)" .
    have "be_bytes 4 (be_val (rev ?B)) = rev ?B" using be_bytes_be_val [of "rev ?B"] B by (simp add: list_all_iff)
    then have "set_s_addr be ?v (addr a) = ?B @ drop 4 (addr a)" unfolding val set_s_addr_def using False by simp
    then have "take 4 ?bs = ?B" using B(2) by simp
    moreover have "be_val ?B = be_val ?A + 2 ^ (32 - prefix b)"
      using be_val_update(1) [of ?j ?A ?s] j len pow ok(1) by simp
    moreover have "be_val ?B < 2 ^ 32" using be_val_bound [OF B(1)] B(2) by simp
    ultimately show ?thesis by simp
  qed
  then show ?thesis using next4 bs assms v
    by (intro exI [of _ "a\<lparr>prefix := prefix b, addr := ?bs\<rparr>"]) (simp add: cidr_ok_def addr_ok_def addr_value_def width_def)
qed

subsection \<open>Printing and parsing\<close>

lemma pton_octet_dec: "b < 256 \<Longrightarrow> pton_octet (dec_nat b) = Some b"
proof -
  assume b: "b < 256"
  have "length (dec_nat b) \<le> 3" using dec_nat_length [of b 2] b by simp
  moreover have "\<not> (1 < length (dec_nat b) \<and> hd (dec_nat b) = CHR ''0'')"
    using dec_nat_hd [of b] by (cases "b = 0") (simp_all add: dec_nat.simps)
  ultimately show ?thesis using b dec_nat_digits [of b] by (auto simp: pton_octet_def)
qed

lemma inet_pton_ntop:
  assumes "bytes bs" "length bs = 4"
  shows "inet_pton4 (inet_ntop4 bs) = Some bs"
proof -
  obtain a b c d where bs: "bs = [a, b, c, d]" using assms(2) by (auto simp: length_Suc_conv numeral_eq_Suc)
  have "split_on CHR ''.'' (inet_ntop4 bs) = [dec_nat a, dec_nat b, dec_nat c, dec_nat d]"
    by (simp add: bs inet_ntop4_def split_on_append split_on_free dec_nat_free not_digit)
  then show ?thesis using assms bs by (simp add: inet_pton4_def pton_octet_dec)
qed

lemma slash_split:
  assumes "CHR ''/'' \<notin> set s"
  shows "takeWhile (\<lambda>c. c \<noteq> CHR ''/'') (s @ CHR ''/'' # t) = s" "dropWhile (\<lambda>c. c \<noteq> CHR ''/'') (s @ CHR ''/'' # t) = CHR ''/'' # t"
    "takeWhile (\<lambda>c. c \<noteq> CHR ''/'') s = s"
  using assms by (induction s) auto

text \<open>
  Every IPv4 prefix prints as a text that the parser reads back as the same prefix; printing removes it
  from the stack.
\<close>

theorem ipcalc_print_parse4:
  assumes "cidr_ok a" "family a = AF_INET" "drop 4 (addr a) = replicate 12 0"
  shows "\<exists>t. cidr_print4 a k = Some (True, snd (cidr_pop (qprintf t (qspace k)))) \<and> cidr_parse4 t = Some a"
proof -
  let ?h = "inet_ntop4 (addr a)" and ?A = "take 4 (addr a)"
  define t where "t = ?h @ (if prefix a < 32 then ''/'' @ dec_nat (prefix a) else [])"
  have ok: "length (addr a) = 16" "bytes (addr a)" "prefix a \<le> 32" using assms by (simp_all add: cidr_ok_def addr_ok_def width_def)
  have h: "?h = inet_ntop4 ?A" by (simp add: inet_ntop4_def)
  have pton: "inet_pton4 ?h = Some ?A" unfolding h by (rule inet_pton_ntop) (use ok bytes_take in auto)
  have slash: "CHR ''/'' \<notin> set ?h" by (simp add: inet_ntop4_def dec_nat_free not_digit)
  have oct: "length (dec_nat (addr a ! j)) \<le> 3" if "j < 16" for j
    using dec_nat_length [of "addr a ! j" 2] nth_byte [OF ok(2), of j] ok(1) that by simp
  have "length ?h \<le> 15" using oct [of 0] oct [of 1] oct [of 2] oct [of 3] by (simp add: inet_ntop4_def)
  moreover have plen: "length (dec_nat (prefix a)) \<le> 2" using dec_nat_length [of "prefix a" 1] ok(3) by simp
  ultimately have len: "length t < 33" by (simp add: t_def)
  have whole: "a = \<lparr>family = AF_INET, prefix = prefix a, addr = ?A @ replicate 12 0\<rparr>"
    using assms(2) append_take_drop_id [of 4 "addr a"] unfolding assms(3) by simp
  have ne: "?h \<noteq> []" by (simp add: inet_ntop4_def)
  have num: "strtou 64 10 (dec_nat (prefix a)) mod 2 ^ 32 = prefix a" "strtou_end 10 (dec_nat (prefix a)) = []" "dec_nat (prefix a) \<noteq> []"
    using strtou_dec [of "prefix a" 64] ok(3) dec_nat_digits [of "prefix a"] by simp_all
  have "cidr_parse4 t = Some \<lparr>family = AF_INET, prefix = prefix a, addr = ?A @ replicate 12 0\<rparr>"
  proof (cases "prefix a < 32")
    case True
    then show ?thesis using len num ne slash pton ok(3)
      by (simp add: cidr_parse4_def t_def slash_split dec_nat_free not_digit Let_def)
  next
    case False
    then have "prefix a = 32" using ok(3) by simp
    then show ?thesis using len slash pton by (simp add: cidr_parse4_def t_def slash_split Let_def)
  qed
  then have "cidr_parse4 t = Some a" using whole by metis
  moreover have "cidr_print4 a k = Some (True, snd (cidr_pop (qprintf t (qspace k))))"
    using assms(2) by (simp add: cidr_print4_def t_def qprintf_def Let_def)
  ultimately show ?thesis by blast
qed

subsection \<open>The exit status\<close>

lemma runop_status:
  "case runop be I args st k of
     Go args' st' k' \<Rightarrow> st' \<in> {0, 1}
   | Halt args' st' k' \<Rightarrow> st' = st \<or> st' = 5 \<or> st' \<in> {2, 3} \<and> args' \<noteq> []
   | Exits st' k' \<Rightarrow> st' = 4
   | Undefined \<Rightarrow> True"
  by (auto simp: runop_def finish_op_def split: list.splits option.splits parse_result.splits prod.splits)

lemma runops_status:
  "st \<in> {0, 1} \<Longrightarrow>
   (case runops be I args st k of
      Go args' st' k' \<Rightarrow> False
    | Halt args' st' k' \<Rightarrow> st' \<in> {0, 1, 5} \<or> st' \<in> {2, 3} \<and> args' \<noteq> []
    | Exits st' k' \<Rightarrow> st' = 4
    | Undefined \<Rightarrow> True)"
proof (induction be I args st k rule: runops.induct)
  case (1 be I args st k)
  have eq: "runops be I args st k = (case runop be I args st k of Go args' st' k' \<Rightarrow> runops be I args' st' k' | r \<Rightarrow> r)"
    by (rule runops.simps)
  show ?case using "1.prems" runop_status [where be = be and I = I and args = args and st = st and k = k]
    by (cases "runop be I args st k") (use "1.IH" in \<open>auto simp: eq\<close>)
qed

text \<open>
  The program ends with status 0, 1, 4, 5 or 6, for every command line: the statuses 2 (an argument is
  missing) and 3 (an argument is not valid) that \<open>runop\<close> sets are never seen, since the operation they are
  about is then still there and reported as an unknown operation with status 6.
\<close>

theorem ipcalc_exit_status:
  assumes "ipcalc_main be I argv = Some (st, out)"
  shows "st \<in> {0, 1, 4, 5, 6}"
proof (cases "\<exists>base arg args a. argv = base # arg # args \<and> (if CHR '':'' \<in> set base then cidr_parse6 I base else cidr_parse4 base) = Some a")
  case True
  then obtain base arg args a where argv: "argv = base # arg # args"
    and a: "(if CHR '':'' \<in> set base then cidr_parse6 I base else cidr_parse4 base) = Some a" by blast
  let ?k = "\<lparr>k_stack = [a], k_quiet = False, k_printed = False, k_out = []\<rparr>"
  have "case runops be I (arg # args) 0 ?k of
      Go args' st' k' \<Rightarrow> False
    | Halt args' st' k' \<Rightarrow> st' \<in> {0, 1, 5} \<or> st' \<in> {2, 3} \<and> args' \<noteq> []
    | Exits st' k' \<Rightarrow> st' = 4
    | Undefined \<Rightarrow> True" by (rule runops_status) simp
  then show ?thesis using assms unfolding ipcalc_main_def argv list.case a option.case
    by (cases "runops be I (arg # args) 0 ?k") (auto split: if_splits option.splits)
next
  case False
  then show ?thesis using assms by (auto simp: ipcalc_main_def split: list.splits option.splits)
qed

subsection \<open>Concrete inputs\<close>

definition ip4 :: "nat list \<Rightarrow> nat \<Rightarrow> cidr" where
  "ip4 bs p = \<lparr>family = AF_INET, prefix = p, addr = bs @ replicate 12 0\<rparr>"

definition ip6 :: "nat list \<Rightarrow> nat \<Rightarrow> cidr" where
  "ip6 bs p = \<lparr>family = AF_INET6, prefix = p, addr = bs @ replicate (16 - length bs) 0\<rparr>"

definition calc0 :: calc where
  "calc0 = \<lparr>k_stack = [], k_quiet = False, k_printed = False, k_out = []\<rparr>"

definition no_inet6 :: inet6 where
  "no_inet6 = \<lparr>pton6 = (\<lambda>_. None), ntop6 = (\<lambda>_. [])\<rparr>"

lemma ip6_addr: "addr (ip6 bs p) = bs @ replicate (16 - length bs) 0"
  by (simp add: ip6_def)

theorem ipcalc_arith6_witness:
  "\<exists>s d. cidr_add6 (ip6 [0x20, 0x01, 0x0D, 0xFF] 64) (ip6 [0, 0, 0, 1] 128) calc0 = Some (True, cidr_push s calc0) \<and>
     be_val (addr s) = (be_val (addr (ip6 [0x20, 0x01, 0x0D, 0xFF] 64)) + be_val (addr (ip6 [0, 0, 0, 1] 128))) mod 2 ^ 128 \<and>
     cidr_sub6 (ip6 [0x20, 0x01, 0x0D, 0xFF] 64) (ip6 [0, 0, 0, 1] 128) calc0 = Some (True, cidr_push d calc0)"
proof -
  have ok: "addr_ok (ip6 [0x20, 0x01, 0x0D, 0xFF] 64)" "addr_ok (ip6 [0, 0, 0, 1] 128)"
    by (simp_all add: addr_ok_def ip6_def list_all_iff)
  have val: "be_val (addr (ip6 [0x20, 0x01, 0x0D, 0xFF] 64)) = 0x20010DFF * 256 ^ 12" "be_val (addr (ip6 [0, 0, 0, 1] 128)) = 256 ^ 12"
    unfolding ip6_addr be_val_append be_val_zeros by (simp_all add: be_val_def)
  show ?thesis using ipcalc_arith6 [OF ok, of calc0] unfolding val by (auto simp: ip6_def)
qed

theorem ipcalc_contains_witness:
  "cidr_contains4 False (ip4 [192, 168, 0, 0] 16) (ip4 [192, 168, 1, 0] 24) calc0 =
     qanswer (cidr_block (ip4 [192, 168, 1, 0] 24) \<subseteq> cidr_block (ip4 [192, 168, 0, 0] 16)) calc0"
  using ipcalc_contains [of "ip4 [192, 168, 0, 0] 16" "ip4 [192, 168, 1, 0] 24" False calc0]
  by (simp add: cidr_ok_def addr_ok_def ip4_def width_def)

theorem ipcalc_network_broadcast_witness:
  "\<exists>n h. cidr_network4 False (ip4 [192, 168, 1, 17] 24) calc0 = Some (True, cidr_push n calc0) \<and>
     addr_value n = Min (cidr_block (ip4 [192, 168, 1, 17] 24)) \<and>
     cidr_broadcast4 False (ip4 [192, 168, 1, 17] 24) calc0 = Some (True, cidr_push h calc0) \<and>
     addr_value h = Max (cidr_block (ip4 [192, 168, 1, 17] 24))"
  using ipcalc_network_broadcast [of "ip4 [192, 168, 1, 17] 24" False calc0]
  by (auto simp: cidr_ok_def addr_ok_def ip4_def width_def)

text \<open>The carry that goes the wrong way on a little endian machine.\<close>

lemma next4_little_endian_carry:
  "cidr_next4 False (ip4 [192, 168, 255, 0] 24) (ip4 [0, 0, 0, 24] 24) k = Some (True, cidr_push (ip4 [192, 168, 0, 1] 24) k)"
  "cidr_next4 True (ip4 [192, 168, 255, 0] 24) (ip4 [0, 0, 0, 24] 24) k = Some (True, cidr_push (ip4 [192, 169, 0, 0] 24) k)"
  by (simp_all add: cidr_next4_def ip4_def shl1_def u32_sub_def s_addr_def set_s_addr_def htonl_def be_bytes_4 be_val_def)

theorem ipcalc_next4_witness:
  "\<exists>n. cidr_next4 False (ip4 [192, 168, 1, 0] 24) (ip4 [0, 0, 0, 24] 24) calc0 = Some (True, cidr_push n calc0) \<and>
     addr_value n = (addr_value (ip4 [192, 168, 1, 0] 24) + 256) mod 2 ^ 32"
  using ipcalc_next4 [of "ip4 [192, 168, 1, 0] 24" "ip4 [0, 0, 0, 24] 24" False calc0]
  by (auto simp: cidr_ok_def addr_ok_def ip4_def width_def)

theorem ipcalc_print_parse4_witness:
  "\<exists>t. cidr_print4 (ip4 [192, 168, 1, 0] 24) calc0 = Some (True, snd (cidr_pop (qprintf t (qspace calc0)))) \<and>
     cidr_parse4 t = Some (ip4 [192, 168, 1, 0] 24)"
  using ipcalc_print_parse4 [of "ip4 [192, 168, 1, 0] 24" calc0] by (simp add: cidr_ok_def addr_ok_def ip4_def width_def)

lemmas chars = isspace_def isdigit_def isupper_def islower_def digit_value_def is_digit_in_def Let_def

lemmas numbers = strtou_def strtou_end_def strtou_base_def hex_prefix_def digits_value_def chars

lemma missing_argument: "ipcalc_main False no_inet6 [''10.0.0.0'', ''add''] = Some (6, [])"
proof -
  have "cidr_parse4 ''10.0.0.0'' = Some (ip4 [10, 0, 0, 0] 32)"
    by (simp add: cidr_parse4_def inet_pton4_def pton_octet_def digits_value_def chars ip4_def)
  then show ?thesis
    by (simp add: ipcalc_main_def runops.simps [of False no_inet6 "[_]"] runop_def ops_def op_a1_def op_a2_def)
qed

theorem ipcalc_exit_status_witness: "fst (the (ipcalc_main False no_inet6 [''10.0.0.0'', ''add''])) \<in> {0, 1, 4, 5, 6}"
  using ipcalc_exit_status [OF missing_argument] by (simp add: missing_argument)

text \<open>The first example of the usage text: the second sum starts from the address that \<open>print\<close> left on the stack.\<close>

lemma parse_100: "cidr_parse False no_inet6 ''100'' AF_INET = Parsed (ip4 [0, 0, 0, 100] 100)"
  and parse_150: "cidr_parse False no_inet6 ''150'' AF_INET = Parsed (ip4 [0, 0, 0, 150] 150)"
  by (simp_all add: cidr_parse_def numbers ip4_def set_s_addr_def htonl_def be_bytes_4 be_val_def)

lemma parse_base: "cidr_parse4 ''192.168.1.1/255.255.255.0'' = Some (ip4 [192, 168, 1, 1] 24)"
  by (simp add: cidr_parse4_def inet_pton4_def pton_octet_def digits_value_def chars ip4_def be_val_def popcount_def upt_conv_Cons bit_Suc_0_iff)

lemma parse_ops:
  "cidr_network4 False (ip4 [192, 168, 1, 1] 24) k = Some (True, cidr_push (ip4 [192, 168, 1, 0] 32) k)"
  "cidr_add4 False (ip4 [192, 168, 1, 0] 32) (ip4 [0, 0, 0, 100] 100) k = Some (True, cidr_push (ip4 [192, 168, 1, 100] 32) k)"
  "cidr_add4 False (ip4 [192, 168, 1, 0] 32) (ip4 [0, 0, 0, 150] 150) k = Some (True, cidr_push (ip4 [192, 168, 1, 150] 32) k)"
  by (simp_all add: cidr_network4_def cidr_add4_def ip4_def net_mask_def host_mask_def shl1_def u32_sub_def s_addr_def set_s_addr_def
    htonl_def be_bytes_4 be_val_def)

lemma ip4_sel: "family (ip4 bs p) = AF_INET" "prefix (ip4 bs p) = p" "addr (ip4 bs p) = bs @ replicate 12 0"
  by (simp_all add: ip4_def)

lemma dhcp_range:
  "ipcalc_main False no_inet6 [''192.168.1.1/255.255.255.0'', ''network'', ''add'', ''100'', ''print'', ''add'', ''150'', ''print''] =
     Some (0, ''192.168.1.100 192.168.1.150'' @ [newline])"
  by (simp add: ipcalc_main_def parse_base runops.simps [of False no_inet6 "_ # _"] runops.simps [of False no_inet6 "[]"] runop_def
    ops_def op_a1_def op_a2_def parse_100 parse_150 parse_ops finish_op_def cidr_push_def cidr_pop_def cidr_print4_def inet_ntop4_def
    qprintf_def qspace_def dec_nat.simps ip4_sel Let_def del: One_nat_def) code_simp

end
