(* ===== verification/Lmo.thy ===== *)
theory Lmo
  imports Bytes
begin

text \<open>
  The translation catalogues of LuCI (src/package/luci/modules/luci-base/src/lib/lmo.c and lmo.h): the hash of a
  message, the archives of translations, the catalogues loaded and the search for a translation.

  A file that is mapped to memory is its bytes, a \<^typ>\<open>string\<close>. Reads outside of it, and the use of a catalogue after
  it was freed, have no defined behaviour: the value \<open>None\<close>. An \<open>int\<close> has 32 bits and wraps, a \<open>size_t\<close> has 64.
  The parser of plural formulas is generated from a grammar when the program is built; it is the parameter
  \<open>plural_parse\<close>: the result in \<open>s.res\<close> after a list of tokens. File system and \<open>fnmatch\<close> are parameters too.
\<close>

unbundle bit_operations_syntax

subsection \<open>The hash function\<close>

definition u8 :: "char \<Rightarrow> 32 word" where
  "u8 c = of_nat (of_char c)"

definition s8 :: "char \<Rightarrow> 32 word" where
  "s8 c = (if (of_char c :: nat) < 128 then of_nat (of_char c) else of_nat (of_char c) - 256)"

definition sfh_get16 :: "char \<Rightarrow> char \<Rightarrow> 32 word" where
  "sfh_get16 a b = push_bit 8 (u8 b) + u8 a"

fun sfh_loop :: "string \<Rightarrow> 32 word \<Rightarrow> string \<times> 32 word" where
  "sfh_loop (a # b # c # d # data) hash =
     (let hash = hash + sfh_get16 a b;
          tmp = push_bit 11 (sfh_get16 c d) XOR hash;
          hash = push_bit 16 hash XOR tmp
      in sfh_loop data (hash + drop_bit 11 hash))"
| "sfh_loop data hash = (data, hash)"

definition sfh_end :: "string \<Rightarrow> 32 word \<Rightarrow> 32 word" where
  "sfh_end data hash =
     (case data of
        [a, b, c] \<Rightarrow>
          (let hash = hash + sfh_get16 a b; hash = hash XOR push_bit 16 hash; hash = hash XOR push_bit 18 (s8 c)
           in hash + drop_bit 11 hash)
      | [a, b] \<Rightarrow> (let hash = hash + sfh_get16 a b; hash = hash XOR push_bit 11 hash in hash + drop_bit 17 hash)
      | [a] \<Rightarrow> (let hash = hash + s8 a; hash = hash XOR push_bit 10 hash in hash + drop_bit 1 hash)
      | _ \<Rightarrow> hash)"

definition sfh_avalanche :: "32 word \<Rightarrow> 32 word" where
  "sfh_avalanche hash =
     (let hash = hash XOR push_bit 3 hash; hash = hash + drop_bit 5 hash;
          hash = hash XOR push_bit 4 hash; hash = hash + drop_bit 17 hash;
          hash = hash XOR push_bit 25 hash
      in hash + drop_bit 6 hash)"

definition sfh_hash :: "string \<Rightarrow> 32 word \<Rightarrow> 32 word" where
  "sfh_hash data init =
     (if data = [] then 0 else let (rest, hash) = sfh_loop data init in sfh_avalanche (sfh_end rest hash))"

text \<open>The call \<open>sfh_hash(s, len, len)\<close>.\<close>

definition str_hash :: "string \<Rightarrow> 32 word" where
  "str_hash s = sfh_hash s (of_nat (length s))"

subsection \<open>Canonical keys\<close>

text \<open>The buffer \<open>res\<close> of 4096 bytes; \<open>None\<close> when it is full.\<close>

definition CANON_MAX :: nat where "CANON_MAX = 4096"

fun canon_loop :: "char \<Rightarrow> string \<Rightarrow> string \<Rightarrow> string option" where
  "canon_loop prev [] res = Some res"
| "canon_loop prev (c # cs) res =
     (if CANON_MAX \<le> length res then None
      else canon_loop c cs
        (if isspace c then (if isspace prev then res else res @ '' '') else res @ [c]))"

definition canon_trim :: "string \<Rightarrow> string" where
  "canon_trim res = (if res \<noteq> [] \<and> isspace (last res) then butlast res else res)"

abbreviation CTXT_SEP :: char where "CTXT_SEP \<equiv> CHR 0x01"
abbreviation PLURAL_SEP :: char where "PLURAL_SEP \<equiv> CHR 0x02"

definition canon_ctxt :: "string option \<Rightarrow> string option" where
  "canon_ctxt ctx =
     (case ctx of None \<Rightarrow> Some []
      | Some cs \<Rightarrow>
          (case canon_loop CHR '' '' cs [] of None \<Rightarrow> None
           | Some res \<Rightarrow>
               let res = canon_trim res in if CANON_MAX \<le> length res then None else Some (res @ [CTXT_SEP])))"

text \<open>\<open>snprintf(ptr, 3, "\2%d", plural)\<close> stores two characters and a NUL, and returns the length of the whole text.\<close>

definition canon_plural :: "int \<Rightarrow> string \<Rightarrow> string option" where
  "canon_plural plural res =
     (if plural > -1 then
        (if plural \<ge> 100 \<or> CANON_MAX \<le> length res + 3 then None
         else let t = PLURAL_SEP # dec_int plural in Some (res @ take (length t) (take 2 t @ [NUL])))
      else Some res)"

definition canon_key :: "string \<Rightarrow> string option \<Rightarrow> int \<Rightarrow> string option" where
  "canon_key str ctx plural =
     (case canon_ctxt ctx of None \<Rightarrow> None
      | Some res \<Rightarrow>
          (case canon_loop CHR '' '' str res of None \<Rightarrow> None
           | Some res \<Rightarrow> canon_plural plural (canon_trim res)))"

definition lmo_canon_hash :: "string option \<Rightarrow> string option \<Rightarrow> int \<Rightarrow> 32 word" where
  "lmo_canon_hash str ctx plural =
     (case str of None \<Rightarrow> 0
      | Some s \<Rightarrow> (case canon_key s ctx plural of None \<Rightarrow> 0 | Some res \<Rightarrow> str_hash res))"

subsection \<open>Archives\<close>

record lmo_archive =
  ar_mmap :: string
  ar_index :: nat
  ar_length :: int

definition to_int32 :: "int \<Rightarrow> int" where
  "to_int32 x = (x + 2 ^ 31) mod 2 ^ 32 - 2 ^ 31"

text \<open>\<open>ntohl\<close> of the four bytes at \<open>pos\<close>.\<close>

definition read32 :: "string \<Rightarrow> nat \<Rightarrow> nat option" where
  "read32 m pos = (if pos + 4 \<le> length m then Some (be_val (map of_char (take 4 (drop pos m)))) else None)"

definition lmo_open :: "(string \<Rightarrow> string option) \<Rightarrow> string \<Rightarrow> lmo_archive option option" where
  "lmo_open files file =
     (case files file of None \<Rightarrow> Some None
      | Some content \<Rightarrow>
          let size = length content mod 2 ^ 32; m = take size content in
          if size = 0 then Some None
          else if size < 4 then None
          else
            (case read32 m (size - 4) of None \<Rightarrow> None
             | Some idx_offset \<Rightarrow>
                 if idx_offset \<ge> size then Some None
                 else Some (Some \<lparr>ar_mmap = m, ar_index = idx_offset,
                   ar_length = to_int32 (((int (size - idx_offset) - 4) mod 2 ^ 64) div 16)\<rparr>)))"

function find_loop :: "lmo_archive \<Rightarrow> nat \<Rightarrow> nat \<Rightarrow> nat \<Rightarrow> nat option option" where
  "find_loop ar hash l r =
     (let m = l + (r - l) div 2 in
      if r < l then Some None
      else
        (case read32 (ar_mmap ar) (ar_index ar + 16 * m) of None \<Rightarrow> None
         | Some k \<Rightarrow>
             if k = hash then Some (Some m)
             else if k > hash then (if m = 0 then Some None else find_loop ar hash l (m - 1))
             else find_loop ar hash (m + 1) r))"
  by pat_completeness auto
termination
  by (relation "measure (\<lambda>(ar, hash, l, r). Suc r - l)") (auto simp: Let_def)

declare find_loop.simps [simp del]

definition lmo_find_entry :: "lmo_archive \<Rightarrow> nat \<Rightarrow> nat option option" where
  "lmo_find_entry ar hash = find_loop ar hash 0 (nat ((ar_length ar - 1) mod 2 ^ 32))"

text \<open>The address and the length of the text of an entry.\<close>

definition entry_text :: "lmo_archive \<Rightarrow> nat \<Rightarrow> (nat \<times> int) option" where
  "entry_text ar m =
     (case read32 (ar_mmap ar) (ar_index ar + 16 * m + 8) of None \<Rightarrow> None
      | Some off \<Rightarrow>
          (case read32 (ar_mmap ar) (ar_index ar + 16 * m + 12) of None \<Rightarrow> None
           | Some len \<Rightarrow> Some (off, to_int32 (int len))))"

subsection \<open>Catalogues\<close>

text \<open>A catalogue has an identity, which stands for its address: \<open>active\<close> is a pointer, not a copy.\<close>

record lmo_catalog =
  cat_id :: nat
  cat_lang :: string
  cat_archives :: "lmo_archive list"

record lmo_state =
  catalogs :: "lmo_catalog list"
  active :: "nat option"
  fresh :: nat

record lmo_env =
  e_opendir :: "string \<Rightarrow> string list option"
  e_files :: "string \<Rightarrow> string option"
  e_fnmatch :: "string \<Rightarrow> string \<Rightarrow> bool"

text \<open>\<open>!strncmp(cat->lang, lang, sizeof(cat->lang))\<close>.\<close>

definition lang_eq :: "lmo_catalog \<Rightarrow> string \<Rightarrow> bool" where
  "lang_eq cat lang \<longleftrightarrow> take 6 (cat_lang cat) = take 6 lang"

definition lmo_change_catalog :: "string \<Rightarrow> lmo_state \<Rightarrow> int \<times> lmo_state" where
  "lmo_change_catalog lang st =
     (case List.find (\<lambda>cat. lang_eq cat lang) (catalogs st) of
        None \<Rightarrow> (-1, st)
      | Some cat \<Rightarrow> (0, st\<lparr>active := Some (cat_id cat)\<rparr>))"

fun load_archives :: "lmo_env \<Rightarrow> string \<Rightarrow> string \<Rightarrow> string list \<Rightarrow> lmo_archive list \<Rightarrow> lmo_archive list option" where
  "load_archives env pattern dir [] ars = Some ars"
| "load_archives env pattern dir (d # ds) ars =
     (if e_fnmatch env pattern d then
        (case lmo_open (e_files env) (snprintf_s 4096 (dir @ ''/'' @ d)) of None \<Rightarrow> None
         | Some None \<Rightarrow> load_archives env pattern dir ds ars
         | Some (Some ar) \<Rightarrow> load_archives env pattern dir ds (ar # ars))
      else load_archives env pattern dir ds ars)"

definition lmo_load_catalog :: "lmo_env \<Rightarrow> string \<Rightarrow> string option \<Rightarrow> lmo_state \<Rightarrow> (int \<times> lmo_state) option" where
  "lmo_load_catalog env lang dir st =
     (case lmo_change_catalog lang st of (r, st) \<Rightarrow>
        if r = 0 then Some (0, st)
        else
          (case dir of None \<Rightarrow> Some (-1, st)
           | Some d \<Rightarrow>
               (case e_opendir env d of None \<Rightarrow> Some (-1, st)
                | Some names \<Rightarrow>
                    (case load_archives env (snprintf_s 16 (''*.'' @ lang @ ''.lmo'')) d names [] of None \<Rightarrow> None
                     | Some ars \<Rightarrow>
                         let cat = \<lparr>cat_id = fresh st, cat_lang = snprintf_s 6 lang, cat_archives = ars\<rparr>;
                             st = st\<lparr>catalogs := cat # catalogs st, fresh := fresh st + 1,
                                     active := (if active st = None then Some (cat_id cat) else active st)\<rparr>
                         in Some (if ars \<noteq> [] then 0 else -1, st)))))"

fun remove_catalog :: "string \<Rightarrow> lmo_catalog list \<Rightarrow> lmo_catalog list" where
  "remove_catalog lang [] = []"
| "remove_catalog lang (c # cs) = (if lang_eq c lang then cs else c # remove_catalog lang cs)"

definition lmo_close_catalog :: "string \<Rightarrow> lmo_state \<Rightarrow> lmo_state" where
  "lmo_close_catalog lang st = st\<lparr>catalogs := remove_catalog lang (catalogs st)\<rparr>"

text \<open>What \<open>_lmo_active_catalog\<close> points to: nothing at all after that catalogue was freed.\<close>

definition active_archives :: "lmo_state \<Rightarrow> lmo_archive list option" where
  "active_archives st =
     (case active st of None \<Rightarrow> None
      | Some i \<Rightarrow> map_option cat_archives (List.find (\<lambda>c. cat_id c = i) (catalogs st)))"

subsection \<open>Plural formulas\<close>

datatype plural_token =
    T_EOF | T_NUM | T_EQ | T_NE | T_NOT | T_AND | T_OR | T_LE | T_LT | T_GE | T_GT | T_MUL | T_DIV | T_MOD
  | T_ADD | T_SUB | T_N | T_QMARK | T_COLON | T_LPAREN | T_RPAREN

type_synonym plural_parser = "(plural_token \<times> int) list \<Rightarrow> int \<Rightarrow> int"

text \<open>The place behind \<open>plural=\<close> and the length left; \<open>Some None\<close> when there is none.\<close>

fun find_plural :: "nat \<Rightarrow> string \<Rightarrow> (nat \<times> string) option option" where
  "find_plural len expr =
     (if len \<le> 7 then Some None
      else
        (case expr of [] \<Rightarrow> None
         | c # cs \<Rightarrow>
             if take 7 expr = ''plural='' then Some (Some (len - 7, drop 7 expr))
             else if length expr < 7 \<and> expr = take (length expr) ''plural='' then None
             else find_plural (len - 1) cs))"

text \<open>\<open>while (*p >= '0' && *p <= '9')\<close>.\<close>

fun lex_number :: "int \<Rightarrow> string \<Rightarrow> (int \<times> string) option" where
  "lex_number n [] = None"
| "lex_number n (c # p) =
     (if isdigit c then lex_number (to_int32 (n * 10 + (int (of_char c) - 48))) p else Some (n, c # p))"

text \<open>\<open>if (*p == c) { ...; p++; }\<close>.\<close>

definition lex_peek :: "char \<Rightarrow> plural_token option \<Rightarrow> plural_token option \<Rightarrow> string \<Rightarrow> (plural_token option \<times> int \<times> string) option" where
  "lex_peek c yes no p =
     (case p of [] \<Rightarrow> None | d # q \<Rightarrow> Some (if d = c then (yes, 0, q) else (no, 0, p)))"

definition lex_token :: "char \<Rightarrow> string \<Rightarrow> (plural_token option \<times> int \<times> string) option" where
  "lex_token c p =
     (if isdigit c then map_option (\<lambda>(n, q). (Some T_NUM, n, q)) (lex_number (int (of_char c) - 48) p)
      else if c = CHR ''='' then lex_peek CHR ''='' (Some T_EQ) None p
      else if c = CHR ''!'' then lex_peek CHR ''='' (Some T_NE) (Some T_NOT) p
      else if c = CHR ''&'' then lex_peek CHR ''&'' (Some T_AND) None p
      else if c = CHR ''|'' then lex_peek CHR ''|'' (Some T_OR) None p
      else if c = CHR ''<'' then lex_peek CHR ''='' (Some T_LE) (Some T_LT) p
      else if c = CHR ''>'' then lex_peek CHR ''='' (Some T_GE) (Some T_GT) p
      else Some
       (if c = CHR ''*'' then Some T_MUL
        else if c = CHR ''/'' then Some T_DIV
        else if c = CHR ''%'' then Some T_MOD
        else if c = CHR ''+'' then Some T_ADD
        else if c = CHR ''-'' then Some T_SUB
        else if c = CHR ''n'' then Some T_N
        else if c = CHR ''?'' then Some T_QMARK
        else if c = CHR '':'' then Some T_COLON
        else if c = CHR ''('' then Some T_LPAREN
        else if c = CHR '')'' then Some T_RPAREN
        else if c = CHR '';'' \<or> c = newline \<or> c = NUL then Some T_EOF
        else None, 0, p))"

text \<open>
  The loop over the formula: the tokens given to the parser, and whether the loop ended without a syntax error.
  Only the first character of a token counts against \<open>len\<close>.
\<close>

fun lex_loop :: "nat \<Rightarrow> string \<Rightarrow> ((plural_token \<times> int) list \<times> bool) option" where
  "lex_loop 0 p = Some ([], True)"
| "lex_loop (Suc len) p =
     (case p of [] \<Rightarrow> None
      | c # q \<Rightarrow>
          if c = CHR '' '' \<or> c = CHR 0x09 then lex_loop len q
          else
            (case lex_token c q of None \<Rightarrow> None
             | Some (None, n, r) \<Rightarrow> Some ([], False)
             | Some (Some t, n, r) \<Rightarrow>
                 if t = T_EOF then Some ([(t, n)], True)
                 else map_option (\<lambda>(ts, ok). ((t, n) # ts, ok)) (lex_loop len r)))"

definition lmo_eval_plural :: "plural_parser \<Rightarrow> string \<Rightarrow> int \<Rightarrow> int \<Rightarrow> int option" where
  "lmo_eval_plural plural_parse expr len val =
     (case find_plural (nat len) expr of None \<Rightarrow> None
      | Some None \<Rightarrow> Some (-1)
      | Some (Some (len, p)) \<Rightarrow>
          (case lex_loop len p of None \<Rightarrow> None
           | Some (ts, ok) \<Rightarrow> Some (plural_parse (if ok then ts @ [(T_EOF, 0)] else ts) val)))"

subsection \<open>Translations\<close>

text \<open>A text found: the memory it lies in, its place and its length.\<close>

type_synonym found = "string \<times> nat \<times> int"

fun find_in_archives :: "lmo_archive list \<Rightarrow> nat \<Rightarrow> found option option" where
  "find_in_archives [] hash = Some None"
| "find_in_archives (ar # ars) hash =
     (case lmo_find_entry ar hash of None \<Rightarrow> None
      | Some None \<Rightarrow> find_in_archives ars hash
      | Some (Some m) \<Rightarrow> map_option (\<lambda>(off, len). Some (ar_mmap ar, off, len)) (entry_text ar m))"

definition lmo_translate_ctxt :: "string option \<Rightarrow> string option \<Rightarrow> lmo_state \<Rightarrow> (int \<times> found option) option" where
  "lmo_translate_ctxt key ctx st =
     (if key = None \<or> active st = None then Some (-2, None)
      else
        let hash = lmo_canon_hash key ctx (-1) in
        if hash > 0 then
          (case active_archives st of None \<Rightarrow> None
           | Some ars \<Rightarrow>
               (case find_in_archives ars (unat hash) of None \<Rightarrow> None
                | Some None \<Rightarrow> Some (-1, None)
                | Some (Some f) \<Rightarrow> Some (0, Some f)))
        else Some (-1, None))"

definition lmo_translate :: "string option \<Rightarrow> lmo_state \<Rightarrow> (int \<times> found option) option" where
  "lmo_translate key st = lmo_translate_ctxt key None st"

definition lmo_plural_form :: "plural_parser \<Rightarrow> int \<Rightarrow> lmo_archive list \<Rightarrow> int option" where
  "lmo_plural_form plural_parse n ars =
     map_option (\<lambda>pid. if pid = -1 then (if n \<noteq> 1 then 1 else 0) else pid)
       (case find_in_archives ars 0 of None \<Rightarrow> None
        | Some None \<Rightarrow> Some (-1)
        | Some (Some (m, off, len)) \<Rightarrow> lmo_eval_plural plural_parse (drop off m) len n)"

definition lmo_translate_plural_ctxt ::
  "plural_parser \<Rightarrow> int \<Rightarrow> string option \<Rightarrow> string option \<Rightarrow> string option \<Rightarrow> lmo_state \<Rightarrow> (int \<times> found option) option" where
  "lmo_translate_plural_ctxt plural_parse n skey pkey ctx st =
     (if skey = None \<or> pkey = None \<or> active st = None then Some (-2, None)
      else
        (case active_archives st of None \<Rightarrow> None
         | Some ars \<Rightarrow>
             (case lmo_plural_form plural_parse n ars of None \<Rightarrow> None
              | Some pid \<Rightarrow>
                  let hash = lmo_canon_hash skey ctx pid in
                  if hash = 0 then Some (-1, None)
                  else
                    (case find_in_archives ars (unat hash) of None \<Rightarrow> None
                     | Some (Some f) \<Rightarrow> Some (0, Some f)
                     | Some None \<Rightarrow>
                         let text = the (if n \<noteq> 1 then pkey else skey)
                         in Some (0, Some (text, 0, int (length text)))))))"

definition lmo_translate_plural ::
  "plural_parser \<Rightarrow> int \<Rightarrow> string option \<Rightarrow> string option \<Rightarrow> lmo_state \<Rightarrow> (int \<times> found option) option" where
  "lmo_translate_plural plural_parse n skey pkey st = lmo_translate_plural_ctxt plural_parse n skey pkey None st"

text \<open>The calls of the callback: key, place and length of each text.\<close>

fun iterate_archive :: "lmo_archive \<Rightarrow> nat list \<Rightarrow> (nat \<times> found) list option" where
  "iterate_archive ar [] = Some []"
| "iterate_archive ar (i # is) =
     (case (read32 (ar_mmap ar) (ar_index ar + 16 * i), entry_text ar i, iterate_archive ar is) of
        (Some k, Some (off, len), Some cs) \<Rightarrow> Some ((k, ar_mmap ar, off, len) # cs)
      | _ \<Rightarrow> None)"

fun iterate_archives :: "lmo_archive list \<Rightarrow> (nat \<times> found) list option" where
  "iterate_archives [] = Some []"
| "iterate_archives (ar # ars) =
     (case (iterate_archive ar [0..<nat (ar_length ar mod 2 ^ 32)], iterate_archives ars) of
        (Some xs, Some ys) \<Rightarrow> Some (xs @ ys) | _ \<Rightarrow> None)"

definition lmo_iterate :: "lmo_state \<Rightarrow> (nat \<times> found) list option" where
  "lmo_iterate st =
     (if active st = None then Some []
      else case active_archives st of None \<Rightarrow> None | Some ars \<Rightarrow> iterate_archives ars)"

declare find_plural.simps [simp del]

subsection \<open>Binary search\<close>

text \<open>An archive whose index holds the given keys.\<close>

definition index_keys :: "lmo_archive \<Rightarrow> nat list \<Rightarrow> bool" where
  "index_keys ar keys \<longleftrightarrow> keys \<noteq> [] \<and> length keys < 2 ^ 31 \<and> ar_length ar = int (length keys) \<and> sorted keys \<and>
     (\<forall>m < length keys. read32 (ar_mmap ar) (ar_index ar + 16 * m) = Some (keys ! m))"

lemma find_loop_eq:
  "m = l + (r - l) div 2 \<Longrightarrow> \<not> r < l \<Longrightarrow> read32 (ar_mmap ar) (ar_index ar + 16 * m) = Some k \<Longrightarrow>
   find_loop ar h l r =
     (if k = h then Some (Some m)
      else if k > h then (if m = 0 then Some None else find_loop ar h l (m - 1))
      else find_loop ar h (m + 1) r)"
proof -
  assume m: "m = l + (r - l) div 2" and r: "\<not> r < l" and k: "read32 (ar_mmap ar) (ar_index ar + 16 * m) = Some k"
  show ?thesis unfolding find_loop.simps [of ar h l r] Let_def m [symmetric] k using r by simp
qed

definition search_result :: "nat list \<Rightarrow> nat \<Rightarrow> nat option option \<Rightarrow> bool" where
  "search_result keys h res \<longleftrightarrow>
     (case res of None \<Rightarrow> False
      | Some None \<Rightarrow> h \<notin> set keys
      | Some (Some m) \<Rightarrow> m < length keys \<and> keys ! m = h)"

lemma find_loop_correct:
  assumes "sorted keys" "\<forall>m < length keys. read32 (ar_mmap ar) (ar_index ar + 16 * m) = Some (keys ! m)"
    and "r < length keys" "\<forall>i < length keys. keys ! i = h \<longrightarrow> l \<le> i \<and> i \<le> r"
  shows "search_result keys h (find_loop ar h l r)"
  using assms
proof (induction ar h l r rule: find_loop.induct [case_names step])
  case (step ar h l r)
  define m where "m = l + (r - l) div 2"
  show ?case
  proof (cases "r < l")
    case True
    then have "h \<notin> set keys" using step.prems(4) by (fastforce simp: in_set_conv_nth)
    then show ?thesis using True by (simp add: find_loop.simps [of ar h l r] search_result_def)
  next
    case False
    have m: "l \<le> m" "m \<le> r" "m < length keys" using False step.prems(3) by (simp_all add: m_def)
    have rd: "read32 (ar_mmap ar) (ar_index ar + 16 * m) = Some (keys ! m)" using step.prems(2) m(3) by simp
    note eq = find_loop_eq [OF m_def False rd, of h]
    have mono: "\<And>i j. i \<le> j \<Longrightarrow> j < length keys \<Longrightarrow> keys ! i \<le> keys ! j" using step.prems(1) by (simp add: sorted_iff_nth_mono)
    consider "keys ! m = h" | "keys ! m > h" "m = 0" | "keys ! m > h" "m \<noteq> 0" | "keys ! m < h" by linarith
    then show ?thesis
    proof cases
      case 1
      then show ?thesis using m by (simp add: eq search_result_def)
    next
      case 2
      have "h \<notin> set keys"
      proof
        assume "h \<in> set keys"
        then obtain i where "i < length keys" "keys ! i = h" by (auto simp: in_set_conv_nth)
        then show False using 2 mono [of m i] by simp
      qed
      then show ?thesis using 2 by (simp add: eq search_result_def)
    next
      case 3
      have "\<forall>i < length keys. keys ! i = h \<longrightarrow> l \<le> i \<and> i \<le> m - 1"
      proof (intro allI impI)
        fix i assume i: "i < length keys" "keys ! i = h"
        then have "\<not> m \<le> i" using 3 mono [of m i] by auto
        then show "l \<le> i \<and> i \<le> m - 1" using step.prems(4) i by auto
      qed
      then have "search_result keys h (find_loop ar h l (m - 1))"
        using step.IH(1) [OF m_def False rd] 3 step.prems m by simp
      then show ?thesis using 3 by (simp add: eq)
    next
      case 4
      have "\<forall>i < length keys. keys ! i = h \<longrightarrow> m + 1 \<le> i \<and> i \<le> r"
      proof (intro allI impI)
        fix i assume i: "i < length keys" "keys ! i = h"
        then have "\<not> i \<le> m" using 4 mono [of i m] m by auto
        then show "m + 1 \<le> i \<and> i \<le> r" using step.prems(4) i by auto
      qed
      then have "search_result keys h (find_loop ar h (m + 1) r)"
        using step.IH(2) [OF m_def False rd] 4 step.prems by simp
      then show ?thesis using 4 by (simp add: eq)
    qed
  qed
qed

text \<open>
  The search in an archive with a sorted, non-empty index ends, reads only inside the index, and finds an entry
  with the key if and only if there is one.
\<close>

lemma find_entry_search:
  assumes "index_keys ar keys"
  shows "search_result keys h (lmo_find_entry ar h)"
proof -
  have n: "1 \<le> length keys" "length keys < 2 ^ 31" "ar_length ar = int (length keys)" "sorted keys"
    and rd: "\<forall>m < length keys. read32 (ar_mmap ar) (ar_index ar + 16 * m) = Some (keys ! m)"
    using assms unfolding index_keys_def by (auto simp: Suc_le_eq)
  have "0 \<le> int (length keys) - 1" using n(1) by linarith
  moreover have "int (length keys) - 1 < 2 ^ 32" using n(2) by simp
  ultimately have "(int (length keys) - 1) mod 2 ^ 32 = int (length keys) - 1" by (rule mod_pos_pos_trivial)
  then have r: "nat ((ar_length ar - 1) mod 2 ^ 32) = length keys - 1" using n(1,3) by simp
  have "\<forall>i < length keys. keys ! i = h \<longrightarrow> 0 \<le> i \<and> i \<le> length keys - 1" by auto
  moreover have "length keys - 1 < length keys" using n(1) by simp
  ultimately show ?thesis unfolding lmo_find_entry_def r by (intro find_loop_correct n(4) rd)
qed

subsection \<open>Canonical keys\<close>

function words_of :: "string \<Rightarrow> string list" where
  "words_of s =
     (let t = dropWhile isspace s in
      if t = [] then [] else takeWhile (\<lambda>c. \<not> isspace c) t # words_of (dropWhile (\<lambda>c. \<not> isspace c) t))"
  by pat_completeness auto
termination
proof (relation "measure length", simp, goal_cases)
  case (1 s t)
  then have "hd t \<in> set t" "\<not> isspace (hd t)" using hd_dropWhile [of isspace s] by auto
  then have "length (dropWhile (\<lambda>c. \<not> isspace c) t) < length t"
    by (cases t) (auto simp: le_imp_less_Suc length_dropWhile_le)
  moreover have "length t \<le> length s" using 1 by (simp add: length_dropWhile_le)
  ultimately show ?case by simp
qed

declare words_of.simps [simp del]

text \<open>The words of a text, one blank between two of them.\<close>

fun unwords :: "string list \<Rightarrow> string" where
  "unwords [] = []"
| "unwords [w] = w"
| "unwords (w # ws) = w @ '' '' @ unwords ws"

fun squeeze :: "bool \<Rightarrow> string \<Rightarrow> string" where
  "squeeze sp [] = []"
| "squeeze sp (c # cs) =
     (if isspace c then (if sp then squeeze True cs else CHR '' '' # squeeze True cs) else c # squeeze False cs)"

lemma canon_loop_squeeze:
  "length res + length s \<le> CANON_MAX \<Longrightarrow> canon_loop prev s res = Some (res @ squeeze (isspace prev) s)"
proof (induction s arbitrary: prev res)
  case (Cons c s)
  then show ?case by (cases "isspace prev"; cases "isspace c") simp_all
qed simp

lemma squeeze_spaces: "squeeze True s = squeeze True (dropWhile isspace s)"
  by (induction s) auto

lemma squeeze_word: "squeeze sp (takeWhile (\<lambda>c. \<not> isspace c) s @ r) = takeWhile (\<lambda>c. \<not> isspace c) s @ squeeze (if s = [] \<or> isspace (hd s) then sp else False) r"
proof (induction s arbitrary: sp)
  case (Cons c s)
  then show ?case by (cases s) auto
qed simp

definition blank_end :: "string \<Rightarrow> string" where
  "blank_end s = (if words_of s \<noteq> [] \<and> isspace (last s) then '' '' else [])"

lemma words_of_Nil: "words_of s = [] \<longleftrightarrow> (\<forall>c \<in> set s. isspace c)"
  by (subst words_of.simps) (simp add: Let_def dropWhile_eq_Nil_conv)

lemma squeeze_words: "squeeze True s = unwords (words_of s) @ blank_end s"
proof (induction s rule: words_of.induct [case_names step])
  case (step s)
  define t where "t = dropWhile isspace s"
  show ?case
  proof (cases "t = []")
    case True
    then have "words_of s = []" by (subst words_of.simps) (simp add: t_def)
    moreover have "squeeze True s = squeeze True t" unfolding t_def by (rule squeeze_spaces)
    ultimately show ?thesis using True by (simp add: blank_end_def)
  next
    case False
    define u where "u = takeWhile (\<lambda>c. \<not> isspace c) t"
    define r where "r = dropWhile (\<lambda>c. \<not> isspace c) t"
    have hd: "\<not> isspace (hd t)" using False unfolding t_def by (rule hd_dropWhile)
    have tur: "t = u @ r" by (simp add: u_def r_def)
    have une: "u \<noteq> []" using hd False by (cases t) (auto simp: u_def)
    have w: "words_of s = u # words_of r" using False by (subst words_of.simps) (simp add: t_def u_def r_def Let_def)
    have "squeeze True s = squeeze True (u @ r)" using squeeze_spaces [of s] by (simp add: tur flip: t_def)
    also have "\<dots> = u @ squeeze False r" using squeeze_word [of True t r] hd False by (simp add: u_def)
    finally have sq: "squeeze True s = u @ squeeze False r" .
    have lst: "last s = last t"
    proof -
      have "s = takeWhile isspace s @ t" by (simp add: t_def)
      then show ?thesis using False by (metis last_appendR)
    qed
    show ?thesis
    proof (cases r)
      case Nil
      have "\<not> isspace (last u)" using set_takeWhileD [of "last u" "\<lambda>c. \<not> isspace c" t] une by (simp add: u_def)
      moreover have "words_of [] = []" by (subst words_of.simps) simp
      ultimately show ?thesis using Nil sq w lst tur by (simp add: blank_end_def)
    next
      case (Cons x r')
      have "r \<noteq> []" using Cons by simp
      then have "isspace (hd r)" using hd_dropWhile [of "\<lambda>c. \<not> isspace c" t] unfolding r_def by blast
      then have sp: "isspace x" using Cons by simp
      have IH: "squeeze True r = unwords (words_of r) @ blank_end r"
        using step.IH [OF t_def] False by (simp add: r_def)
      have "squeeze False r = CHR '' '' # squeeze True r" using Cons sp by simp
      then have all: "squeeze True s = u @ CHR '' '' # unwords (words_of r) @ blank_end r" using sq IH by simp
      have lr: "last s = last r" using lst tur Cons by simp
      show ?thesis
      proof (cases "words_of r")
        case Nil
        then have "isspace (last r)" using Cons words_of_Nil [of r] by (metis last_in_set list.distinct(1))
        then show ?thesis using Nil all w lr by (simp add: blank_end_def)
      next
        case (Cons v vs)
        then show ?thesis using all w lr by (simp add: blank_end_def)
      qed
    qed
  qed
qed

lemma word_clean: "w \<in> set (words_of s) \<Longrightarrow> w \<noteq> [] \<and> (\<forall>c \<in> set w. \<not> isspace c)"
proof (induction s rule: words_of.induct [case_names step])
  case (step s)
  define t where "t = dropWhile isspace s"
  have ne: "t \<noteq> []" using step.prems by (subst (asm) words_of.simps) (auto simp: t_def Let_def split: if_splits)
  have hd: "\<not> isspace (hd t)" using ne unfolding t_def by (rule hd_dropWhile)
  have "words_of s = takeWhile (\<lambda>c. \<not> isspace c) t # words_of (dropWhile (\<lambda>c. \<not> isspace c) t)"
    using ne by (subst words_of.simps) (simp add: t_def Let_def)
  then consider "w = takeWhile (\<lambda>c. \<not> isspace c) t" | "w \<in> set (words_of (dropWhile (\<lambda>c. \<not> isspace c) t))"
    using step.prems by auto
  then show ?case
  proof cases
    case 1
    then show ?thesis using hd ne by (cases t) (auto dest: set_takeWhileD)
  next
    case 2
    then show ?thesis using step.IH [OF t_def ne] by blast
  qed
qed

lemma unwords_last: "ws \<noteq> [] \<Longrightarrow> last ws \<noteq> [] \<Longrightarrow> unwords ws \<noteq> [] \<and> last (unwords ws) = last (last ws)"
  by (induction ws rule: unwords.induct) auto

lemma canon_trim_words: "canon_trim (res @ unwords (words_of s) @ blank_end s) =
    (if words_of s = [] then canon_trim res else res @ unwords (words_of s))"
proof (cases "words_of s = []")
  case True
  then show ?thesis by (simp add: blank_end_def)
next
  case False
  have "last (words_of s) \<in> set (words_of s)" using False by simp
  then have w: "last (words_of s) \<noteq> []" "\<forall>c \<in> set (last (words_of s)). \<not> isspace c" using word_clean by auto
  then have u: "unwords (words_of s) \<noteq> []" "\<not> isspace (last (unwords (words_of s)))" using unwords_last [OF False] by auto
  show ?thesis
  proof (cases "isspace (last s)")
    case True
    then have "blank_end s = '' ''" using False by (simp add: blank_end_def)
    then show ?thesis using False by (simp add: canon_trim_def isspace_def butlast_append)
  next
    case False
    then have "blank_end s = []" by (simp add: blank_end_def)
    then show ?thesis using u \<open>words_of s \<noteq> []\<close> by (simp add: canon_trim_def)
  qed
qed

text \<open>
  C39. The key that is hashed is the text with every run of blanks reduced to one and none at either end, behind
  the context treated in the same way, and before the number of the plural form; for texts that fit the
  buffer. So keys that differ in blanks only have the same translation.
\<close>

theorem canon_key_words:
  assumes "length str + (case ctx of None \<Rightarrow> 0 | Some c \<Rightarrow> length c + 1) + 3 < CANON_MAX" "p < 10"
  shows "canon_key str ctx p =
     Some ((case ctx of None \<Rightarrow> [] | Some c \<Rightarrow> unwords (words_of c) @ [CTXT_SEP]) @ unwords (words_of str) @
       (if p > -1 then PLURAL_SEP # dec_int p else []))"
proof -
  have sq_len: "length (squeeze sp s) \<le> length s" for sp s by (induction sp s rule: squeeze.induct) auto
  have sp: "isspace CHR '' ''" by (simp add: isspace_def)
  have ctxt: "\<exists>res. canon_ctxt ctx = Some res \<and> res = (case ctx of None \<Rightarrow> [] | Some c \<Rightarrow> unwords (words_of c) @ [CTXT_SEP]) \<and>
    length res \<le> (case ctx of None \<Rightarrow> 0 | Some c \<Rightarrow> length c + 1) \<and> canon_trim res = res"
  proof (cases ctx)
    case None
    then show ?thesis by (simp add: canon_ctxt_def canon_trim_def)
  next
    case (Some c)
    let ?u = "unwords (words_of c)"
    have "canon_loop CHR '' '' c [] = Some (?u @ blank_end c)"
      using canon_loop_squeeze [of "[]" c "CHR '' ''"] assms(1) Some sp by (simp add: squeeze_words)
    moreover have "canon_trim (?u @ blank_end c) = ?u"
      using canon_trim_words [of "[]" c] by (simp add: canon_trim_def split: if_splits)
    moreover have "length ?u \<le> length c" using sq_len [of True c] by (simp add: squeeze_words)
    ultimately show ?thesis using Some assms(1) by (simp add: canon_ctxt_def canon_trim_def isspace_def)
  qed
  then obtain res where res: "canon_ctxt ctx = Some res" "res = (case ctx of None \<Rightarrow> [] | Some c \<Rightarrow> unwords (words_of c) @ [CTXT_SEP])"
    "length res \<le> (case ctx of None \<Rightarrow> 0 | Some c \<Rightarrow> length c + 1)" "canon_trim res = res" by blast
  let ?u = "unwords (words_of str)"
  have loop: "canon_loop CHR '' '' str res = Some (res @ ?u @ blank_end str)"
    using canon_loop_squeeze [of res str "CHR '' ''"] assms(1) res(3) sp by (simp add: squeeze_words)
  have "canon_trim (res @ ?u @ blank_end str) = res @ ?u" using canon_trim_words [of res str] res(4) by (auto split: if_splits)
  moreover have "canon_plural p (res @ ?u) = Some (res @ ?u @ (if p > -1 then PLURAL_SEP # dec_int p else []))"
  proof (cases "p > -1")
    case True
    have "length ?u \<le> length str" using sq_len [of True str] by (simp add: squeeze_words)
    moreover have "length (dec_int p) = 1" using True assms(2) by (simp add: dec_int_def dec_nat.simps)
    ultimately show ?thesis using True assms res(3) by (simp add: canon_plural_def)
  next
    case False
    then show ?thesis by (simp add: canon_plural_def)
  qed
  ultimately show ?thesis by (simp add: canon_key_def res(1) loop flip: res(2))
qed

subsection \<open>Loading, changing and closing catalogues\<close>

inductive lmo_reach :: "lmo_env \<Rightarrow> lmo_state \<Rightarrow> bool" for env where
  start: "lmo_reach env \<lparr>catalogs = [], active = None, fresh = 0\<rparr>"
| load: "lmo_reach env st \<Longrightarrow> lmo_load_catalog env lang dir st = Some (r, st') \<Longrightarrow> lmo_reach env st'"
| change: "lmo_reach env st \<Longrightarrow> lmo_reach env (snd (lmo_change_catalog lang st))"
| close: "lmo_reach env st \<Longrightarrow> lmo_reach env (lmo_close_catalog lang st)"

definition catalogs_ok :: "lmo_state \<Rightarrow> bool" where
  "catalogs_ok st \<longleftrightarrow> distinct (map cat_id (catalogs st)) \<and> (\<forall>c \<in> set (catalogs st). cat_id c < fresh st \<and> length (cat_lang c) \<le> 5)"

lemma change_catalogs [simp]:
  "catalogs (snd (lmo_change_catalog lang st)) = catalogs st" "fresh (snd (lmo_change_catalog lang st)) = fresh st"
  by (simp_all add: lmo_change_catalog_def split: option.splits)

lemma load_cases:
  assumes "lmo_load_catalog env lang dir st = Some (r, st')"
  obtains "st' = snd (lmo_change_catalog lang st)"
  | d names ars where "fst (lmo_change_catalog lang st) \<noteq> 0" "dir = Some d" "e_opendir env d = Some names"
    "catalogs st' = \<lparr>cat_id = fresh st, cat_lang = snprintf_s 6 lang, cat_archives = ars\<rparr> # catalogs st" "fresh st' = fresh st + 1"
    "active st' = (if active st = None then Some (fresh st) else active st)"
proof -
  obtain q s where ch: "lmo_change_catalog lang st = (q, s)" by fastforce
  have s: "q \<noteq> 0 \<Longrightarrow> s = st" using ch by (auto simp: lmo_change_catalog_def split: option.splits)
  show ?thesis
  proof (cases "q = 0 \<or> st' = s")
    case True
    then show ?thesis using assms ch that(1) by (auto simp: lmo_load_catalog_def)
  next
    case False
    then show ?thesis using assms ch s
      by (auto simp: lmo_load_catalog_def Let_def split: option.splits intro!: that(2))
  qed
qed

lemma remove_catalog_subset: "set (remove_catalog lang cs) \<subseteq> set cs"
  by (induction cs) auto

lemma remove_catalog_distinct: "distinct (map f cs) \<Longrightarrow> distinct (map f (remove_catalog lang cs))"
proof (induction cs)
  case (Cons c cs)
  then show ?case using remove_catalog_subset [of lang cs] by auto
qed simp

lemma remove_catalog_ids:
  "distinct (map cat_id cs) \<Longrightarrow>
   cat_id ` set (remove_catalog lang cs) = cat_id ` set cs - (case List.find (\<lambda>c. lang_eq c lang) cs of None \<Rightarrow> {} | Some c \<Rightarrow> {cat_id c})"
  by (induction cs) (auto split: option.splits simp: find_Some_iff)

lemma lmo_reach_ok: "lmo_reach env st \<Longrightarrow> catalogs_ok st"
proof (induction rule: lmo_reach.induct)
  case (load st lang dir r st')
  from load.hyps(2) show ?case
  proof (cases rule: load_cases)
    case 1
    then show ?thesis using load.IH by (simp add: catalogs_ok_def)
  next
    case 2
    then show ?thesis using load.IH length_snprintf_s [of 6 lang] by (fastforce simp: catalogs_ok_def)
  qed
next
  case (close st lang)
  then show ?case using remove_catalog_subset [of lang "catalogs st"]
    by (auto simp: catalogs_ok_def lmo_close_catalog_def remove_catalog_distinct)
qed (simp_all add: catalogs_ok_def)

text \<open>The pointer to the active catalogue is null or points to a catalogue of the list.\<close>

definition live :: "lmo_state \<Rightarrow> bool" where
  "live st \<longleftrightarrow> active st = None \<or> active_archives st \<noteq> None"

lemma live_iff: "live st \<longleftrightarrow> (\<forall>i. active st = Some i \<longrightarrow> i \<in> cat_id ` set (catalogs st))"
  by (cases "active st") (auto simp: live_def active_archives_def find_None_iff)

text \<open>
  C40. The active catalogue. In every reachable state, loading and changing catalogues keep the pointer to the
  active catalogue valid; closing a catalogue does so exactly when the one it frees is not the active one,
  otherwise the pointer dangles and the next translation of a key uses freed memory.
\<close>

theorem lmo_active_catalog:
  assumes "lmo_reach env st" "live st"
  shows "live (snd (lmo_change_catalog lang st)) \<and>
    (\<forall>r st'. lmo_load_catalog env lang dir st = Some (r, st') \<longrightarrow> live st') \<and>
    (live (lmo_close_catalog lang st) \<longleftrightarrow>
      \<not> (\<exists>c. List.find (\<lambda>c. lang_eq c lang) (catalogs st) = Some c \<and> active st = Some (cat_id c)))"
proof -
  have dist: "distinct (map cat_id (catalogs st))" using lmo_reach_ok [OF assms(1)] by (simp add: catalogs_ok_def)
  have change: "live (snd (lmo_change_catalog lang st))"
    using assms(2) by (auto simp: live_iff lmo_change_catalog_def find_Some_iff split: option.splits)
  moreover have "live st'" if "lmo_load_catalog env lang dir st = Some (r, st')" for r st'
    using that
  proof (cases rule: load_cases)
    case 1
    then show ?thesis using change by simp
  next
    case 2
    then show ?thesis using assms(2) by (auto simp: live_iff)
  qed
  moreover have "live (lmo_close_catalog lang st) \<longleftrightarrow>
      \<not> (\<exists>c. List.find (\<lambda>c. lang_eq c lang) (catalogs st) = Some c \<and> active st = Some (cat_id c))"
    using assms(2) remove_catalog_ids [OF dist, of lang]
    by (auto simp: live_iff lmo_close_catalog_def split: option.splits)
  ultimately show ?thesis by blast
qed

text \<open>
  Languages with names of more than five characters cannot be selected: the name is stored cut off and
  compared with one character more. Changing to such a language fails in every reachable state, and each
  attempt to load it adds another catalogue but leaves the active one.
\<close>

lemma lmo_long_language:
  assumes "lmo_reach env st" "5 < length lang"
  shows "lmo_change_catalog lang st = (-1, st) \<and>
    (\<forall>d names r st'. e_opendir env d = Some names \<longrightarrow> lmo_load_catalog env lang (Some d) st = Some (r, st') \<longrightarrow>
       length (catalogs st') = length (catalogs st) + 1 \<and> (active st \<noteq> None \<longrightarrow> active st' = active st))"
proof -
  have "\<not> lang_eq c lang" if "c \<in> set (catalogs st)" for c
  proof -
    have "length (cat_lang c) \<le> 5" using lmo_reach_ok [OF assms(1)] that by (simp add: catalogs_ok_def)
    then have "length (take 6 (cat_lang c)) \<noteq> length (take 6 lang)" using assms(2) by simp
    then show ?thesis unfolding lang_eq_def by metis
  qed
  then have ch: "lmo_change_catalog lang st = (-1, st)"
    by (auto simp: lmo_change_catalog_def find_Some_iff split: option.splits)
  moreover have "length (catalogs st') = length (catalogs st) + 1 \<and> (active st \<noteq> None \<longrightarrow> active st' = active st)"
    if "e_opendir env d = Some names" "lmo_load_catalog env lang (Some d) st = Some (r, st')" for d names r st'
    using that ch by (auto simp: lmo_load_catalog_def Let_def split: option.splits)
  ultimately show ?thesis by blast
qed

subsection \<open>Concrete inputs\<close>

theorem canon_key_words_witness:
  "canon_key ''  Save   & Apply '' (Some '' top  bar'') 1 = Some (''top bar'' @ [CTXT_SEP] @ ''Save & Apply'' @ [PLURAL_SEP] @ ''1'')"
proof -
  have "unwords (words_of ''  Save   & Apply '') = ''Save & Apply''" "unwords (words_of '' top  bar'') = ''top bar''"
    by code_simp+
  then show ?thesis using canon_key_words [of "''  Save   & Apply ''" "Some '' top  bar''" 1]
    by (simp add: CANON_MAX_def dec_int_def dec_nat.simps) code_simp
qed

definition demo_lmo_env :: lmo_env where
  "demo_lmo_env = \<lparr>e_opendir = (\<lambda>d. Some []), e_files = (\<lambda>f. None), e_fnmatch = (\<lambda>p n. False)\<rparr>"

definition demo_loaded :: lmo_state where
  "demo_loaded = \<lparr>catalogs = [\<lparr>cat_id = 0, cat_lang = ''de'', cat_archives = []\<rparr>], active = Some 0, fresh = 1\<rparr>"

theorem lmo_active_catalog_witness: "live demo_loaded \<and> \<not> live (lmo_close_catalog ''de'' demo_loaded)"
proof -
  have "lmo_load_catalog demo_lmo_env ''de'' (Some ''/i18n'') \<lparr>catalogs = [], active = None, fresh = 0\<rparr> = Some (-1, demo_loaded)"
    by (simp add: lmo_load_catalog_def lmo_change_catalog_def demo_lmo_env_def demo_loaded_def Let_def)
  from lmo_reach.load [OF lmo_reach.start this] have "lmo_reach demo_lmo_env demo_loaded" .
  moreover have "live demo_loaded" by (simp add: live_def active_archives_def demo_loaded_def)
  ultimately show ?thesis using lmo_active_catalog [of demo_lmo_env demo_loaded "''de''"]
    by (auto simp: demo_loaded_def lang_eq_def)
qed

end
