(* ===== verification/Po2lmo.thy ===== *)
theory Po2lmo
  imports Lmo "HOL-Library.Multiset"
begin

text \<open>
  The converter from PO files to the archives of translations (src/package/luci/modules/luci-base/src/po2lmo.c).

  The output file is the bytes written so far. Writing succeeds, except that \<open>fwrite\<close> of no bytes returns 0, which
  \<open>print\<close> takes as a failure. \<open>tmp\<close> is the buffer of \<open>main\<close> that \<open>extract_string\<close> fills, with its old contents; the
  contents it starts with are a parameter, and so is \<open>qsort\<close>, which may order equal keys as it likes. Memory
  does not run out.
\<close>

subsection \<open>Errors and output\<close>

datatype po_error = Died | Undefined

definition po_print :: "string \<Rightarrow> string \<Rightarrow> po_error + string" where
  "po_print ptr out =
     (if ptr = [] then Inl Died else Inr (out @ ptr @ replicate ((4 - length ptr mod 4) mod 4) NUL))"

definition uint32_bytes :: "nat \<Rightarrow> string" where
  "uint32_bytes x = map char_of (be_bytes 4 x)"

definition print_uint32 :: "nat \<Rightarrow> string \<Rightarrow> po_error + string" where
  "print_uint32 x out = po_print (uint32_bytes x) out"

subsection \<open>Quoted strings\<close>

text \<open>
  The loop of \<open>extract_string\<close> at position \<open>pos\<close>: the offset of the text (none before the opening quote) and the
  contents of \<open>dest\<close>.
\<close>

fun extract_loop :: "string \<Rightarrow> nat \<Rightarrow> nat \<Rightarrow> nat option \<Rightarrow> bool \<Rightarrow> string \<Rightarrow> nat option \<times> string" where
  "extract_loop [] len pos off esc dest = (off, dest)"
| "extract_loop (c # cs) len pos off esc dest =
     (if pos \<ge> len then (off, dest)
      else
        (case off of
           None \<Rightarrow> extract_loop cs len (pos + 1) (if c = CHR 0x22 then Some (pos + 1) else None) esc dest
         | Some off \<Rightarrow>
             if esc then
               let off = (if c = CHR 0x22 \<or> c = CHR 0x5C then off + 1 else off)
               in extract_loop cs len (pos + 1) (Some off) False (dest[pos - off := c])
             else if c = CHR 0x5C then extract_loop cs len (pos + 1) (Some off) True (dest[pos - off := c])
             else if c \<noteq> CHR 0x22 then extract_loop cs len (pos + 1) (Some off) False (dest[pos - off := c])
             else (Some off, dest[pos - off := NUL])))"

text \<open>The result (the length, or -1) and the buffer; \<open>strlen\<close> of a buffer without a NUL has no defined result.\<close>

definition extract_string :: "string \<Rightarrow> string \<Rightarrow> (int \<times> string) option" where
  "extract_string src dest =
     (if src \<noteq> [] \<and> hd src = CHR ''#'' then Some (-1, dest)
      else
        (case extract_loop src (length dest) 0 None False dest of
           (None, dest) \<Rightarrow> Some (-1, dest)
         | (Some off, dest) \<Rightarrow> if NUL \<in> set dest then Some (int (length (cstr dest)), dest) else None))"

subsection \<open>The index\<close>

record lmo_entry =
  key_id :: nat
  val_id :: nat
  entry_offset :: nat
  entry_length :: nat

definition entry_bytes :: "lmo_entry \<Rightarrow> string" where
  "entry_bytes e = uint32_bytes (key_id e) @ uint32_bytes (val_id e) @ uint32_bytes (entry_offset e) @ uint32_bytes (entry_length e)"

definition print_index :: "(lmo_entry list \<Rightarrow> lmo_entry list) \<Rightarrow> lmo_entry list \<Rightarrow> string \<Rightarrow> string" where
  "print_index qsort array out = out @ concat (map entry_bytes (qsort array))"

subsection \<open>Messages\<close>

datatype field = Ctxt | Id | IdPlural | Val nat

record msg =
  m_plural_num :: int
  m_ctxt :: "string option"
  m_id :: "string option"
  m_id_plural :: "string option"
  m_val :: "string option list"
  m_len :: nat
  m_cur :: "field option"

definition msg_zero :: msg where
  "msg_zero = \<lparr>m_plural_num = 0, m_ctxt = None, m_id = None, m_id_plural = None, m_val = replicate 10 None, m_len = 0, m_cur = None\<rparr>"

record po_state =
  po_msg :: msg
  po_tmp :: string
  po_array :: "lmo_entry list"
  po_offset :: nat
  po_out :: string

definition msg_key :: "msg \<Rightarrow> nat \<Rightarrow> string" where
  "msg_key m i = snprintf_s 4096
     ((case m_ctxt m of None \<Rightarrow> [] | Some c \<Rightarrow> c @ [CTXT_SEP]) @ the (m_id m) @
      (if m_id_plural m \<noteq> None then PLURAL_SEP # dec_nat i else []))"

definition add_entry :: "nat \<Rightarrow> nat \<Rightarrow> string \<Rightarrow> po_state \<Rightarrow> po_error + po_state" where
  "add_entry key v text s =
     (case po_print text (po_out s) of Inl e \<Rightarrow> Inl e
      | Inr out \<Rightarrow>
          let entry_len = length text mod 2 ^ 32;
              e = \<lparr>key_id = key, val_id = v, entry_offset = po_offset s mod 2 ^ 32, entry_length = entry_len\<rparr>
          in Inr (s\<lparr>po_array := po_array s @ [e], po_out := out, po_offset := po_offset s + entry_len + (4 - entry_len mod 4) mod 4\<rparr>))"

text \<open>The loop over the plural forms \<open>i\<close> of a message.\<close>

fun print_values :: "msg \<Rightarrow> nat list \<Rightarrow> po_state \<Rightarrow> po_error + po_state" where
  "print_values m [] s = Inr s"
| "print_values m (i # is) s =
     (case m_val m ! i of None \<Rightarrow> print_values m is s
      | Some v \<Rightarrow>
          if str_hash (msg_key m i) \<noteq> str_hash v then
            (case add_entry (unat (str_hash (msg_key m i))) (nat ((m_plural_num m + 1) mod 2 ^ 32)) v s of
               Inl e \<Rightarrow> Inl e | Inr s \<Rightarrow> print_values m is s)
          else print_values m is s)"

text \<open>The header: the text behind \<open>Plural-Forms: \<close> up to the next \<open>\n\<close>; \<open>field\<close> is what was read of the current line.\<close>

fun plural_forms :: "string \<Rightarrow> bool \<Rightarrow> string \<Rightarrow> string option" where
  "plural_forms field esc [] = None"
| "plural_forms field esc (c # p) =
     (if esc then
        if c = CHR ''n'' then
          let line = butlast field in
          if 14 \<le> length line \<and> strcaseeq (take 14 line) ''Plural-Forms: '' then Some (drop 14 line)
          else plural_forms [] False p
        else plural_forms (field @ [c]) False p
      else plural_forms (field @ [c]) (c = CHR 0x5C) p)"

definition print_msg :: "po_state \<Rightarrow> po_error + po_state" where
  "print_msg s =
     (let m = po_msg s;
          r = (if m_id m \<noteq> None \<and> m_val m ! 0 \<noteq> None then print_values m [0..<nat (m_plural_num m + 1)] s
               else
                 (case m_val m ! 0 of None \<Rightarrow> Inr s
                  | Some v \<Rightarrow> (case plural_forms [] False v of None \<Rightarrow> Inr s | Some f \<Rightarrow> add_entry 0 0 f s)))
      in case r of Inl e \<Rightarrow> Inl e | Inr s \<Rightarrow> Inr (s\<lparr>po_msg := msg_zero\<rparr>))"

subsection \<open>Reading the file\<close>

definition flush_msg :: "po_state \<Rightarrow> po_error + po_state" where
  "flush_msg s = (if m_id (po_msg s) \<noteq> None \<or> m_val (po_msg s) ! 0 \<noteq> None then print_msg s else Inr s)"

text \<open>The branches on the keyword of a line; \<open>eof\<close> when there is none.\<close>

definition po_keyword :: "bool \<Rightarrow> string \<Rightarrow> po_state \<Rightarrow> po_error + po_state" where
  "po_keyword eof line s =
     (if take 9 line = ''msgctxt '' @ [CHR 0x22] then
        (case flush_msg s of Inl e \<Rightarrow> Inl e
         | Inr s \<Rightarrow> Inr (s\<lparr>po_msg := po_msg s\<lparr>m_ctxt := None, m_cur := Some Ctxt, m_len := 0\<rparr>\<rparr>))
      else if eof \<or> take 7 line = ''msgid '' @ [CHR 0x22] then
        (case flush_msg s of Inl e \<Rightarrow> Inl e
         | Inr s \<Rightarrow> Inr (s\<lparr>po_msg := po_msg s\<lparr>m_id := None, m_cur := Some Id, m_len := 0\<rparr>\<rparr>))
      else if take 14 line = ''msgid_plural '' @ [CHR 0x22] then
        Inr (s\<lparr>po_msg := po_msg s\<lparr>m_id_plural := None, m_cur := Some IdPlural, m_len := 0\<rparr>\<rparr>)
      else if take 8 line = ''msgstr '' @ [CHR 0x22] \<or> take 7 line = ''msgstr['' then
        let n = (if line ! 6 = CHR ''['' then to_int32 (int (strtou 64 10 (drop 7 line))) else 0) in
        if n \<ge> 10 then Inl Died
        else if n < 0 then Inl Undefined
        else Inr (s\<lparr>po_msg := po_msg s\<lparr>m_plural_num := n, m_val := (m_val (po_msg s))[nat n := None], m_cur := Some (Val (nat n)), m_len := 0\<rparr>\<rparr>)
      else Inr s)"

definition get_field :: "msg \<Rightarrow> field \<Rightarrow> string option" where
  "get_field m f = (case f of Ctxt \<Rightarrow> m_ctxt m | Id \<Rightarrow> m_id m | IdPlural \<Rightarrow> m_id_plural m | Val i \<Rightarrow> m_val m ! i)"

definition set_field :: "field \<Rightarrow> string \<Rightarrow> msg \<Rightarrow> msg" where
  "set_field f t m =
     (case f of Ctxt \<Rightarrow> m\<lparr>m_ctxt := Some t\<rparr> | Id \<Rightarrow> m\<lparr>m_id := Some t\<rparr> | IdPlural \<Rightarrow> m\<lparr>m_id_plural := Some t\<rparr>
      | Val i \<Rightarrow> m\<lparr>m_val := (m_val m)[i := Some t]\<rparr>)"

text \<open>\<open>realloc\<close> and \<open>memcpy\<close>: what was read before, and the text of this line.\<close>

definition po_append :: "string \<Rightarrow> po_state \<Rightarrow> po_error + po_state" where
  "po_append line s =
     (case m_cur (po_msg s) of None \<Rightarrow> Inr s
      | Some f \<Rightarrow>
          (case extract_string line (po_tmp s) of None \<Rightarrow> Inl Undefined
           | Some (n, tmp) \<Rightarrow>
               let s = s\<lparr>po_tmp := tmp\<rparr>; m = po_msg s;
                   old = (case get_field m f of None \<Rightarrow> [] | Some t \<Rightarrow> take (m_len m) t)
               in if n > 0 then Inr (s\<lparr>po_msg := (set_field f (old @ cstr tmp) m)\<lparr>m_len := m_len m + nat n\<rparr>\<rparr>) else Inr s))"

definition po_line :: "string \<Rightarrow> po_state \<Rightarrow> po_error + po_state" where
  "po_line line s = (case po_keyword False line s of Inl e \<Rightarrow> Inl e | Inr s \<Rightarrow> po_append line s)"

fun po_lines :: "string list \<Rightarrow> po_state \<Rightarrow> po_error + po_state" where
  "po_lines [] s = po_keyword True [] s"
| "po_lines (l # ls) s = (case po_line l s of Inl e \<Rightarrow> Inl e | Inr s \<Rightarrow> po_lines ls s)"

text \<open>
  What is left at the output path, or how the process fails. An argument is what \<open>fopen\<close> makes of it: the contents of
  the input file, and for the output file only that it could be opened.
\<close>

datatype po_result = Written string | Removed | Exit1 | Crash

definition po_start :: "string \<Rightarrow> po_state" where
  "po_start tmp = \<lparr>po_msg = msg_zero\<lparr>m_plural_num := -1\<rparr>, po_tmp = tmp, po_array = [], po_offset = 0, po_out = []\<rparr>"

definition po2lmo_main :: "(lmo_entry list \<Rightarrow> lmo_entry list) \<Rightarrow> string \<Rightarrow> string option list \<Rightarrow> po_result" where
  "po2lmo_main qsort tmp args =
     (case args of
        [Some inp, Some _] \<Rightarrow>
          (case po_lines (fgets_lines 4096 inp) (po_start tmp) of
             Inl Died \<Rightarrow> Exit1
           | Inl Undefined \<Rightarrow> Crash
           | Inr s \<Rightarrow>
               let out = print_index qsort (po_array s) (po_out s) in
               if po_offset s > 0 then Written (out @ uint32_bytes (po_offset s mod 2 ^ 32)) else Removed)
      | _ \<Rightarrow> Exit1)"

subsection \<open>Quoting\<close>

definition po_escape :: "string \<Rightarrow> string" where
  "po_escape t = concat (map (\<lambda>c. if c = CHR 0x22 \<or> c = CHR 0x5C then [CHR 0x5C, c] else [c]) t)"

lemma po_escape_simps [simp]:
  "po_escape [] = []"
  "po_escape (c # t) = (if c = CHR 0x22 \<or> c = CHR 0x5C then CHR 0x5C # c # po_escape t else c # po_escape t)"
  by (simp_all add: po_escape_def)

lemma po_escape_set: "set (po_escape t) \<subseteq> insert CHR 0x5C (set t)"
  by (induction t) auto

lemma extract_escaped:
  assumes "off \<le> pos" "length dest = L" "pos + length (po_escape t) < L"
  shows "\<exists>off' dest'. extract_loop (po_escape t @ CHR 0x22 # rest) L pos (Some off) False dest = (Some off', dest') \<and>
    length dest' = L \<and> take (pos - off + length t) dest' = take (pos - off) dest @ t \<and> dest' ! (pos - off + length t) = NUL"
  using assms
proof (induction t arbitrary: pos off dest)
  case Nil
  then show ?case by simp
next
  case (Cons c t)
  let ?k = "pos - off" and ?d = "dest[pos - off := c]"
  have k: "?k < length dest" using Cons.prems by simp
  have tk: "take (Suc ?k) ?d = take ?k dest @ [c]" using k by (simp add: take_Suc_conv_app_nth)
  show ?case
  proof (cases "c = CHR 0x22 \<or> c = CHR 0x5C")
    case True
    have "off + 1 \<le> pos + 2" "length ?d = L" "pos + 2 + length (po_escape t) < L" using Cons.prems True by auto
    from Cons.IH [OF this] obtain off' dest' where
      IH: "extract_loop (po_escape t @ CHR 0x22 # rest) L (pos + 2) (Some (off + 1)) False ?d = (Some off', dest')"
        "length dest' = L" "take (pos + 2 - (off + 1) + length t) dest' = take (pos + 2 - (off + 1)) ?d @ t"
        "dest' ! (pos + 2 - (off + 1) + length t) = NUL" by blast
    have k': "pos + 2 - (off + 1) = Suc ?k" using Cons.prems by simp
    have "extract_loop (po_escape (c # t) @ CHR 0x22 # rest) L pos (Some off) False dest = (Some off', dest')"
      using True Cons.prems IH(1) by auto
    then show ?thesis using IH(2-4) tk unfolding k' by auto
  next
    case False
    have "off \<le> pos + 1" "length ?d = L" "pos + 1 + length (po_escape t) < L" using Cons.prems False by auto
    from Cons.IH [OF this] obtain off' dest' where
      IH: "extract_loop (po_escape t @ CHR 0x22 # rest) L (pos + 1) (Some off) False ?d = (Some off', dest')"
        "length dest' = L" "take (pos + 1 - off + length t) dest' = take (pos + 1 - off) ?d @ t"
        "dest' ! (pos + 1 - off + length t) = NUL" by blast
    have k': "pos + 1 - off = Suc ?k" using Cons.prems by simp
    have "extract_loop (po_escape (c # t) @ CHR 0x22 # rest) L pos (Some off) False dest = (Some off', dest')"
      using False Cons.prems IH(1) by auto
    then show ?thesis using IH(2-4) tk unfolding k' by auto
  qed
qed

lemma extract_keyword:
  "CHR 0x22 \<notin> set kw \<Longrightarrow> pos + length kw < L \<Longrightarrow>
   extract_loop (kw @ CHR 0x22 # rest) L pos None False dest = extract_loop rest L (pos + length kw + 1) (Some (pos + length kw + 1)) False dest"
  by (induction kw arbitrary: pos) auto

lemma cstr_prefix:
  assumes "take n d = t" "d ! n = NUL" "n < length d" "NUL \<notin> set t"
  shows "cstr d = t" "NUL \<in> set d"
proof -
  have d: "d = t @ NUL # drop (Suc n) d" using id_take_nth_drop [OF assms(3)] assms by simp
  have "cstr (t @ NUL # r) = t" for r using assms(4) by (induction t) (auto simp: cstr_def)
  then show "cstr d = t" using d by metis
  show "NUL \<in> set d" by (subst d) simp
qed

text \<open>A line of a PO file: a keyword and a quoted text.\<close>

definition po_quoted :: "string \<Rightarrow> string \<Rightarrow> string" where
  "po_quoted kw t = kw @ CHR 0x22 # po_escape t @ [CHR 0x22]"

definition line_ok :: "string \<Rightarrow> string \<Rightarrow> bool" where
  "line_ok kw t \<longleftrightarrow> CHR 0x22 \<notin> set kw \<and> newline \<notin> set kw \<union> set t \<and> NUL \<notin> set kw \<union> set t \<and> kw \<noteq> [] \<and> hd kw \<noteq> CHR ''#'' \<and>
     length (po_quoted kw t) + 2 \<le> 4096"

lemma extract_quoted:
  assumes "line_ok kw t" "length dest = 4096"
  shows "\<exists>dest'. extract_string (po_quoted kw t @ [newline]) dest = Some (int (length t), dest') \<and> length dest' = 4096 \<and> cstr dest' = t"
proof -
  have kw: "CHR 0x22 \<notin> set kw" "kw \<noteq> []" "hd kw \<noteq> CHR ''#''" "length kw + length (po_escape t) + 4 \<le> 4096" "NUL \<notin> set t"
    using assms(1) by (auto simp: line_ok_def po_quoted_def)
  let ?p = "length kw + 1"
  have bound: "?p + length (po_escape t) < 4096" using kw(4) by simp
  from extract_escaped [OF order_refl assms(2) bound, of "[newline]"] obtain off' dest' where
    E: "extract_loop (po_escape t @ CHR 0x22 # [newline]) 4096 ?p (Some ?p) False dest = (Some off', dest')" "length dest' = 4096"
      "take (length t) dest' = t" "dest' ! length t = NUL" by auto
  have "length t \<le> length (po_escape t)" by (induction t) auto
  then have "length t < length dest'" using E(2) kw(4) by simp
  note c = cstr_prefix [OF E(3,4) this kw(5)]
  have "extract_loop (po_quoted kw t @ [newline]) 4096 0 None False dest = (Some off', dest')"
    using extract_keyword [OF kw(1), of 0 4096 "po_escape t @ CHR 0x22 # [newline]" dest] kw(4) E(1) by (simp add: po_quoted_def)
  moreover have "hd (po_quoted kw t @ [newline]) = hd kw" using kw(2) by (simp add: po_quoted_def)
  ultimately show ?thesis using kw(2,3) E(2) c assms(2) by (simp add: extract_string_def)
qed

lemma po_append_quoted:
  assumes "line_ok kw t" "length (po_tmp s) = 4096" "t \<noteq> []" "m_cur (po_msg s) = Some f" "get_field (po_msg s) f = None" "m_len (po_msg s) = 0"
  shows "\<exists>tmp. length tmp = 4096 \<and> po_append (po_quoted kw t @ [newline]) s =
    Inr (s\<lparr>po_tmp := tmp, po_msg := (set_field f t (po_msg s))\<lparr>m_len := length t\<rparr>\<rparr>)"
  using extract_quoted [OF assms(1,2)] assms(3-6) by (auto simp: po_append_def Let_def)

subsection \<open>Messages and their texts\<close>

text \<open>A message as a translator writes it: context, singular, plural, and one translation per plural form.\<close>

record message =
  mg_ctxt :: "string option"
  mg_id :: string
  mg_plural :: "string option"
  mg_vals :: "string list"

definition message_lines :: "message \<Rightarrow> (string \<times> string) list" where
  "message_lines m =
     (case mg_ctxt m of None \<Rightarrow> [] | Some c \<Rightarrow> [(''msgctxt '', c)]) @
     (''msgid '', mg_id m) #
     (case mg_plural m of
        None \<Rightarrow> [(''msgstr '', mg_vals m ! 0)]
      | Some p \<Rightarrow> (''msgid_plural '', p) # map (\<lambda>i. (''msgstr['' @ dec_nat i @ ''] '', mg_vals m ! i)) [0..<length (mg_vals m)])"

definition po_text :: "message list \<Rightarrow> string" where
  "po_text ms = concat (map (\<lambda>(kw, t). po_quoted kw t @ [newline]) (concat (map message_lines ms)))"

definition message_key :: "message \<Rightarrow> nat \<Rightarrow> string" where
  "message_key m i =
     (case mg_ctxt m of None \<Rightarrow> [] | Some c \<Rightarrow> c @ [CTXT_SEP]) @ mg_id m @
     (if mg_plural m \<noteq> None then PLURAL_SEP # dec_nat i else [])"

definition message_hash :: "message \<Rightarrow> nat \<Rightarrow> nat" where
  "message_hash m i = unat (str_hash (message_key m i))"

definition message_ok :: "message \<Rightarrow> bool" where
  "message_ok m \<longleftrightarrow> list_all (\<lambda>(kw, t). line_ok kw t \<and> t \<noteq> []) (message_lines m) \<and>
     0 < length (mg_vals m) \<and> length (mg_vals m) \<le> 10 \<and> (mg_plural m = None \<longrightarrow> length (mg_vals m) = 1) \<and>
     list_all (\<lambda>i. length (message_key m i) < 4096 \<and> str_hash (message_key m i) \<noteq> str_hash (mg_vals m ! i)) [0..<length (mg_vals m)]"

lemma fgets_quoted:
  "list_all (\<lambda>(kw, t). line_ok kw t) ps \<Longrightarrow>
   fgets_lines 4096 (concat (map (\<lambda>(kw, t). po_quoted kw t @ [newline]) ps)) = map (\<lambda>(kw, t). po_quoted kw t @ [newline]) ps"
proof (induction ps)
  case (Cons p ps)
  obtain kw t where p: "p = (kw, t)" by fastforce
  have ok: "line_ok kw t" using Cons.prems p by simp
  have "newline \<notin> set (po_quoted kw t)" "NUL \<notin> set (po_quoted kw t)"
    using ok po_escape_set [of t] by (auto simp: line_ok_def po_quoted_def NUL_def)
  moreover have "length (po_quoted kw t) + 2 \<le> 4096" using ok by (simp add: line_ok_def)
  ultimately show ?case using Cons p by (simp add: fgets_lines_line)
qed simp

subsection \<open>Reading a message\<close>

definition no_msg :: "msg \<Rightarrow> bool" where
  "no_msg x \<longleftrightarrow> m_ctxt x = None \<and> m_id x = None \<and> m_id_plural x = None \<and> m_val x = replicate 10 None"

definition msg_loaded :: "message \<Rightarrow> msg \<Rightarrow> bool" where
  "msg_loaded m x \<longleftrightarrow> m_ctxt x = mg_ctxt m \<and> m_id x = Some (mg_id m) \<and> m_id_plural x = mg_plural m \<and>
     m_plural_num x = int (length (mg_vals m)) - 1 \<and> m_val x = map Some (mg_vals m) @ replicate (10 - length (mg_vals m)) None"

text \<open>Two states with the same output, and a buffer of the right size.\<close>

definition same_out :: "po_state \<Rightarrow> po_state \<Rightarrow> bool" where
  "same_out s s' \<longleftrightarrow> po_array s' = po_array s \<and> po_offset s' = po_offset s \<and> po_out s' = po_out s \<and> length (po_tmp s') = 4096"

abbreviation quoted_line :: "string \<Rightarrow> string \<Rightarrow> string" where
  "quoted_line kw t \<equiv> po_quoted kw t @ [newline]"

lemma line_step:
  assumes "line_ok kw t" "t \<noteq> []" "length (po_tmp s) = 4096"
    and "po_keyword False (quoted_line kw t) s = Inr s1" "same_out s s1"
    and "m_cur (po_msg s1) = Some f" "get_field (po_msg s1) f = None" "m_len (po_msg s1) = 0"
  shows "\<exists>s'. po_line (quoted_line kw t) s = Inr s' \<and> same_out s s' \<and> po_msg s' = (set_field f t (po_msg s1))\<lparr>m_len := length t\<rparr>"
proof -
  have "length (po_tmp s1) = 4096" using assms(5) by (simp add: same_out_def)
  from po_append_quoted [OF assms(1) this assms(2,6-8)] show ?thesis
    using assms(4,5) by (auto simp: po_line_def same_out_def)
qed

lemma keyword_take:
  "take 9 (quoted_line ''msgctxt '' t) = ''msgctxt '' @ [CHR 0x22]"
  "take 7 (quoted_line ''msgid '' t) = ''msgid '' @ [CHR 0x22]"
  "take 9 (quoted_line ''msgid '' t) \<noteq> ''msgctxt '' @ [CHR 0x22]"
  by (simp_all add: po_quoted_def)

lemma read_ctxt:
  assumes "line_ok ''msgctxt '' t" "t \<noteq> []" "length (po_tmp s) = 4096" "no_msg (po_msg s)"
  shows "\<exists>s'. po_line (quoted_line ''msgctxt '' t) s = Inr s' \<and> same_out s s' \<and> m_ctxt (po_msg s') = Some t \<and>
    m_id (po_msg s') = None \<and> m_id_plural (po_msg s') = None \<and> m_val (po_msg s') = replicate 10 None"
proof -
  let ?s1 = "s\<lparr>po_msg := po_msg s\<lparr>m_ctxt := None, m_cur := Some Ctxt, m_len := 0\<rparr>\<rparr>"
  have "po_keyword False (quoted_line ''msgctxt '' t) s = Inr ?s1"
    using assms(4) unfolding po_keyword_def keyword_take by (simp add: flush_msg_def no_msg_def)
  from line_step [OF assms(1-3) this] show ?thesis
    using assms(3,4) by (auto simp: same_out_def get_field_def set_field_def no_msg_def)
qed

lemma read_id:
  assumes "line_ok ''msgid '' t" "t \<noteq> []" "length (po_tmp s) = 4096"
    and "m_id (po_msg s) = None" "m_id_plural (po_msg s) = None" "m_val (po_msg s) = replicate 10 None"
  shows "\<exists>s'. po_line (quoted_line ''msgid '' t) s = Inr s' \<and> same_out s s' \<and> m_ctxt (po_msg s') = m_ctxt (po_msg s) \<and>
    m_id (po_msg s') = Some t \<and> m_id_plural (po_msg s') = None \<and> m_val (po_msg s') = replicate 10 None"
proof -
  let ?s1 = "s\<lparr>po_msg := po_msg s\<lparr>m_id := None, m_cur := Some Id, m_len := 0\<rparr>\<rparr>"
  have "po_keyword False (quoted_line ''msgid '' t) s = Inr ?s1"
    using assms(4-6) unfolding po_keyword_def keyword_take by (simp add: flush_msg_def po_quoted_def)
  from line_step [OF assms(1-3) this] show ?thesis
    using assms by (auto simp: same_out_def get_field_def set_field_def)
qed

lemma read_plural:
  assumes "line_ok ''msgid_plural '' t" "t \<noteq> []" "length (po_tmp s) = 4096"
  shows "\<exists>s'. po_line (quoted_line ''msgid_plural '' t) s = Inr s' \<and> same_out s s' \<and> m_ctxt (po_msg s') = m_ctxt (po_msg s) \<and>
    m_id (po_msg s') = m_id (po_msg s) \<and> m_id_plural (po_msg s') = Some t \<and> m_val (po_msg s') = m_val (po_msg s)"
proof -
  let ?s1 = "s\<lparr>po_msg := po_msg s\<lparr>m_id_plural := None, m_cur := Some IdPlural, m_len := 0\<rparr>\<rparr>"
  have "po_keyword False (quoted_line ''msgid_plural '' t) s = Inr ?s1"
    by (simp add: po_keyword_def po_quoted_def)
  from line_step [OF assms(1-3) this] show ?thesis
    using assms by (auto simp: same_out_def get_field_def set_field_def)
qed

lemma to_int32_small: "n < 2 ^ 31 \<Longrightarrow> to_int32 (int n) = int n"
  by (simp add: to_int32_def)

lemma strtou_bracket:
  assumes "i < 10"
  shows "strtou 64 10 (dec_nat i @ CHR '']'' # rest) = i"
proof -
  obtain c where c: "dec_nat i = [c]" "isdigit c" using assms dec_nat_digits [of i] by (auto simp: dec_nat.simps [of i])
  have "\<not> isspace c" "c \<noteq> CHR ''-''" "c \<noteq> CHR ''+''" using c(2) not_digit(3) by (auto simp: isdigit_def Let_def)
  moreover have "\<not> is_digit_in 10 CHR '']''" by (simp add: is_digit_in_def digit_value_def isdigit_def isupper_def islower_def Let_def)
  moreover have "digits_value 10 [c] = i" using dec_nat_digits [of i] c(1) by simp
  ultimately show ?thesis using assms c digit_in_10 [OF c(2)] by (simp add: strtou_def strtou_base_def Let_def)
qed

lemma read_val:
  assumes "line_ok kw t" "t \<noteq> []" "length (po_tmp s) = 4096" "i < 10" "length (m_val (po_msg s)) = 10"
    and "kw = ''msgstr '' \<and> i = 0 \<or> kw = ''msgstr['' @ dec_nat i @ ''] ''"
  shows "\<exists>s'. po_line (quoted_line kw t) s = Inr s' \<and> same_out s s' \<and> m_ctxt (po_msg s') = m_ctxt (po_msg s) \<and>
    m_id (po_msg s') = m_id (po_msg s) \<and> m_id_plural (po_msg s') = m_id_plural (po_msg s) \<and>
    m_val (po_msg s') = (m_val (po_msg s))[i := Some t] \<and> m_plural_num (po_msg s') = int i"
proof -
  let ?s1 = "s\<lparr>po_msg := po_msg s\<lparr>m_plural_num := int i, m_val := (m_val (po_msg s))[i := None], m_cur := Some (Val i), m_len := 0\<rparr>\<rparr>"
  have "po_keyword False (quoted_line kw t) s = Inr ?s1"
    using assms(6)
  proof
    assume "kw = ''msgstr '' \<and> i = 0"
    then show ?thesis by (simp add: po_keyword_def po_quoted_def)
  next
    assume kw: "kw = ''msgstr['' @ dec_nat i @ ''] ''"
    have "to_int32 (int i) = int i" using assms(4) by (intro to_int32_small) simp
    then show ?thesis using assms(4) unfolding kw by (simp add: po_keyword_def po_quoted_def strtou_bracket)
  qed
  from line_step [OF assms(1-3) this] show ?thesis
    using assms by (auto simp: same_out_def get_field_def set_field_def)
qed

fun po_reads :: "string list \<Rightarrow> po_state \<Rightarrow> po_error + po_state" where
  "po_reads [] s = Inr s"
| "po_reads (l # ls) s = (case po_line l s of Inl e \<Rightarrow> Inl e | Inr s \<Rightarrow> po_reads ls s)"

lemma po_reads_append: "po_reads (xs @ ys) s = (case po_reads xs s of Inl e \<Rightarrow> Inl e | Inr s \<Rightarrow> po_reads ys s)"
  by (induction xs arbitrary: s) (auto split: sum.splits)

lemma po_lines_append: "po_lines (xs @ ys) s = (case po_reads xs s of Inl e \<Rightarrow> Inl e | Inr s \<Rightarrow> po_lines ys s)"
  by (induction xs arbitrary: s) (auto split: sum.splits)

abbreviation quoted_lines :: "(string \<times> string) list \<Rightarrow> string list" where
  "quoted_lines ps \<equiv> map (\<lambda>(kw, t). quoted_line kw t) ps"

lemma same_out_trans: "same_out s s' \<Longrightarrow> same_out s' s'' \<Longrightarrow> same_out s s''"
  by (simp add: same_out_def)

lemma read_vals:
  assumes "k \<le> length vs" "length vs \<le> 10" "length (po_tmp s) = 4096"
    and "list_all (\<lambda>i. line_ok (''msgstr['' @ dec_nat i @ ''] '') (vs ! i) \<and> vs ! i \<noteq> []) [k..<length vs]"
    and "m_val (po_msg s) = map Some (take k vs) @ replicate (10 - k) None" "m_plural_num (po_msg s) = int k - 1 \<or> k = 0 \<and> vs \<noteq> []"
  shows "\<exists>s'. po_reads (quoted_lines (map (\<lambda>i. (''msgstr['' @ dec_nat i @ ''] '', vs ! i)) [k..<length vs])) s = Inr s' \<and>
    same_out s s' \<and> m_ctxt (po_msg s') = m_ctxt (po_msg s) \<and> m_id (po_msg s') = m_id (po_msg s) \<and>
    m_id_plural (po_msg s') = m_id_plural (po_msg s) \<and> m_val (po_msg s') = map Some vs @ replicate (10 - length vs) None \<and>
    m_plural_num (po_msg s') = int (length vs) - 1"
  using assms
proof (induction "length vs - k" arbitrary: k s)
  case 0
  then show ?case by (auto simp: same_out_def)
next
  case (Suc n)
  then have k: "k < length vs" "k < 10" by auto
  have up: "[k..<length vs] = k # [Suc k..<length vs]" using k(1) by (simp add: upt_conv_Cons)
  have len: "length (m_val (po_msg s)) = 10" using Suc.prems k by simp
  have ok: "line_ok (''msgstr['' @ dec_nat k @ ''] '') (vs ! k)" "vs ! k \<noteq> []"
    and rest: "list_all (\<lambda>i. line_ok (''msgstr['' @ dec_nat i @ ''] '') (vs ! i) \<and> vs ! i \<noteq> []) [Suc k..<length vs]"
    using Suc.prems(4) unfolding up by auto
  obtain s1 where s1: "po_line (quoted_line (''msgstr['' @ dec_nat k @ ''] '') (vs ! k)) s = Inr s1" "same_out s s1"
    "m_ctxt (po_msg s1) = m_ctxt (po_msg s)" "m_id (po_msg s1) = m_id (po_msg s)" "m_id_plural (po_msg s1) = m_id_plural (po_msg s)"
    "m_val (po_msg s1) = (m_val (po_msg s))[k := Some (vs ! k)]" "m_plural_num (po_msg s1) = int k"
    using read_val [OF ok Suc.prems(3) k(2) len] by blast
  have "10 - k = Suc (10 - Suc k)" using k(2) by simp
  then have v: "m_val (po_msg s1) = map Some (take (Suc k) vs) @ replicate (10 - Suc k) None"
    using s1(6) Suc.prems(5) k(1) by (simp add: take_Suc_conv_app_nth list_update_append)
  have "\<exists>s'. po_reads (quoted_lines (map (\<lambda>i. (''msgstr['' @ dec_nat i @ ''] '', vs ! i)) [Suc k..<length vs])) s1 = Inr s' \<and>
    same_out s1 s' \<and> m_ctxt (po_msg s') = m_ctxt (po_msg s1) \<and> m_id (po_msg s') = m_id (po_msg s1) \<and>
    m_id_plural (po_msg s') = m_id_plural (po_msg s1) \<and> m_val (po_msg s') = map Some vs @ replicate (10 - length vs) None \<and>
    m_plural_num (po_msg s') = int (length vs) - 1"
    using Suc.hyps(2) Suc.prems(2) k(1) rest v s1(2,7) by (intro Suc.hyps(1)) (auto simp: same_out_def)
  then obtain s' where "po_reads (quoted_lines (map (\<lambda>i. (''msgstr['' @ dec_nat i @ ''] '', vs ! i)) [Suc k..<length vs])) s1 = Inr s'"
    "same_out s1 s'" "m_ctxt (po_msg s') = m_ctxt (po_msg s1)" "m_id (po_msg s') = m_id (po_msg s1)"
    "m_id_plural (po_msg s') = m_id_plural (po_msg s1)" "m_val (po_msg s') = map Some vs @ replicate (10 - length vs) None"
    "m_plural_num (po_msg s') = int (length vs) - 1" by blast
  then show ?case using s1 same_out_trans [OF s1(2)] unfolding up by auto
qed

lemma read_message:
  assumes "message_ok m" "no_msg (po_msg s)" "length (po_tmp s) = 4096"
  shows "\<exists>s'. po_reads (quoted_lines (message_lines m)) s = Inr s' \<and> same_out s s' \<and> msg_loaded m (po_msg s')"
proof -
  have ok: "list_all (\<lambda>(kw, t). line_ok kw t \<and> t \<noteq> []) (message_lines m)" and n: "0 < length (mg_vals m)" "length (mg_vals m) \<le> 10"
    and one: "mg_plural m = None \<Longrightarrow> length (mg_vals m) = 1"
    using assms(1) by (simp_all add: message_ok_def)
  let ?head = "case mg_ctxt m of None \<Rightarrow> [] | Some c \<Rightarrow> [(''msgctxt '', c)]"
  let ?tail = "case mg_plural m of None \<Rightarrow> [(''msgstr '', mg_vals m ! 0)]
    | Some p \<Rightarrow> (''msgid_plural '', p) # map (\<lambda>i. (''msgstr['' @ dec_nat i @ ''] '', mg_vals m ! i)) [0..<length (mg_vals m)]"
  have lines: "message_lines m = ?head @ (''msgid '', mg_id m) # ?tail" by (simp add: message_lines_def)
  have "\<exists>s1. po_reads (quoted_lines ?head) s = Inr s1 \<and> same_out s s1 \<and> m_ctxt (po_msg s1) = mg_ctxt m \<and>
    m_id (po_msg s1) = None \<and> m_id_plural (po_msg s1) = None \<and> m_val (po_msg s1) = replicate 10 None"
  proof (cases "mg_ctxt m")
    case None
    then show ?thesis using assms(2,3) by (simp add: same_out_def no_msg_def)
  next
    case (Some c)
    then have "line_ok ''msgctxt '' c" "c \<noteq> []" using ok by (auto simp: lines)
    then show ?thesis using read_ctxt [of c s] assms(2,3) Some by auto
  qed
  then obtain s1 where s1: "po_reads (quoted_lines ?head) s = Inr s1" "same_out s s1" "m_ctxt (po_msg s1) = mg_ctxt m"
    "m_id (po_msg s1) = None" "m_id_plural (po_msg s1) = None" "m_val (po_msg s1) = replicate 10 None" by blast
  have "line_ok ''msgid '' (mg_id m)" "mg_id m \<noteq> []" using ok by (auto simp: lines)
  then obtain s2 where s2: "po_line (quoted_line ''msgid '' (mg_id m)) s1 = Inr s2" "same_out s1 s2" "m_ctxt (po_msg s2) = mg_ctxt m"
    "m_id (po_msg s2) = Some (mg_id m)" "m_id_plural (po_msg s2) = None" "m_val (po_msg s2) = replicate 10 None"
    using read_id [of "mg_id m" s1] s1 by (auto simp: same_out_def)
  have "\<exists>s3. po_reads (quoted_lines ?tail) s2 = Inr s3 \<and> same_out s2 s3 \<and> msg_loaded m (po_msg s3)"
  proof (cases "mg_plural m")
    case None
    then have ok0: "line_ok ''msgstr '' (mg_vals m ! 0)" "mg_vals m ! 0 \<noteq> []" using ok by (auto simp: lines)
    have tmp2: "length (po_tmp s2) = 4096" using s2(2) by (simp add: same_out_def)
    have len: "length (m_val (po_msg s2)) = 10" using s2(6) by simp
    obtain v where v: "mg_vals m = [v]" using one [OF None] by (auto simp: length_Suc_conv)
    obtain s3 where s3: "po_line (quoted_line ''msgstr '' (mg_vals m ! 0)) s2 = Inr s3" "same_out s2 s3"
      "m_ctxt (po_msg s3) = m_ctxt (po_msg s2)" "m_id (po_msg s3) = m_id (po_msg s2)" "m_id_plural (po_msg s3) = m_id_plural (po_msg s2)"
      "m_val (po_msg s3) = (m_val (po_msg s2))[0 := Some (mg_vals m ! 0)]" "m_plural_num (po_msg s3) = int 0"
      using read_val [OF ok0 tmp2 _ len, of 0] by auto
    have "replicate 10 None = None # replicate 9 (None :: string option)" by (simp add: numeral_eq_Suc)
    then have "m_val (po_msg s3) = map Some (mg_vals m) @ replicate (10 - length (mg_vals m)) None"
      unfolding s3(6) s2(6) v by simp
    then have "msg_loaded m (po_msg s3)" using s3 s2 None v by (simp add: msg_loaded_def)
    then show ?thesis using s3(1,2) None by simp
  next
    case (Some p)
    then have p: "line_ok ''msgid_plural '' p" "p \<noteq> []" using ok by (auto simp: lines)
    have tmp2: "length (po_tmp s2) = 4096" using s2(2) by (simp add: same_out_def)
    obtain s3 where s3: "po_line (quoted_line ''msgid_plural '' p) s2 = Inr s3" "same_out s2 s3" "m_ctxt (po_msg s3) = mg_ctxt m"
      "m_id (po_msg s3) = Some (mg_id m)" "m_id_plural (po_msg s3) = Some p" "m_val (po_msg s3) = replicate 10 None"
      using read_plural [OF p tmp2] s2 by auto
    have "list_all (\<lambda>i. line_ok (''msgstr['' @ dec_nat i @ ''] '') (mg_vals m ! i) \<and> mg_vals m ! i \<noteq> []) [0..<length (mg_vals m)]"
      using ok Some by (auto simp: lines list.pred_map comp_def)
    then obtain s4 where "po_reads (quoted_lines (map (\<lambda>i. (''msgstr['' @ dec_nat i @ ''] '', mg_vals m ! i)) [0..<length (mg_vals m)])) s3 = Inr s4"
      "same_out s3 s4" "msg_loaded m (po_msg s4)"
      using read_vals [of 0 "mg_vals m" s3] n s3 Some by (auto simp: msg_loaded_def same_out_def)
    then show ?thesis using s3(1) same_out_trans [OF s3(2)] Some by auto
  qed
  then obtain s3 where s3: "po_reads (quoted_lines ?tail) s2 = Inr s3" "same_out s2 s3" "msg_loaded m (po_msg s3)" by blast
  have "po_reads (quoted_lines (message_lines m)) s = Inr s3" unfolding lines map_append po_reads_append s1(1) using s2(1) s3(1) by simp
  moreover have "same_out s s3" using same_out_trans [OF same_out_trans [OF s1(2) s2(2)] s3(2)] .
  ultimately show ?thesis using s3(3) by blast
qed

text \<open>The first line of a message writes out the message before it.\<close>

lemma read_message_flush:
  assumes "flush_msg s = Inr s1" "no_msg (po_msg s1)" "message_ok m"
  shows "po_reads (quoted_lines (message_lines m)) s = po_reads (quoted_lines (message_lines m)) s1"
proof -
  have f1: "flush_msg s1 = Inr s1" using assms(2) by (simp add: flush_msg_def no_msg_def)
  have "po_line (quoted_line kw t) s = po_line (quoted_line kw t) s1" if "kw = ''msgctxt '' \<or> kw = ''msgid ''" for kw t
    using that
  proof
    assume kw: "kw = ''msgctxt ''"
    show ?thesis unfolding kw po_line_def po_keyword_def keyword_take using assms(1) f1 by simp
  next
    assume kw: "kw = ''msgid ''"
    have "take 9 (quoted_line ''msgid '' t) \<noteq> ''msgctxt '' @ [CHR 0x22]" by (rule keyword_take)
    then show ?thesis unfolding kw po_line_def po_keyword_def keyword_take(2) using assms(1) f1 by simp
  qed
  then show ?thesis by (simp add: message_lines_def split: option.splits)
qed

subsection \<open>Writing the texts\<close>

definition pad4 :: "string \<Rightarrow> string" where
  "pad4 t = t @ replicate ((4 - length t mod 4) mod 4) NUL"

text \<open>A key, the number of plural forms and a text; the texts of a list behind each other, and their index.\<close>

type_synonym keyed_text = "nat \<times> nat \<times> string"

definition text_data :: "keyed_text list \<Rightarrow> string" where
  "text_data xs = concat (map (\<lambda>(k, v, t). pad4 t) xs)"

fun text_index :: "nat \<Rightarrow> keyed_text list \<Rightarrow> lmo_entry list" where
  "text_index off [] = []"
| "text_index off ((k, v, t) # xs) =
     \<lparr>key_id = k, val_id = v, entry_offset = off, entry_length = length t\<rparr> # text_index (off + length (pad4 t)) xs"

definition stored :: "keyed_text list \<Rightarrow> po_state \<Rightarrow> po_state \<Rightarrow> bool" where
  "stored xs s s' \<longleftrightarrow> po_array s' = po_array s @ text_index (po_offset s) xs \<and> po_out s' = po_out s @ text_data xs \<and>
     po_offset s' = po_offset s + length (text_data xs) \<and> po_tmp s' = po_tmp s"

lemma text_data_simps [simp]: "text_data [] = []" "text_data ((k, v, t) # xs) = pad4 t @ text_data xs"
  by (simp_all add: text_data_def)

lemma text_data_append: "text_data (xs @ ys) = text_data xs @ text_data ys"
  by (simp add: text_data_def)

lemma text_index_append: "text_index off (xs @ ys) = text_index off xs @ text_index (off + length (text_data xs)) ys"
  by (induction off xs rule: text_index.induct) (auto simp: add.assoc)

lemma stored_trans: "stored xs s s' \<Longrightarrow> stored ys s' s'' \<Longrightarrow> stored (xs @ ys) s s''"
  by (simp add: stored_def text_data_append text_index_append add.assoc)

lemma add_entry_stored:
  assumes "t \<noteq> []" "po_offset s + length (pad4 t) < 2 ^ 32"
  shows "\<exists>s'. add_entry k v t s = Inr s' \<and> stored [(k, v, t)] s s' \<and> po_msg s' = po_msg s"
proof -
  have "length t < 2 ^ 32" "po_offset s < 2 ^ 32" using assms(2) by (simp_all add: pad4_def)
  then show ?thesis using assms(1) by (simp add: add_entry_def po_print_def stored_def pad4_def Let_def)
qed

definition message_texts :: "message \<Rightarrow> keyed_text list" where
  "message_texts m = map (\<lambda>i. (message_hash m i, length (mg_vals m), mg_vals m ! i)) [0..<length (mg_vals m)]"

lemma loaded_key: "msg_loaded m x \<Longrightarrow> length (message_key m i) < 4096 \<Longrightarrow> msg_key x i = message_key m i"
  by (simp add: msg_key_def message_key_def msg_loaded_def)

lemma print_values_stored:
  assumes "msg_loaded m x" "length (mg_vals m) \<le> 10" "set is \<subseteq> {..<length (mg_vals m)}"
    and "list_all (\<lambda>i. length (message_key m i) < 4096 \<and> str_hash (message_key m i) \<noteq> str_hash (mg_vals m ! i) \<and> mg_vals m ! i \<noteq> []) is"
    and "po_offset s + length (text_data (map (\<lambda>i. (message_hash m i, length (mg_vals m), mg_vals m ! i)) is)) < 2 ^ 32"
  shows "\<exists>s'. print_values x is s = Inr s' \<and> stored (map (\<lambda>i. (message_hash m i, length (mg_vals m), mg_vals m ! i)) is) s s' \<and> po_msg s' = po_msg s"
  using assms(3-5)
proof (induction "is" arbitrary: s)
  case Nil
  then show ?case by (simp add: stored_def)
next
  case (Cons i js)
  let ?e = "(message_hash m i, length (mg_vals m), mg_vals m ! i)"
  have i: "i < length (mg_vals m)" using Cons.prems(1) by simp
  have val: "m_val x ! i = Some (mg_vals m ! i)" using assms(1) i by (simp add: msg_loaded_def nth_append)
  have key: "msg_key x i = message_key m i" using loaded_key [OF assms(1)] Cons.prems(2) by simp
  have num: "nat ((m_plural_num x + 1) mod 2 ^ 32) = length (mg_vals m)" using assms(1,2) by (simp add: msg_loaded_def)
  have "po_offset s + length (pad4 (mg_vals m ! i)) < 2 ^ 32" using Cons.prems(3) by simp
  moreover have "mg_vals m ! i \<noteq> []" using Cons.prems(2) by simp
  ultimately obtain s1 where s1: "add_entry (message_hash m i) (length (mg_vals m)) (mg_vals m ! i) s = Inr s1" "stored [?e] s s1" "po_msg s1 = po_msg s"
    using add_entry_stored by blast
  have "po_offset s1 = po_offset s + length (pad4 (mg_vals m ! i))" using s1(2) by (simp add: stored_def)
  then obtain s' where s': "print_values x js s1 = Inr s'" "stored (map (\<lambda>i. (message_hash m i, length (mg_vals m), mg_vals m ! i)) js) s1 s'" "po_msg s' = po_msg s1"
    using Cons.IH [of s1] Cons.prems by auto
  have "print_values x (i # js) s = Inr s'"
    using s1(1) s'(1) Cons.prems(2) unfolding print_values.simps val key num by (simp add: message_hash_def)
  then show ?case using stored_trans [OF s1(2) s'(2)] s1(3) s'(3) by simp
qed

lemma message_vals_ne:
  assumes "message_ok m"
  shows "list_all (\<lambda>i. mg_vals m ! i \<noteq> []) [0..<length (mg_vals m)]"
proof (cases "mg_plural m")
  case None
  then have "length (mg_vals m) = 1" using assms by (simp add: message_ok_def)
  then show ?thesis using assms None by (simp add: message_ok_def message_lines_def)
next
  case (Some p)
  then show ?thesis using assms by (auto simp: message_ok_def message_lines_def list.pred_map comp_def list_all_iff)
qed

lemma flush_stored:
  assumes "message_ok m" "msg_loaded m (po_msg s)" "po_offset s + length (text_data (message_texts m)) < 2 ^ 32"
  shows "\<exists>s'. flush_msg s = Inr s' \<and> stored (message_texts m) s s' \<and> no_msg (po_msg s')"
proof -
  have n: "0 < length (mg_vals m)" "length (mg_vals m) \<le> 10" using assms(1) by (simp_all add: message_ok_def)
  note ne = message_vals_ne [OF assms(1)]
  have ok: "list_all (\<lambda>i. length (message_key m i) < 4096 \<and> str_hash (message_key m i) \<noteq> str_hash (mg_vals m ! i) \<and> mg_vals m ! i \<noteq> []) [0..<length (mg_vals m)]"
    using assms(1) ne by (simp add: message_ok_def list_all_iff)
  have "\<exists>s'. print_values (po_msg s) [0..<length (mg_vals m)] s = Inr s' \<and> stored (message_texts m) s s' \<and> po_msg s' = po_msg s"
    unfolding message_texts_def using assms(3) by (intro print_values_stored [OF assms(2) n(2) _ ok]) (auto simp: message_texts_def)
  then obtain s' where s': "print_values (po_msg s) [0..<length (mg_vals m)] s = Inr s'" "stored (message_texts m) s s'" by blast
  have "m_id (po_msg s) = Some (mg_id m)" "m_val (po_msg s) ! 0 = Some (mg_vals m ! 0)" "nat (m_plural_num (po_msg s) + 1) = length (mg_vals m)"
    using assms(2) n by (simp_all add: msg_loaded_def nth_append)
  then have "flush_msg s = Inr (s'\<lparr>po_msg := msg_zero\<rparr>)" using s'(1) by (simp add: flush_msg_def print_msg_def Let_def)
  then show ?thesis using s'(2) by (simp add: stored_def no_msg_def msg_zero_def)
qed

lemma stored_same_out: "same_out s1 s2 \<Longrightarrow> stored xs s2 s3 \<Longrightarrow> stored xs (s1\<lparr>po_tmp := po_tmp s2\<rparr>) s3"
  by (simp add: same_out_def stored_def)

lemma po_lines_stored:
  assumes "list_all message_ok ms" "flush_msg s = Inr s1" "no_msg (po_msg s1)" "length (po_tmp s1) = 4096"
    and "po_offset s1 + length (text_data (concat (map message_texts ms))) < 2 ^ 32"
  shows "\<exists>s'. po_lines (quoted_lines (concat (map message_lines ms))) s = Inr s' \<and>
    po_array s' = po_array s1 @ text_index (po_offset s1) (concat (map message_texts ms)) \<and>
    po_out s' = po_out s1 @ text_data (concat (map message_texts ms)) \<and>
    po_offset s' = po_offset s1 + length (text_data (concat (map message_texts ms)))"
  using assms
proof (induction ms arbitrary: s s1)
  case Nil
  then show ?case by (simp add: po_keyword_def)
next
  case (Cons m ms)
  let ?xs = "message_texts m" and ?ys = "concat (map message_texts ms)"
  have ok: "message_ok m" "list_all message_ok ms" using Cons.prems(1) by simp_all
  obtain s2 where s2: "po_reads (quoted_lines (message_lines m)) s1 = Inr s2" "same_out s1 s2" "msg_loaded m (po_msg s2)"
    using read_message [OF ok(1) Cons.prems(3,4)] by blast
  have o2: "po_offset s2 = po_offset s1" "po_out s2 = po_out s1" "po_array s2 = po_array s1" "length (po_tmp s2) = 4096"
    using s2(2) by (simp_all add: same_out_def)
  have bound: "po_offset s1 + length (text_data ?xs) + length (text_data ?ys) < 2 ^ 32"
    using Cons.prems(5) by (simp add: text_data_append)
  obtain s3 where s3: "flush_msg s2 = Inr s3" "stored ?xs s2 s3" "no_msg (po_msg s3)"
    using flush_stored [OF ok(1) s2(3)] o2(1) bound by auto
  have o3: "po_offset s3 = po_offset s1 + length (text_data ?xs)" "length (po_tmp s3) = 4096"
    using s3(2) o2 by (simp_all add: stored_def)
  from Cons.IH [OF ok(2) s3(1) s3(3) o3(2)] bound o3(1) obtain s' where
    s': "po_lines (quoted_lines (concat (map message_lines ms))) s2 = Inr s'"
      "po_array s' = po_array s3 @ text_index (po_offset s3) ?ys" "po_out s' = po_out s3 @ text_data ?ys"
      "po_offset s' = po_offset s3 + length (text_data ?ys)" by auto
  have "po_lines (quoted_lines (concat (map message_lines (m # ms)))) s = Inr s'"
    using read_message_flush [OF Cons.prems(2,3) ok(1)] s2(1) s'(1) by (simp add: po_lines_append)
  then show ?case using s' s3(2) o2 o3 by (simp add: stored_def text_index_append text_data_append)
qed

subsection \<open>The archive\<close>

definition qsort_doc :: "(lmo_entry list \<Rightarrow> lmo_entry list) \<Rightarrow> bool" where
  "qsort_doc qsort \<longleftrightarrow> (\<forall>es. mset (qsort es) = mset es \<and> sorted (map key_id (qsort es)))"

definition index_bytes :: "lmo_entry list \<Rightarrow> string" where
  "index_bytes es = concat (map entry_bytes es)"

definition archive :: "string \<Rightarrow> lmo_entry list \<Rightarrow> string" where
  "archive txt es = txt @ index_bytes es @ uint32_bytes (length txt)"

definition archive_of :: "string \<Rightarrow> lmo_entry list \<Rightarrow> lmo_archive" where
  "archive_of txt es = \<lparr>ar_mmap = archive txt es, ar_index = length txt, ar_length = int (length es)\<rparr>"

definition entry_fits :: "lmo_entry \<Rightarrow> bool" where
  "entry_fits e \<longleftrightarrow> key_id e < 2 ^ 32 \<and> entry_offset e < 2 ^ 31 \<and> entry_length e < 2 ^ 31"

lemma uint32_length [simp]: "length (uint32_bytes x) = 4"
  by (simp add: uint32_bytes_def)

lemma uint32_value: "x < 2 ^ 32 \<Longrightarrow> be_val (map of_char (uint32_bytes x)) = x"
proof -
  assume x: "x < 2 ^ 32"
  have "map (\<lambda>b. of_char (char_of b :: char)) (be_bytes 4 x) = be_bytes 4 x"
    using be_bytes_bytes [of 4 x] by (intro map_idI) (auto simp: list_all_iff)
  then show ?thesis using x by (simp add: uint32_bytes_def comp_def be_val_be_bytes)
qed

lemma read32_at: "m = a @ uint32_bytes x @ b \<Longrightarrow> length a = pos \<Longrightarrow> x < 2 ^ 32 \<Longrightarrow> read32 m pos = Some x"
  by (simp add: read32_def uint32_value)

lemma entry_bytes_length [simp]: "length (entry_bytes e) = 16"
  by (simp add: entry_bytes_def)

lemma index_bytes_length [simp]: "length (index_bytes es) = 16 * length es"
  by (induction es) (simp_all add: index_bytes_def)

lemma index_bytes_nth:
  assumes "m < length es"
  shows "index_bytes es = index_bytes (take m es) @ entry_bytes (es ! m) @ index_bytes (drop (Suc m) es)"
proof -
  have "es = take m es @ es ! m # drop (Suc m) es" by (rule id_take_nth_drop [OF assms])
  then have "index_bytes es = index_bytes (take m es @ es ! m # drop (Suc m) es)" by simp
  then show ?thesis by (simp add: index_bytes_def)
qed

lemma archive_entry:
  assumes "m < length es" "entry_fits (es ! m)"
  shows "read32 (archive txt es) (length txt + 16 * m) = Some (key_id (es ! m))"
    and "entry_text (archive_of txt es) m = Some (entry_offset (es ! m), int (entry_length (es ! m)))"
proof -
  let ?e = "es ! m" and ?a = "txt @ index_bytes (take m es)" and ?z = "index_bytes (drop (Suc m) es) @ uint32_bytes (length txt)"
  have len: "length ?a = length txt + 16 * m" using assms(1) by simp
  have fits: "key_id ?e < 2 ^ 32" "entry_offset ?e < 2 ^ 32" "entry_length ?e < 2 ^ 32" using assms(2) by (simp_all add: entry_fits_def)
  have whole: "archive txt es = ?a @ uint32_bytes (key_id ?e) @ uint32_bytes (val_id ?e) @ uint32_bytes (entry_offset ?e) @ uint32_bytes (entry_length ?e) @ ?z"
    unfolding archive_def index_bytes_nth [OF assms(1)] by (simp add: entry_bytes_def)
  show "read32 (archive txt es) (length txt + 16 * m) = Some (key_id ?e)" by (rule read32_at [OF whole len fits(1)])
  have "read32 (archive txt es) (length txt + 16 * m + 8) = Some (entry_offset ?e)"
    by (rule read32_at [of _ "?a @ uint32_bytes (key_id ?e) @ uint32_bytes (val_id ?e)"]) (use whole len fits in simp_all)
  moreover have "read32 (archive txt es) (length txt + 16 * m + 12) = Some (entry_length ?e)"
    by (rule read32_at [of _ "?a @ uint32_bytes (key_id ?e) @ uint32_bytes (val_id ?e) @ uint32_bytes (entry_offset ?e)" _ ?z]) (use whole len fits in simp_all)
  moreover have "to_int32 (int (entry_length ?e)) = int (entry_length ?e)"
    using assms(2) by (intro to_int32_small) (simp add: entry_fits_def)
  ultimately show "entry_text (archive_of txt es) m = Some (entry_offset ?e, int (entry_length ?e))"
    by (simp add: entry_text_def archive_of_def)
qed

lemma archive_open:
  assumes "length (archive txt es) < 2 ^ 31" "files path = Some (archive txt es)"
  shows "lmo_open files path = Some (Some (archive_of txt es))"
proof -
  let ?f = "archive txt es" and ?n = "length txt" and ?k = "length es"
  have size: "length ?f = ?n + 16 * ?k + 4" by (simp add: archive_def)
  have n: "?n + 16 * ?k + 4 < 2 ^ 31" using assms(1) size by simp
  have md: "length ?f mod 2 ^ 32 = ?n + 16 * ?k + 4" using n size by simp
  have rd: "read32 ?f (?n + 16 * ?k) = Some ?n"
    by (rule read32_at [of _ "txt @ index_bytes es" _ "[]"]) (use n in \<open>simp_all add: archive_def\<close>)
  have "int (?n + 16 * ?k + 4 - ?n) - 4 = int (16 * ?k)" by simp
  then have "((int (?n + 16 * ?k + 4 - ?n) - 4) mod 2 ^ 64) div 16 = int ?k" using n by simp
  moreover have "to_int32 (int ?k) = int ?k" using n by (intro to_int32_small) simp
  ultimately have "to_int32 (((int (?n + 16 * ?k + 4 - ?n) - 4) mod 2 ^ 64) div 16) = int ?k" by metis
  then show ?thesis using assms(2) rd size md by (simp add: lmo_open_def Let_def archive_of_def)
qed

lemma text_index_entry:
  assumes "e \<in> set (text_index off xs)" "length P = off"
  shows "\<exists>k v t. (k, v, t) \<in> set xs \<and> key_id e = k \<and> entry_length e = length t \<and>
    take (length t) (drop (entry_offset e) (P @ text_data xs @ Q)) = t \<and> entry_offset e + length t \<le> off + length (text_data xs)"
  using assms
proof (induction off xs arbitrary: P rule: text_index.induct)
  case (2 off k v t xs)
  show ?case
  proof (cases "e = \<lparr>key_id = k, val_id = v, entry_offset = off, entry_length = length t\<rparr>")
    case True
    then show ?thesis using "2.prems"(2) by (intro exI [of _ k] exI [of _ v] exI [of _ t]) (simp add: pad4_def)
  next
    case False
    then have "e \<in> set (text_index (off + length (pad4 t)) xs)" using "2.prems"(1) by simp
    from "2.IH" [OF this, of "P @ pad4 t"] "2.prems"(2) obtain k' v' t' where
      "(k', v', t') \<in> set xs" "key_id e = k'" "entry_length e = length t'"
      "take (length t') (drop (entry_offset e) (P @ pad4 t @ text_data xs @ Q)) = t'"
      "entry_offset e + length t' \<le> off + length (pad4 t) + length (text_data xs)" by auto
    then show ?thesis by (intro exI [of _ k'] exI [of _ v'] exI [of _ t']) simp
  qed
qed simp

lemma text_index_keys: "map key_id (text_index off xs) = map fst xs"
  by (induction off xs rule: text_index.induct) auto

definition found_text :: "found \<Rightarrow> string" where
  "found_text f = (case f of (m, off, n) \<Rightarrow> take (nat n) (drop off m))"

lemma archive_search:
  assumes "qsort_doc qsort" "xs \<noteq> []" "distinct (map fst xs)" "\<forall>x \<in> set xs. fst x < 2 ^ 32"
    and "length (archive (text_data xs) (qsort (text_index 0 xs))) < 2 ^ 31"
  defines "ar \<equiv> archive_of (text_data xs) (qsort (text_index 0 xs))"
  shows "(k, v, t) \<in> set xs \<Longrightarrow> \<exists>f. find_in_archives [ar] k = Some (Some f) \<and> found_text f = t"
    and "k \<notin> fst ` set xs \<Longrightarrow> find_in_archives [ar] k = Some None"
proof -
  let ?T = "text_data xs" and ?E = "qsort (text_index 0 xs)"
  have perm: "mset ?E = mset (text_index 0 xs)" "sorted (map key_id ?E)" using assms(1) by (simp_all add: qsort_doc_def)
  have mem: "set ?E = set (text_index 0 xs)" using mset_eq_setD [OF perm(1)] .
  have keys: "set (map key_id ?E) = fst ` set xs" using arg_cong [OF text_index_keys [of 0 xs], of set] mem by simp
  have small: "length ?T + 16 * length ?E + 4 < 2 ^ 31" using assms(5) by (simp add: archive_def)
  have entry: "\<exists>k v t. (k, v, t) \<in> set xs \<and> key_id e = k \<and> entry_length e = length t \<and>
    take (length t) (drop (entry_offset e) (archive ?T ?E)) = t \<and> entry_offset e + length t \<le> length ?T" if "e \<in> set ?E" for e
    using text_index_entry [of e 0 xs "[]" "index_bytes ?E @ uint32_bytes (length ?T)"] that mem by (simp add: archive_def)
  have fits: "entry_fits e" if e: "e \<in> set ?E" for e
  proof -
    obtain k v t where x: "(k, v, t) \<in> set xs" "key_id e = k" "entry_length e = length t" "entry_offset e + length t \<le> length ?T"
      using entry [OF e] by blast
    have "fst (k, v, t) < 2 ^ 32" using assms(4) x(1) by blast
    then show ?thesis using x small by (simp add: entry_fits_def)
  qed
  have len: "length ?E = length xs" using arg_cong [OF perm(1), of size] arg_cong [OF text_index_keys [of 0 xs], of length] by simp
  have ne: "map key_id ?E \<noteq> []" using len assms(2) by auto
  have idx: "index_keys ar (map key_id ?E)"
    unfolding index_keys_def
  proof (intro conjI allI impI)
    show "length (map key_id ?E) < 2 ^ 31" using small by simp
    fix m assume "m < length (map key_id ?E)"
    then show "read32 (ar_mmap ar) (ar_index ar + 16 * m) = Some (map key_id ?E ! m)"
      using archive_entry(1) [of m ?E ?T] fits by (simp add: ar_def archive_of_def)
  qed (use ne perm in \<open>simp_all add: ar_def archive_of_def\<close>)
  note search = find_entry_search [OF idx, of k]
  { assume x: "(k, v, t) \<in> set xs"
    have "k \<in> set (map key_id ?E)" unfolding keys using x by force
    then obtain m where m: "lmo_find_entry ar k = Some (Some m)" "m < length ?E" "key_id (?E ! m) = k"
      using search by (auto simp: search_result_def split: option.splits)
    obtain k' v' t' where x': "(k', v', t') \<in> set xs" "key_id (?E ! m) = k'" "entry_length (?E ! m) = length t'"
      "take (length t') (drop (entry_offset (?E ! m)) (archive ?T ?E)) = t'" using entry [of "?E ! m"] m(2) by auto
    have "k' = k" using x'(2) m(3) by simp
    then have "(k', v', t') = (k, v, t)" using x x'(1) assms(3) by (auto dest: eq_key_imp_eq_value [of xs])
    then have t: "t' = t" by simp
    have "find_in_archives [ar] k = Some (Some (archive ?T ?E, entry_offset (?E ! m), int (length t)))"
      using m(1) archive_entry(2) [OF m(2) fits] m(2) x'(3) t by (simp add: ar_def) (simp add: archive_of_def)
    then show "\<exists>f. find_in_archives [ar] k = Some (Some f) \<and> found_text f = t"
      using x'(4) t by (auto simp: found_text_def) }
  { assume "k \<notin> fst ` set xs"
    then have "lmo_find_entry ar k = Some None"
      using search keys by (auto simp: search_result_def split: option.splits)
    then show "find_in_archives [ar] k = Some None" by simp }
qed

subsection \<open>From the PO file to the translation\<close>

definition catalog_texts :: "message list \<Rightarrow> keyed_text list" where
  "catalog_texts ms = concat (map message_texts ms)"

lemma catalog_written:
  assumes "qsort_doc qsort" "length tmp = 4096" "ms \<noteq> []" "list_all message_ok ms"
    and "length (archive (text_data (catalog_texts ms)) (qsort (text_index 0 (catalog_texts ms)))) < 2 ^ 31"
  shows "po2lmo_main qsort tmp [Some (po_text ms), Some []] =
    Written (archive (text_data (catalog_texts ms)) (qsort (text_index 0 (catalog_texts ms))))"
proof -
  let ?xs = "catalog_texts ms"
  have size: "length (text_data ?xs) < 2 ^ 31" using assms(5) by (simp add: archive_def)
  have lines: "list_all (\<lambda>(kw, t). line_ok kw t) (concat (map message_lines ms))"
    using assms(4) by (auto simp: list_all_iff message_ok_def)
  have start: "flush_msg (po_start tmp) = Inr (po_start tmp)" "no_msg (po_msg (po_start tmp))"
    by (simp_all add: flush_msg_def po_start_def msg_zero_def no_msg_def)
  obtain s where s: "po_lines (quoted_lines (concat (map message_lines ms))) (po_start tmp) = Inr s"
    "po_array s = text_index 0 ?xs" "po_out s = text_data ?xs" "po_offset s = length (text_data ?xs)"
    using po_lines_stored [OF assms(4) start] assms(2) size by (auto simp: po_start_def catalog_texts_def)
  obtain m ms' where ms: "ms = m # ms'" using assms(3) by (cases ms) auto
  then have "length (mg_vals m) > 0" "message_ok m" using assms(4) by (simp_all add: message_ok_def)
  moreover have "mg_vals m ! 0 \<noteq> []" using message_vals_ne [OF \<open>message_ok m\<close>] \<open>length (mg_vals m) > 0\<close>
    by (simp add: list_all_iff)
  ultimately have pos: "0 < length (text_data ?xs)"
    unfolding ms catalog_texts_def message_texts_def by (simp add: upt_conv_Cons pad4_def)
  show ?thesis
    using s pos size by (simp add: po2lmo_main_def po_text_def fgets_quoted [OF lines] print_index_def archive_def index_bytes_def Let_def)
qed

lemma message_hash_bound: "x \<in> set (catalog_texts ms) \<Longrightarrow> fst x < 2 ^ 32"
proof -
  assume "x \<in> set (catalog_texts ms)"
  then obtain m i where "fst x = message_hash m i" by (auto simp: catalog_texts_def message_texts_def)
  then show ?thesis using unsigned_less [of "str_hash (message_key m i)"] by (simp add: message_hash_def)
qed

lemma catalog_text_mem: "m \<in> set ms \<Longrightarrow> i < length (mg_vals m) \<Longrightarrow> (message_hash m i, length (mg_vals m), mg_vals m ! i) \<in> set (catalog_texts ms)"
proof -
  assume "m \<in> set ms" "i < length (mg_vals m)"
  then have "(message_hash m i, length (mg_vals m), mg_vals m ! i) \<in> set (message_texts m)" by (simp add: message_texts_def)
  then show ?thesis using \<open>m \<in> set ms\<close> by (auto simp: catalog_texts_def)
qed

lemma active_not_None: "active_archives st = Some ars \<Longrightarrow> active st \<noteq> None"
  by (cases "active st") (simp_all add: active_archives_def)

lemma catalog_not_empty: "ms \<noteq> [] \<Longrightarrow> list_all message_ok ms \<Longrightarrow> catalog_texts ms \<noteq> []"
  by (cases ms) (auto simp: catalog_texts_def message_texts_def message_ok_def)

text \<open>
  C20. From the PO file to the page. For messages whose keys have different hashes, the converter writes an archive
  that opens, and in which every message is found: a key that is the message's up to blanks gets its
  translation, in the plural form chosen if it has several, and a key whose hash is not in the archive is not
  translated. This holds for every order in which \<open>qsort\<close> leaves equal elements, and whatever the text buffer
  held before.
\<close>

theorem po2lmo_translates:
  assumes "qsort_doc qsort" "length tmp = 4096" "ms \<noteq> []" "list_all message_ok ms" "distinct (map fst (catalog_texts ms))"
    and "length (archive (text_data (catalog_texts ms)) (qsort (text_index 0 (catalog_texts ms)))) < 2 ^ 31"
  shows "\<exists>file ar. po2lmo_main qsort tmp [Some (po_text ms), Some []] = Written file \<and>
    (\<forall>files path. files path = Some file \<longrightarrow> lmo_open files path = Some (Some ar)) \<and>
    (\<forall>st. active_archives st = Some [ar] \<longrightarrow>
      (\<forall>m key ctx. m \<in> set ms \<longrightarrow> mg_plural m = None \<longrightarrow> canon_key key ctx (-1) = Some (message_key m 0) \<longrightarrow> message_hash m 0 \<noteq> 0 \<longrightarrow>
        (\<exists>f. lmo_translate_ctxt (Some key) ctx st = Some (0, Some f) \<and> found_text f = mg_vals m ! 0)) \<and>
      (\<forall>m i P n key pkey ctx. m \<in> set ms \<longrightarrow> i < length (mg_vals m) \<longrightarrow> lmo_plural_form P n [ar] = Some (int i) \<longrightarrow>
        canon_key key ctx (int i) = Some (message_key m i) \<longrightarrow> message_hash m i \<noteq> 0 \<longrightarrow>
        (\<exists>f. lmo_translate_plural_ctxt P n (Some key) (Some pkey) ctx st = Some (0, Some f) \<and> found_text f = mg_vals m ! i)) \<and>
      (\<forall>key ctx. unat (lmo_canon_hash (Some key) ctx (-1)) \<notin> fst ` set (catalog_texts ms) \<longrightarrow>
        lmo_translate_ctxt (Some key) ctx st = Some (-1, None)))"
proof -
  let ?xs = "catalog_texts ms"
  define E where "E = qsort (text_index 0 ?xs)"
  let ?file = "archive (text_data ?xs) E" and ?ar = "archive_of (text_data ?xs) E"
  have written: "po2lmo_main qsort tmp [Some (po_text ms), Some []] = Written ?file"
    unfolding E_def by (rule catalog_written [OF assms(1-4,6)])
  have opened: "\<forall>files path. files path = Some ?file \<longrightarrow> lmo_open files path = Some (Some ?ar)"
    using archive_open assms(6) by (auto simp: E_def)
  have bound: "\<forall>x \<in> set ?xs. fst x < 2 ^ 32" using message_hash_bound by blast
  note search = archive_search [OF assms(1) catalog_not_empty [OF assms(3,4)] assms(5) bound assms(6), folded E_def]
  have found: "\<exists>f. find_in_archives [?ar] (message_hash m i) = Some (Some f) \<and> found_text f = mg_vals m ! i"
    if "m \<in> set ms" "i < length (mg_vals m)" for m i using search(1) [OF catalog_text_mem [OF that]] .
  have pos: "0 < length (mg_vals m)" if "m \<in> set ms" for m using assms(4) that by (simp add: list_all_iff message_ok_def)
  have single: "\<exists>f. lmo_translate_ctxt (Some key) ctx st = Some (0, Some f) \<and> found_text f = mg_vals m ! 0"
    if st: "active_archives st = Some [?ar]" and m: "m \<in> set ms" "canon_key key ctx (-1) = Some (message_key m 0)" "message_hash m 0 \<noteq> 0"
    for st m key ctx
  proof -
    have "active st \<noteq> None" using st by (rule active_not_None)
    moreover have "lmo_canon_hash (Some key) ctx (-1) > 0" using m by (simp add: lmo_canon_hash_def message_hash_def unat_gt_0 word_gt_0)
    ultimately show ?thesis using found [OF m(1) pos [OF m(1)]] st m
      by (auto simp: lmo_translate_ctxt_def lmo_canon_hash_def message_hash_def Let_def simp del: find_in_archives.simps)
  qed
  have plural: "\<exists>f. lmo_translate_plural_ctxt P n (Some key) (Some pkey) ctx st = Some (0, Some f) \<and> found_text f = mg_vals m ! i"
    if st: "active_archives st = Some [?ar]" and m: "m \<in> set ms" "i < length (mg_vals m)" "lmo_plural_form P n [?ar] = Some (int i)"
      "canon_key key ctx (int i) = Some (message_key m i)" "message_hash m i \<noteq> 0"
    for st m i P n key pkey ctx
  proof -
    have "active st \<noteq> None" using st by (rule active_not_None)
    moreover have "lmo_canon_hash (Some key) ctx (int i) \<noteq> 0" using m by (auto simp: lmo_canon_hash_def message_hash_def)
    ultimately show ?thesis using found [OF m(1,2)] st m
      by (auto simp: lmo_translate_plural_ctxt_def lmo_canon_hash_def message_hash_def Let_def simp del: find_in_archives.simps)
  qed
  have absent: "lmo_translate_ctxt (Some key) ctx st = Some (-1, None)"
    if st: "active_archives st = Some [?ar]" and k: "unat (lmo_canon_hash (Some key) ctx (-1)) \<notin> fst ` set ?xs" for st key ctx
  proof -
    have "active st \<noteq> None" using st by (rule active_not_None)
    then show ?thesis using search(2) [OF k] st by (simp add: lmo_translate_ctxt_def Let_def del: find_in_archives.simps)
  qed
  show ?thesis
  proof (intro exI [of _ ?file] exI [of _ ?ar] conjI allI impI, goal_cases)
    case 1
    show ?case by (rule written)
  next
    case 2
    then show ?case using opened by simp
  next
    case 3
    then show ?case by (intro single)
  next
    case 4
    then show ?case by (intro plural)
  next
    case 5
    then show ?case by (intro absent)
  qed
qed

subsection \<open>A concrete file\<close>

definition demo_messages :: "message list" where
  "demo_messages = [\<lparr>mg_ctxt = None, mg_id = ''Cancel'', mg_plural = None, mg_vals = [''Abbrechen'']\<rparr>]"

definition sort_entries :: "lmo_entry list \<Rightarrow> lmo_entry list" where
  "sort_entries es = sort_key key_id es"

lemma sort_entries_doc: "qsort_doc sort_entries"
  by (simp add: qsort_doc_def sort_entries_def)

lemma demo_hashes: "str_hash ''Cancel'' \<noteq> 0" "str_hash ''Cancel'' \<noteq> str_hash ''Abbrechen''"
  by code_simp+

lemma demo_catalog_texts: "catalog_texts demo_messages = [(unat (str_hash ''Cancel''), 1, ''Abbrechen'')]"
  by (simp add: catalog_texts_def demo_messages_def message_texts_def message_hash_def message_key_def)

lemma demo_messages_ok: "list_all message_ok demo_messages"
  using demo_hashes by (simp add: demo_messages_def message_ok_def message_lines_def message_key_def line_ok_def po_quoted_def NUL_def)

definition demo_catalog :: "lmo_archive \<Rightarrow> lmo_state" where
  "demo_catalog ar = \<lparr>catalogs = [\<lparr>cat_id = 0, cat_lang = ''de'', cat_archives = [ar]\<rparr>], active = Some 0, fresh = 1\<rparr>"

theorem po2lmo_translates_witness:
  "\<exists>file ar f. po2lmo_main sort_entries (replicate 4096 NUL) [Some (po_text demo_messages), Some []] = Written file \<and>
     lmo_translate_ctxt (Some ''  Cancel '') None (demo_catalog ar) = Some (0, Some f) \<and> found_text f = ''Abbrechen''"
proof -
  have len: "length (archive (text_data (catalog_texts demo_messages)) (sort_entries (text_index 0 (catalog_texts demo_messages)))) < 2 ^ 31"
    by (simp add: demo_catalog_texts archive_def sort_entries_def pad4_def)
  have key: "canon_key ''  Cancel '' None (-1) = Some (message_key (hd demo_messages) 0)"
    by (simp add: canon_key_def canon_ctxt_def canon_trim_def canon_plural_def CANON_MAX_def isspace_def demo_messages_def message_key_def)
  have st: "active_archives (demo_catalog ar) = Some [ar]" for ar by (simp add: active_archives_def demo_catalog_def)
  have m: "hd demo_messages \<in> set demo_messages" "mg_plural (hd demo_messages) = None" "message_hash (hd demo_messages) 0 \<noteq> 0"
    "mg_vals (hd demo_messages) ! 0 = ''Abbrechen''" "demo_messages \<noteq> []"
    using demo_hashes by (simp_all add: demo_messages_def message_hash_def message_key_def unat_eq_zero)
  have dist: "distinct (map fst (catalog_texts demo_messages))" by (simp add: demo_catalog_texts)
  obtain out ar where r: "po2lmo_main sort_entries (replicate 4096 NUL) [Some (po_text demo_messages), Some []] = Written out"
    "\<forall>st. active_archives st = Some [ar] \<longrightarrow>
      (\<exists>f. lmo_translate_ctxt (Some ''  Cancel '') None st = Some (0, Some f) \<and> found_text f = mg_vals (hd demo_messages) ! 0)"
    using po2lmo_translates [OF sort_entries_doc length_replicate m(5) demo_messages_ok dist len, of NUL] m(1-3) key by meson
  from r(2) st have "\<exists>f. lmo_translate_ctxt (Some ''  Cancel '') None (demo_catalog ar) = Some (0, Some f) \<and>
    found_text f = mg_vals (hd demo_messages) ! 0" by blast
  then show ?thesis using r(1) unfolding m(4) by blast
qed

end
