(* ===== verification/MtdSplit.thy ===== *)
theory MtdSplit
  imports Bytes
begin

text \<open>
  The partition splitters of target/linux/generic/files/drivers/mtd/mtdsplit: they read the header of a firmware image
  from a flash partition, look for a root filesystem and return the kernel and rootfs partitions. The flash driver, the
  device tree, the allocator and the width and byte order of the machine are fields of the device record. A result is an
  error code, a list of partitions, or None when a loop does not end or memory outside a buffer is read.
\<close>

subsection \<open>Devices, partitions and results\<close>

abbreviation (input) ENOENT :: int where "ENOENT \<equiv> - 2"
abbreviation (input) EIO :: int where "EIO \<equiv> - 5"
abbreviation (input) ENOMEM :: int where "ENOMEM \<equiv> - 12"
abbreviation (input) EINVAL :: int where "EINVAL \<equiv> - 22"

record mtd_info =
  mtd_name :: string
  mtd_size :: nat
  mtd_erasesize :: nat
  mtd_read :: "nat \<Rightarrow> nat \<Rightarrow> int + nat list"
  part_offset :: nat
  master_erasesize :: nat
  of_compatible :: "string \<Rightarrow> bool"
  of_u32 :: "string \<Rightarrow> nat option"
  alloc :: "nat \<Rightarrow> bool"
  size_bits :: nat
  big_endian :: bool

record mtd_partition =
  p_name :: string
  p_offset :: nat
  p_size :: nat

datatype mtdsplit_part_type = PART_TYPE_UNK | PART_TYPE_SQUASHFS | PART_TYPE_JFFS2 | PART_TYPE_UBI

type_synonym 'a res = "(int + 'a) option"

definition fail :: "int \<Rightarrow> 'a res" where
  "fail e = Some (Inl e)"

definition ok :: "'a \<Rightarrow> 'a res" where
  "ok x = Some (Inr x)"

definition andthen :: "'a res \<Rightarrow> ('a \<Rightarrow> 'b res) \<Rightarrow> 'b res" where
  "andthen r f = (case r of None \<Rightarrow> None | Some (Inl e) \<Rightarrow> Some (Inl e) | Some (Inr x) \<Rightarrow> f x)"

text \<open>Values of type size_t and u64, the difference of two of them, the value of a signed 32-bit integer.\<close>

definition to_size_t :: "mtd_info \<Rightarrow> nat \<Rightarrow> nat" where
  "to_size_t m x = x mod 2 ^ size_bits m"

definition int_to_size_t :: "mtd_info \<Rightarrow> int \<Rightarrow> nat" where
  "int_to_size_t m x = nat (x mod 2 ^ size_bits m)"

definition s32 :: "int \<Rightarrow> int" where
  "s32 x = (x + 2 ^ 31) mod 2 ^ 32 - 2 ^ 31"

text \<open>round_up of the kernel, for a power of two.\<close>

definition round_up :: "mtd_info \<Rightarrow> nat \<Rightarrow> nat \<Rightarrow> nat" where
  "round_up m x y = to_size_t m ((x + y - 1) div y * y)"

text \<open>The fields of a header that was read as bytes.\<close>

definition fld :: "nat list \<Rightarrow> nat \<Rightarrow> nat \<Rightarrow> nat list" where
  "fld bs off n = take n (drop off bs)"

definition be32 :: "nat list \<Rightarrow> nat \<Rightarrow> nat" where
  "be32 bs off = be_val (fld bs off 4)"

definition be16 :: "nat list \<Rightarrow> nat \<Rightarrow> nat" where
  "be16 bs off = be_val (fld bs off 2)"

definition be64 :: "nat list \<Rightarrow> nat \<Rightarrow> nat" where
  "be64 bs off = be_val (fld bs off 8)"

definition le32 :: "nat list \<Rightarrow> nat \<Rightarrow> nat" where
  "le32 bs off = le_val (fld bs off 4)"

definition le64 :: "nat list \<Rightarrow> nat \<Rightarrow> nat" where
  "le64 bs off = le_val (fld bs off 8)"

definition cpu :: "mtd_info \<Rightarrow> nat list \<Rightarrow> nat \<Rightarrow> nat \<Rightarrow> nat" where
  "cpu m bs off n = (if big_endian m then be_val (fld bs off n) else le_val (fld bs off n))"

definition byte_at :: "nat list \<Rightarrow> nat \<Rightarrow> nat" where
  "byte_at bs off = be_val (fld bs off 1)"

definition chars :: "string \<Rightarrow> nat list" where
  "chars s = map of_char s"

subsection \<open>The shared helpers (mtdsplit.c)\<close>

text \<open>mtdsplit_elf_read_mtd, and the same steps in the other parsers: the error of the driver, -EIO for a short read.\<close>

definition read_exact :: "mtd_info \<Rightarrow> nat \<Rightarrow> nat \<Rightarrow> nat list res" where
  "read_exact m off len = (case mtd_read m off len of
     Inl e \<Rightarrow> fail e
   | Inr bs \<Rightarrow> if length bs \<noteq> len then fail EIO else ok bs)"

definition mtd_roundup_to_eb :: "nat \<Rightarrow> nat \<Rightarrow> nat" where
  "mtd_roundup_to_eb sz es = (if sz mod es = 0 then sz else ((sz div es + 1) mod 2 ^ 32 * es) mod 2 ^ 32)"

definition mtd_rounddown_to_eb :: "nat \<Rightarrow> nat \<Rightarrow> nat" where
  "mtd_rounddown_to_eb sz es = (if sz mod es = 0 then sz else (sz div es mod 2 ^ 32 * es) mod 2 ^ 32)"

definition mtd_get_squashfs_len :: "mtd_info \<Rightarrow> nat \<Rightarrow> nat res" where
  "mtd_get_squashfs_len m offset = (case mtd_read m offset 48 of
     Inl _ \<Rightarrow> fail EIO
   | Inr sb \<Rightarrow>
       if length sb \<noteq> 48 then fail EIO
       else if le32 sb 0 \<noteq> 0x73717368 then fail EINVAL
       else let retlen = to_size_t m (le64 sb 40) in
         if retlen = 0 then fail ENOENT
         else if to_size_t m (offset + retlen) > mtd_size m then fail EINVAL
         else ok retlen)"

definition mtd_next_eb :: "mtd_info \<Rightarrow> nat \<Rightarrow> nat option" where
  "mtd_next_eb m offset = (if mtd_erasesize m = 0 then None
     else Some (to_size_t m (mtd_rounddown_to_eb offset (mtd_erasesize m) + mtd_erasesize m)))"

definition mtd_check_rootfs_magic :: "mtd_info \<Rightarrow> nat \<Rightarrow> int + mtdsplit_part_type" where
  "mtd_check_rootfs_magic m offset = (case mtd_read m offset 4 of
     Inl e \<Rightarrow> Inl e
   | Inr magic \<Rightarrow>
       if length magic \<noteq> 4 then Inl EIO
       else if le32 magic 0 = 0x73717368 then Inr PART_TYPE_SQUASHFS
       else if cpu m magic 0 4 = 0x19852003 then Inr PART_TYPE_JFFS2
       else if be32 magic 0 = 0x55424923 then Inr PART_TYPE_UBI
       else Inl EINVAL)"

partial_function (option) mtd_find_rootfs_from :: "mtd_info \<Rightarrow> nat \<Rightarrow> nat \<Rightarrow> (nat \<times> mtdsplit_part_type) res" where
  "mtd_find_rootfs_from m offset limit =
    (if offset < limit then
       (case mtd_check_rootfs_magic m offset of
          Inr type \<Rightarrow> ok (offset, type)
        | Inl _ \<Rightarrow> (case mtd_next_eb m offset of None \<Rightarrow> None | Some next \<Rightarrow> mtd_find_rootfs_from m next limit))
     else fail ENOENT)"

text \<open>The two partitions a parser fills in; the second one runs to the end of the device.\<close>

definition rootfs_name :: "mtdsplit_part_type \<Rightarrow> string" where
  "rootfs_name type = (if type = PART_TYPE_UBI then ''ubi'' else ''rootfs'')"

definition two_parts :: "string \<Rightarrow> nat \<Rightarrow> nat \<Rightarrow> string \<Rightarrow> nat \<Rightarrow> nat \<Rightarrow> mtd_partition list" where
  "two_parts n0 o0 s0 n1 o1 s1 = [\<lparr>p_name = n0, p_offset = o0, p_size = s0\<rparr>, \<lparr>p_name = n1, p_offset = o1, p_size = s1\<rparr>]"

definition kernel_then_rootfs :: "mtd_info \<Rightarrow> string \<Rightarrow> nat \<Rightarrow> string \<Rightarrow> nat \<Rightarrow> mtd_partition list res" where
  "kernel_then_rootfs m first kernel_size second rootfs_offset =
    (if \<not> alloc m 0 then fail ENOMEM
     else ok (two_parts first 0 kernel_size second rootfs_offset (usub 64 (mtd_size m) rootfs_offset)))"

definition the_limit :: "mtd_info \<Rightarrow> nat" where
  "the_limit m = to_size_t m (mtd_size m)"

subsection \<open>mtdsplit_squashfs.c\<close>

definition mtdsplit_parse_squashfs :: "mtd_info \<Rightarrow> mtd_partition list res" where
  "mtdsplit_parse_squashfs m = andthen (mtd_get_squashfs_len m 0) (\<lambda>squashfs_len.
     let part_off = to_size_t m (part_offset m) in
     if \<not> alloc m 0 then fail ENOMEM
     else if master_erasesize m = 0 \<or> mtd_erasesize m = 0 then None
     else let off = usub 64 (mtd_roundup_to_eb (to_size_t m (part_off + squashfs_len)) (master_erasesize m)) part_off;
              sz = mtd_rounddown_to_eb (usub 64 (mtd_size m) off) (mtd_erasesize m)
          in ok [\<lparr>p_name = ''rootfs_data'', p_offset = off, p_size = sz\<rparr>])"

subsection \<open>mtdsplit_seama.c\<close>

definition mtdsplit_parse_seama :: "mtd_info \<Rightarrow> mtd_partition list res" where
  "mtdsplit_parse_seama m = andthen (read_exact m 0 28) (\<lambda>hdr.
     if be32 hdr 0 \<noteq> 0x5EA3A417 then fail EINVAL
     else let kernel_ent_size = to_size_t m (28 + be32 hdr 8 + be16 hdr 6) in
       if kernel_ent_size > mtd_size m then fail EINVAL
       else andthen
         (case mtd_check_rootfs_magic m kernel_ent_size of
            Inr type \<Rightarrow> ok (kernel_ent_size, type)
          | Inl _ \<Rightarrow> mtd_find_rootfs_from m 0x80000 (the_limit m))
         (\<lambda>(rootfs_offset, type).
            if \<not> alloc m 0 then fail ENOMEM
            else ok (two_parts ''kernel'' (28 + be16 hdr 6) (usub 64 rootfs_offset (28 + be16 hdr 6))
                       (rootfs_name type) rootfs_offset (usub 64 (mtd_size m) rootfs_offset))))"

subsection \<open>mtdsplit_lzma.c\<close>

definition is_power_of_2 :: "nat \<Rightarrow> bool" where
  "is_power_of_2 n \<longleftrightarrow> n \<noteq> 0 \<and> and n (n - 1) = 0"

definition mtdsplit_parse_lzma :: "mtd_info \<Rightarrow> mtd_partition list res" where
  "mtdsplit_parse_lzma m = andthen (read_exact m 0 13) (\<lambda>hdr.
     if byte_at hdr 0 \<ge> 9 * 5 * 5 then fail EINVAL
     else if \<not> is_power_of_2 (le32 hdr 1) then fail EINVAL
     else if le32 hdr 9 \<noteq> 0 then fail EINVAL
     else andthen (mtd_find_rootfs_from m (mtd_erasesize m) (the_limit m)) (\<lambda>(rootfs_offset, _).
       kernel_then_rootfs m ''kernel'' rootfs_offset ''rootfs'' rootfs_offset))"

subsection \<open>mtdsplit_minor.c\<close>

definition mtdsplit_parse_minor :: "mtd_info \<Rightarrow> mtd_partition list res" where
  "mtdsplit_parse_minor m = andthen (read_exact m 0 140) (\<lambda>hdr.
     if cpu m hdr 0 4 \<noteq> 1 then fail ENOENT
     else if cpu m hdr 4 4 \<noteq> 1 then fail ENOENT
     else if cpu m hdr 8 2 \<noteq> 0xFFFF then fail ENOENT
     else if fld hdr 10 7 \<noteq> chars ''kernel'' @ [0] \<and> fld hdr 10 10 \<noteq> chars ''bootimage'' @ [0] then fail ENOENT
     else andthen (mtd_find_rootfs_from m (mtd_erasesize m) (the_limit m)) (\<lambda>(rootfs_offset, _).
       kernel_then_rootfs m ''kernel'' rootfs_offset ''rootfs'' rootfs_offset))"

subsection \<open>mtdsplit_wrgg.c\<close>

definition mtdsplit_parse_wrgg :: "mtd_info \<Rightarrow> mtd_partition list res" where
  "mtdsplit_parse_wrgg m = andthen (read_exact m 0 160) (\<lambda>hdr.
     andthen
       (if le32 hdr 32 = 0x20080321 then
          let be_size = to_size_t m (160 + be32 hdr 104);
              kernel_ent_size = (if be_size > mtd_size m then to_size_t m (160 + le32 hdr 104) else be_size)
          in if kernel_ent_size > mtd_size m then fail EINVAL else ok kernel_ent_size
        else if le32 hdr 32 = 0x20040220 then ok (to_size_t m (96 + le32 hdr 40))
        else fail EINVAL)
       (\<lambda>kernel_ent_size.
          if kernel_ent_size > mtd_size m then fail EINVAL
          else andthen (mtd_find_rootfs_from m 0x80000 (the_limit m)) (\<lambda>(rootfs_offset, _).
            kernel_then_rootfs m ''kernel'' rootfs_offset ''rootfs'' rootfs_offset)))"

subsection \<open>mtdsplit_tplink.c\<close>

definition mtdsplit_parse_tplink :: "mtd_info \<Rightarrow> mtd_partition list res" where
  "mtdsplit_parse_tplink m = andthen (read_exact m 0 512) (\<lambda>hdr.
     andthen
       (if le32 hdr 0 = 1 then
          if be32 hdr 128 \<noteq> 512 then fail EINVAL
          else ok (to_size_t m (512 + be32 hdr 132), be32 hdr 136)
        else if le32 hdr 0 = 2 \<or> le32 hdr 0 = 3 then
          if be32 hdr 0x74 \<noteq> 512 then fail EINVAL
          else ok (to_size_t m (512 + be32 hdr 0x78), be32 hdr 0x7c)
        else fail EINVAL)
       (\<lambda>(kernel_size, rootfs_ofs).
          if kernel_size > mtd_size m then fail EINVAL
          else andthen
            (case mtd_check_rootfs_magic m rootfs_ofs of
               Inr type \<Rightarrow> ok (rootfs_ofs, type)
             | Inl _ \<Rightarrow> mtd_find_rootfs_from m 0x80000 (the_limit m))
            (\<lambda>(rootfs_offset, _). kernel_then_rootfs m ''kernel'' kernel_size ''rootfs'' rootfs_offset)))"

subsection \<open>mtdsplit_eva.c\<close>

definition mtdsplit_parse_eva :: "mtd_info \<Rightarrow> mtd_partition list res" where
  "mtdsplit_parse_eva m = andthen (read_exact m 0 8) (\<lambda>hdr.
     if le32 hdr 0 \<noteq> 0xfeed1281 then fail EINVAL
     else let kernel_size = (le32 hdr 4 + 0x18) mod 2 ^ 32;
              rootfs_offset = to_size_t m (round_up m kernel_size 0x10000 + 0x100)
       in if rootfs_offset \<ge> mtd_size m then fail EINVAL
          else (case mtd_check_rootfs_magic m rootfs_offset of
            Inl e \<Rightarrow> fail e
          | Inr _ \<Rightarrow> kernel_then_rootfs m ''kernel'' kernel_size ''rootfs'' rootfs_offset))"

subsection \<open>mtdsplit_brnimage.c\<close>

partial_function (option) brnimage_scan :: "mtd_info \<Rightarrow> nat \<Rightarrow> int \<Rightarrow> (nat \<times> int) option" where
  "brnimage_scan m rootfs_offset ret =
    (if rootfs_offset < mtd_size m then
       (case mtd_check_rootfs_magic m rootfs_offset of
          Inr _ \<Rightarrow> Some (rootfs_offset, 0)
        | Inl e \<Rightarrow> brnimage_scan m (to_size_t m (rootfs_offset + 0x400)) e)
     else Some (rootfs_offset, ret))"

definition mtdsplit_parse_brnimage :: "mtd_info \<Rightarrow> mtd_partition list res" where
  "mtdsplit_parse_brnimage m = (case brnimage_scan m 0 0 of
     None \<Rightarrow> None
   | Some (rootfs_offset, ret) \<Rightarrow>
       if ret \<noteq> 0 then fail ret
       else if rootfs_offset \<ge> mtd_size m then fail EINVAL
       else andthen (read_exact m (usub (size_bits m) rootfs_offset 12) 4) (\<lambda>buf.
         let kernel_size = le32 buf 0 in
         if kernel_size > usub (size_bits m) rootfs_offset 12 then fail EINVAL
         else if kernel_size < usub (size_bits m) rootfs_offset (0x400 + 12) then fail EINVAL
         else let rootfs_size = to_size_t m (usub 64 (mtd_size m) (rootfs_offset + 12)) in
           if \<not> alloc m 0 then fail ENOMEM
           else ok (two_parts ''kernel'' 0 kernel_size ''rootfs'' rootfs_offset rootfs_size)))"

subsection \<open>mtdsplit_owrt_prolog.c\<close>

text \<open>
  kstrtol of the kernel is an argument: it is given the bytes from the number to the end of the buffer and is None when
  it reads past them.
\<close>

definition mtdsplit_parse_owrt_prolog ::
  "(nat list \<Rightarrow> int res) \<Rightarrow> mtd_info \<Rightarrow> mtd_partition list res" where
  "mtdsplit_parse_owrt_prolog kstrtol m = andthen (read_exact m 0 512) (\<lambda>buf.
     case find (\<lambda>i. fld buf i 18 = chars ''OPENWRT-PROLOG-512'') [0..<512 - 32] of
       None \<Rightarrow> fail EINVAL
     | Some i \<Rightarrow> andthen (kstrtol (drop (i + 18 + 1) buf)) (\<lambda>v.
         let kernel_size = int_to_size_t m (v + 512);
             rootfs_offset = round_up m kernel_size 0x20000
         in if rootfs_offset \<ge> mtd_size m then fail EINVAL
            else (case mtd_check_rootfs_magic m rootfs_offset of
              Inl e \<Rightarrow> fail e
            | Inr _ \<Rightarrow> kernel_then_rootfs m ''kernel'' kernel_size ''rootfs'' rootfs_offset)))"

subsection \<open>mtdsplit_seil.c\<close>

text \<open>The device tree node of the partition and the partition with the environment of the boot loader.\<close>

record seil_env =
  bootdev_name :: "int + string"
  seil_id :: "int + nat"
  env_mtd :: "mtd_info option"

text \<open>strcmp with a string that need not end inside the buffer: None when the buffer ends first.\<close>

fun strcmp_eq :: "nat list \<Rightarrow> nat list \<Rightarrow> bool option" where
  "strcmp_eq s [] = None"
| "strcmp_eq [] (c # cs) = Some (c = 0)"
| "strcmp_eq (a # s) (c # cs) = (if a = c then strcmp_eq s cs else Some False)"

text \<open>The loop over the variables, on the bytes from var to the end of the buffer.\<close>

function seil_env_loop :: "nat list \<Rightarrow> nat list \<Rightarrow> bool option" where
  "seil_env_loop devnm rest =
    (if rest = [] \<or> hd rest = 0 then Some False
     else let var = takeWhile (\<lambda>c. c \<noteq> 0 \<and> c \<noteq> 61) rest; more = dropWhile (\<lambda>c. c \<noteq> 0 \<and> c \<noteq> 61) rest in
       if more = [] then None
       else if hd more = 0 then Some False
       else let value = tl more in
         if var = chars ''BOOTDEV'' then strcmp_eq devnm value
         else if 0 \<notin> set value then None
         else seil_env_loop devnm (tl (dropWhile (\<lambda>c. c \<noteq> 0) value)))"
  by pat_completeness auto
termination
proof (relation "measure (\<lambda>(_, rest). length rest)", goal_cases)
  case (2 devnm rest var more val)
  have "length more \<le> length rest" using 2 by (simp add: length_dropWhile_le)
  moreover have "length val = length more - 1" "0 < length rest" using 2 by auto
  moreover have "length (dropWhile (\<lambda>c. c \<noteq> 0) val) \<le> length val" by (rule length_dropWhile_le)
  ultimately have "length (tl (dropWhile (\<lambda>c. c \<noteq> 0) val)) < length rest" unfolding length_tl by linarith
  then show ?case by simp
qed simp

declare seil_env_loop.simps [simp del]

definition seil_bootdev_is_active :: "seil_env \<Rightarrow> bool option" where
  "seil_bootdev_is_active env = (case bootdev_name env of
     Inl e \<Rightarrow> Some (e = EINVAL)
   | Inr devnm \<Rightarrow> (case env_mtd env of
       None \<Rightarrow> Some False
     | Some em \<Rightarrow>
         if \<not> alloc em 0 then Some False
         else (case mtd_read em 0 (to_size_t em (mtd_size em)) of
           Inl _ \<Rightarrow> Some False
         | Inr buf \<Rightarrow> if length buf \<noteq> mtd_size em then Some False else seil_env_loop (chars devnm) buf)))"

definition mtdsplit_parse_seil_fw :: "seil_env \<Rightarrow> mtd_info \<Rightarrow> mtd_partition list res" where
  "mtdsplit_parse_seil_fw env m = (case seil_bootdev_is_active env of
     None \<Rightarrow> None
   | Some active \<Rightarrow>
       if \<not> active then fail ENOENT
       else (case seil_id env of
         Inl e \<Rightarrow> fail e
       | Inr dt_id \<Rightarrow>
           if \<not> alloc m 0 then fail ENOMEM
           else andthen (read_exact m 0 144) (\<lambda>header.
             if be64 header 0 \<noteq> dt_id \<or> be32 header 92 \<noteq> 1 then fail ENOENT
             else let image_size = to_size_t m (144 + be32 header 140) in
               if image_size > mtd_size m then fail EINVAL
               else (case mtd_find_rootfs_from m image_size (the_limit m) of
                 None \<Rightarrow> None
               | Some (Inl _) \<Rightarrow> fail ENOENT
               | Some (Inr (rootfs_offset, _)) \<Rightarrow>
                   if usub 64 (mtd_size m) rootfs_offset = 0 then fail ENOENT
                   else ok (two_parts ''kernel'' 0 rootfs_offset ''rootfs'' rootfs_offset
                              (usub 64 (mtd_size m) rootfs_offset))))))"

subsection \<open>mtdsplit_cfe_bootfs.c\<close>

partial_function (option) cfe_bootfs_walk :: "mtd_info \<Rightarrow> nat \<Rightarrow> nat option" where
  "cfe_bootfs_walk m offset = (case mtd_read m offset 40 of
     Inl _ \<Rightarrow> Some offset
   | Inr node \<Rightarrow>
       if length node \<noteq> 40 \<or> cpu m node 0 2 \<noteq> 0x1985 then Some offset
       else let next = to_size_t m (to_size_t m (offset + cpu m node 4 4) + 3) div 4 * 4 in
         if next < mtd_size m then cfe_bootfs_walk m next else Some next)"

definition mtdsplit_cfe_bootfs_parse :: "mtd_info \<Rightarrow> mtd_partition list res" where
  "mtdsplit_cfe_bootfs_parse m =
    (if mtd_name m \<noteq> ''firmware'' then fail EINVAL
     else (case cfe_bootfs_walk m 0 of
       None \<Rightarrow> None
     | Some _ \<Rightarrow> andthen (mtd_find_rootfs_from m (mtd_erasesize m) (the_limit m)) (\<lambda>(rootfs_offset, type).
         kernel_then_rootfs m ''bootfs'' rootfs_offset (rootfs_name type) rootfs_offset)))"

subsection \<open>mtdsplit_h3c_vfs.c\<close>

definition block_offset :: "mtd_info \<Rightarrow> int \<Rightarrow> nat" where
  "block_offset m block = int_to_size_t m
     (s32 (s32 (0x10000 * (sgn block * (\<bar>block\<bar> div 63))) + s32 (0x400 * (1 + sgn block * (\<bar>block\<bar> mod 63)))))"

definition block_count :: "mtd_info \<Rightarrow> nat \<Rightarrow> int" where
  "block_count m sz = s32 (int (to_size_t m (sz + 0x400 - 1) div 0x400))"

definition mtdsplit_h3c_vfs_parse :: "mtd_info \<Rightarrow> mtd_partition list res" where
  "mtdsplit_h3c_vfs_parse m =
    (if mtd_erasesize m \<noteq> 0x10000 then fail EINVAL
     else andthen (read_exact m 0 4) (\<lambda>format_flag.
       if cpu m format_flag 0 4 \<noteq> 0x10000400 then fail ENOENT
       else andthen (read_exact m 0x800 128) (\<lambda>file_entry.
         if byte_at file_entry 0 \<noteq> 0x3f then fail ENOENT
         else if cpu m file_entry 20 4 \<noteq> 0 then fail ENOENT
         else if cpu m file_entry 24 2 \<noteq> 0 then fail ENOENT
         else if cpu m file_entry 28 4 \<noteq> 2 then fail ENOENT
         else if takeWhile (\<lambda>c. c \<noteq> 0) (fld file_entry 32 96) \<noteq> chars ''openwrt-kernel.bin'' then fail ENOENT
         else let data_block = int (cpu m file_entry 28 4);
                  kernel_size = to_size_t m
                    (block_offset m (s32 (data_block + block_count m (cpu m file_entry 16 4) - 1)) + 0x400);
                  expected_offset = to_size_t m (mtd_roundup_to_eb kernel_size (mtd_erasesize m))
           in andthen (mtd_find_rootfs_from m expected_offset (the_limit m)) (\<lambda>(rootfs_offset, _).
             kernel_then_rootfs m ''kernel'' rootfs_offset ''rootfs'' rootfs_offset))))"

subsection \<open>mtdsplit_elf.c\<close>

text \<open>The loop over the program headers, for both classes: the size of an entry, and the end of the segment it describes.\<close>

partial_function (option) elf_ph_loop ::
  "mtd_info \<Rightarrow> nat \<Rightarrow> (nat list \<Rightarrow> nat) \<Rightarrow> nat \<Rightarrow> nat \<Rightarrow> nat \<Rightarrow> nat \<Rightarrow> nat res" where
  "elf_ph_loop m phlen section_end phentsize ph_table_end ph_entry sz =
    (if ph_entry < ph_table_end then
       (case read_exact m ph_entry phlen of
          Some (Inr ph) \<Rightarrow> elf_ph_loop m phlen section_end phentsize ph_table_end
            (to_size_t m (ph_entry + phentsize)) (max sz (section_end ph))
        | Some (Inl e) \<Rightarrow> fail e
        | None \<Rightarrow> None)
     else ok sz)"

definition elf32_determine_size :: "mtd_info \<Rightarrow> nat list \<Rightarrow> nat res" where
  "elf32_determine_size m hdr =
    (let phoff = cpu m hdr 28 4; shoff = cpu m hdr 32 4; phentsize = cpu m hdr 42 2; phnum = cpu m hdr 44 2;
         shentsize = cpu m hdr 46 2; shnum = cpu m hdr 48 2
     in if shoff > 0 then ok ((shoff + shentsize * shnum) mod 2 ^ 32)
        else elf_ph_loop m 28 (\<lambda>ph. (cpu m ph 4 4 + cpu m ph 16 4) mod 2 ^ 32) phentsize
               ((phoff + phentsize * phnum) mod 2 ^ 32) phoff 0)"

definition elf64_determine_size :: "mtd_info \<Rightarrow> nat list \<Rightarrow> nat res" where
  "elf64_determine_size m hdr =
    (let phoff = cpu m hdr 32 8; shoff = cpu m hdr 40 8; phentsize = cpu m hdr 54 2; phnum = cpu m hdr 56 2;
         shentsize = cpu m hdr 58 2; shnum = cpu m hdr 60 2
     in if shoff > 0 then ok (int_to_size_t m (int shoff + s32 (int (shentsize * shnum))))
        else elf_ph_loop m 48 (\<lambda>ph. to_size_t m (cpu m ph 8 8 + cpu m ph 32 8)) phentsize
               (int_to_size_t m (int phoff + s32 (int (phentsize * phnum)))) (to_size_t m phoff) 0)"

definition mtdsplit_parse_elf :: "mtd_info \<Rightarrow> mtd_partition list res" where
  "mtdsplit_parse_elf m = andthen (read_exact m 0 64) (\<lambda>hdr.
     if be32 hdr 0 \<noteq> 0x7f454c46 then fail EINVAL
     else andthen
       (if byte_at hdr 4 = 1 then elf32_determine_size m hdr
        else if byte_at hdr 4 = 2 then elf64_determine_size m hdr
        else fail EINVAL)
       (\<lambda>loader_size. andthen (mtd_find_rootfs_from m loader_size (the_limit m)) (\<lambda>(rootfs_offset, type).
          if rootfs_offset = mtd_size m then fail ENOENT
          else kernel_then_rootfs m ''kernel'' rootfs_offset (rootfs_name type) rootfs_offset)))"

subsection \<open>The scan of erase blocks for an image (mtdsplit_trx.c, mtdsplit_uimage.c, mtdsplit_jimage.c)\<close>

text \<open>
  The loop the three parsers share: a block is skipped when it has no valid header (the size is reset) or when the image
  exceeds the device (the size is kept). It returns the offset where it stopped and the last size and header.
\<close>

partial_function (option) image_scan ::
  "mtd_info \<Rightarrow> (nat \<Rightarrow> (nat \<times> 'h) option) \<Rightarrow> nat \<Rightarrow> (nat \<times> 'h) option \<Rightarrow> (nat \<times> (nat \<times> 'h) option) option" where
  "image_scan m header offset found =
    (if offset < mtd_size m then
       (case header offset of
          None \<Rightarrow> image_scan m header (to_size_t m (offset + mtd_erasesize m)) None
        | Some (sz, hdr) \<Rightarrow>
            if to_size_t m (offset + sz) > mtd_size m
            then image_scan m header (to_size_t m (offset + mtd_erasesize m)) (Some (sz, hdr))
            else Some (offset, Some (sz, hdr)))
     else Some (offset, found))"

subsection \<open>mtdsplit_trx.c\<close>

definition trx_header :: "mtd_info \<Rightarrow> nat \<Rightarrow> (nat \<times> nat list) option" where
  "trx_header m offset = (case read_exact m offset 32 of
     Some (Inr hdr) \<Rightarrow> if le32 hdr 0 \<noteq> 0x30524448 then None else Some (le32 hdr 4, hdr)
   | _ \<Rightarrow> None)"

definition mtdsplit_parse_trx :: "mtd_info \<Rightarrow> mtd_partition list res" where
  "mtdsplit_parse_trx m =
    (if \<not> alloc m 0 then fail ENOMEM
     else (case image_scan m (trx_header m) 0 None of
       None \<Rightarrow> None
     | Some (_, None) \<Rightarrow> fail ENOENT
     | Some (offset, Some (trx_size, hdr)) \<Rightarrow>
         if trx_size = 0 then fail ENOENT
         else let trx_offset = to_size_t m (offset + cpu m hdr 16 4);
                  rootfs_offset = to_size_t m (offset + cpu m hdr 20 4);
                  rootfs_size = to_size_t m (usub 64 (mtd_size m) rootfs_offset)
           in if rootfs_size = 0 then fail ENOENT
              else ok (two_parts ''kernel'' trx_offset (usub (size_bits m) rootfs_offset trx_offset)
                         ''rootfs'' rootfs_offset rootfs_size)))"

subsection \<open>mtdsplit_uimage.c and mtdsplit_jimage.c\<close>

text \<open>What both parsers do after the scan; they differ in the error for a missing rootfs before the image.\<close>

definition image_parts :: "mtd_info \<Rightarrow> (int \<Rightarrow> int) \<Rightarrow> nat \<Rightarrow> nat \<Rightarrow> mtd_partition list res" where
  "image_parts m no_rootfs image_offset image_size =
    (if image_offset = 0 then
       andthen (mtd_find_rootfs_from m (to_size_t m (image_offset + image_size)) (the_limit m)) (\<lambda>(rootfs_offset, type).
         let rootfs_size = to_size_t m (usub 64 (mtd_size m) rootfs_offset) in
         if rootfs_size = 0 then fail ENOENT
         else ok (two_parts ''kernel'' image_offset (usub (size_bits m) rootfs_offset image_offset)
                    (rootfs_name type) rootfs_offset rootfs_size))
     else (case mtd_check_rootfs_magic m 0 of
       Inl e \<Rightarrow> fail (no_rootfs e)
     | Inr type \<Rightarrow>
         if image_offset = 0 then fail ENOENT
         else ok (two_parts (rootfs_name type) 0 image_offset ''kernel'' image_offset image_size)))"

record uimage_dt =
  extralen :: int
  ih_magic :: nat
  ih_type :: nat
  header_offset :: nat
  part_magic :: nat

definition uimage_parse_dt :: "mtd_info \<Rightarrow> uimage_dt \<Rightarrow> uimage_dt" where
  "uimage_parse_dt m d =
    (if \<not> of_compatible m ''openwrt,uimage'' then d
     else let prop = (\<lambda>name old. case of_u32 m name of None \<Rightarrow> old | Some v \<Rightarrow> v)
       in \<lparr>extralen = (case of_u32 m ''openwrt,padding'' of None \<Rightarrow> extralen d | Some v \<Rightarrow> s32 (int v)),
           ih_magic = prop ''openwrt,ih-magic'' (ih_magic d),
           ih_type = prop ''openwrt,ih-type'' (ih_type d),
           header_offset = prop ''openwrt,offset'' (header_offset d),
           part_magic = prop ''openwrt,partition-magic'' (part_magic d)\<rparr>)"

definition uimage_verify_default :: "nat list \<Rightarrow> nat \<Rightarrow> nat \<Rightarrow> int" where
  "uimage_verify_default buf magic type =
    (if be32 buf 0 \<noteq> magic then EINVAL
     else if byte_at buf 28 \<noteq> 5 then EINVAL
     else if byte_at buf 30 \<noteq> type then EINVAL
     else 0)"

definition uimage_header :: "mtd_info \<Rightarrow> uimage_dt \<Rightarrow> nat \<Rightarrow> (nat \<times> unit) option" where
  "uimage_header m d offset = (case read_exact m offset (64 + header_offset d) of
     Some (Inr buf) \<Rightarrow>
       if header_offset d \<noteq> 0 \<and> part_magic d \<noteq> 0 \<and> be32 buf 0 \<noteq> part_magic d then None
       else if uimage_verify_default (drop (header_offset d) buf) (ih_magic d) (ih_type d) < 0 then None
       else Some (int_to_size_t m (64 + int (be32 (drop (header_offset d) buf) 12) + int (header_offset d) + extralen d), ())
   | _ \<Rightarrow> None)"

definition mtdsplit_parse_uimage :: "mtd_info \<Rightarrow> mtd_partition list res" where
  "mtdsplit_parse_uimage m =
    (if \<not> alloc m 0 then fail ENOMEM
     else let d = uimage_parse_dt m
                \<lparr>extralen = 0, ih_magic = 0x27051956, ih_type = 2, header_offset = 0, part_magic = 0\<rparr>
       in if \<not> alloc m 1 then fail ENOMEM
          else if 2 ^ size_bits m \<le> 64 + header_offset d then None
          else (case image_scan m (uimage_header m d) 0 None of
            None \<Rightarrow> None
          | Some (_, None) \<Rightarrow> fail 0
          | Some (offset, Some (uimage_size, _)) \<Rightarrow>
              if uimage_size = 0 then fail 0 else image_parts m (\<lambda>_. ENOENT) offset uimage_size))"

definition jimage_verify_default :: "mtd_info \<Rightarrow> nat list \<Rightarrow> int" where
  "jimage_verify_default m buf =
    (if cpu m buf 2 2 \<noteq> 0x2B24 then EINVAL
     else if cpu m buf 16 2 \<noteq> 0x2124 then EINVAL
     else if byte_at buf 0 \<noteq> byte_at buf 1 then EINVAL
     else if byte_at buf 1 \<noteq> 4 then EINVAL
     else if byte_at buf 19 \<noteq> 2 then EINVAL
     else 0)"

definition jimage_header :: "mtd_info \<Rightarrow> (nat list \<Rightarrow> int) \<Rightarrow> nat \<Rightarrow> (nat \<times> unit) option" where
  "jimage_header m find_header offset = (case read_exact m offset 56 of
     Some (Inr buf) \<Rightarrow>
       let ret = find_header buf in
       if ret < 0 then None
       else Some (int_to_size_t m (56 + int (cpu m (drop (nat ret) buf) 24 4) + ret), ())
   | _ \<Rightarrow> None)"

definition parse_jimage :: "mtd_info \<Rightarrow> (nat list \<Rightarrow> int) \<Rightarrow> mtd_partition list res" where
  "parse_jimage m find_header =
    (if \<not> alloc m 0 then fail ENOMEM
     else if \<not> alloc m 1 then fail ENOMEM
     else (case image_scan m (jimage_header m find_header) 0 None of
       None \<Rightarrow> None
     | Some (_, None) \<Rightarrow> fail ENOENT
     | Some (offset, Some (jimage_size, _)) \<Rightarrow>
         if jimage_size = 0 then fail ENOENT else image_parts m (\<lambda>e. e) offset jimage_size))"

definition mtdsplit_jimage_parse_generic :: "mtd_info \<Rightarrow> mtd_partition list res" where
  "mtdsplit_jimage_parse_generic m = parse_jimage m (jimage_verify_default m)"

subsection \<open>What the driver promises, and the layouts a parser may return\<close>

text \<open>
  The contract of mtd_read: a read that succeeds lies inside the device and returns bytes, at most as many as were asked
  for; an error is a negative code. A well-formed device is below 4 GiB and its size is a multiple of 1 KiB; size_t has 32 bits
  (as on the MIPS and ARM targets that use most of these parsers) or 64 bits, and with 32 bits there are 64 KiB between the
  end of the device and 4 GiB.
\<close>

definition reads_ok :: "mtd_info \<Rightarrow> bool" where
  "reads_ok m \<longleftrightarrow> (\<forall>off len. case mtd_read m off len of
     Inr bs \<Rightarrow> off + len \<le> mtd_size m \<and> length bs \<le> len \<and> bytes bs
   | Inl e \<Rightarrow> e < 0)"

definition mtd_ok :: "mtd_info \<Rightarrow> bool" where
  "mtd_ok m \<longleftrightarrow> reads_ok m \<and> (size_bits m = 64 \<or> size_bits m = 32 \<and> mtd_size m + 0x10000 \<le> 2 ^ 32) \<and> 0 < mtd_erasesize m \<and>
     mtd_size m + mtd_erasesize m \<le> 2 ^ 32 \<and> 1024 dvd mtd_size m"

definition mtd_ok64 :: "mtd_info \<Rightarrow> bool" where
  "mtd_ok64 m \<longleftrightarrow> mtd_ok m \<and> size_bits m = 64"

text \<open>Two partitions, in order, disjoint and inside the device, the second one not empty.\<close>

definition parts_ok :: "mtd_info \<Rightarrow> mtd_partition list \<Rightarrow> bool" where
  "parts_ok m ps \<longleftrightarrow> (case ps of
     [a, b] \<Rightarrow> p_offset a + p_size a \<le> p_offset b \<and> p_offset b + p_size b \<le> mtd_size m \<and> 0 < p_size b
   | _ \<Rightarrow> False)"

text \<open>The offsets at which a root filesystem may start: the given one, then every erase block behind it.\<close>

definition eb_candidates :: "nat \<Rightarrow> nat \<Rightarrow> nat \<Rightarrow> nat list" where
  "eb_candidates es start limit =
    (if start < limit then start # map (\<lambda>k. es * k) [Suc (start div es)..<(limit + es - 1) div es] else [])"

definition rootfs_at :: "mtd_info \<Rightarrow> nat \<Rightarrow> bool" where
  "rootfs_at m off \<longleftrightarrow> (case mtd_check_rootfs_magic m off of Inl _ \<Rightarrow> False | Inr _ \<Rightarrow> True)"

definition first_rootfs :: "mtd_info \<Rightarrow> nat \<Rightarrow> nat \<Rightarrow> (nat \<times> mtdsplit_part_type) res" where
  "first_rootfs m start limit = (case find (rootfs_at m) (eb_candidates (mtd_erasesize m) start limit) of
     None \<Rightarrow> fail ENOENT
   | Some off \<Rightarrow> ok (off, projr (mtd_check_rootfs_magic m off)))"

text \<open>
  The condition under which a result satisfies Q: an error does, and None does when termination is not asked for. Its
  rules take a parser apart step by step.
\<close>

definition holds :: "bool \<Rightarrow> 'a res \<Rightarrow> ('a \<Rightarrow> bool) \<Rightarrow> bool" where
  "holds ends r Q \<longleftrightarrow> (case r of None \<Rightarrow> \<not> ends | Some (Inl _) \<Rightarrow> True | Some (Inr x) \<Rightarrow> Q x)"

named_theorems holds_intros "rules for what the steps of a parser return"

lemma res_eq [simp]:
  "fail e \<noteq> None" "ok x \<noteq> None" "fail e \<noteq> ok x" "ok x \<noteq> fail e" "ok x = ok y \<longleftrightarrow> x = y" "fail e = fail d \<longleftrightarrow> e = d"
  by (simp_all add: fail_def ok_def)

lemma andthen_simps [simp]: "andthen None f = None" "andthen (fail e) f = fail e" "andthen (ok x) f = f x"
  by (simp_all add: andthen_def fail_def ok_def)

lemma holds_simps [simp]:
  "holds ends (fail e) Q" "holds ends (ok x) Q \<longleftrightarrow> Q x" "holds ends None Q \<longleftrightarrow> \<not> ends"
  "holds ends (andthen r f) Q \<longleftrightarrow> holds ends r (\<lambda>x. holds ends (f x) Q)"
  by (auto simp: holds_def fail_def ok_def andthen_def split: option.splits sum.splits)

lemma holds_if [holds_intros]:
  "(c \<Longrightarrow> holds ends r Q) \<Longrightarrow> (\<not> c \<Longrightarrow> holds ends r' Q) \<Longrightarrow> holds ends (if c then r else r') Q"
  by simp

lemma holds_Let [holds_intros]: "(\<And>y. y = x \<Longrightarrow> holds ends (f y) Q) \<Longrightarrow> holds ends (let y = x in f y) Q"
  by (simp add: Let_def)

lemma holds_partial: "holds ends r Q \<Longrightarrow> holds False r Q"
  by (auto simp: holds_def split: option.splits)

lemma holds_okD: "holds ends r Q \<Longrightarrow> r = ok x \<Longrightarrow> Q x"
  by simp

lemma holds_total: "holds True r Q \<Longrightarrow> (\<exists>e. r = fail e) \<or> (\<exists>x. r = ok x \<and> Q x)"
  by (auto simp: holds_def fail_def ok_def split: option.splits sum.splits)

lemma holds_mono: "holds ends r P \<Longrightarrow> (\<And>x. P x \<Longrightarrow> Q x) \<Longrightarrow> holds ends r Q"
  by (auto simp: holds_def split: option.splits sum.splits)

lemma read_bounds: "reads_ok m \<Longrightarrow> mtd_read m off len = Inr bs \<Longrightarrow> off + len \<le> mtd_size m \<and> length bs \<le> len \<and> bytes bs"
  unfolding reads_ok_def by (drule spec [of _ off], drule spec [of _ len]) simp

lemma check_rootfs_in: "reads_ok m \<Longrightarrow> mtd_check_rootfs_magic m off = Inr t \<Longrightarrow> off + 4 \<le> mtd_size m"
  using read_bounds [of m off 4] by (auto simp: mtd_check_rootfs_magic_def split: sum.splits if_splits)

lemma rounddown_eb: "0 < es \<Longrightarrow> x + es \<le> 2 ^ 32 \<Longrightarrow> mtd_rounddown_to_eb x es = x div es * es"
proof -
  assume "0 < es" "x + es \<le> 2 ^ 32"
  then have "x div es < 2 ^ 32" "x div es * es < 2 ^ 32"
    using div_le_dividend [of x es] div_times_less_eq_dividend [of x es] by linarith+
  then show ?thesis by (auto simp: mtd_rounddown_to_eb_def)
qed

lemma next_eb:
  assumes "0 < mtd_erasesize m" "off + mtd_erasesize m \<le> 2 ^ 32" "off + mtd_erasesize m < 2 ^ size_bits m"
  shows "mtd_next_eb m off = Some (mtd_erasesize m * Suc (off div mtd_erasesize m))"
proof -
  have "off div mtd_erasesize m * mtd_erasesize m + mtd_erasesize m < 2 ^ size_bits m"
    using assms(3) div_times_less_eq_dividend [of off "mtd_erasesize m"] by linarith
  then show ?thesis using assms by (simp add: mtd_next_eb_def rounddown_eb to_size_t_def mult.commute)
qed

lemma eb_candidates_step:
  assumes "0 < es" "start < limit"
  shows "eb_candidates es start limit = start # eb_candidates es (es * Suc (start div es)) limit"
proof (cases "es * Suc (start div es) < limit")
  case True
  then have "Suc (start div es) < (limit + es - 1) div es"
    using assms by (simp add: less_eq_div_iff_mult_less_eq Suc_le_eq [symmetric] algebra_simps)
  then show ?thesis using assms True by (simp add: eb_candidates_def upt_conv_Cons)
next
  case False
  have "(limit + es - 1) div es < Suc (Suc (start div es))"
    using assms(1) False by (subst div_less_iff_less_mult) (auto simp: algebra_simps)
  then show ?thesis using assms False by (simp add: eb_candidates_def)
qed

lemma find_rootfs_first:
  assumes "0 < mtd_erasesize m" "limit + mtd_erasesize m \<le> 2 ^ 32" "limit + mtd_erasesize m \<le> 2 ^ size_bits m"
  shows "mtd_find_rootfs_from m start limit = first_rootfs m start limit"
proof (induction "limit - start" arbitrary: start rule: less_induct)
  case less
  let ?next = "mtd_erasesize m * Suc (start div mtd_erasesize m)"
  show ?case
  proof (cases "start < limit")
    case False
    then show ?thesis by (simp add: mtd_find_rootfs_from.simps [of m start] first_rootfs_def eb_candidates_def)
  next
    case True
    have gt: "start < ?next" using assms(1) by (simp add: dividend_less_times_div)
    have nx: "mtd_next_eb m start = Some ?next" using True assms by (intro next_eb) auto
    have "mtd_find_rootfs_from m ?next limit = first_rootfs m ?next limit"
      using gt True by (intro less) linarith
    then show ?thesis using True nx
      by (simp add: mtd_find_rootfs_from.simps [of m start] first_rootfs_def eb_candidates_step [OF assms(1) True]
            rootfs_at_def split: sum.split)
  qed
qed

lemma eb_candidates_range: "0 < es \<Longrightarrow> off \<in> set (eb_candidates es start limit) \<Longrightarrow> start \<le> off \<and> off < limit"
proof (induction "limit - start" arbitrary: start rule: less_induct)
  case less
  show ?case
  proof (cases "start < limit")
    case True
    have gt: "start < es * Suc (start div es)" using less.prems(1) by (simp add: dividend_less_times_div)
    show ?thesis
    proof (cases "off = start")
      case False
      then have "off \<in> set (eb_candidates es (es * Suc (start div es)) limit)"
        using less.prems True by (simp add: eb_candidates_step)
      then have "es * Suc (start div es) \<le> off \<and> off < limit" using gt True less.prems(1) by (intro less) linarith+
      then show ?thesis using gt by linarith
    qed (use True in simp)
  qed (use less in \<open>simp add: eb_candidates_def\<close>)
qed

lemma first_rootfs_ok:
  assumes "0 < mtd_erasesize m" "\<And>off t. \<lbrakk>start \<le> off; off < limit; mtd_check_rootfs_magic m off = Inr t\<rbrakk> \<Longrightarrow> Q (off, t)"
  shows "holds ends (first_rootfs m start limit) Q"
proof (cases "find (rootfs_at m) (eb_candidates (mtd_erasesize m) start limit)")
  case (Some off)
  then have "off \<in> set (eb_candidates (mtd_erasesize m) start limit)" "rootfs_at m off"
    by (auto simp: find_Some_iff)
  then show ?thesis using eb_candidates_range [OF assms(1)] Some assms(2) [of off "projr (mtd_check_rootfs_magic m off)"]
    by (auto simp: first_rootfs_def rootfs_at_def split: sum.splits)
qed (simp add: first_rootfs_def)

lemma size_t_small: "mtd_ok m \<Longrightarrow> x < 2 ^ 32 \<Longrightarrow> to_size_t m x = x"
  by (auto simp: to_size_t_def mtd_ok_def)

lemma the_limit_ok: "mtd_ok m \<Longrightarrow> the_limit m = mtd_size m"
  unfolding the_limit_def by (rule size_t_small) (auto simp: mtd_ok_def)

lemma find_ok:
  assumes "mtd_ok m"
  shows "mtd_find_rootfs_from m start (the_limit m) = first_rootfs m start (mtd_size m)"
  unfolding the_limit_ok [OF assms] using assms by (intro find_rootfs_first) (auto simp: mtd_ok_def)

lemma holds_find [holds_intros]:
  assumes "mtd_ok m" "\<And>off t. \<lbrakk>start \<le> off; off + 4 \<le> mtd_size m\<rbrakk> \<Longrightarrow> Q (off, t)"
  shows "holds ends (mtd_find_rootfs_from m start (the_limit m)) Q"
  unfolding find_ok [OF assms(1)]
  using assms check_rootfs_in [of m] by (intro first_rootfs_ok) (auto simp: mtd_ok_def)

lemma holds_read [holds_intros]:
  assumes "mtd_ok m" "\<And>bs. \<lbrakk>length bs = len; bytes bs; off + len \<le> mtd_size m\<rbrakk> \<Longrightarrow> Q bs"
  shows "holds ends (read_exact m off len) Q"
  using assms read_bounds [of m off len] by (auto simp: read_exact_def mtd_ok_def split: sum.split)

lemma holds_magic [holds_intros]:
  assumes "mtd_ok m" "\<And>t. off + 4 \<le> mtd_size m \<Longrightarrow> holds ends (f t) Q" "\<And>e. holds ends (g e) Q"
  shows "holds ends (case mtd_check_rootfs_magic m off of Inl e \<Rightarrow> g e | Inr t \<Rightarrow> f t) Q"
  using assms check_rootfs_in [of m off] by (auto simp: mtd_ok_def split: sum.split)

lemma two_parts_ok [simp]:
  "parts_ok m (two_parts a o0 s0 b o1 s1) \<longleftrightarrow> o0 + s0 \<le> o1 \<and> o1 + s1 \<le> mtd_size m \<and> 0 < s1"
  by (simp add: parts_ok_def two_parts_def)

lemma rest_size: "mtd_ok m \<Longrightarrow> off \<le> mtd_size m \<Longrightarrow> usub 64 (mtd_size m) off = mtd_size m - off"
  by (intro usub_le) (auto simp: mtd_ok_def)

lemma holds_kernel_then [holds_intros]:
  assumes "mtd_ok m" "off + 4 \<le> mtd_size m" "k \<le> off"
  shows "holds ends (kernel_then_rootfs m a k b off) (parts_ok m)"
  using assms by (auto simp: kernel_then_rootfs_def rest_size)

lemma fld_bound: "bytes bs \<Longrightarrow> be_val (fld bs off n) < 256 ^ n" "bytes bs \<Longrightarrow> le_val (fld bs off n) < 256 ^ n"
proof -
  assume "bytes bs"
  then have b: "bytes (fld bs off n)" by (auto simp: fld_def list_all_iff dest: in_set_takeD in_set_dropD)
  have l: "(256::nat) ^ length (fld bs off n) \<le> 256 ^ n" by (simp add: fld_def)
  show "be_val (fld bs off n) < 256 ^ n" using be_val_bound [OF b] l by linarith
  show "le_val (fld bs off n) < 256 ^ n" using le_val_bound [OF b] l by linarith
qed

lemma field_bounds:
  assumes "bytes bs"
  shows "be16 bs off < 2 ^ 16" "be32 bs off < 2 ^ 32" "le32 bs off < 2 ^ 32" "cpu m bs off 2 < 2 ^ 16" "cpu m bs off 4 < 2 ^ 32"
  using fld_bound [OF assms, of off 2] fld_bound [OF assms, of off 4]
  by (simp_all add: be16_def be32_def le32_def cpu_def)

subsection \<open>The contract of a splitter\<close>

text \<open>
  A parser whose every successful result on the devices \<open>dev\<close> is a layout the flash can hold; a total one also returns
  on every such device. Some parsers need a 64-bit size_t, because they add lengths from a header to an offset without
  checking for a wrap.
\<close>

locale splitter =
  fixes dev :: "mtd_info \<Rightarrow> bool" and parse :: "mtd_info \<Rightarrow> mtd_partition list res"
  assumes layout: "dev m \<Longrightarrow> holds False (parse m) (parts_ok m)"
begin

lemma disjoint:
  assumes "dev m" "parse m = ok [a, b]" "p_offset a \<le> i" "i < p_offset a + p_size a"
  shows "i < p_offset b \<and> i < mtd_size m"
  using holds_okD [OF layout [OF assms(1)] assms(2)] assms(3,4) by (auto simp: parts_ok_def)

end

locale total_splitter =
  fixes dev :: "mtd_info \<Rightarrow> bool" and parse :: "mtd_info \<Rightarrow> mtd_partition list res"
  assumes outcome: "dev m \<Longrightarrow> holds True (parse m) (parts_ok m)"
begin

lemma returns: "dev m \<Longrightarrow> (\<exists>e. parse m = fail e) \<or> (\<exists>ps. parse m = ok ps \<and> parts_ok m ps)"
  using outcome by (rule holds_total)

end

sublocale total_splitter \<subseteq> splitter
  using outcome holds_partial by unfold_locales blast

interpretation lzma: total_splitter mtd_ok mtdsplit_parse_lzma
  by unfold_locales (auto simp: mtdsplit_parse_lzma_def intro!: holds_intros)

interpretation minor: total_splitter mtd_ok mtdsplit_parse_minor
  by unfold_locales (auto simp: mtdsplit_parse_minor_def intro!: holds_intros)

interpretation wrgg: total_splitter mtd_ok mtdsplit_parse_wrgg
  by unfold_locales (auto simp: mtdsplit_parse_wrgg_def intro!: holds_intros)

interpretation h3c_vfs: total_splitter mtd_ok mtdsplit_h3c_vfs_parse
  by unfold_locales (auto simp: mtdsplit_h3c_vfs_parse_def intro!: holds_intros)

lemma ceil_mult:
  assumes "0 < (y::nat)"
  shows "x \<le> (x + y - 1) div y * y \<and> (x + y - 1) div y * y < x + y"
proof -
  have "(x + y - 1) div y * y + (x + y - 1) mod y = x + y - 1" by (rule div_mult_mod_eq)
  moreover have "(x + y - 1) mod y < y" using assms by simp
  ultimately show ?thesis using assms by linarith
qed

lemma dvd_gap: "d dvd a \<Longrightarrow> d dvd b \<Longrightarrow> a < b \<Longrightarrow> a + d \<le> (b::nat)"
  by (metis dvd_diff_nat dvd_imp_le le_add_diff_inverse nat_add_left_cancel_le not_less zero_less_diff less_imp_le)

text \<open>The offset of the kernel in a seama image lies before every place where its rootfs is found.\<close>

interpretation seama: total_splitter mtd_ok64 mtdsplit_parse_seama
proof
  fix m
  assume "mtd_ok64 m"
  then have m: "mtd_ok m" "size_bits m = 64" and sz: "mtd_size m < 2 ^ 32" by (auto simp: mtd_ok64_def mtd_ok_def)
  show "holds True (mtdsplit_parse_seama m) (parts_ok m)"
    unfolding mtdsplit_parse_seama_def holds_simps
  proof (rule holds_read [OF m(1)], goal_cases)
    case (1 hdr)
    have b: "be16 hdr 6 < 2 ^ 16" "be32 hdr 8 < 2 ^ 32" using field_bounds [OF 1(2)] by auto
    then have "to_size_t m (28 + be32 hdr 8 + be16 hdr 6) = 28 + be32 hdr 8 + be16 hdr 6"
      using m by (simp add: to_size_t_def mtd_ok_def)
    then show ?case using m b sz by (auto simp: usub_le rest_size intro!: holds_intros)
  qed
qed

interpretation eva: total_splitter mtd_ok64 mtdsplit_parse_eva
proof
  fix m
  assume "mtd_ok64 m"
  then have m: "mtd_ok m" "size_bits m = 64" by (auto simp: mtd_ok64_def)
  have up: "k \<le> to_size_t m (round_up m k 0x10000 + 0x100)" if k: "k < 2 ^ 32" for k
  proof -
    have "k \<le> (k + 0x10000 - 1) div 0x10000 * 0x10000" "(k + 0x10000 - 1) div 0x10000 * 0x10000 < 2 ^ 33"
      using k ceil_mult [of 65536 k] by auto
    then show ?thesis using m by (simp add: round_up_def to_size_t_def mtd_ok_def)
  qed
  show "holds True (mtdsplit_parse_eva m) (parts_ok m)"
    unfolding mtdsplit_parse_eva_def using m by (auto intro!: holds_intros up)
qed

lemma brnimage_scan_stops:
  assumes "mtd_ok m" "1024 dvd off"
  shows "\<exists>off' ret'. brnimage_scan m off ret = Some (off', ret') \<and> 1024 dvd off' \<and> (off' < mtd_size m \<longrightarrow> off' + 4 \<le> mtd_size m)"
  using assms(2)
proof (induction "mtd_size m - off" arbitrary: off ret rule: less_induct)
  case less
  show ?case
  proof (cases "off < mtd_size m")
    case True
    have "off + 1024 \<le> mtd_size m" using True less.prems assms(1) by (intro dvd_gap) (auto simp: mtd_ok_def)
    then have nx: "to_size_t m (off + 0x400) = off + 0x400" using assms(1) by (intro size_t_small) (auto simp: mtd_ok_def)
    have ih: "\<exists>off' ret'. brnimage_scan m (off + 0x400) e = Some (off', ret') \<and> 1024 dvd off' \<and>
        (off' < mtd_size m \<longrightarrow> off' + 4 \<le> mtd_size m)" for e
      using True less.prems by (intro less) auto
    have "off + 4 \<le> mtd_size m" if "mtd_check_rootfs_magic m off = Inr t" for t
      using that assms(1) check_rootfs_in by (auto simp: mtd_ok_def)
    then show ?thesis using True less.prems ih by (auto simp: brnimage_scan.simps [of m off] nx split: sum.split)
  qed (use less.prems in \<open>simp add: brnimage_scan.simps [of m off]\<close>)
qed

interpretation brnimage: total_splitter mtd_ok mtdsplit_parse_brnimage
proof
  fix m
  assume m: "mtd_ok m"
  obtain off ret where scan: "brnimage_scan m 0 0 = Some (off, ret)" and al: "1024 dvd off"
    using brnimage_scan_stops [OF m, of 0 0] by auto
  have w: "size_bits m = 64 \<or> size_bits m = 32" "1024 dvd mtd_size m" "mtd_size m < 2 ^ 32" using m by (auto simp: mtd_ok_def)
  have gap: "mtd_size m + 1024 \<le> 2 ^ 32" using w(2,3) by (intro dvd_gap) auto
  show "holds True (mtdsplit_parse_brnimage m) (parts_ok m)"
  proof (cases "ret \<noteq> 0 \<or> mtd_size m \<le> off")
    case True
    then show ?thesis by (auto simp: mtdsplit_parse_brnimage_def scan)
  next
    case False
    then have "off + 1024 \<le> mtd_size m" using al w(2) by (intro dvd_gap) auto
    then have rest: "to_size_t m (usub 64 (mtd_size m) (off + 12)) = mtd_size m - (off + 12)"
      using w m by (auto simp: rest_size to_size_t_def)
    have read: "holds True (read_exact m (usub (size_bits m) off 12) 4) Q"
      if "\<And>bs. length bs = 4 \<Longrightarrow> 1024 \<le> off \<Longrightarrow> Q bs" for Q
    proof (rule holds_read [OF m])
      fix bs :: "nat list"
      assume l: "length bs = 4" "usub (size_bits m) off 12 + 4 \<le> mtd_size m"
      have "usub 64 0 12 = 18446744073709551604" "usub 32 0 12 = 4294967284" by (simp_all add: usub_def)
      then have "off \<noteq> 0" using l(2) w(1,3) gap by (cases "off = 0") auto
      then show "Q bs" using al l(1) that by (auto elim: dvdE)
    qed
    have k: "usub (size_bits m) off 12 = off - 12" if "1024 \<le> off" using that False w by (intro usub_le) auto
    show ?thesis using False \<open>off + 1024 \<le> mtd_size m\<close> w(2,3)
      by (auto simp: mtdsplit_parse_brnimage_def scan rest k Let_def intro!: read)
  qed
qed

lemma elf_ph_loop_ends:
  assumes m: "mtd_ok m" and e: "phentsize < 2 ^ 16" "phentsize = 0 \<Longrightarrow> table_end \<le> entry"
  shows "holds True (elf_ph_loop m phlen f phentsize table_end entry sz) (\<lambda>_. True)"
  using e(2)
proof (induction "table_end - entry" arbitrary: entry sz rule: less_induct)
  case less
  show ?case
  proof (cases "entry < table_end")
    case True
    then have pos: "0 < phentsize" using less.prems by auto
    show ?thesis
    proof (cases "read_exact m entry phlen")
      case (Some r)
      show ?thesis
      proof (cases r)
        case (Inr ph)
        have "entry + phlen \<le> mtd_size m"
          using Some Inr read_bounds [of m entry phlen] m
          by (auto simp: read_exact_def fail_def ok_def mtd_ok_def split: sum.splits if_splits)
        then have "to_size_t m (entry + phentsize) = entry + phentsize" using m e(1) by (auto simp: to_size_t_def mtd_ok_def)
        moreover have "holds True (elf_ph_loop m phlen f phentsize table_end (entry + phentsize) sz') (\<lambda>_. True)" for sz'
          using True pos by (intro less) auto
        ultimately show ?thesis using True Some Inr by (subst elf_ph_loop.simps) simp
      qed (use True Some in \<open>subst elf_ph_loop.simps, simp\<close>)
    qed (simp add: read_exact_def fail_def ok_def split: sum.splits if_splits)
  qed (subst elf_ph_loop.simps, simp)
qed

interpretation elf: total_splitter mtd_ok mtdsplit_parse_elf
proof
  fix m
  assume m: "mtd_ok m"
  have elf32: "holds True (elf32_determine_size m hdr) (\<lambda>_. True)" if "bytes hdr" for hdr
    using that field_bounds(4,5) [OF that, where m = m]
    by (auto simp: elf32_determine_size_def Let_def intro!: elf_ph_loop_ends [OF m])
  have elf64: "holds True (elf64_determine_size m hdr) (\<lambda>_. True)" if "bytes hdr" for hdr
    using that field_bounds(4,5) [OF that, where m = m] m
    by (auto simp: elf64_determine_size_def Let_def s32_def int_to_size_t_def to_size_t_def nat_mod_distrib nat_power_eq
        intro!: elf_ph_loop_ends [OF m])
  show "holds True (mtdsplit_parse_elf m) (parts_ok m)"
    using m by (auto simp: mtdsplit_parse_elf_def intro!: holds_intros holds_mono [OF elf32] holds_mono [OF elf64])
qed

text \<open>
  The walk over the JFFS2 nodes of the boot filesystem and the environment of the seil boot loader are outside the
  guarantee that the parser returns, so these two are only splitters.
\<close>

interpretation cfe_bootfs: splitter mtd_ok mtdsplit_cfe_bootfs_parse
  by unfold_locales (auto simp: mtdsplit_cfe_bootfs_parse_def intro!: holds_intros split: option.split)

lemma holds_find_cases:
  assumes "mtd_ok m" "\<And>off t. \<lbrakk>start \<le> off; off + 4 \<le> mtd_size m\<rbrakk> \<Longrightarrow> holds ends (f off t) Q"
  shows "holds ends (case mtd_find_rootfs_from m start (the_limit m) of None \<Rightarrow> None | Some (Inl _) \<Rightarrow> fail e
    | Some (Inr (off, t)) \<Rightarrow> f off t) Q"
  using holds_find [OF assms(1), where ends = ends and start = start and Q = "\<lambda>(off, t). holds ends (f off t) Q"] assms(2)
  by (auto simp: holds_def fail_def split: option.splits sum.splits)

interpretation seil: splitter mtd_ok "mtdsplit_parse_seil_fw env" for env
  by unfold_locales
    (auto simp: mtdsplit_parse_seil_fw_def rest_size intro!: holds_intros holds_find_cases split: option.split sum.split)

text \<open>The prolog parser keeps the contract as long as the number it reads is not negative.\<close>

lemma owrt_prolog_layout:
  assumes m: "mtd_ok m" "size_bits m = 64" and k: "\<And>bs v. kstrtol bs = ok v \<Longrightarrow> 0 \<le> v \<and> v < 2 ^ 63"
  shows "holds False (mtdsplit_parse_owrt_prolog kstrtol m) (parts_ok m)"
proof -
  have up: "int_to_size_t m (v + 512) \<le> round_up m (int_to_size_t m (v + 512)) 0x20000" if "0 \<le> v" "v < 2 ^ 63" for v
  proof -
    have i: "int_to_size_t m (v + 512) = nat v + 512" using that m by (simp add: int_to_size_t_def mtd_ok_def nat_add_distrib)
    have "nat v < 2 ^ 63" using that by simp
    then show ?thesis using ceil_mult [of 131072 "nat v + 512"] m unfolding i round_up_def
      by (simp add: to_size_t_def mtd_ok_def)
  qed
  have num: "holds False (kstrtol bs) Q" if "\<And>v. 0 \<le> v \<Longrightarrow> v < 2 ^ 63 \<Longrightarrow> Q v" for bs Q
    using that k [of bs] by (auto simp: holds_def ok_def split: option.split sum.split)
  show ?thesis using m by (auto simp: mtdsplit_parse_owrt_prolog_def intro!: holds_intros num up split: option.split)
qed

subsection \<open>Images on erase blocks\<close>

text \<open>
  The reference for the uImage and jImage parsers: the image is the first one, on an erase block, that has a valid header
  and ends inside the device. When there is none, the loop of the source ends with the offset behind the last block and
  with the size its header gave, if it had one.
\<close>

definition image_fits :: "mtd_info \<Rightarrow> (nat \<Rightarrow> (nat \<times> unit) option) \<Rightarrow> nat \<Rightarrow> bool" where
  "image_fits m header off \<longleftrightarrow> (case header off of None \<Rightarrow> False | Some (sz, _) \<Rightarrow> off + sz \<le> mtd_size m)"

definition blocks_from :: "mtd_info \<Rightarrow> nat \<Rightarrow> nat list" where
  "blocks_from m off = eb_candidates (mtd_erasesize m) off (mtd_size m)"

definition the_image :: "mtd_info \<Rightarrow> (nat \<Rightarrow> (nat \<times> unit) option) \<Rightarrow> (nat \<times> (nat \<times> unit) option) option" where
  "the_image m header = (case find (image_fits m header) (blocks_from m 0) of
     Some off \<Rightarrow> Some (off, header off)
   | None \<Rightarrow> if blocks_from m 0 = [] then Some (0, None)
       else Some (last (blocks_from m 0) + mtd_erasesize m, header (last (blocks_from m 0))))"

definition image_layout :: "mtd_info \<Rightarrow> (nat \<Rightarrow> (nat \<times> unit) option) \<Rightarrow> int \<Rightarrow> (int \<Rightarrow> int) \<Rightarrow> mtd_partition list res" where
  "image_layout m header no_image no_rootfs = (case the_image m header of
     Some (off, Some (sz, _)) \<Rightarrow>
       if sz = 0 then fail no_image
       else if off = 0 then andthen (first_rootfs m sz (mtd_size m)) (\<lambda>(rootfs, type).
         ok (two_parts ''kernel'' 0 rootfs (rootfs_name type) rootfs (mtd_size m - rootfs)))
       else (case mtd_check_rootfs_magic m 0 of
         Inl e \<Rightarrow> fail (no_rootfs e)
       | Inr type \<Rightarrow> ok (two_parts (rootfs_name type) 0 off ''kernel'' off sz))
   | _ \<Rightarrow> fail no_image)"

lemma blocks_from_step:
  "0 < mtd_erasesize m \<Longrightarrow> mtd_erasesize m dvd off \<Longrightarrow> off < mtd_size m \<Longrightarrow> blocks_from m off = off # blocks_from m (off + mtd_erasesize m)"
  unfolding blocks_from_def by (subst eb_candidates_step) (auto elim!: dvdE simp: add.commute)

lemma blocks_from_end: "mtd_size m \<le> off \<Longrightarrow> blocks_from m off = []"
  by (simp add: blocks_from_def eb_candidates_def)

lemma blocks_from_last:
  assumes "0 < mtd_erasesize m"
  shows "mtd_erasesize m dvd off \<Longrightarrow> off < mtd_size m \<Longrightarrow>
    last (blocks_from m off) < mtd_size m \<and> mtd_size m \<le> last (blocks_from m off) + mtd_erasesize m \<and> blocks_from m off \<noteq> []"
proof (induction "mtd_size m - off" arbitrary: off rule: less_induct)
  case less
  show ?case
  proof (cases "off + mtd_erasesize m < mtd_size m")
    case True
    have "last (blocks_from m (off + mtd_erasesize m)) < mtd_size m \<and>
        mtd_size m \<le> last (blocks_from m (off + mtd_erasesize m)) + mtd_erasesize m \<and> blocks_from m (off + mtd_erasesize m) \<noteq> []"
      using assms less.prems True by (intro less(1)) auto
    then show ?thesis using blocks_from_step [OF assms less.prems] by simp
  next
    case False
    then show ?thesis using blocks_from_step [OF assms less.prems] less.prems by (simp add: blocks_from_end)
  qed
qed

lemma image_scan_first:
  assumes m: "mtd_ok64 m" and h: "\<And>x sz hr. header x = Some (sz, hr) \<Longrightarrow> sz < 2 ^ 40"
  shows "mtd_erasesize m dvd off \<Longrightarrow> image_scan m header off found =
    (case find (image_fits m header) (blocks_from m off) of
       Some x \<Rightarrow> Some (x, header x)
     | None \<Rightarrow> if blocks_from m off = [] then Some (off, found)
         else Some (last (blocks_from m off) + mtd_erasesize m, header (last (blocks_from m off))))"
proof (induction "mtd_size m - off" arbitrary: off found rule: less_induct)
  case less
  have es: "0 < mtd_erasesize m" "size_bits m = 64" "mtd_size m + mtd_erasesize m \<le> 2 ^ 32" using m by (auto simp: mtd_ok64_def mtd_ok_def)
  show ?case
  proof (cases "off < mtd_size m")
    case True
    have nx: "to_size_t m (off + mtd_erasesize m) = off + mtd_erasesize m" using True es by (simp add: to_size_t_def)
    note step = blocks_from_step [OF es(1) less.prems True]
    have ih: "image_scan m header (off + mtd_erasesize m) f =
      (case find (image_fits m header) (blocks_from m (off + mtd_erasesize m)) of
         Some x \<Rightarrow> Some (x, header x)
       | None \<Rightarrow> if blocks_from m (off + mtd_erasesize m) = [] then Some (off + mtd_erasesize m, f)
           else Some (last (blocks_from m (off + mtd_erasesize m)) + mtd_erasesize m, header (last (blocks_from m (off + mtd_erasesize m)))))" for f
      using True es less.prems by (intro less(1)) auto
    have sz: "to_size_t m (off + sz) = off + sz" if "header off = Some (sz, hr)" for sz hr
      using True es h [OF that] by (simp add: to_size_t_def)
    show ?thesis
    proof (cases "image_fits m header off")
      case True
      then show ?thesis using \<open>off < mtd_size m\<close> step sz
        by (auto simp: image_scan.simps [of m header off] image_fits_def split: option.splits)
    next
      case False
      have "image_scan m header off found = image_scan m header (off + mtd_erasesize m) (header off)"
        using False \<open>off < mtd_size m\<close> sz nx
        by (cases "header off") (auto simp: image_scan.simps [of m header off] image_fits_def not_le)
      then show ?thesis using False step ih [of "header off"] by (simp split: option.split)
    qed
  qed (simp add: image_scan.simps [of m header off] blocks_from_end)
qed

lemma image_refines:
  assumes m: "mtd_ok64 m" and h: "\<And>x sz hr. header x = Some (sz, hr) \<Longrightarrow> sz < 2 ^ 40"
  shows "(case image_scan m header 0 None of
      None \<Rightarrow> None
    | Some (_, None) \<Rightarrow> fail e
    | Some (off, Some (sz, hr)) \<Rightarrow> if sz = 0 then fail e else image_parts m err off sz) = image_layout m header e err"
proof -
  have ok: "mtd_ok m" and w: "size_bits m = 64" "mtd_size m < 2 ^ 32" using m by (auto simp: mtd_ok64_def mtd_ok_def)
  have scan: "image_scan m header 0 None = the_image m header"
    unfolding the_image_def by (subst image_scan_first [OF m h]) (auto split: option.split)
  have parts: "image_parts m err off sz =
      (if off = 0 then andthen (first_rootfs m sz (mtd_size m)) (\<lambda>(rootfs, type).
         ok (two_parts ''kernel'' 0 rootfs (rootfs_name type) rootfs (mtd_size m - rootfs)))
       else (case mtd_check_rootfs_magic m 0 of
         Inl e \<Rightarrow> fail (err e)
       | Inr type \<Rightarrow> ok (two_parts (rootfs_name type) 0 off ''kernel'' off sz)))" if "sz < 2 ^ 40" for off sz
  proof (cases "off = 0")
    case True
    have "to_size_t m sz = sz" using that w by (simp add: to_size_t_def)
    moreover have "andthen (first_rootfs m sz (mtd_size m)) f = andthen (first_rootfs m sz (mtd_size m)) g"
      if "\<And>r t. r + 4 \<le> mtd_size m \<Longrightarrow> f (r, t) = g (r, t)" for f g :: "nat \<times> mtdsplit_part_type \<Rightarrow> mtd_partition list res"
    proof -
      have "holds True (first_rootfs m sz (mtd_size m)) (\<lambda>x. f x = g x)"
        using holds_find [OF ok, of sz "\<lambda>x. f x = g x" True] that unfolding find_ok [OF ok] by auto
      then show ?thesis by (auto simp: holds_def andthen_def split: option.splits sum.splits)
    qed
    ultimately show ?thesis using True w
      by (auto simp: image_parts_def find_ok [OF ok] rest_size [OF ok] to_size_t_def usub_le)
  qed (auto simp: image_parts_def split: sum.split)
  show ?thesis unfolding scan image_layout_def
  proof (cases "the_image m header")
    case (Some x)
    then have "sz < 2 ^ 40" if "snd x = Some (sz, u)" for sz u
      using that h by (auto simp: the_image_def split: option.splits if_splits)
    then show "(case the_image m header of None \<Rightarrow> None
      | Some (off, r) \<Rightarrow> (case r of None \<Rightarrow> fail e | Some (sz, hr) \<Rightarrow> if sz = 0 then fail e else image_parts m err off sz)) =
      (case the_image m header of
     Some (off, Some (sz, _)) \<Rightarrow>
       if sz = 0 then fail e
       else if off = 0 then andthen (first_rootfs m sz (mtd_size m)) (\<lambda>(rootfs, type).
         ok (two_parts ''kernel'' 0 rootfs (rootfs_name type) rootfs (mtd_size m - rootfs)))
       else (case mtd_check_rootfs_magic m 0 of
         Inl e \<Rightarrow> fail (err e)
       | Inr type \<Rightarrow> ok (two_parts (rootfs_name type) 0 off ''kernel'' off sz))
   | _ \<Rightarrow> fail e)"
      using Some parts by (auto split: option.split prod.split)
  qed (simp add: the_image_def split: option.splits if_splits)
qed

text \<open>
  The one result of these parsers that the flash cannot hold: no block has an image that fits, and the header on the last
  block gives an image that exceeds the device; it becomes a kernel partition that starts behind the last block.
\<close>

definition kernel_past_end :: "mtd_info \<Rightarrow> (nat \<Rightarrow> (nat \<times> unit) option) \<Rightarrow> mtd_partition list \<Rightarrow> bool" where
  "kernel_past_end m header ps \<longleftrightarrow> (\<forall>off\<in>set (blocks_from m 0). \<not> image_fits m header off) \<and>
     (\<exists>start sz t. start < mtd_size m \<and> mtd_size m \<le> start + mtd_erasesize m \<and> header start = Some (sz, ()) \<and>
        mtd_size m < start + sz \<and>
        ps = two_parts (rootfs_name t) 0 (start + mtd_erasesize m) ''kernel'' (start + mtd_erasesize m) sz)"

lemma image_layout_ok:
  assumes m: "mtd_ok64 m" and r: "image_layout m header e err = ok ps"
  shows "parts_ok m ps \<or> kernel_past_end m header ps"
proof -
  have ok: "mtd_ok m" and es: "0 < mtd_erasesize m" using m by (auto simp: mtd_ok64_def mtd_ok_def)
  obtain off sz where im: "the_image m header = Some (off, Some (sz, ()))" "sz \<noteq> 0"
    using r by (auto simp: image_layout_def split: option.splits prod.splits if_splits)
  show ?thesis
  proof (cases "find (image_fits m header) (blocks_from m 0)")
    case (Some x)
    then have x: "x = off" "header off = Some (sz, ())" using im(1) by (auto simp: the_image_def)
    then have fit: "off + sz \<le> mtd_size m" using Some by (auto simp: find_Some_iff image_fits_def)
    show ?thesis
    proof (cases "off = 0")
      case True
      have "holds True (first_rootfs m sz (mtd_size m)) (\<lambda>(r, t). r + 4 \<le> mtd_size m)"
        using holds_find [OF ok, of sz "\<lambda>(r, t). r + 4 \<le> mtd_size m" True] unfolding find_ok [OF ok] by auto
      moreover obtain r' t where "first_rootfs m sz (mtd_size m) = ok (r', t)"
        "ps = two_parts ''kernel'' 0 r' (rootfs_name t) r' (mtd_size m - r')"
        using r im True by (cases "first_rootfs m sz (mtd_size m)")
          (auto simp: image_layout_def andthen_def ok_def fail_def split: sum.splits)
      ultimately show ?thesis by simp
    next
      case False
      then show ?thesis using r im fit by (auto simp: image_layout_def split: sum.splits)
    qed
  next
    case None
    let ?last = "last (blocks_from m 0)"
    have ne: "blocks_from m 0 \<noteq> []" and im': "off = ?last + mtd_erasesize m" "header ?last = Some (sz, ())"
      using im(1) None by (auto simp: the_image_def split: if_splits)
    have "0 < mtd_size m" using ne blocks_from_end by (cases "mtd_size m") auto
    then have l: "?last < mtd_size m" "mtd_size m \<le> ?last + mtd_erasesize m" using blocks_from_last [OF es, of 0] by auto
    have nofit: "\<forall>x\<in>set (blocks_from m 0). \<not> image_fits m header x" using None by (auto simp: find_None_iff)
    then have "\<not> image_fits m header ?last" using ne by (meson last_in_set)
    then have "mtd_size m < ?last + sz" using im'(2) by (simp add: image_fits_def)
    moreover have "\<exists>t. ps = two_parts (rootfs_name t) 0 off ''kernel'' off sz"
      using r im es im'(1) by (auto simp: image_layout_def split: sum.splits)
    ultimately show ?thesis unfolding kernel_past_end_def im'(1) using nofit l im'(2) by blast
  qed
qed

lemma uimage_header_size:
  assumes "mtd_ok64 m" "0 \<le> extralen d" "extralen d < 2 ^ 31" "header_offset d < 2 ^ 32" "uimage_header m d off = Some (sz, u)"
  shows "sz < 2 ^ 40"
proof -
  obtain buf where b: "bytes buf"
      "sz = int_to_size_t m (64 + int (be32 (drop (header_offset d) buf) 12) + int (header_offset d) + extralen d)"
    using assms(1,5) read_bounds [of m off "64 + header_offset d"]
    by (auto simp: uimage_header_def read_exact_def fail_def ok_def mtd_ok64_def mtd_ok_def split: sum.splits if_splits)
  have "be32 (drop (header_offset d) buf) 12 < 2 ^ 32"
    using b(1) by (intro field_bounds) (auto simp: list_all_iff dest: in_set_dropD)
  then show ?thesis using b(2) assms by (simp add: int_to_size_t_def mtd_ok64_def nat_less_iff)
qed

lemma jimage_header_size:
  assumes "mtd_ok64 m" "jimage_header m (jimage_verify_default m) off = Some (sz, u)"
  shows "sz < 2 ^ 40"
proof -
  obtain buf where b: "bytes buf" "sz = int_to_size_t m (56 + int (cpu m buf 24 4))"
    using assms read_bounds [of m off 56]
    by (auto simp: jimage_header_def jimage_verify_default_def read_exact_def fail_def ok_def mtd_ok64_def mtd_ok_def Let_def
        split: sum.splits if_splits)
  then show ?thesis using field_bounds(5) [OF b(1), of m 24] assms(1)
    by (simp add: int_to_size_t_def mtd_ok64_def nat_less_iff)
qed

lemma s32_nonneg: "0 \<le> x \<Longrightarrow> x < 2 ^ 31 \<Longrightarrow> s32 x = x"
  by (simp add: s32_def)

text \<open>The values the device tree may give the parser, and the settings they make.\<close>

definition uimage_dt_ok :: "mtd_info \<Rightarrow> bool" where
  "uimage_dt_ok m \<longleftrightarrow> (case of_u32 m ''openwrt,padding'' of None \<Rightarrow> True | Some v \<Rightarrow> v < 2 ^ 31) \<and>
     (case of_u32 m ''openwrt,offset'' of None \<Rightarrow> True | Some v \<Rightarrow> v < 2 ^ 32)"

definition uimage_settings :: "mtd_info \<Rightarrow> uimage_dt" where
  "uimage_settings m = uimage_parse_dt m
     \<lparr>extralen = 0, ih_magic = 0x27051956, ih_type = 2, header_offset = 0, part_magic = 0\<rparr>"

lemma uimage_refines:
  assumes "mtd_ok64 m" "uimage_dt_ok m" "alloc m 0" "alloc m 1"
  shows "mtdsplit_parse_uimage m = image_layout m (uimage_header m (uimage_settings m)) 0 (\<lambda>_. ENOENT)"
proof -
  define d where "d = uimage_settings m"
  have d: "0 \<le> extralen d" "extralen d < 2 ^ 31" "header_offset d < 2 ^ 32"
    using assms(2) unfolding d_def uimage_settings_def uimage_parse_dt_def uimage_dt_ok_def
    by (auto simp: Let_def s32_nonneg split: option.splits)
  have "size_bits m = 64" using assms(1) by (simp add: mtd_ok64_def)
  then show ?thesis unfolding mtdsplit_parse_uimage_def uimage_settings_def [symmetric] d_def [symmetric] Let_def
    using d assms(3,4) image_refines [OF assms(1) uimage_header_size [OF assms(1) d], where e = 0 and err = "\<lambda>_. ENOENT"] by simp
qed

lemma jimage_refines:
  assumes "mtd_ok64 m" "alloc m 0" "alloc m 1"
  shows "mtdsplit_jimage_parse_generic m = image_layout m (jimage_header m (jimage_verify_default m)) ENOENT (\<lambda>e. e)"
  using image_refines [OF assms(1) jimage_header_size [OF assms(1)], where e = "- 2" and err = "\<lambda>e. e"] assms(2,3)
  by (simp add: mtdsplit_jimage_parse_generic_def parse_jimage_def)

subsection \<open>The root filesystem overlay (mtdsplit_squashfs.c)\<close>

lemma roundup_eb:
  assumes "0 < es" "x + es \<le> 2 ^ 32"
  shows "x \<le> mtd_roundup_to_eb x es \<and> mtd_roundup_to_eb x es < x + es \<and> es dvd mtd_roundup_to_eb x es"
proof (cases "x mod es = 0")
  case False
  have q: "x < (x div es + 1) * es" "(x div es + 1) * es \<le> x + es" using assms(1)
    by (simp_all add: dividend_less_div_times div_times_less_eq_dividend)
  moreover have "(x div es + 1) * es \<noteq> x + es" using False by (simp, metis mod_mult_self2_is_0)
  ultimately have lt: "(x div es + 1) * es < x + es" by linarith
  moreover have "x div es + 1 \<le> (x div es + 1) * es" using mult_le_mono2 [of 1 es "x div es + 1"] assms(1) by simp
  ultimately have "x div es + 1 < 2 ^ 32" "(x div es + 1) * es < 2 ^ 32" using assms(2) by linarith+
  then have "mtd_roundup_to_eb x es = (x div es + 1) * es" using False by (simp add: mtd_roundup_to_eb_def)
  then show ?thesis using q lt by simp
qed (use assms in \<open>auto simp: mtd_roundup_to_eb_def\<close>)

lemma squashfs_len_ok:
  assumes "mtd_ok m" "mtd_get_squashfs_len m 0 = ok len"
  shows "0 < len \<and> len \<le> mtd_size m"
  using assms by (auto simp: mtd_get_squashfs_len_def Let_def to_size_t_def mtd_ok_def split: sum.splits if_splits)

lemma squashfs_parts:
  assumes m: "mtd_ok m" and p: "part_offset m + mtd_size m + master_erasesize m \<le> 2 ^ 32" and al: "0 < master_erasesize m"
    and r: "mtdsplit_parse_squashfs m = ok ps"
  shows "\<exists>len a. mtd_get_squashfs_len m 0 = ok len \<and> ps = [a] \<and> p_name a = ''rootfs_data'' \<and>
    len \<le> p_offset a \<and> p_offset a < len + master_erasesize m \<and> master_erasesize m dvd part_offset m + p_offset a \<and>
    (master_erasesize m dvd part_offset m + mtd_size m \<longrightarrow> p_offset a \<le> mtd_size m) \<and>
    (p_offset a \<le> mtd_size m \<longrightarrow> p_offset a + p_size a \<le> mtd_size m \<and> mtd_erasesize m dvd p_size a \<and>
       mtd_size m < p_offset a + p_size a + mtd_erasesize m)"
proof -
  let ?M = "master_erasesize m" and ?E = "mtd_erasesize m" and ?S = "mtd_size m" and ?P = "part_offset m"
  obtain len where len: "mtd_get_squashfs_len m 0 = ok len"
    using r by (cases "mtd_get_squashfs_len m 0") (auto simp: mtdsplit_parse_squashfs_def andthen_def ok_def fail_def split: sum.splits)
  have w: "0 < ?E" "?S + ?E \<le> 2 ^ 32" using m by (auto simp: mtd_ok_def)
  have l: "0 < len" "len \<le> ?S" using squashfs_len_ok [OF m len] by auto
  have po: "to_size_t m ?P = ?P" "to_size_t m (?P + len) = ?P + len" using p l al by (auto intro!: size_t_small [OF m])
  define u where "u = mtd_roundup_to_eb (?P + len) ?M"
  have u: "?P + len \<le> u" "u < ?P + len + ?M" "?M dvd u" using roundup_eb [of ?M "?P + len"] p l al by (auto simp: u_def)
  have top: "u \<le> ?P + ?S" if "?M dvd ?P + ?S"
  proof (rule ccontr)
    assume "\<not> u \<le> ?P + ?S"
    then have "?P + ?S + ?M \<le> u" using that u(3) by (intro dvd_gap) auto
    then show False using u(2) l(2) by linarith
  qed
  define a where "a = u - ?P"
  define z where "z = mtd_rounddown_to_eb (usub 64 ?S a) ?E"
  have off: "usub 64 u ?P = a" unfolding a_def using u(1,2) l p by (intro usub_le) auto
  have a: "len \<le> a" "a < len + ?M" "?P + a = u" using u by (auto simp: a_def)
  have ps: "ps = [\<lparr>p_name = ''rootfs_data'', p_offset = a, p_size = z\<rparr>]"
    using r len al w(1) by (simp add: mtdsplit_parse_squashfs_def po u_def [symmetric] off z_def [symmetric] Let_def split: if_splits)
  have fit: "a + z \<le> ?S \<and> ?E dvd z \<and> ?S < a + z + ?E" if "a \<le> ?S"
  proof -
    have "z = (?S - a) div ?E * ?E" using w rest_size [OF m that] by (auto simp: z_def intro!: rounddown_eb)
    then have "z \<le> ?S - a" "?S - a < ?E + z" "?E dvd z"
      using w(1) dividend_less_div_times [of ?E "?S - a"] by (simp_all add: div_times_less_eq_dividend)
    then show ?thesis using that by linarith
  qed
  have "a \<le> ?S" if "?M dvd ?P + ?S" using top [OF that] a(3) by linarith
  then show ?thesis using len ps u(3) fit a by auto
qed

subsection \<open>The boot environment of seil devices\<close>

definition env_entry :: "nat list \<times> nat list \<Rightarrow> nat list" where
  "env_entry kv = fst kv @ 61 # snd kv @ [0]"

definition env_ok :: "(nat list \<times> nat list) list \<Rightarrow> bool" where
  "env_ok vars \<longleftrightarrow> (\<forall>(k, v) \<in> set vars. k \<noteq> [] \<and> 0 \<notin> set k \<and> 61 \<notin> set k \<and> 0 \<notin> set v)"

lemma strcmp_eq_terminated: "0 \<notin> set s \<Longrightarrow> 0 \<notin> set v \<Longrightarrow> strcmp_eq s (v @ 0 # rest) = Some (s = v)"
proof (induction s arbitrary: v)
  case Nil
  then show ?case by (cases v) auto
next
  case (Cons a s)
  then show ?case by (cases v) auto
qed

lemma takeWhile_key:
  assumes "\<And>c. c \<in> set k \<Longrightarrow> P c" "\<not> P x"
  shows "takeWhile P (k @ x # xs) = k" "dropWhile P (k @ x # xs) = x # xs"
  using assms by (auto simp: takeWhile_append dropWhile_append)

lemma seil_env_lookup:
  assumes "env_ok vars" "0 \<notin> set devnm"
  shows "seil_env_loop devnm (concat (map env_entry vars) @ 0 # pad) =
    Some (map_of vars (chars ''BOOTDEV'') = Some devnm)"
  using assms(1)
proof (induction vars)
  case Nil
  then show ?case by (simp add: seil_env_loop.simps)
next
  case (Cons kv vars)
  obtain k v where kv: "kv = (k, v)" by (cases kv)
  have ks: "k \<noteq> []" "0 \<notin> set k" "61 \<notin> set k" "0 \<notin> set v" using Cons.prems kv by (auto simp: env_ok_def)
  then have k: "k \<noteq> []" "hd k \<noteq> 0" "\<And>c. c \<in> set k \<Longrightarrow> c \<noteq> 0 \<and> c \<noteq> 61" "0 \<notin> set v"
    by (metis hd_in_set)+
  let ?rest = "concat (map env_entry vars) @ 0 # pad"
  have split: "takeWhile (\<lambda>c. c \<noteq> 0 \<and> c \<noteq> 61) (k @ 61 # v @ 0 # ?rest) = k"
      "dropWhile (\<lambda>c. c \<noteq> 0 \<and> c \<noteq> 61) (k @ 61 # v @ 0 # ?rest) = 61 # v @ 0 # ?rest"
    using k(3) takeWhile_key [of k "\<lambda>c. c \<noteq> 0 \<and> c \<noteq> 61" 61] by auto
  have vend: "dropWhile (\<lambda>c. c \<noteq> 0) (v @ 0 # ?rest) = 0 # ?rest" using k(4) by (intro takeWhile_key(2)) metis+
  have ih: "seil_env_loop devnm ?rest = Some (map_of vars (chars ''BOOTDEV'') = Some devnm)"
    using Cons by (auto simp: env_ok_def)
  have cmp: "strcmp_eq devnm (v @ 0 # ?rest) = Some (devnm = v)" using assms(2) k(4) by (rule strcmp_eq_terminated)
  have "concat (map env_entry (kv # vars)) @ 0 # pad = k @ 61 # v @ 0 # ?rest" by (simp add: kv env_entry_def)
  moreover have "seil_env_loop devnm (k @ 61 # v @ 0 # ?rest) =
      (if k = chars ''BOOTDEV'' then strcmp_eq devnm (v @ 0 # ?rest) else seil_env_loop devnm ?rest)"
    unfolding seil_env_loop.simps [of devnm "k @ 61 # v @ 0 # ?rest"] Let_def split list.sel vend using k(1,2) by simp
  ultimately show ?case using ih cmp by (auto simp: kv)
qed

subsection \<open>Boot filesystems without end\<close>

lemma cfe_bootfs_stuck:
  assumes n: "mtd_read m 0 40 = Inr node" "length node = 40" "cpu m node 0 2 = 0x1985" "cpu m node 4 4 = 0" and s: "0 < mtd_size m"
  shows "cfe_bootfs_walk m 0 = None"
proof -
  have "off \<noteq> 0 \<or> m' \<noteq> m" if "cfe_bootfs_walk m' off = Some r" for m' off r
  proof (rule cfe_bootfs_walk.raw_induct [where P = "\<lambda>m' off r. off \<noteq> 0 \<or> m' \<noteq> m", OF _ that], goal_cases)
    case (1 walk m' off r)
    show ?case
    proof (rule ccontr)
      assume "\<not> (off \<noteq> 0 \<or> m' \<noteq> m)"
      then have "off = 0" "m' = m" by auto
      moreover have "(3::nat) mod 2 ^ size_bits m div 4 = 0"
        using mod_less_eq_dividend [of 3 "2 ^ size_bits m"] by (intro div_less) linarith
      ultimately have "walk m 0 = Some r" using 1(2) n s by (simp add: to_size_t_def Let_def)
      then show False using 1(1) by blast
    qed
  qed
  then show ?thesis by (cases "cfe_bootfs_walk m 0") auto
qed

subsection \<open>Flash contents for the examples\<close>

text \<open>A little endian device on a flash that holds the given bytes at the given offsets and zeros elsewhere.\<close>

fun flash_byte :: "(nat \<times> nat list) list \<Rightarrow> nat \<Rightarrow> nat" where
  "flash_byte [] i = 0"
| "flash_byte ((off, bs) # img) i = (if off \<le> i \<and> i < off + length bs then bs ! (i - off) mod 256 else flash_byte img i)"

definition segment :: "(nat \<times> nat list) list \<Rightarrow> nat \<Rightarrow> nat \<Rightarrow> nat list" where
  "segment img off len = map (flash_byte img) [off..<off + len]"

definition flash :: "nat \<Rightarrow> nat \<Rightarrow> (nat \<times> nat list) list \<Rightarrow> mtd_info" where
  "flash sz es img = \<lparr>mtd_name = ''firmware'', mtd_size = sz, mtd_erasesize = es,
     mtd_read = (\<lambda>off len. if off + len \<le> sz then Inr (segment img off len) else Inl EINVAL),
     part_offset = 0, master_erasesize = es, of_compatible = (\<lambda>_. False), of_u32 = (\<lambda>_. None), alloc = (\<lambda>_. True),
     size_bits = 64, big_endian = False\<rparr>"

lemma flash_byte_byte: "flash_byte img i < 256"
  by (induction img i rule: flash_byte.induct) auto

lemma segment_simps [simp]: "length (segment img off len) = len" "bytes (segment img off len)"
  by (auto simp: segment_def list_all_iff flash_byte_byte)

lemma fld_segment: "i + n \<le> len \<Longrightarrow> fld (segment img off len) i n = segment img (off + i) n"
  by (simp add: fld_def segment_def drop_map take_map drop_upt take_upt)

lemma flash_simps [simp]:
  "mtd_name (flash sz es img) = ''firmware''" "mtd_size (flash sz es img) = sz" "mtd_erasesize (flash sz es img) = es"
  "mtd_read (flash sz es img) off len = (if off + len \<le> sz then Inr (segment img off len) else Inl EINVAL)"
  "part_offset (flash sz es img) = 0" "master_erasesize (flash sz es img) = es" "alloc (flash sz es img) i"
  "size_bits (flash sz es img) = 64" "\<not> big_endian (flash sz es img)" "\<not> of_compatible (flash sz es img) s"
  "of_u32 (flash sz es img) s = None"
  by (simp_all add: flash_def)

lemma flash_ok: "0 < es \<Longrightarrow> sz + es \<le> 2 ^ 32 \<Longrightarrow> 1024 dvd sz \<Longrightarrow> mtd_ok (flash sz es img)"
  by (simp add: mtd_ok_def reads_ok_def)

lemma flash_ok64: "0 < es \<Longrightarrow> sz + es \<le> 2 ^ 32 \<Longrightarrow> 1024 dvd sz \<Longrightarrow> mtd_ok64 (flash sz es img)"
  by (simp add: mtd_ok64_def flash_ok)

lemma flash_ok32:
  "0 < es \<Longrightarrow> sz + es \<le> 2 ^ 32 \<Longrightarrow> sz + 0x10000 \<le> 2 ^ 32 \<Longrightarrow> 1024 dvd sz \<Longrightarrow> mtd_ok ((flash sz es img)\<lparr>size_bits := 32\<rparr>)"
  by (simp add: mtd_ok_def reads_ok_def)

lemma upt_short: "[a..<a + 4] = [a, a + 1, a + 2, a + 3]" "[a..<a + 2] = [a, a + 1]" "[a..<a + 1] = [a]"
  by (simp_all add: upt_conv_Cons)

lemma segment_short:
  "segment img a 4 = [flash_byte img a, flash_byte img (a + 1), flash_byte img (a + 2), flash_byte img (a + 3)]"
  "segment img a 2 = [flash_byte img a, flash_byte img (a + 1)]"
  "segment img a 1 = [flash_byte img a]"
  by (simp_all only: segment_def upt_short list.map)

lemma segment_fields:
  "i + 4 \<le> len \<Longrightarrow> be32 (segment img off len) i =
     256 * (256 * (256 * flash_byte img (off + i) + flash_byte img (off + i + 1)) + flash_byte img (off + i + 2)) + flash_byte img (off + i + 3)"
  "i + 4 \<le> len \<Longrightarrow> le32 (segment img off len) i =
     flash_byte img (off + i) + 256 * (flash_byte img (off + i + 1) + 256 * (flash_byte img (off + i + 2) + 256 * flash_byte img (off + i + 3)))"
  "i + 4 \<le> len \<Longrightarrow> \<not> big_endian m \<Longrightarrow> cpu m (segment img off len) i 4 = le32 (segment img off len) i"
  "i + 2 \<le> len \<Longrightarrow> \<not> big_endian m \<Longrightarrow> cpu m (segment img off len) i 2 = flash_byte img (off + i) + 256 * flash_byte img (off + i + 1)"
  "i + 1 \<le> len \<Longrightarrow> byte_at (segment img off len) i = flash_byte img (off + i)"
  by (simp_all add: be32_def le32_def cpu_def byte_at_def fld_segment segment_short segment_short(3) [unfolded One_nat_def] be_val_def)

lemma read_flash: "read_exact (flash sz es img) off len = (if off + len \<le> sz then ok (segment img off len) else fail EINVAL)"
  by (simp add: read_exact_def)

subsection \<open>Properties\<close>

text \<open>
  C30. mtd_find_rootfs_from always returns, on 32-bit and 64-bit machines, and its result is the first of the candidate
  offsets (the given one, then every erase block up to the limit) that carries a magic of squashfs, JFFS2 or UBI, or
  -ENOENT when none does. An error of the driver at a candidate only skips it.
\<close>

theorem mtd_find_rootfs_first:
  assumes "0 < mtd_erasesize m" "limit + mtd_erasesize m \<le> 2 ^ 32" "limit + mtd_erasesize m \<le> 2 ^ size_bits m"
  shows "mtd_find_rootfs_from m start limit =
    (case find (rootfs_at m) (eb_candidates (mtd_erasesize m) start limit) of
       None \<Rightarrow> fail ENOENT
     | Some off \<Rightarrow> ok (off, projr (mtd_check_rootfs_magic m off)))"
  unfolding find_rootfs_first [OF assms] by (rule first_rootfs_def)

theorem mtd_find_rootfs_first_witness:
  "mtd_find_rootfs_from (flash 0x40000 0x10000 [(0x20000, [0x68, 0x73, 0x71, 0x73])]) 0x400 0x40000 = ok (0x20000, PART_TYPE_SQUASHFS)"
proof -
  have c: "eb_candidates 0x10000 0x400 0x40000 = [0x400, 0x10000, 0x20000, 0x30000]"
    by (simp add: eb_candidates_def upt_conv_Cons)
  show ?thesis
    using mtd_find_rootfs_first [of "flash 0x40000 0x10000 [(0x20000, [0x68, 0x73, 0x71, 0x73])]" "0x40000" "0x400"]
    by (simp add: c rootfs_at_def mtd_check_rootfs_magic_def segment_fields)
qed

text \<open>
  C31. The partition for the overlay behind a squashfs root filesystem starts at the first erase block boundary of the
  whole flash behind the filesystem. When the root partition ends on such a boundary, as the ones of a partition table do,
  the start is inside the root partition; and whenever it is, the overlay is the largest range of whole erase blocks from
  there on inside the root partition. (A root partition made by another splitter may end elsewhere: see
  \<open>squashfs_overlay_outside\<close>.)
\<close>

theorem squashfs_overlay:
  assumes "mtd_ok m" "part_offset m + mtd_size m + master_erasesize m \<le> 2 ^ 32" "0 < master_erasesize m"
    "mtdsplit_parse_squashfs m = ok ps"
  shows "\<exists>len a. mtd_get_squashfs_len m 0 = ok len \<and> ps = [a] \<and> p_name a = ''rootfs_data'' \<and>
    len \<le> p_offset a \<and> p_offset a < len + master_erasesize m \<and> master_erasesize m dvd part_offset m + p_offset a \<and>
    (master_erasesize m dvd part_offset m + mtd_size m \<longrightarrow> p_offset a \<le> mtd_size m) \<and>
    (p_offset a \<le> mtd_size m \<longrightarrow> p_offset a + p_size a \<le> mtd_size m \<and> mtd_erasesize m dvd p_size a \<and>
       mtd_size m < p_offset a + p_size a + mtd_erasesize m)"
  using assms by (rule squashfs_parts)

text \<open>The images of the witness and of the counterexample: a squashfs of the given length.\<close>

definition squashfs_image :: "nat list \<Rightarrow> (nat \<times> nat list) list" where
  "squashfs_image len = [(0, [0x68, 0x73, 0x71, 0x73]), (40, len)]"

lemma squashfs_image_len:
  assumes "length len = 8" "bytes len" "48 \<le> sz" "le_val len \<noteq> 0" "le_val len \<le> sz" "sz < 2 ^ 32"
  shows "mtd_get_squashfs_len (flash sz es (squashfs_image len)) 0 = ok (le_val len)"
proof -
  obtain a b c d e f g h where l: "len = [a, b, c, d, e, f, g, h]"
    using assms(1) by (auto simp: eval_nat_numeral length_Suc_conv)
  have "segment (squashfs_image len) 40 8 = len"
    using assms(2) by (simp add: segment_def upt_conv_Cons squashfs_image_def l)
  moreover have "fld (segment (squashfs_image len) 0 48) 40 8 = segment (squashfs_image len) 40 8" by (simp add: fld_segment)
  moreover have "flash_byte (squashfs_image len) 0 = 0x68" "flash_byte (squashfs_image len) (Suc 0) = 0x73"
    "flash_byte (squashfs_image len) (Suc (Suc 0)) = 0x71" "flash_byte (squashfs_image len) 2 = 0x71" "flash_byte (squashfs_image len) 3 = 0x73"
    by (simp_all add: squashfs_image_def)
  ultimately show ?thesis using assms(3-6)
    by (simp add: mtd_get_squashfs_len_def segment_fields le64_def to_size_t_def Let_def)
qed

theorem squashfs_overlay_witness:
  "\<exists>m ps. mtd_ok m \<and> mtd_size m = 0x40000 \<and> mtdsplit_parse_squashfs m = ok ps \<and>
     (\<exists>a. ps = [a] \<and> p_offset a mod 0x10000 = 0 \<and> 0x10001 \<le> p_offset a \<and> p_offset a + p_size a \<le> 0x40000)"
proof -
  let ?m = "flash 0x40000 0x10000 (squashfs_image [1, 0, 1, 0, 0, 0, 0, 0])"
  have m: "mtd_ok ?m" by (rule flash_ok) simp_all
  have len: "mtd_get_squashfs_len ?m 0 = ok 0x10001"
    using squashfs_image_len [of "[1, 0, 1, 0, 0, 0, 0, 0]" "0x40000" "0x10000"] by simp
  have "\<exists>ps. mtdsplit_parse_squashfs ?m = ok ps"
    by (simp add: mtdsplit_parse_squashfs_def len Let_def del: One_nat_def)
  then obtain ps where ps: "mtdsplit_parse_squashfs ?m = ok ps" by blast
  from squashfs_overlay [OF m _ _ ps] obtain a where a: "ps = [a]" "0x10001 \<le> p_offset a" "0x10000 dvd p_offset a" "p_offset a \<le> 0x40000"
    "p_offset a \<le> 0x40000 \<longrightarrow> p_offset a + p_size a \<le> 0x40000"
    by (auto simp: len simp del: One_nat_def)
  then show ?thesis using m ps by (intro exI [of _ ?m] exI [of _ ps]) (auto simp: dvd_eq_mod_eq_0)
qed

text \<open>
  A root partition that ends inside an erase block, in the block its filesystem ends in: the overlay starts behind the
  partition and its size wraps to almost 4 GiB. The rootfs of a brnimage, which ends 12 bytes before the partition that was
  split, is such a partition.
\<close>

lemma squashfs_overlay_outside:
  "mtdsplit_parse_squashfs (flash 0x3fc00 0x10000 (squashfs_image [1, 0, 3, 0, 0, 0, 0, 0]))
     = ok [\<lparr>p_name = ''rootfs_data'', p_offset = 0x40000, p_size = 0xffff0000\<rparr>]"
proof -
  let ?m = "flash 0x3fc00 0x10000 (squashfs_image [1, 0, 3, 0, 0, 0, 0, 0])"
  have len: "mtd_get_squashfs_len ?m 0 = ok 0x30001"
    using squashfs_image_len [of "[1, 0, 3, 0, 0, 0, 0, 0]" "0x3fc00" "0x10000"] by simp
  have up: "mtd_roundup_to_eb 0x30001 0x10000 = 0x40000" by (simp add: mtd_roundup_to_eb_def)
  have off: "usub 64 0x40000 0 = 0x40000" by (simp add: usub_le)
  have rest: "usub 64 0x3fc00 0x40000 = 0xfffffffffffffc00" by (simp add: usub_def)
  have down: "mtd_rounddown_to_eb 0xfffffffffffffc00 0x10000 = 0xffff0000" by (simp add: mtd_rounddown_to_eb_def)
  have t: "to_size_t ?m 0 = 0" "to_size_t ?m 0x30001 = 0x30001" by (simp_all add: to_size_t_def)
  show ?thesis unfolding mtdsplit_parse_squashfs_def len andthen_simps flash_simps t add_0 Let_def up off rest down by simp
qed

text \<open>
  C32. On a machine with a 64-bit size_t the uImage and jImage parsers compute exactly the reference: the image is the
  first one, on an erase block, whose header is valid and that ends inside the device; an image at offset 0 is followed by
  the first root filesystem behind it, any other one is preceded by the root filesystem at offset 0. Their layout is then
  two disjoint partitions inside the device, except when no image fits and the one whose header is on the last block
  exceeds the device. (With a 32-bit size_t the end of an image wraps: \<open>uimage_wraps\<close>.)
\<close>

theorem image_layouts:
  assumes "mtd_ok64 m" "uimage_dt_ok m" "alloc m 0" "alloc m 1"
    "(parse, header, no_image, no_rootfs) \<in> {
       (mtdsplit_parse_uimage, uimage_header m (uimage_settings m), 0, \<lambda>_. ENOENT),
       (mtdsplit_jimage_parse_generic, jimage_header m (jimage_verify_default m), ENOENT, \<lambda>e. e)}"
  shows "parse m = image_layout m header no_image no_rootfs \<and>
    (\<forall>ps. parse m = ok ps \<longrightarrow> parts_ok m ps \<or> kernel_past_end m header ps)"
proof -
  have "parse m = image_layout m header no_image no_rootfs"
    using assms(5) uimage_refines [OF assms(1-4)] jimage_refines [OF assms(1,3,4)] by auto
  then show ?thesis using image_layout_ok [OF assms(1)] by metis
qed

text \<open>
  C33. A seil image is the active one exactly when the boot loader's environment defines the variable BOOTDEV with the
  name of the device as its value, for an environment that lists variables with non-empty names and ends with a zero.
\<close>

theorem seil_active_exactly:
  assumes "bootdev_name env = Inr devnm" "NUL \<notin> set devnm" "env_mtd env = Some em" "alloc em 0"
    "mtd_read em 0 (mtd_size em) = Inr (concat (map env_entry vars) @ 0 # pad)"
    "mtd_size em = length (concat (map env_entry vars) @ 0 # pad)" "mtd_size em < 2 ^ size_bits em" "env_ok vars"
  shows "seil_bootdev_is_active env = Some (map_of vars (chars ''BOOTDEV'') = Some (chars devnm))"
proof -
  have "0 \<notin> set (chars devnm)"
  proof
    assume "0 \<in> set (chars devnm)"
    then obtain c where "c \<in> set devnm" "(of_char c :: nat) = 0" by (auto simp: chars_def)
    have "c = char_of (of_char c :: nat)" by simp
    also have "\<dots> = NUL" unfolding \<open>(of_char c :: nat) = 0\<close> by (simp add: NUL_def char_of_def)
    finally have "c = NUL" .
    then show False using assms(2) \<open>c \<in> set devnm\<close> by simp
  qed
  then show ?thesis using assms(1,3-7) seil_env_lookup [OF assms(8)]
    by (simp add: seil_bootdev_is_active_def to_size_t_def del: mult_Suc_right)
qed

text \<open>In the witness a uImage of 256 KiB lies on the second of three blocks, behind a squashfs.\<close>

theorem image_layouts_witness:
  "mtdsplit_parse_uimage (flash 0x180000 0x80000 [(0, [0x68, 0x73, 0x71, 0x73]), (0x80000, [0x27, 0x05, 0x19, 0x56]),
     (0x8000c, [0, 4, 0, 0]), (0x8001c, [5, 0, 2])])
   = ok (two_parts ''rootfs'' 0 0x80000 ''kernel'' 0x80000 0x40040)"
proof -
  let ?m = "flash 0x180000 0x80000 [(0, [0x68, 0x73, 0x71, 0x73]), (0x80000, [0x27, 0x05, 0x19, 0x56]),
     (0x8000c, [0, 4, 0, 0]), (0x8001c, [5, 0, 2])]"
  have m: "mtd_ok64 ?m" "uimage_dt_ok ?m" by (rule flash_ok64, simp_all add: uimage_dt_ok_def)
  have b: "blocks_from ?m 0 = [0, 0x80000, 0x100000]" by (simp add: blocks_from_def eb_candidates_def upt_conv_Cons)
  have d: "uimage_settings ?m = \<lparr>extralen = 0, ih_magic = 0x27051956, ih_type = 2, header_offset = 0, part_magic = 0\<rparr>"
    by (simp add: uimage_settings_def uimage_parse_dt_def)
  have u: "uimage_header ?m (uimage_settings ?m) 0 = None" "uimage_header ?m (uimage_settings ?m) 0x80000 = Some (0x40040, ())"
    using read_flash [of "0x180000" "0x80000" _ _ 64]
    by (simp_all add: d uimage_header_def uimage_verify_default_def segment_fields ok_def int_to_size_t_def)
  have "the_image ?m (uimage_header ?m (uimage_settings ?m)) = Some (0x80000, Some (0x40040, ()))"
    by (simp add: the_image_def b image_fits_def u)
  then show ?thesis
    using image_layouts [OF m, of mtdsplit_parse_uimage "uimage_header ?m (uimage_settings ?m)" 0 "\<lambda>_. - 2"]
    by (simp add: image_layout_def mtd_check_rootfs_magic_def segment_fields rootfs_name_def)
qed

text \<open>
  With a 32-bit size_t the end of an image wraps: the header in the second block of a 128 KiB flash gives a kernel of almost
  4 GiB. The kernel of a seama image, whose length wraps as well, ends before it starts, and that of an EVA image runs over
  its rootfs.
\<close>

lemma uimage_wraps:
  "mtdsplit_parse_uimage ((flash 0x20000 0x10000 [(0, [0x68, 0x73, 0x71, 0x73]), (0x10000, [0x27, 0x05, 0x19, 0x56]),
     (0x1000c, [0xff, 0xff, 0x7f, 0xc0]), (0x1001c, [5, 0, 2])])\<lparr>size_bits := 32\<rparr>)
   = ok (two_parts ''rootfs'' 0 0x10000 ''kernel'' 0x10000 0xffff8000)"
proof -
  let ?img = "[(0, [0x68, 0x73, 0x71, 0x73]), (0x10000, [0x27, 0x05, 0x19, 0x56]), (0x1000c, [0xff, 0xff, 0x7f, 0xc0]), (0x1001c, [5, 0, 2])]"
  let ?m = "(flash 0x20000 0x10000 ?img)\<lparr>size_bits := 32\<rparr>"
  let ?d = "\<lparr>extralen = 0, ih_magic = 0x27051956, ih_type = 2, header_offset = 0, part_magic = 0\<rparr>"
  have r: "read_exact ?m off len = (if off + len \<le> 0x20000 then ok (segment ?img off len) else fail EINVAL)" for off len
    by (simp add: read_exact_def)
  have u: "uimage_header ?m ?d 0 = None" "uimage_header ?m ?d 0x10000 = Some (0xffff8000, ())"
    by (simp_all add: uimage_header_def r uimage_verify_default_def segment_fields ok_def int_to_size_t_def)
  have "image_scan ?m (uimage_header ?m ?d) 0 None = Some (0x10000, Some (0xffff8000, ()))"
    by (simp add: image_scan.simps [of ?m _ 0] image_scan.simps [of ?m _ "0x10000"] u to_size_t_def)
  then show ?thesis
    by (simp add: mtdsplit_parse_uimage_def uimage_parse_dt_def image_parts_def mtd_check_rootfs_magic_def segment_fields rootfs_name_def)
qed

lemma be16_segment: "i + 2 \<le> len \<Longrightarrow> be16 (segment img off len) i = 256 * flash_byte img (off + i) + flash_byte img (off + i + 1)"
  by (simp add: be16_def fld_segment segment_short be_val_def)

lemma seama_wraps:
  "mtdsplit_parse_seama ((flash 0x100000 0x10000 [(0, [0x5E, 0xA3, 0xA4, 0x17]), (6, [0x10, 0, 0xff, 0xff, 0xff, 0xe4]),
     (0x1000, [0x68, 0x73, 0x71, 0x73])])\<lparr>size_bits := 32\<rparr>)
   = ok (two_parts ''kernel'' 0x101c (2 ^ 64 - 28) ''rootfs'' 0x1000 0xff000)"
  by (simp add: mtdsplit_parse_seama_def read_exact_def segment_fields be16_segment to_size_t_def mtd_check_rootfs_magic_def
      rootfs_name_def usub_def)

lemma eva_wraps:
  "mtdsplit_parse_eva ((flash 0x100000 0x10000 [(0, [0x81, 0x12, 0xed, 0xfe, 0xe0, 0xff, 0xff, 0xff]),
     (0x100, [0x68, 0x73, 0x71, 0x73])])\<lparr>size_bits := 32\<rparr>)
   = ok (two_parts ''kernel'' 0 0xfffffff8 ''rootfs'' 0x100 0xfff00)"
  by (simp add: mtdsplit_parse_eva_def read_exact_def segment_fields to_size_t_def round_up_def mtd_check_rootfs_magic_def
      kernel_then_rootfs_def usub_def)

definition example_env :: "(nat list \<times> nat list) list" where
  "example_env = [(chars ''PATH'', chars ''x''), (chars ''BOOTDEV'', chars ''flash'')]"

definition example_env_mtd :: mtd_info where
  "example_env_mtd = (flash 0 1 [])\<lparr>mtd_size := length (concat (map env_entry example_env) @ 0 # [255]),
     mtd_read := (\<lambda>_ _. Inr (concat (map env_entry example_env) @ 0 # [255]))\<rparr>"

theorem seil_active_exactly_witness:
  "seil_bootdev_is_active \<lparr>bootdev_name = Inr ''flash'', seil_id = Inl 0, env_mtd = Some example_env_mtd\<rparr> = Some True \<and>
   seil_bootdev_is_active \<lparr>bootdev_name = Inr ''rescue'', seil_id = Inl 0, env_mtd = Some example_env_mtd\<rparr> = Some False"
proof -
  have e: "env_ok example_env" by (simp add: env_ok_def example_env_def chars_def)
  have m: "alloc example_env_mtd 0" "mtd_size example_env_mtd < 2 ^ size_bits example_env_mtd"
    by (simp_all add: example_env_mtd_def flash_def example_env_def env_entry_def chars_def)
  have active: "seil_bootdev_is_active \<lparr>bootdev_name = Inr d, seil_id = Inl 0, env_mtd = Some example_env_mtd\<rparr> =
      Some (map_of example_env (chars ''BOOTDEV'') = Some (chars d))" if "NUL \<notin> set d" for d
    by (rule seil_active_exactly [OF _ that, where em = example_env_mtd and vars = example_env and pad = "[255]"])
      (use e m in \<open>simp_all add: example_env_mtd_def\<close>)
  show ?thesis using active [of "''flash''"] active [of "''rescue''"]
    by (simp add: NUL_def example_env_def chars_def)
qed

text \<open>
  Four images with unchecked headers on a well-formed 1 MiB flash: a TP-Link image whose kernel partition covers the
  start of its rootfs, a TRX image without a second partition whose kernel size wraps below zero, a uImage that exceeds
  the flash from its last erase block and still becomes a kernel partition behind it, and a boot filesystem with a node
  of length zero, over which the parser loops forever.
\<close>

lemma unchecked_headers:
  "\<exists>tplink trx uimage cfe. mtd_ok tplink \<and> mtd_ok trx \<and> mtd_ok uimage \<and> mtd_ok cfe \<and>
     mtdsplit_parse_tplink tplink = ok (two_parts ''kernel'' 0 0x10200 ''rootfs'' 0x8000 0xf8000) \<and>
     mtdsplit_parse_trx trx = ok (two_parts ''kernel'' 28 (2 ^ 64 - 28) ''rootfs'' 0 0x100000) \<and>
     mtdsplit_parse_uimage uimage = ok (two_parts ''rootfs'' 0 0x100000 ''kernel'' 0x100000 0x100040) \<and>
     mtdsplit_cfe_bootfs_parse cfe = None"
proof (intro exI conjI)
  let ?tplink = "flash 0x100000 0x80000 [(0, [1, 0, 0, 0]), (128, [0, 0, 2, 0, 0, 1, 0, 0, 0, 0, 0x80, 0]),
    (0x8000, [0x68, 0x73, 0x71, 0x73])]"
  let ?trx = "flash 0x100000 0x80000 [(0, [0x48, 0x44, 0x52, 0x30, 32, 0, 0, 0]), (16, [28, 0, 0, 0])]"
  let ?uimage = "flash 0x100000 0x80000 [(0, [0x68, 0x73, 0x71, 0x73]), (0x80000, [0x27, 0x05, 0x19, 0x56]),
    (0x8000c, [0, 0x10, 0, 0]), (0x8001c, [5, 0, 2])]"
  let ?cfe = "flash 0x100000 0x80000 [(0, [0x85, 0x19])]"
  show "mtd_ok ?tplink" "mtd_ok ?trx" "mtd_ok ?uimage" "mtd_ok ?cfe" by (rule flash_ok; simp)+
  show "mtdsplit_parse_tplink ?tplink = ok (two_parts ''kernel'' 0 0x10200 ''rootfs'' 0x8000 0xf8000)"
    by (simp add: mtdsplit_parse_tplink_def read_flash segment_fields to_size_t_def mtd_check_rootfs_magic_def
        kernel_then_rootfs_def usub_le)
  show "mtdsplit_cfe_bootfs_parse ?cfe = None"
    using cfe_bootfs_stuck [of ?cfe "segment [(0, [0x85, 0x19])] 0 40"]
    by (simp add: mtdsplit_cfe_bootfs_parse_def segment_fields)
  have h0: "trx_header ?trx 0 = Some (32, segment [(0, [0x48, 0x44, 0x52, 0x30, 32, 0, 0, 0]), (16, [28, 0, 0, 0])] 0 32)"
    using read_flash [of "0x100000" "0x80000" _ 0 32] by (simp add: trx_header_def segment_fields ok_def)
  show "mtdsplit_parse_trx ?trx = ok (two_parts ''kernel'' 28 (2 ^ 64 - 28) ''rootfs'' 0 0x100000)"
    by (simp add: mtdsplit_parse_trx_def image_scan.simps [of ?trx _ 0] h0 segment_fields to_size_t_def usub_def)
  let ?d = "\<lparr>extralen = 0, ih_magic = 0x27051956, ih_type = 2, header_offset = 0, part_magic = 0\<rparr>"
  have u: "uimage_header ?uimage ?d 0 = None" "uimage_header ?uimage ?d 0x80000 = Some (0x100040, ())"
    using read_flash [of "0x100000" "0x80000" _ _ 64]
    by (simp_all add: uimage_header_def uimage_verify_default_def segment_fields ok_def int_to_size_t_def)
  have scan: "image_scan ?uimage (uimage_header ?uimage ?d) 0 None = Some (0x100000, Some (0x100040, ()))"
    by (simp add: image_scan.simps [of ?uimage _ 0] image_scan.simps [of ?uimage _ "0x80000"]
        image_scan.simps [of ?uimage _ "0x100000"] u to_size_t_def)
  show "mtdsplit_parse_uimage ?uimage = ok (two_parts ''rootfs'' 0 0x100000 ''kernel'' 0x100000 0x100040)"
    by (simp add: mtdsplit_parse_uimage_def uimage_parse_dt_def scan image_parts_def mtd_check_rootfs_magic_def
        segment_fields rootfs_name_def)
qed

end
