(* ===== verification/MtdImages.thy ===== *)
theory MtdImages
  imports MtdSplit
begin

text \<open>
  The splitters that need more than the header of an image: BCM63XX image tags (mtdsplit_bcm63xx.c), MSTC boot slots
  (mtdsplit_mstc_boot.c), Broadcom whole flash images (mtdsplit_bcm_wfi.c) and FIT images (mtdsplit_fit.c). The layout of
  an image tag comes from a header of the kernel and is an argument; so are libfdt, the device tree nodes and the other
  partitions these parsers read.
\<close>

abbreviation (input) ENODATA :: int where "ENODATA \<equiv> - 61"

subsection \<open>mtdsplit_bcm63xx.c\<close>

text \<open>An image tag: its size, whether its checksum is right, and its numbers as kstrtouint reads them.\<close>

record bcm_tag =
  tag_size :: nat
  tag_crc_ok :: "nat list \<Rightarrow> bool"
  flash_image_start :: "nat list \<Rightarrow> nat option"
  kernel_address :: "nat list \<Rightarrow> nat option"
  kernel_length :: "nat list \<Rightarrow> nat option"
  extended_size :: nat

definition bcm63xx_read_image_tag :: "bcm_tag \<Rightarrow> mtd_info \<Rightarrow> nat \<Rightarrow> int + nat list" where
  "bcm63xx_read_image_tag T m offset = (case mtd_read m offset (tag_size T) of
     Inl e \<Rightarrow> Inl e
   | Inr hdr \<Rightarrow> if length hdr \<noteq> tag_size T then Inl EIO else if tag_crc_ok T hdr then Inr hdr else Inl 1)"

definition bcm63xx_parse_partitions :: "bcm_tag \<Rightarrow> mtd_info \<Rightarrow> nat list \<Rightarrow> mtd_partition list res" where
  "bcm63xx_parse_partitions T m hdr = (case flash_image_start T hdr of
     None \<Rightarrow> fail EINVAL
   | Some start \<Rightarrow> if start < extended_size T then fail EINVAL else (case kernel_address T hdr of
       None \<Rightarrow> fail EINVAL
     | Some address \<Rightarrow> if address < extended_size T then fail EINVAL else (case kernel_length T hdr of
         None \<Rightarrow> fail EINVAL
       | Some kernel_size \<Rightarrow>
           if kernel_size = 0 then fail EINVAL
           else let base = (\<lambda>a. to_size_t m (usub 64 (a - extended_size T) (part_offset m)));
                    kernel_offset = base address
             in if \<not> alloc m 0 then fail ENOMEM
                else if start < address
                then let rootfs_offset = base start in
                  ok (two_parts ''rootfs'' rootfs_offset (usub (size_bits m) kernel_offset rootfs_offset)
                        ''kernel'' kernel_offset kernel_size)
                else let rootfs_offset = to_size_t m (kernel_offset + kernel_size) in
                  ok (two_parts ''kernel'' kernel_offset kernel_size
                        ''rootfs'' rootfs_offset (to_size_t m (usub 64 (mtd_size m) rootfs_offset))))))"

text \<open>The offset is a loff_t, which no device is large enough to wrap.\<close>

partial_function (option) bcm63xx_scan :: "bcm_tag \<Rightarrow> mtd_info \<Rightarrow> nat \<Rightarrow> mtd_partition list res" where
  "bcm63xx_scan T m offset =
    (if offset < mtd_size m then
       (case bcm63xx_read_image_tag T m offset of
          Inr hdr \<Rightarrow> bcm63xx_parse_partitions T m hdr
        | Inl _ \<Rightarrow> bcm63xx_scan T m (offset + mtd_erasesize m))
     else fail EINVAL)"

definition mtdsplit_parse_bcm63xx :: "bcm_tag \<Rightarrow> bool \<Rightarrow> mtd_info \<Rightarrow> mtd_partition list res" where
  "mtdsplit_parse_bcm63xx T nand m = (if nand then fail EINVAL else bcm63xx_scan T m 0)"

subsection \<open>mtdsplit_mstc_boot.c\<close>

text \<open>The device tree node of the partition, the persist node it refers to, and its child nodes.\<close>

record mstc_child =
  addr_cells :: nat
  size_cells :: nat
  child_reg :: "int + nat \<times> nat"
  label_base :: "int + string"

record mstc_node =
  mstc_bootnum :: "int + nat"
  persist_node :: "(bool \<times> (int + nat)) option"
  parent_mtd :: mtd_info
  children :: "mstc_child list"

definition mstcboot_is_active :: "mstc_node \<Rightarrow> int + bool \<times> nat" where
  "mstcboot_is_active np = (case mstc_bootnum np of
     Inl e \<Rightarrow> Inl e
   | Inr bootnum_dt \<Rightarrow> (case persist_node np of
       None \<Rightarrow> Inl ENODATA
     | Some (same_parent, reg) \<Rightarrow>
         if \<not> same_parent then Inl EINVAL
         else (case reg of
           Inl e \<Rightarrow> Inl e
         | Inr persist_offset \<Rightarrow> (case mtd_read (parent_mtd np) ((persist_offset + 4) mod 2 ^ 32) 1 of
             Inl e \<Rightarrow> Inl e
           | Inr bs \<Rightarrow> if length bs \<noteq> 1 then Inl EIO else Inr (hd bs = bootnum_dt, bootnum_dt)))))"

definition mstcboot_parse_image_parts :: "mtd_info \<Rightarrow> mtd_partition list res" where
  "mstcboot_parse_image_parts m = andthen (read_exact m 0 64) (\<lambda>buf.
     let kern_len =
       (if be32 buf 0 = 0xd00dfeed then be32 buf 4
        else if be32 buf 0 = 0x27051956 then to_size_t m (64 + be32 buf 12)
        else 0)
     in andthen (mtd_find_rootfs_from m kern_len (the_limit m)) (\<lambda>(rootfs_offset, type).
       if \<not> alloc m 0 then fail ENOMEM
       else ok ((if kern_len > 0 then [\<lparr>p_name = ''kernel'', p_offset = 0, p_size = rootfs_offset\<rparr>] else []) @
         [\<lparr>p_name = rootfs_name type, p_offset = rootfs_offset, p_size = usub 64 (mtd_size m) rootfs_offset\<rparr>])))"

fun mstc_fixed_loop :: "mtd_info \<Rightarrow> bool \<Rightarrow> nat \<Rightarrow> mstc_child list \<Rightarrow> mtd_partition list res" where
  "mstc_fixed_loop m active bootnum_dt [] = ok []"
| "mstc_fixed_loop m active bootnum_dt (child # cs) =
    (if addr_cells child \<noteq> 1 \<or> size_cells child \<noteq> 1 then fail EINVAL
     else (case child_reg child of
       Inl e \<Rightarrow> fail e
     | Inr (off, sz) \<Rightarrow> (case label_base child of
         Inl e \<Rightarrow> fail e
       | Inr name \<Rightarrow>
           if \<not> active \<and> \<not> alloc m (1 + length cs) then fail ENOMEM
           else andthen (mstc_fixed_loop m active bootnum_dt cs) (\<lambda>ps.
             ok (\<lparr>p_name = (if active then name else name @ dec_nat bootnum_dt), p_offset = off, p_size = sz\<rparr> # ps)))))"

definition mstcboot_parse_fixed_parts :: "mstc_node \<Rightarrow> mtd_info \<Rightarrow> bool \<Rightarrow> nat \<Rightarrow> mtd_partition list res" where
  "mstcboot_parse_fixed_parts np m active bootnum_dt =
    (if length (children np) > 2 then fail EINVAL
     else if \<not> alloc m 0 then fail ENOMEM
     else mstc_fixed_loop m active bootnum_dt (children np))"

definition mtdsplit_mstcboot_parse :: "mstc_node \<Rightarrow> mtd_info \<Rightarrow> mtd_partition list res" where
  "mtdsplit_mstcboot_parse np m = (case mstcboot_is_active np of
     Inl e \<Rightarrow> fail e
   | Inr (active, bootnum_dt) \<Rightarrow>
       if children np \<noteq> [] then mstcboot_parse_fixed_parts np m active bootnum_dt
       else if active then mstcboot_parse_image_parts m
       else fail 0)"

subsection \<open>mtdsplit_bcm_wfi.c\<close>

text \<open>The device tree node, the partitions with the boot flags, and the CRC-32 of the kernel.\<close>

record wfi_env =
  cferam_prop :: "string option"
  no_cferam :: bool
  wfi_node :: bool
  bootflag1 :: "mtd_info option"
  bootflag2 :: "mtd_info option"
  crc32 :: "nat list \<Rightarrow> nat"

text \<open>
  jffs2_dirent_valid, on the bytes of the block from the node on. None stands for a read behind the buffer: the magic
  number and type are in the buffer, the rest of the node need not be.
\<close>

definition jffs2_dirent_crc :: "wfi_env \<Rightarrow> nat list \<Rightarrow> nat" where
  "jffs2_dirent_crc E node = crc32 E (take (40 - 8) node)"

definition jffs2_dirent_valid :: "wfi_env \<Rightarrow> mtd_info \<Rightarrow> nat list \<Rightarrow> bool option" where
  "jffs2_dirent_valid E m node =
    (if length node < 4 then None
     else if cpu m node 0 2 \<noteq> 0x1985 \<or> cpu m node 2 2 \<noteq> 0xE001 then Some False
     else if length node < 40 then None
     else Some (cpu m node 20 4 \<noteq> 0 \<and> cpu m node 32 4 = jffs2_dirent_crc E node))"

definition memcmp_eq :: "nat list \<Rightarrow> nat list \<Rightarrow> bool option" where
  "memcmp_eq mem s = (if length mem < length s then None else Some (take (length s) mem = s))"

text \<open>What the loops over nodes and blocks return: found a node (its name), or went through with the flag valid.\<close>

datatype jffs2_end = Found "nat list" nat | Invalid | Through bool

definition node_name :: "nat list \<Rightarrow> jffs2_end option" where
  "node_name node = (let nsize = byte_at node 28; name = take nsize (drop 40 node) in
     if 0 \<notin> set name \<and> length name < nsize then None else Some (Found (takeWhile (\<lambda>c. c \<noteq> 0) name) nsize))"

text \<open>One round of the loop over the nodes of a block: the next offset and the flag, or the end.\<close>

definition jffs2_node_step ::
  "wfi_env \<Rightarrow> mtd_info \<Rightarrow> nat list \<Rightarrow> nat list \<Rightarrow> nat \<Rightarrow> bool \<Rightarrow> ((nat \<times> bool) + jffs2_end) option" where
  "jffs2_node_step E m buf name block_offs valid =
    (let node = drop block_offs buf;
         next = ((block_offs + cpu m node 4 4) mod 2 ^ 32 + 3) mod 2 ^ 32 div 4 * 4
     in case jffs2_dirent_valid E m node of
       None \<Rightarrow> None
     | Some is_dirent \<Rightarrow>
         if \<not> is_dirent then Some (Inl ((block_offs + 4) mod 2 ^ 32, valid))
         else (case memcmp_eq (drop 40 node) (chars ''1-openwrt'') of
           None \<Rightarrow> None
         | Some is_openwrt \<Rightarrow>
             if is_openwrt then Some (Inl (next, True))
             else (case memcmp_eq (drop 40 node) name of
               None \<Rightarrow> None
             | Some is_file \<Rightarrow>
                 if \<not> is_file then Some (Inl (next, valid))
                 else if \<not> valid then Some (Inr Invalid)
                 else map_option Inr (node_name node))))"

partial_function (option) jffs2_block_loop ::
  "wfi_env \<Rightarrow> mtd_info \<Rightarrow> nat list \<Rightarrow> nat list \<Rightarrow> nat \<Rightarrow> bool \<Rightarrow> jffs2_end option" where
  "jffs2_block_loop E m buf name block_offs valid =
    (if block_offs < mtd_erasesize m then
       (case jffs2_node_step E m buf name block_offs valid of
          None \<Rightarrow> None
        | Some (Inl (next, valid')) \<Rightarrow> jffs2_block_loop E m buf name next valid'
        | Some (Inr r) \<Rightarrow> Some r)
     else Some (Through valid))"

text \<open>The end of the search is fixed by the caller as *offs + size. The result is the block and the name found.\<close>

partial_function (option) jffs2_find_from ::
  "wfi_env \<Rightarrow> mtd_info \<Rightarrow> nat list \<Rightarrow> int \<Rightarrow> nat \<Rightarrow> bool \<Rightarrow> (nat \<times> nat list \<times> nat) res" where
  "jffs2_find_from E m name limit offs valid =
    (if int offs < limit then
       (case mtd_read m offs 2 of
          Inl _ \<Rightarrow> jffs2_find_from E m name limit (offs + mtd_erasesize m) valid
        | Inr magic \<Rightarrow>
            if length magic \<noteq> 2 \<or> cpu m magic 0 2 \<noteq> 0x1985
            then jffs2_find_from E m name limit (offs + mtd_erasesize m) valid
            else (case mtd_read m offs (mtd_erasesize m) of
              Inl e \<Rightarrow> fail e
            | Inr buf \<Rightarrow>
                if length buf \<noteq> mtd_erasesize m then fail EINVAL
                else (case jffs2_block_loop E m buf name 0 valid of
                  None \<Rightarrow> None
                | Some (Found fname nsize) \<Rightarrow> ok (offs, fname, nsize)
                | Some Invalid \<Rightarrow> fail EINVAL
                | Some (Through valid') \<Rightarrow> jffs2_find_from E m name limit (offs + mtd_erasesize m) valid')))
     else fail ENOENT)"

definition jffs2_find_file :: "wfi_env \<Rightarrow> mtd_info \<Rightarrow> nat list \<Rightarrow> nat \<Rightarrow> int \<Rightarrow> (nat \<times> nat list \<times> nat) res" where
  "jffs2_find_file E m name offs sz = jffs2_find_from E m name (int offs + sz) offs False"

partial_function (option) ubifs_find_from :: "mtd_info \<Rightarrow> int \<Rightarrow> nat \<Rightarrow> nat res" where
  "ubifs_find_from m limit offs =
    (if int offs < limit then
       (case mtd_read m offs 4 of
          Inr magic \<Rightarrow>
            if length magic = 4 \<and> be32 magic 0 = 0x55424923 then ok offs
            else ubifs_find_from m limit (offs + mtd_erasesize m)
        | Inl _ \<Rightarrow> ubifs_find_from m limit (offs + mtd_erasesize m))
     else fail ENOENT)"

definition ubifs_find :: "mtd_info \<Rightarrow> nat \<Rightarrow> int \<Rightarrow> nat res" where
  "ubifs_find m offs sz = ubifs_find_from m (int offs + sz) offs"

text \<open>The part of parse_bcm_wfi behind the search for the CFE RAM image, and the whole function.\<close>

definition wfi_from_kernel :: "wfi_env \<Rightarrow> mtd_info \<Rightarrow> nat \<Rightarrow> nat \<Rightarrow> nat option \<Rightarrow> nat \<Rightarrow> mtd_partition list res" where
  "wfi_from_kernel E m off sz cfe kernel_start =
    andthen (jffs2_find_file E m (chars ''vmlinux.lz'') kernel_start (int sz - (int kernel_start - int off)))
      (\<lambda>(kernel_off, _). let rootfs_start = kernel_off + mtd_erasesize m in
        andthen (ubifs_find m rootfs_start (int sz - (int rootfs_start - int off))) (\<lambda>rootfs_off.
          if \<not> alloc m 1 then fail ENOMEM
          else ok ((case cfe of None \<Rightarrow> [] | Some cfe_off \<Rightarrow>
                [\<lparr>p_name = ''cferam'', p_offset = cfe_off, p_size = usub 64 kernel_off cfe_off\<rparr>]) @
            [\<lparr>p_name = ''firmware'', p_offset = kernel_off, p_size = usub 64 (off + sz) kernel_off\<rparr>,
             \<lparr>p_name = ''kernel'', p_offset = kernel_off, p_size = usub 64 rootfs_off kernel_off\<rparr>,
             \<lparr>p_name = ''ubi'', p_offset = rootfs_off, p_size = usub 64 (off + sz) rootfs_off\<rparr>])))"

definition parse_bcm_wfi :: "wfi_env \<Rightarrow> mtd_info \<Rightarrow> nat \<Rightarrow> nat \<Rightarrow> bool \<Rightarrow> mtd_partition list res" where
  "parse_bcm_wfi E m off sz cfe_part =
    (let cferam_name = (case cferam_prop E of None \<Rightarrow> chars ''cferam'' | Some s \<Rightarrow> chars s);
         cferam_key = take (min 32 (length cferam_name) - 1) cferam_name
     in if cfe_part then andthen (jffs2_find_file E m cferam_key off (int sz))
          (\<lambda>(cfe_off, _). wfi_from_kernel E m off sz (Some cfe_off) (cfe_off + mtd_erasesize m))
        else wfi_from_kernel E m off sz None off)"

definition mtdsplit_parse_bcm_wfi :: "wfi_env \<Rightarrow> mtd_info \<Rightarrow> mtd_partition list res" where
  "mtdsplit_parse_bcm_wfi E m =
    (if \<not> wfi_node E then fail EINVAL
     else if \<not> alloc m 0 then fail ENOMEM
     else parse_bcm_wfi E m 0 (mtd_size m) (\<not> no_cferam E))"

definition char_to_num :: "nat \<Rightarrow> int" where
  "char_to_num c = (if 48 \<le> c \<and> c \<le> 57 then int c - 48 else 0)"

definition flag_value :: "nat list \<Rightarrow> int" where
  "flag_value ds = char_to_num (ds ! 0) * 100 + char_to_num (ds ! 1) * 10 + char_to_num (ds ! 2) * 1"

text \<open>The name is a copy of at most nsize characters and its NUL; reading behind it is None.\<close>

definition cferam_bootflag_value :: "(nat list \<times> nat) option \<Rightarrow> int option" where
  "cferam_bootflag_value name = (case name of
     None \<Rightarrow> Some ENOENT
   | Some (s, name_len) \<Rightarrow>
       if name_len < 10 then Some ENOENT
       else (case memcmp_eq (s @ [0]) (chars ''cferam.'') of
         None \<Rightarrow> None
       | Some matches \<Rightarrow>
           if \<not> matches then Some ENOENT
           else if length s + 1 < 10 then None
           else Some (flag_value (drop 7 (s @ [0])))))"

text \<open>
  What both two-slot parsers do: the slot with the larger flag is parsed, and the other one added as a partition of its
  own. When nothing is found the two slots are stored as partitions, but the value returned stays the error.
\<close>

definition add_inactive :: "mtd_info \<Rightarrow> mtd_partition list res \<Rightarrow> string \<Rightarrow> nat \<Rightarrow> nat \<Rightarrow> mtd_partition list res" where
  "add_inactive m parsed name inactive_off inactive_size = (case parsed of
     None \<Rightarrow> None
   | Some (Inr ps) \<Rightarrow>
       if \<not> alloc m 2 then fail ENOMEM
       else ok (ps @ [\<lparr>p_name = name, p_offset = inactive_off, p_size = inactive_size\<rparr>])
   | Some (Inl e) \<Rightarrow> if \<not> alloc m 2 then None else fail e)"

definition parse_slots :: "wfi_env \<Rightarrow> mtd_info \<Rightarrow> int \<Rightarrow> int \<Rightarrow> bool \<Rightarrow> mtd_partition list res" where
  "parse_slots E m bf1 bf2 cfe_part =
    (let img2_off = mtd_size m div 2; img2_size = mtd_size m - img2_off in
     if bf1 \<ge> bf2 then add_inactive m (parse_bcm_wfi E m 0 img2_off cfe_part) ''img2'' img2_off img2_size
     else add_inactive m (parse_bcm_wfi E m img2_off img2_size cfe_part) ''img1'' 0 img2_off)"

definition found_name :: "(nat \<times> nat list \<times> nat) res \<Rightarrow> (nat list \<times> nat) option option" where
  "found_name r = (case r of None \<Rightarrow> None | Some (Inl _) \<Rightarrow> Some None | Some (Inr (_, nm)) \<Rightarrow> Some (Some nm))"

definition mtdsplit_parse_bcm_wfi_split :: "wfi_env \<Rightarrow> mtd_info \<Rightarrow> mtd_partition list res" where
  "mtdsplit_parse_bcm_wfi_split E m =
    (let img2_off = mtd_size m div 2 in
     if \<not> alloc m 0 then fail ENOMEM
     else (case found_name (jffs2_find_file E m (chars ''cferam'') 0 (int img2_off)) of
       None \<Rightarrow> None
     | Some cfe1 \<Rightarrow> (case found_name (jffs2_find_file E m (chars ''cferam'') img2_off (int (mtd_size m - img2_off))) of
         None \<Rightarrow> None
       | Some cfe2 \<Rightarrow> (case cferam_bootflag_value cfe1 of
           None \<Rightarrow> None
         | Some bf1 \<Rightarrow> (case cferam_bootflag_value cfe2 of
             None \<Rightarrow> None
           | Some bf2 \<Rightarrow> parse_slots E m bf1 bf2 True)))))"

partial_function (option) sercomm_scan :: "mtd_info \<Rightarrow> nat \<Rightarrow> int option" where
  "sercomm_scan m offs =
    (if offs < mtd_size m then
       (case mtd_read m offs 10 of
          Inr buf \<Rightarrow>
            if length buf = 10 \<and> take 7 buf = chars ''eRcOmM.'' then Some (flag_value (drop 7 buf))
            else sercomm_scan m (offs + mtd_erasesize m)
        | Inl _ \<Rightarrow> sercomm_scan m (offs + mtd_erasesize m))
     else Some ENOENT)"

definition sercomm_bootflag_value :: "mtd_info \<Rightarrow> int option" where
  "sercomm_bootflag_value m = sercomm_scan m 0"

text \<open>The second result is the length of the erasure of the second flag partition, if it is erased.\<close>

definition mtdsplit_parse_ser_wfi :: "wfi_env \<Rightarrow> mtd_info \<Rightarrow> (mtd_partition list res \<times> nat option) option" where
  "mtdsplit_parse_ser_wfi E m = (case bootflag1 E of
     None \<Rightarrow> Some (fail ENOENT, None)
   | Some m1 \<Rightarrow> (case bootflag2 E of
       None \<Rightarrow> Some (fail ENOENT, None)
     | Some m2 \<Rightarrow>
         if \<not> alloc m 0 then Some (fail ENOMEM, None)
         else (case sercomm_bootflag_value m1 of
           None \<Rightarrow> None
         | Some bf1 \<Rightarrow> (case sercomm_bootflag_value m2 of
             None \<Rightarrow> None
           | Some bf2 \<Rightarrow>
               if bf1 = bf2 \<and> bf2 \<ge> 0 then Some (parse_slots E m bf1 ENOENT False, Some (mtd_size m2))
               else Some (parse_slots E m bf1 bf2 False, None)))))"

subsection \<open>mtdsplit_fit.c\<close>

text \<open>
  The device tree properties, the kernel command line and libfdt: a property is the position of its value in the tree and
  its length, the next node its offset and depth.
\<close>

record fit_env =
  cmdline_match :: "string option"
  cmdline_has :: "string \<Rightarrow> bool"
  fdt_path_offset :: "nat list \<Rightarrow> string \<Rightarrow> int"
  fdt_next_node :: "nat list \<Rightarrow> int \<Rightarrow> int \<Rightarrow> int \<times> int"
  fdt_getprop :: "nat list \<Rightarrow> int \<Rightarrow> string \<Rightarrow> (nat \<times> int) option"

definition fit_image_get_data :: "fit_env \<Rightarrow> nat list \<Rightarrow> int \<Rightarrow> (int \<times> int) res" where
  "fit_image_get_data E fit noffset = (case fdt_getprop E fit noffset ''data'' of
     None \<Rightarrow> fail (- 1)
   | Some (pos, len) \<Rightarrow> ok (int pos, len))"

text \<open>The three numeric properties have one reader each, which differ in the name only.\<close>

definition fit_image_get_u32 :: "fit_env \<Rightarrow> string \<Rightarrow> nat list \<Rightarrow> int \<Rightarrow> int res" where
  "fit_image_get_u32 E name fit noffset = (case fdt_getprop E fit noffset name of
     None \<Rightarrow> fail ENOENT
   | Some (pos, _) \<Rightarrow> if length fit < pos + 4 then None else ok (s32 (int (be32 fit pos))))"

definition fit_image_get_data_offset :: "fit_env \<Rightarrow> nat list \<Rightarrow> int \<Rightarrow> int res" where
  "fit_image_get_data_offset E = fit_image_get_u32 E ''data-offset''"

definition fit_image_get_data_position :: "fit_env \<Rightarrow> nat list \<Rightarrow> int \<Rightarrow> int res" where
  "fit_image_get_data_position E = fit_image_get_u32 E ''data-position''"

definition fit_image_get_data_size :: "fit_env \<Rightarrow> nat list \<Rightarrow> int \<Rightarrow> int res" where
  "fit_image_get_data_size E = fit_image_get_u32 E ''data-size''"

text \<open>The position of the data relative to the start of the tree, and its size.\<close>

definition fit_image_get_data_and_size :: "fit_env \<Rightarrow> nat list \<Rightarrow> int \<Rightarrow> (int \<times> int) res" where
  "fit_image_get_data_and_size E fit noffset =
    (let external = (\<lambda>offset. andthen (fit_image_get_data_size E fit noffset) (\<lambda>len. ok (offset, len)))
     in case fit_image_get_data_position E fit noffset of
       None \<Rightarrow> None
     | Some (Inr offset) \<Rightarrow> external offset
     | Some (Inl _) \<Rightarrow> (case fit_image_get_data_offset E fit noffset of
         None \<Rightarrow> None
       | Some (Inr offset) \<Rightarrow> external (s32 (offset + int ((be32 fit 4 + 3) mod 2 ^ 32 div 4 * 4)))
       | Some (Inl _) \<Rightarrow> fit_image_get_data E fit noffset))"

text \<open>The search for the header: the offset where it stopped and the last header read, None before the first read.\<close>

partial_function (option) fit_scan :: "mtd_info \<Rightarrow> nat \<Rightarrow> nat \<Rightarrow> nat list option \<Rightarrow> (nat \<times> nat list option) res" where
  "fit_scan m offset_start offset hdr =
    (if to_size_t m (offset + 40) \<le> mtd_size m then
       (case mtd_read m (to_size_t m (offset + offset_start)) 40 of
          Inl e \<Rightarrow> fail e
        | Inr h \<Rightarrow>
            if length h \<noteq> 40 then fail EIO
            else if be32 h 0 \<noteq> 0xd00dfeed then fit_scan m offset_start (to_size_t m (offset + mtd_erasesize m)) (Some h)
            else ok (offset, Some h))
     else ok (offset, hdr))"

text \<open>The loop over the image nodes: the largest end of the data of one.\<close>

partial_function (option) fit_nodes_loop :: "fit_env \<Rightarrow> mtd_info \<Rightarrow> nat list \<Rightarrow> int \<times> int \<Rightarrow> nat \<Rightarrow> nat res" where
  "fit_nodes_loop E m fit node max_size =
    (if fst node \<ge> 0 \<and> snd node > 0 then
       (if snd node = 1 then
          (case fit_image_get_data_and_size E fit (fst node) of
             None \<Rightarrow> None
           | Some (Inl _) \<Rightarrow> fail 0
           | Some (Inr (pos, len)) \<Rightarrow>
               fit_nodes_loop E m fit (fdt_next_node E fit (fst node) (snd node)) (max max_size (int_to_size_t m (len + pos))))
        else fit_nodes_loop E m fit (fdt_next_node E fit (fst node) (snd node)) max_size)
     else ok max_size)"

definition fit_external :: "fit_env \<Rightarrow> mtd_info \<Rightarrow> nat \<Rightarrow> nat \<Rightarrow> nat \<Rightarrow> mtd_partition list res" where
  "fit_external E m offset_start offset fit_size =
    (if \<not> alloc m 0 then None
     else (case mtd_read m offset (to_size_t m (fit_size + offset_start)) of
       Inl e \<Rightarrow> fail e
     | Inr bs \<Rightarrow>
         if length bs > fit_size then None
         else let fit = bs @ replicate (fit_size - length bs) 0; images = fdt_path_offset E fit ''/images'' in
           if images < 0 then fail ENOENT
           else andthen (fit_nodes_loop E m fit (fdt_next_node E fit images 0) 0) (\<lambda>max_size.
             if \<not> alloc m 1 then fail ENOMEM
             else if mtd_erasesize m = 0 then None
             else let off = (offset + mtd_roundup_to_eb max_size (mtd_erasesize m)) mod 2 ^ 64
               in ok [\<lparr>p_name = ''rootfs_data'', p_offset = off, p_size = usub 64 (mtd_size m) off\<rparr>])))"

definition fit_embedded :: "mtd_info \<Rightarrow> nat \<Rightarrow> nat \<Rightarrow> nat \<Rightarrow> mtd_partition list res" where
  "fit_embedded m offset_start offset fit_size =
    andthen (mtd_find_rootfs_from m (to_size_t m (offset + fit_size + offset_start)) (the_limit m)) (\<lambda>(rootfs_offset, type).
      if \<not> alloc m 0 then fail ENOMEM
      else if mtd_erasesize m = 0 then None
      else ok (two_parts ''kernel'' offset (mtd_roundup_to_eb (to_size_t m (fit_size + offset_start)) (mtd_erasesize m))
                 (rootfs_name type) rootfs_offset (to_size_t m (usub 64 (mtd_size m) rootfs_offset))))"

definition mtdsplit_fit_parse :: "fit_env \<Rightarrow> mtd_info \<Rightarrow> mtd_partition list res" where
  "mtdsplit_fit_parse E m =
    (if (case cmdline_match E of None \<Rightarrow> False | Some s \<Rightarrow> \<not> cmdline_has E s) then fail ENOENT
     else let offset_start = (case of_u32 m ''openwrt,fit-offset'' of None \<Rightarrow> 0 | Some v \<Rightarrow> v)
       in andthen (fit_scan m offset_start 0 None) (\<lambda>(offset, hdr).
         case hdr of None \<Rightarrow> None
         | Some h \<Rightarrow> let fit_size = be32 h 4 in
             if fit_size = 0 then fail ENOENT
             else if fit_size > 0x80000 then fit_embedded m offset_start offset fit_size
             else fit_external E m offset_start offset fit_size))"

subsection \<open>Layouts of whole flash images\<close>

lemma ubifs_find_from_ok:
  assumes m: "mtd_ok m" and Q: "\<And>u. start \<le> u \<Longrightarrow> int u < limit \<Longrightarrow> u + 4 \<le> mtd_size m \<Longrightarrow> Q u"
  shows "holds True (ubifs_find_from m limit start) Q"
  using Q
proof (induction "nat (limit - int start)" arbitrary: start rule: less_induct)
  case less
  have es: "0 < mtd_erasesize m" using m by (simp add: mtd_ok_def)
  show ?case
  proof (cases "int start < limit")
    case True
    have ih: "holds True (ubifs_find_from m limit (start + mtd_erasesize m)) Q"
      using True es less.prems by (intro less.hyps) auto
    have fits: "start + 4 \<le> mtd_size m" if "mtd_read m start 4 = Inr bs" for bs
      using read_bounds [of m start 4 bs] m that by (auto simp: mtd_ok_def)
    show ?thesis using True ih less.prems [of start] fits
      by (subst ubifs_find_from.simps) (auto split: sum.split)
  qed (subst ubifs_find_from.simps, simp)
qed

lemma jffs2_find_from_ok:
  assumes m: "mtd_ok m" and Q: "\<And>k nm. start \<le> k \<Longrightarrow> int k < limit \<Longrightarrow> k + mtd_erasesize m \<le> mtd_size m \<Longrightarrow> Q (k, nm)"
  shows "holds False (jffs2_find_from E m name limit start valid) Q"
  using Q
proof (induction "nat (limit - int start)" arbitrary: start valid rule: less_induct)
  case less
  have es: "0 < mtd_erasesize m" using m by (simp add: mtd_ok_def)
  show ?case
  proof (cases "int start < limit")
    case True
    have ih: "holds False (jffs2_find_from E m name limit (start + mtd_erasesize m) v) Q" for v
      using True es less.prems by (intro less.hyps) auto
    have fits: "start + mtd_erasesize m \<le> mtd_size m" if "mtd_read m start (mtd_erasesize m) = Inr bs" for bs
      using read_bounds [of m start "mtd_erasesize m" bs] m that by (auto simp: mtd_ok_def)
    show ?thesis using True ih less.prems [of start] fits
      by (subst jffs2_find_from.simps) (auto split: sum.split option.split jffs2_end.split)
  qed (subst jffs2_find_from.simps, simp)
qed

text \<open>The partitions of a whole flash image in the region from lo to hi.\<close>

definition wfi_parts_ok :: "mtd_info \<Rightarrow> nat \<Rightarrow> nat \<Rightarrow> mtd_partition list \<Rightarrow> bool" where
  "wfi_parts_ok m lo hi ps \<longleftrightarrow> (\<exists>cfe k u. ps = cfe @ [\<lparr>p_name = ''firmware'', p_offset = k, p_size = hi - k\<rparr>,
       \<lparr>p_name = ''kernel'', p_offset = k, p_size = u - k\<rparr>, \<lparr>p_name = ''ubi'', p_offset = u, p_size = hi - u\<rparr>] \<and>
     lo \<le> k \<and> k + mtd_erasesize m \<le> u \<and> u < hi \<and>
     (cfe = [] \<or> (\<exists>c. cfe = [\<lparr>p_name = ''cferam'', p_offset = c, p_size = k - c\<rparr>] \<and> lo \<le> c \<and> c + mtd_erasesize m \<le> k)))"

lemma wfi_from_kernel_ok:
  assumes m: "mtd_ok m" and reg: "off + sz \<le> mtd_size m"
    and s: "off \<le> start" "\<And>c. cfe = Some c \<Longrightarrow> off \<le> c \<and> c + mtd_erasesize m \<le> start"
  shows "holds False (wfi_from_kernel E m off sz cfe start) (wfi_parts_ok m off (off + sz))"
proof -
  have big: "off + sz < 2 ^ 64" using m reg by (simp add: mtd_ok_def)
  have parts: "wfi_parts_ok m off (off + sz)
      ((case cfe of None \<Rightarrow> [] | Some c \<Rightarrow> [\<lparr>p_name = ''cferam'', p_offset = c, p_size = usub 64 k c\<rparr>]) @
       [\<lparr>p_name = ''firmware'', p_offset = k, p_size = usub 64 (off + sz) k\<rparr>,
        \<lparr>p_name = ''kernel'', p_offset = k, p_size = usub 64 u k\<rparr>,
        \<lparr>p_name = ''ubi'', p_offset = u, p_size = usub 64 (off + sz) u\<rparr>])"
    if "start \<le> k" "k + mtd_erasesize m \<le> u" "u < off + sz" for k u
  proof -
    have w: "k < 2 ^ 64" "u < 2 ^ 64" using that big by linarith+
    have c: "off \<le> c \<and> c + mtd_erasesize m \<le> k \<and> usub 64 k c = k - c" if "cfe = Some c" for c
      using s(2) [OF that] \<open>start \<le> k\<close> w(1) by (auto simp: usub_le)
    show ?thesis using that s(1) big w c unfolding wfi_parts_ok_def
      by (intro exI [of _ "case cfe of None \<Rightarrow> [] | Some c \<Rightarrow> [\<lparr>p_name = ''cferam'', p_offset = c, p_size = k - c\<rparr>]"]
          exI [of _ k] exI [of _ u]) (auto simp: usub_le split: option.split)
  qed
  show ?thesis unfolding wfi_from_kernel_def jffs2_find_file_def ubifs_find_def holds_simps
  proof (rule jffs2_find_from_ok [OF m], goal_cases)
    case (1 k nm)
    show ?case unfolding prod.case Let_def holds_simps
      using 1 by (intro holds_partial [OF ubifs_find_from_ok [OF m]]) (auto intro!: parts holds_intros)
  qed
qed

lemma parse_bcm_wfi_ok:
  assumes "mtd_ok m" "off + sz \<le> mtd_size m"
  shows "holds False (parse_bcm_wfi E m off sz cfe_part) (wfi_parts_ok m off (off + sz))"
proof (cases cfe_part)
  case True
  show ?thesis unfolding parse_bcm_wfi_def Let_def if_P [OF True] holds_simps jffs2_find_file_def
  proof (rule jffs2_find_from_ok [OF assms(1)], goal_cases)
    case (1 c nm)
    then show ?case unfolding prod.case by (intro wfi_from_kernel_ok [OF assms]) auto
  qed
next
  case False
  show ?thesis unfolding parse_bcm_wfi_def Let_def if_not_P [OF False] by (rule wfi_from_kernel_ok [OF assms]) simp_all
qed

text \<open>The two-slot parsers, with the slot of the larger boot flag parsed.\<close>

lemma parse_slots_ok:
  assumes "mtd_ok m"
  defines "half \<equiv> mtd_size m div 2"
  shows "holds False (parse_slots E m bf1 bf2 cfe_part) (\<lambda>ps. \<exists>qs.
    if bf1 \<ge> bf2 then wfi_parts_ok m 0 half qs \<and> ps = qs @ [\<lparr>p_name = ''img2'', p_offset = half, p_size = mtd_size m - half\<rparr>]
    else wfi_parts_ok m half (mtd_size m) qs \<and> ps = qs @ [\<lparr>p_name = ''img1'', p_offset = 0, p_size = half\<rparr>])"
proof -
  have add: "holds False (add_inactive m r n a b) (\<lambda>ps. \<exists>qs. Q qs \<and> ps = qs @ [\<lparr>p_name = n, p_offset = a, p_size = b\<rparr>])"
    if "holds False r Q" for r n a b Q
    using that by (auto simp: add_inactive_def holds_def fail_def ok_def split: option.splits sum.splits)
  have "holds False (parse_bcm_wfi E m 0 half cfe_part) (wfi_parts_ok m 0 half)"
    "holds False (parse_bcm_wfi E m half (mtd_size m - half) cfe_part) (wfi_parts_ok m half (mtd_size m))"
    using parse_bcm_wfi_ok [OF assms(1), of 0 half E cfe_part]
      parse_bcm_wfi_ok [OF assms(1), of half "mtd_size m - half" E cfe_part] by (auto simp: half_def)
  from add [OF this(1), of "''img2''" half "mtd_size m - half"] add [OF this(2), of "''img1''" 0 half]
  show ?thesis by (simp add: parse_slots_def half_def Let_def)
qed

text \<open>When no image is found in the chosen slot, the partitions of the two slots are stored but not reported.\<close>

lemma parse_slots_fallback_lost:
  assumes "parse_bcm_wfi E m 0 (mtd_size m div 2) cfe_part = fail e" "bf1 \<ge> bf2" "alloc m 2"
  shows "parse_slots E m bf1 bf2 cfe_part = fail e"
  using assms by (simp add: parse_slots_def add_inactive_def Let_def) (simp add: fail_def)

subsection \<open>MSTC slots and image tags\<close>

text \<open>An active MSTC slot without child nodes is split like an image, or is only a root filesystem.\<close>

lemma mstc_image_ok:
  assumes m: "mtd_ok m"
  shows "holds True (mstcboot_parse_image_parts m) (\<lambda>ps. parts_ok m ps \<or>
    (\<exists>off t. ps = [\<lparr>p_name = rootfs_name t, p_offset = off, p_size = mtd_size m - off\<rparr>] \<and> off + 4 \<le> mtd_size m))"
  unfolding mstcboot_parse_image_parts_def holds_simps Let_def
proof (rule holds_read [OF m], rule holds_find [OF m], goal_cases)
  case (1 buf off t)
  then show ?case using m by (auto simp: rest_size parts_ok_def)
qed

lemma mstc_inactive:
  assumes "mstcboot_is_active np = Inr (False, n)" "children np = []"
  shows "mtdsplit_mstcboot_parse np m = fail 0"
  using assms by (simp add: mtdsplit_mstcboot_parse_def)

lemma mstc_fixed_names:
  "mstc_fixed_loop m active n cs = ok ps \<Longrightarrow> length ps = length cs \<and>
     (\<forall>i < length cs. \<exists>name. label_base (cs ! i) = Inr name \<and> p_name (ps ! i) = (if active then name else name @ dec_nat n))"
proof (induction cs arbitrary: ps)
  case (Cons c cs)
  obtain off sz name where c: "child_reg c = Inr (off, sz)" "label_base c = Inr name"
    using Cons.prems by (auto split: if_splits sum.splits)
  then obtain qs where qs: "mstc_fixed_loop m active n cs = ok qs"
      "ps = \<lparr>p_name = (if active then name else name @ dec_nat n), p_offset = off, p_size = sz\<rparr> # qs"
    using Cons.prems by (auto simp: andthen_def ok_def fail_def split: if_splits option.splits sum.splits)
  then show ?case using Cons.IH [OF qs(1)] c by (auto simp: nth_Cons split: nat.split)
qed simp

lemma bcm63xx_ends:
  assumes "0 < mtd_erasesize m"
  shows "mtdsplit_parse_bcm63xx T nand m \<noteq> None"
proof -
  have parts: "bcm63xx_parse_partitions T m hdr \<noteq> None" for hdr
    by (simp add: bcm63xx_parse_partitions_def fail_def ok_def Let_def split: option.splits)
  have "bcm63xx_scan T m off \<noteq> None" for off
  proof (induction "mtd_size m - off" arbitrary: off rule: less_induct)
    case less
    have ih: "bcm63xx_scan T m (off + mtd_erasesize m) \<noteq> None" if "off < mtd_size m"
      using that assms by (intro less) linarith
    then show ?case using parts by (subst bcm63xx_scan.simps) (auto simp: fail_def split: sum.split)
  qed
  then show ?thesis by (simp add: mtdsplit_parse_bcm63xx_def fail_def)
qed

subsection \<open>FIT images\<close>

text \<open>
  The kernel partition of an embedded FIT image is rounded up to an erase block, but its rootfs may start right behind
  the image: the layout is sound when the image and its offset fill whole blocks.
\<close>

lemma fit_embedded_layout:
  assumes m: "mtd_ok m" and s: "offset + fit_size + offset_start < 2 ^ 32" "mtd_erasesize m dvd fit_size + offset_start"
  shows "holds True (fit_embedded m offset_start offset fit_size) (parts_ok m)"
proof -
  have w: "mtd_size m < 2 ^ 32" "0 < mtd_erasesize m" using m by (auto simp: mtd_ok_def)
  have t: "to_size_t m (offset + fit_size + offset_start) = offset + fit_size + offset_start"
    "to_size_t m (fit_size + offset_start) = fit_size + offset_start" using s(1) by (simp_all add: size_t_small [OF m])
  have up: "mtd_roundup_to_eb (fit_size + offset_start) (mtd_erasesize m) = fit_size + offset_start"
    using s(2) by (simp add: mtd_roundup_to_eb_def)
  show ?thesis unfolding fit_embedded_def holds_simps t up
    by (rule holds_find [OF m]) (use m w in \<open>auto simp: rest_size size_t_small\<close>)
qed

lemma fit_overlap:
  "fit_embedded (flash 0x200000 0x80000 [(0x80004, [0x68, 0x73, 0x71, 0x73])]) 0 0 0x80004 =
     ok (two_parts ''kernel'' 0 0x100000 ''rootfs'' 0x80004 (0x200000 - 0x80004))"
  by (simp add: fit_embedded_def to_size_t_def the_limit_def mtd_find_rootfs_from.simps [of _ "0x80004"] usub_le
      mtd_check_rootfs_magic_def segment_fields rootfs_name_def mtd_roundup_to_eb_def)

subsection \<open>Properties\<close>

text \<open>
  C34. The parser of two-slot Broadcom images reads the boot flag of the CFE RAM file in each half of the flash and splits
  the half with the larger flag (the first one when they are equal): a CFE RAM region, the firmware up to the end of the
  half, and inside it the kernel and the UBI volume, which follow each other without a gap, each at least an erase block
  behind the one before; the other half is one more partition.
\<close>

theorem wfi_split_layout:
  assumes "mtd_ok m" "mtdsplit_parse_bcm_wfi_split E m = ok ps"
  shows "\<exists>half cfe1 cfe2 bf1 bf2 qs. half = mtd_size m div 2 \<and>
    found_name (jffs2_find_file E m (chars ''cferam'') 0 (int half)) = Some cfe1 \<and> cferam_bootflag_value cfe1 = Some bf1 \<and>
    found_name (jffs2_find_file E m (chars ''cferam'') half (int (mtd_size m - half))) = Some cfe2 \<and>
    cferam_bootflag_value cfe2 = Some bf2 \<and>
    (if bf1 \<ge> bf2 then wfi_parts_ok m 0 half qs \<and> ps = qs @ [\<lparr>p_name = ''img2'', p_offset = half, p_size = mtd_size m - half\<rparr>]
     else wfi_parts_ok m half (mtd_size m) qs \<and> ps = qs @ [\<lparr>p_name = ''img1'', p_offset = 0, p_size = half\<rparr>])"
proof -
  let ?half = "mtd_size m div 2"
  obtain cfe1 cfe2 bf1 bf2 where flags:
      "found_name (jffs2_find_file E m (chars ''cferam'') 0 (int ?half)) = Some cfe1" "cferam_bootflag_value cfe1 = Some bf1"
      "found_name (jffs2_find_file E m (chars ''cferam'') ?half (int (mtd_size m - ?half))) = Some cfe2"
      "cferam_bootflag_value cfe2 = Some bf2" "parse_slots E m bf1 bf2 True = ok ps"
    using assms(2) unfolding mtdsplit_parse_bcm_wfi_split_def Let_def
    by (auto simp: ok_def fail_def split: if_splits option.splits)
  from holds_okD [OF parse_slots_ok [OF assms(1)] flags(5)] flags(1-4) show ?thesis by blast
qed

text \<open>A JFFS2 directory entry with its name, little endian, with the checksums 0.\<close>

definition dirent :: "string \<Rightarrow> nat list" where
  "dirent name = [0x85, 0x19, 0x01, 0xE0, 40 + length name, 0, 0, 0, 0, 0, 0, 0, 0, 0, 0, 0, 0, 0, 0, 0, 1, 0, 0, 0,
     0, 0, 0, 0, length name, 0, 0, 0, 0, 0, 0, 0, 0, 0, 0, 0] @ chars name"

definition demo_wfi_img :: "(nat \<times> nat list) list" where
  "demo_wfi_img = [(0, dirent ''1-openwrt''), (52, dirent ''cferam.001''), (1024, dirent ''1-openwrt''),
     (1076, dirent ''vmlinux.lz''), (2048, [0x55, 0x42, 0x49, 0x23])]"

definition demo_wfi_env :: wfi_env where
  "demo_wfi_env = \<lparr>cferam_prop = None, no_cferam = False, wfi_node = True, bootflag1 = None, bootflag2 = None, crc32 = (\<lambda>_. 0)\<rparr>"

abbreviation (input) demo_wfi :: mtd_info where
  "demo_wfi \<equiv> flash 8192 1024 demo_wfi_img"

lemma drop_segment: "i \<le> len \<Longrightarrow> drop i (segment img off len) = segment img (off + i) (len - i)"
  by (simp add: segment_def drop_map drop_upt)

lemma take_segment: "n \<le> len \<Longrightarrow> take n (segment img off len) = segment img off n"
  by (simp add: segment_def take_map take_upt)

lemma memcmp_segment: "length s = n \<Longrightarrow> n \<le> len \<Longrightarrow> memcmp_eq (segment img a len) s = Some (segment img a n = s)"
  by (simp add: memcmp_eq_def take_segment)

lemma chars_length: "length (chars s) = length s"
  by (simp add: chars_def)

lemma demo_nodes:
  "segment demo_wfi_img 40 9 = chars ''1-openwrt''" "segment demo_wfi_img 1064 9 = chars ''1-openwrt''"
  "segment demo_wfi_img 92 6 = chars ''cferam''" "segment demo_wfi_img 92 5 = chars ''cfera''"
  "segment demo_wfi_img 1116 10 = chars ''vmlinux.lz''" "segment demo_wfi_img 92 10 = chars ''cferam.001''"
  "segment demo_wfi_img 92 9 \<noteq> chars ''1-openwrt''" "segment demo_wfi_img 1116 9 \<noteq> chars ''1-openwrt''"
  by (simp_all add: segment_def upt_conv_Cons demo_wfi_img_def dirent_def chars_def)

lemma demo_memcmp:
  "memcmp_eq (segment demo_wfi_img 40 984) (chars ''1-openwrt'') = Some True"
  "memcmp_eq (segment demo_wfi_img 1064 984) (chars ''1-openwrt'') = Some True"
  "memcmp_eq (segment demo_wfi_img 92 932) (chars ''1-openwrt'') = Some False"
  "memcmp_eq (segment demo_wfi_img 1116 932) (chars ''1-openwrt'') = Some False"
  "memcmp_eq (segment demo_wfi_img 92 932) (chars ''cferam'') = Some True"
  "memcmp_eq (segment demo_wfi_img 92 932) (chars ''cfera'') = Some True"
  "memcmp_eq (segment demo_wfi_img 1116 932) (chars ''vmlinux.lz'') = Some True"
  using memcmp_segment [of "chars ''1-openwrt''" 9] memcmp_segment [of "chars ''cferam''" 6] memcmp_segment [of "chars ''cfera''" 5]
    memcmp_segment [of "chars ''vmlinux.lz''" 10] demo_nodes
  by (simp_all add: chars_length)

lemma dirent_simps:
  "length (dirent n) = 40 + length n" "dirent n ! 0 = 0x85" "dirent n ! 1 = 0x19" "dirent n ! Suc 0 = 0x19" "dirent n ! 2 = 1"
  "dirent n ! Suc (Suc 0) = 1" "dirent n ! Suc (Suc (Suc 0)) = 0xE0"
  "dirent n ! 3 = 0xE0" "dirent n ! 4 = 40 + length n" "dirent n ! 5 = 0" "dirent n ! 6 = 0" "dirent n ! 7 = 0"
  "dirent n ! 20 = 1" "dirent n ! 21 = 0" "dirent n ! 22 = 0" "dirent n ! 23 = 0" "dirent n ! 28 = length n"
  "dirent n ! 32 = 0" "dirent n ! 33 = 0" "dirent n ! 34 = 0" "dirent n ! 35 = 0"
  by (simp_all add: dirent_def chars_def nth_append numeral_2_eq_2 numeral_3_eq_3)

lemma demo_dirent:
  assumes "a = 0 \<and> d = 49 \<or> a = 52 \<and> d = 50 \<or> a = 1024 \<and> d = 49 \<or> a = 1076 \<and> d = 50" "60 \<le> len"
  shows "jffs2_dirent_valid demo_wfi_env demo_wfi (segment demo_wfi_img a len) = Some True"
    "cpu demo_wfi (segment demo_wfi_img a len) 4 4 = d" "byte_at (segment demo_wfi_img a len) 28 = d - 40"
proof -
  have crc: "jffs2_dirent_crc demo_wfi_env n = 0" for n by (simp add: jffs2_dirent_crc_def demo_wfi_env_def)
  show "jffs2_dirent_valid demo_wfi_env demo_wfi (segment demo_wfi_img a len) = Some True"
    using assms(1) by (elim disjE) (use assms(2) in \<open>simp_all add: jffs2_dirent_valid_def segment_fields demo_wfi_img_def
        dirent_simps crc\<close>)
  show "cpu demo_wfi (segment demo_wfi_img a len) 4 4 = d" "byte_at (segment demo_wfi_img a len) 28 = d - 40"
    using assms(1) by (elim disjE; use assms(2) in \<open>simp add: segment_fields demo_wfi_img_def dirent_simps\<close>)+
qed

lemma demo_first:
  assumes "a = 0 \<or> a = 1024"
  shows "jffs2_node_step demo_wfi_env demo_wfi (segment demo_wfi_img a 1024) name 0 valid = Some (Inl (52, True))"
  using assms demo_dirent [of a 49 1024] demo_memcmp(1,2)
  by (auto simp: jffs2_node_step_def drop_segment Let_def)

lemma demo_name:
  "node_name (segment demo_wfi_img 52 972) = Some (Found (chars ''cferam.001'') 10)"
  "node_name (segment demo_wfi_img 1076 972) = Some (Found (chars ''vmlinux.lz'') 10)"
  using demo_dirent(3) [of 52 50 972] demo_dirent(3) [of 1076 50 972]
  by (simp_all add: node_name_def drop_segment take_segment demo_nodes) (simp_all add: chars_def)

lemma demo_second:
  "jffs2_node_step demo_wfi_env demo_wfi (segment demo_wfi_img 0 1024) (chars ''cferam'') 52 True = Some (Inr (Found (chars ''cferam.001'') 10))"
  "jffs2_node_step demo_wfi_env demo_wfi (segment demo_wfi_img 0 1024) (chars ''cfera'') 52 True = Some (Inr (Found (chars ''cferam.001'') 10))"
  "jffs2_node_step demo_wfi_env demo_wfi (segment demo_wfi_img 1024 1024) (chars ''vmlinux.lz'') 52 True = Some (Inr (Found (chars ''vmlinux.lz'') 10))"
  using demo_dirent [of 52 50 972] demo_dirent [of 1076 50 972] demo_name demo_memcmp(3-7)
  by (simp_all add: jffs2_node_step_def drop_segment Let_def)

lemma demo_blocks:
  "jffs2_block_loop demo_wfi_env demo_wfi (segment demo_wfi_img 0 1024) (chars ''cferam'') 0 False = Some (Found (chars ''cferam.001'') 10)"
  "jffs2_block_loop demo_wfi_env demo_wfi (segment demo_wfi_img 0 1024) (chars ''cfera'') 0 False = Some (Found (chars ''cferam.001'') 10)"
  "jffs2_block_loop demo_wfi_env demo_wfi (segment demo_wfi_img 1024 1024) (chars ''vmlinux.lz'') 0 False = Some (Found (chars ''vmlinux.lz'') 10)"
  by (subst jffs2_block_loop.simps, simp add: demo_first jffs2_block_loop.simps [where block_offs = 52] demo_second)+

lemma demo_magic:
  "cpu demo_wfi (segment demo_wfi_img 0 2) 0 2 = 0x1985" "cpu demo_wfi (segment demo_wfi_img 1024 2) 0 2 = 0x1985"
  "a \<in> {4096, 5120, 6144, 7168} \<Longrightarrow> cpu demo_wfi (segment demo_wfi_img a 2) 0 2 \<noteq> 0x1985"
  "be32 (segment demo_wfi_img 2048 4) 0 = 0x55424923"
  by (auto simp: segment_fields demo_wfi_img_def dirent_simps)

lemma demo_found:
  "jffs2_find_file demo_wfi_env demo_wfi (chars ''cferam'') 0 4096 = ok (0, chars ''cferam.001'', 10)"
  "jffs2_find_file demo_wfi_env demo_wfi (chars ''cfera'') 0 4096 = ok (0, chars ''cferam.001'', 10)"
  "jffs2_find_file demo_wfi_env demo_wfi (chars ''vmlinux.lz'') 1024 3072 = ok (1024, chars ''vmlinux.lz'', 10)"
  "ubifs_find demo_wfi 2048 2048 = ok 2048"
  by (simp add: jffs2_find_file_def jffs2_find_from.simps [where offs = 0] jffs2_find_from.simps [where offs = 1024]
      demo_magic demo_blocks ubifs_find_def ubifs_find_from.simps [where offs = 2048])+

lemma demo_skip:
  assumes "a \<in> {4096, 5120, 6144, 7168}"
  shows "jffs2_find_from E demo_wfi name 8192 a v = jffs2_find_from E demo_wfi name 8192 (a + 1024) v"
  using assms demo_magic(3) [OF assms] by (subst jffs2_find_from.simps) auto

lemma demo_not_found: "jffs2_find_file E demo_wfi name 4096 4096 = fail ENOENT"
  using demo_skip [of 4096 E name False] demo_skip [of 5120 E name False] demo_skip [of 6144 E name False]
    demo_skip [of 7168 E name False]
  by (simp add: jffs2_find_file_def jffs2_find_from.simps [where offs = 8192])

theorem wfi_split_layout_witness:
  "\<exists>qs. mtdsplit_parse_bcm_wfi_split demo_wfi_env demo_wfi = ok (qs @ [\<lparr>p_name = ''img2'', p_offset = 4096, p_size = 4096\<rparr>]) \<and>
     wfi_parts_ok demo_wfi 0 4096 qs"
proof -
  have m: "mtd_ok demo_wfi" by (rule flash_ok) simp_all
  have flags: "cferam_bootflag_value (Some (chars ''cferam.001'', 10)) = Some 1" "cferam_bootflag_value None = Some ENOENT"
    by (simp_all add: cferam_bootflag_value_def memcmp_eq_def chars_def flag_value_def char_to_num_def)
  have found: "found_name (jffs2_find_file demo_wfi_env demo_wfi (chars ''cferam'') 0 4096) = Some (Some (chars ''cferam.001'', 10))"
    "found_name (jffs2_find_file demo_wfi_env demo_wfi (chars ''cferam'') 4096 4096) = Some None"
    by (simp_all add: demo_found demo_not_found found_name_def) (simp_all add: ok_def fail_def)
  have key: "take (Suc (Suc (Suc (Suc (Suc 0))))) (chars ''cferam'') = chars ''cfera''" "cferam_prop demo_wfi_env = None"
    by (simp_all add: chars_def demo_wfi_env_def)
  have "\<exists>ps. parse_bcm_wfi demo_wfi_env demo_wfi 0 4096 True = ok ps"
    by (simp add: parse_bcm_wfi_def wfi_from_kernel_def key chars_length demo_found Let_def)
  then obtain ps where "parse_bcm_wfi demo_wfi_env demo_wfi 0 4096 True = ok ps" by blast
  then have "mtdsplit_parse_bcm_wfi_split demo_wfi_env demo_wfi = ok (ps @ [\<lparr>p_name = ''img2'', p_offset = 4096, p_size = 4096\<rparr>])"
    by (simp add: mtdsplit_parse_bcm_wfi_split_def found flags parse_slots_def add_inactive_def) (simp add: ok_def)
  moreover from wfi_split_layout [OF m this] found flags
  have "wfi_parts_ok demo_wfi 0 4096 ps" by simp
  ultimately show ?thesis by blast
qed

end
