(* ===== verification/MtdDispatch.thy ===== *)
theory MtdDispatch
  imports MtdImages
begin

text \<open>
  How the MTD core runs the splitters (the patch 400-mtd-mtdsplit-support.patch): the registered parsers of a type are
  tried in order until one finds partitions, which are then added to the parent of the split partition.
\<close>

subsection \<open>The registered parsers\<close>

datatype mtd_parser_type = MTD_PARSER_TYPE_DEVICE | MTD_PARSER_TYPE_ROOTFS | MTD_PARSER_TYPE_FIRMWARE

record mtd_part_parser =
  parser_name :: string
  parse_fn :: "mtd_info \<Rightarrow> mtd_partition list res"
  parser_type :: mtd_parser_type
  module_live :: bool

definition firmware_parser :: "string \<Rightarrow> (mtd_info \<Rightarrow> mtd_partition list res) \<Rightarrow> mtd_part_parser" where
  "firmware_parser name parse = \<lparr>parser_name = name, parse_fn = parse, parser_type = MTD_PARSER_TYPE_FIRMWARE, module_live = True\<rparr>"

definition mtdsplit_seama_parser where "mtdsplit_seama_parser = firmware_parser ''seama-fw'' mtdsplit_parse_seama"
definition mtdsplit_lzma_parser where "mtdsplit_lzma_parser = firmware_parser ''lzma-fw'' mtdsplit_parse_lzma"
definition mtdsplit_brnimage_parser where "mtdsplit_brnimage_parser = firmware_parser ''brnimage-fw'' mtdsplit_parse_brnimage"
definition mtdsplit_eva_parser where "mtdsplit_eva_parser = firmware_parser ''eva-fw'' mtdsplit_parse_eva"
definition mtdsplit_wrgg_parser where "mtdsplit_wrgg_parser = firmware_parser ''wrgg-fw'' mtdsplit_parse_wrgg"
definition mtdsplit_minor_parser where "mtdsplit_minor_parser = firmware_parser ''minor-fw'' mtdsplit_parse_minor"
definition mtdsplit_elf_parser where "mtdsplit_elf_parser = firmware_parser ''elf-loader-fw'' mtdsplit_parse_elf"
definition mtdsplit_h3c_vfs_parser where "mtdsplit_h3c_vfs_parser = firmware_parser ''h3c-vfs'' mtdsplit_h3c_vfs_parse"
definition mtdsplit_tplink_parser where "mtdsplit_tplink_parser = firmware_parser ''tplink-fw'' mtdsplit_parse_tplink"
definition trx_parser where "trx_parser = firmware_parser ''trx-fw'' mtdsplit_parse_trx"
definition uimage_generic_parser where "uimage_generic_parser = firmware_parser ''uimage-fw'' mtdsplit_parse_uimage"
definition jimage_generic_parser where "jimage_generic_parser = firmware_parser ''jimage-fw'' mtdsplit_jimage_parse_generic"

definition mtdsplit_squashfs_parser where
  "mtdsplit_squashfs_parser = (firmware_parser ''squashfs-split'' mtdsplit_parse_squashfs)\<lparr>parser_type := MTD_PARSER_TYPE_ROOTFS\<rparr>"

definition mtdsplit_cfe_bootfs_parser where
  "mtdsplit_cfe_bootfs_parser = (firmware_parser ''cfe-bootfs'' mtdsplit_cfe_bootfs_parse)\<lparr>parser_type := MTD_PARSER_TYPE_DEVICE\<rparr>"

definition mtdsplit_seil_fw_parser where
  "mtdsplit_seil_fw_parser env = firmware_parser ''seil-fw'' (mtdsplit_parse_seil_fw env)"

definition mtdsplit_owrt_prolog_parser where
  "mtdsplit_owrt_prolog_parser kstrtol = firmware_parser ''executable-prolog'' (mtdsplit_parse_owrt_prolog kstrtol)"

definition mtdsplit_bcm63xx_parser where
  "mtdsplit_bcm63xx_parser T nand = firmware_parser ''bcm63xx-fw'' (mtdsplit_parse_bcm63xx T nand)"

definition mtdsplit_mstcboot_parser where
  "mtdsplit_mstcboot_parser np = firmware_parser ''mstc-boot'' (mtdsplit_mstcboot_parse np)"

definition mtdsplit_bcm_wfi_parser where
  "mtdsplit_bcm_wfi_parser E = firmware_parser ''bcm-wfi-fw'' (mtdsplit_parse_bcm_wfi E)"

definition mtdsplit_bcm_wfi_split_parser where
  "mtdsplit_bcm_wfi_split_parser E = firmware_parser ''bcm-wfi-split-fw'' (mtdsplit_parse_bcm_wfi_split E)"

definition mtdsplit_ser_wfi_parser where
  "mtdsplit_ser_wfi_parser E = firmware_parser ''ser-wfi-fw''
     (\<lambda>m. case mtdsplit_parse_ser_wfi E m of None \<Rightarrow> None | Some (parts, _) \<Rightarrow> parts)"

definition fit_parser where
  "fit_parser E = firmware_parser ''fit-fw'' (mtdsplit_fit_parse E)"

subsection \<open>The core's loop over the parsers\<close>

fun get_partition_parser_by_type :: "mtd_parser_type \<Rightarrow> mtd_part_parser list \<Rightarrow> (mtd_part_parser \<times> mtd_part_parser list) option" where
  "get_partition_parser_by_type type [] = None"
| "get_partition_parser_by_type type (p # ps) =
    (if parser_type p = type \<and> module_live p then Some (p, ps) else get_partition_parser_by_type type ps)"

lemma get_parser_shorter: "get_partition_parser_by_type type ps = Some (p, rest) \<Longrightarrow> length rest < length ps"
  by (induction ps) (auto split: if_splits)

lemma get_parser_sub: "get_partition_parser_by_type type ps = Some (p, rest) \<Longrightarrow> p \<in> set ps \<and> set rest \<subseteq> set ps"
  by (induction ps) (auto split: if_splits)

text \<open>The list argument holds the parsers behind the previous one; ret is the value of the last call.\<close>

function parse_from :: "mtd_part_parser list \<Rightarrow> mtd_parser_type \<Rightarrow> mtd_info \<Rightarrow> int \<Rightarrow> mtd_partition list res" where
  "parse_from reg type m ret = (case get_partition_parser_by_type type reg of
     None \<Rightarrow> fail ret
   | Some (p, rest) \<Rightarrow> (case parse_fn p m of
       None \<Rightarrow> None
     | Some (Inr parts) \<Rightarrow> ok parts
     | Some (Inl e) \<Rightarrow> parse_from rest type m e))"
  by pat_completeness auto
termination
  by (relation "measure (\<lambda>(reg, _). length reg)") (auto simp: get_parser_shorter)

declare parse_from.simps [simp del]

definition parse_mtd_partitions_by_type :: "mtd_part_parser list \<Rightarrow> mtd_parser_type \<Rightarrow> mtd_info \<Rightarrow> mtd_partition list res" where
  "parse_mtd_partitions_by_type reg type m = parse_from reg type m 0"

text \<open>The value returned and the calls of mtd_add_partition on the parent.\<close>

definition run_parsers_by_type :: "mtd_part_parser list \<Rightarrow> mtd_parser_type \<Rightarrow> mtd_info \<Rightarrow> (int \<times> mtd_partition list) option" where
  "run_parsers_by_type reg type child = (case parse_mtd_partitions_by_type reg type child of
     None \<Rightarrow> None
   | Some (Inl e) \<Rightarrow> Some (e, [])
   | Some (Inr parts) \<Rightarrow>
       Some (int (length parts), map (\<lambda>p. p\<lparr>p_offset := (p_offset p + part_offset child) mod 2 ^ 64\<rparr>) parts))"

subsection \<open>A registry of splitters is a splitter\<close>

locale registry =
  fixes dev :: "mtd_info \<Rightarrow> bool" and reg :: "mtd_part_parser list"
  assumes member: "p \<in> set reg \<Longrightarrow> total_splitter dev (parse_fn p)"
begin

lemma parse_from_ok:
  assumes "dev m" "set ps \<subseteq> set reg"
  shows "holds True (parse_from ps type m ret) (parts_ok m)"
  using assms
proof (induction ps type m ret rule: parse_from.induct)
  case (1 ps type m ret)
  show ?case
  proof (cases "get_partition_parser_by_type type ps")
    case None
    then show ?thesis by (simp add: parse_from.simps [of ps])
  next
    case (Some x)
    then obtain p rest where x: "get_partition_parser_by_type type ps = Some (p, rest)" by (cases x) auto
    then have sub: "p \<in> set reg" "set rest \<subseteq> set reg" using get_parser_sub [OF x] "1.prems"(2) by auto
    then have p: "holds True (parse_fn p m) (parts_ok m)" using member "1.prems"(1) by (auto simp: total_splitter_def)
    show ?thesis
    proof (cases "parse_fn p m")
      case None
      then show ?thesis using p by simp
    next
      case (Some r)
      then show ?thesis using p sub "1.prems"(1) "1.IH" [OF x refl] x
        by (cases r) (auto simp: parse_from.simps [of ps] holds_def ok_def)
    qed
  qed
qed

lemma by_type_ok: "total_splitter dev (parse_mtd_partitions_by_type reg type)"
  using parse_from_ok by unfold_locales (simp add: parse_mtd_partitions_by_type_def)

lemma run_ok:
  assumes m: "dev child" and top: "part_offset child + mtd_size child < 2 ^ 64"
  shows "\<exists>n adds. run_parsers_by_type reg type child = Some (n, adds) \<and>
    (adds = [] \<or> (\<exists>a b. adds = [a, b] \<and> n = 2 \<and> part_offset child \<le> p_offset a \<and>
      p_offset a + p_size a \<le> p_offset b \<and> p_offset b + p_size b \<le> part_offset child + mtd_size child))"
proof -
  have h: "holds True (parse_mtd_partitions_by_type reg type child) (parts_ok child)"
    using by_type_ok m by (simp add: total_splitter_def)
  show ?thesis
    using holds_total [OF h]
  proof
    assume "\<exists>ps. parse_mtd_partitions_by_type reg type child = ok ps \<and> parts_ok child ps"
    then obtain ps where ps: "parse_mtd_partitions_by_type reg type child = ok ps" "parts_ok child ps" by auto
    then obtain a b where ab: "ps = [a, b]" "p_offset a + p_size a \<le> p_offset b" "p_offset b + p_size b \<le> mtd_size child"
      by (auto simp: parts_ok_def split: list.splits)
    then have "p_offset a + part_offset child < 2 ^ 64" "p_offset b + part_offset child < 2 ^ 64" using top by linarith+
    then show ?thesis using ab ps(1) by (simp add: run_parsers_by_type_def ok_def)
  qed (auto simp: run_parsers_by_type_def fail_def)
qed

end

text \<open>The parsers that keep the contract for every size_t, and those that need 64 bits.\<close>

definition portable_parsers :: "mtd_part_parser list" where
  "portable_parsers = [mtdsplit_lzma_parser, mtdsplit_brnimage_parser, mtdsplit_wrgg_parser, mtdsplit_minor_parser,
     mtdsplit_elf_parser, mtdsplit_h3c_vfs_parser]"

definition wide_parsers :: "mtd_part_parser list" where
  "wide_parsers = [mtdsplit_seama_parser, mtdsplit_eva_parser]"

lemmas parser_defs = firmware_parser_def mtdsplit_seama_parser_def mtdsplit_lzma_parser_def mtdsplit_brnimage_parser_def
  mtdsplit_eva_parser_def mtdsplit_wrgg_parser_def mtdsplit_minor_parser_def mtdsplit_elf_parser_def
  mtdsplit_h3c_vfs_parser_def

lemma portable_ok: "p \<in> set portable_parsers \<Longrightarrow> total_splitter mtd_ok (parse_fn p)"
  using lzma.total_splitter_axioms brnimage.total_splitter_axioms
    wrgg.total_splitter_axioms minor.total_splitter_axioms elf.total_splitter_axioms h3c_vfs.total_splitter_axioms
  by (auto simp: portable_parsers_def parser_defs)

lemma wide_ok: "p \<in> set wide_parsers \<Longrightarrow> total_splitter mtd_ok64 (parse_fn p)"
  using seama.total_splitter_axioms eva.total_splitter_axioms by (auto simp: wide_parsers_def parser_defs)

lemma portable_ok64: "p \<in> set portable_parsers \<Longrightarrow> total_splitter mtd_ok64 (parse_fn p)"
  using portable_ok [of p] by (simp add: total_splitter_def mtd_ok64_def)

interpretation portable: registry mtd_ok portable_parsers
  by (rule registry.intro) (rule portable_ok)

interpretation firmware: registry mtd_ok64 "wide_parsers @ portable_parsers"
  by (rule registry.intro) (auto intro: wide_ok portable_ok64)

lemma registry_portable: "set reg \<subseteq> set portable_parsers \<Longrightarrow> registry mtd_ok reg"
  by (rule registry.intro) (auto intro: portable_ok)

lemma registry_wide: "set reg \<subseteq> set (wide_parsers @ portable_parsers) \<Longrightarrow> registry mtd_ok64 reg"
  by (rule registry.intro) (auto intro: wide_ok portable_ok64)

subsection \<open>Properties\<close>

text \<open>
  C29. Whatever a firmware partition of a well-formed device holds, on a machine with a 32-bit or a 64-bit size_t, running
  any registry of the lzma, brnimage, wrgg, minor, elf and h3c-vfs splitters on it ends, and either adds nothing or adds
  exactly two partitions to the parent device: disjoint, in order, and inside the region of the partition that was split.
  With a 64-bit size_t the seama and eva splitters may be among them; with 32 bits they may not, because their lengths wrap
  (\<open>seama_wraps\<close>, \<open>eva_wraps\<close>).
\<close>

theorem run_parsers_inside:
  assumes "mtd_ok child" "set reg \<subseteq> set (if size_bits child = 64 then wide_parsers @ portable_parsers else portable_parsers)"
    "part_offset child + mtd_size child < 2 ^ 64"
  shows "\<exists>n adds. run_parsers_by_type reg type child = Some (n, adds) \<and>
    (adds = [] \<or> (\<exists>a b. adds = [a, b] \<and> n = 2 \<and> part_offset child \<le> p_offset a \<and>
      p_offset a + p_size a \<le> p_offset b \<and> p_offset b + p_size b \<le> part_offset child + mtd_size child))"
proof (cases "size_bits child = 64")
  case True
  then have "set reg \<subseteq> set (wide_parsers @ portable_parsers)" "mtd_ok64 child" using assms(1,2) by (simp_all add: mtd_ok64_def)
  from registry_wide [OF this(1)] this(2) show ?thesis using assms(3) by (rule registry.run_ok)
next
  case False
  then have "set reg \<subseteq> set portable_parsers" using assms(2) by simp
  from registry_portable [OF this] show ?thesis using assms(1,3) by (rule registry.run_ok)
qed

theorem run_parsers_inside_witness:
  "\<exists>child a b. run_parsers_by_type (wide_parsers @ portable_parsers) MTD_PARSER_TYPE_FIRMWARE child = Some (2, [a, b]) \<and>
     part_offset child = 0x200000 \<and> mtd_size child = 0x100000 \<and>
     0x200000 \<le> p_offset a \<and> p_offset a + p_size a \<le> p_offset b \<and> p_offset b + p_size b \<le> 0x300000"
proof -
  let ?flash = "flash 0x100000 0x80000 [(0, [0x5E, 0xA3, 0xA4, 0x17]), (8, [0, 0, 0xff, 0xe4]), (0x10000, [0x68, 0x73, 0x71, 0x73])]"
  let ?child = "?flash\<lparr>part_offset := 0x200000\<rparr>"
  have m: "mtd_ok ?child" using flash_ok [of "0x80000" "0x100000"] by (simp add: mtd_ok_def reads_ok_def)
  have get: "get_partition_parser_by_type MTD_PARSER_TYPE_FIRMWARE (wide_parsers @ portable_parsers) = Some (mtdsplit_seama_parser, tl (wide_parsers @ portable_parsers))"
    by (simp add: wide_parsers_def parser_defs)
  have be16: "be16 (segment img 0 28) 6 = 256 * flash_byte img 6 + flash_byte img 7" for img
    using segment_short(2) [of img 6] by (simp add: be16_def fld_segment be_val_def)
  have "\<exists>p q. mtdsplit_parse_seama ?child = ok [p, q]"
    by (simp add: mtdsplit_parse_seama_def read_exact_def segment_fields be16 to_size_t_def mtd_check_rootfs_magic_def
        two_parts_def)
  then obtain p q where "mtdsplit_parse_seama ?child = ok [p, q]" by blast
  then have parse: "parse_mtd_partitions_by_type (wide_parsers @ portable_parsers) MTD_PARSER_TYPE_FIRMWARE ?child = ok [p, q]"
    by (simp add: parse_mtd_partitions_by_type_def parse_from.simps [of "wide_parsers @ portable_parsers"] get parser_defs ok_def)
  show ?thesis
    using run_parsers_inside [OF m, of "wide_parsers @ portable_parsers" MTD_PARSER_TYPE_FIRMWARE] parse
    by (intro exI [of _ ?child]) (auto simp: run_parsers_by_type_def ok_def)
qed

end
