(* ===== verification/Spec2Isabelle.thy ===== *)
theory Spec2Isabelle
  imports NeonUci NeonProcd NeonProcdUbus Nvram BmtV2 Nmbm OwIpcalc Po2lmo MtdDispatch
begin

text \<open>
  A verification library for NeonWrt, a router distribution derived from OpenWrt in which systemd takes the
  place of procd. What the repository adds of its own are three C programs that connect the OpenWrt
  configuration and service interfaces to systemd. They are modelled completely, together with five
  components of the inherited code: the variable store of Broadcom devices, the bad block tables of MediaTek
  flash, the partition parsers of firmware images, the IP calculator and the translation catalogues of the web
  interface.

  \<^bold>\<open>The program and its parts.\<close>

  \<^item> \<open>neon-uci\<close> (src/package/system/neon-uci/src/neon-uci.c; theory \<open>NeonUci\<close>). Reads the manifests of
    translators, runs the handler of every enabled translator whose UCI packages changed, then the systemd
    action the manifest asks for; in daemon mode it watches the configuration directory with inotify and
    batches the changes. State: the list of loaded translators (\<open>translator\<close>), the pending batch
    (\<open>watch_state\<close>); operations \<open>parse_manifest\<close>, \<open>load_translators\<close>, \<open>apply_translators\<close>, \<open>watch_loop\<close>,
    \<open>check_configuration\<close>, \<open>uci_query\<close>, \<open>set_kernel_hostname\<close> and \<open>uci_main\<close>.

  \<^item> \<open>neon-procd\<close> (src/package/system/neon-procd/src/neon-procd.c; theory \<open>NeonProcd\<close>). One command per process:
    registers a service definition, starts its instances as transient units with \<open>systemd-run\<close>, stops, lists
    and signals them, and runs the triggers of registered services for an event. State: the registry of JSON
    files (\<open>pd_world\<close>); operations \<open>cmd_set\<close>, \<open>cmd_delete\<close>, \<open>cmd_running\<close>, \<open>cmd_status\<close>, \<open>cmd_list_json\<close>,
    \<open>cmd_delete_json\<close>, \<open>cmd_signal_json\<close>, \<open>cmd_event\<close> and \<open>pd_main\<close>.

  \<^item> \<open>neon-procd-ubus\<close> (src/package/system/neon-procd/src/neon-procd-ubus.c; theories \<open>PipeIO\<close> for the pipes and
    \<open>NeonProcdUbus\<close>). Offers the ubus objects \<open>service\<close> and \<open>system\<close>; every service request is fed to a
    \<open>neon-procd\<close> child through a pipe, and every ubus event becomes a \<open>neon-procd event\<close> request.

  \<^item> \<open>nvram\<close> (src/package/utils/nvram/src/nvram.c, crc.c, cli.c, nvram.h; theory \<open>Nvram\<close>). A hash table of
    variables parsed from an image in flash, written back with a checksum, and its command line with a staging
    file. State: \<open>nvram_handle\<close>; operations \<open>nvram_get\<close>, \<open>nvram_set\<close>, \<open>nvram_unset\<close>, \<open>nvram_getall\<close>,
    \<open>nvram_commit\<close>, \<open>nvram_open\<close>, \<open>cli_main\<close>.

  \<^item> \<open>mtk_bmt\<close> (src/target/linux/generic/files/drivers/mtd/nand/mtk_bmt.c, mtk_bmt.h, mtk_bmt_bbt.c: theory
    \<open>Bmt\<close>; mtk_bmt_v2.c: theory \<open>BmtV2\<close>; mtk_bmt_nmbm.c: theory \<open>Nmbm\<close>). A layer of the kernel that puts itself in place of a NAND driver's
    handlers and redirects each access to the block a table assigns (\<open>mtk_bmt_read\<close>, \<open>mtk_bmt_write\<close>,
    \<open>mtk_bmt_mtd_erase\<close>, \<open>mtk_bmt_block_isbad\<close>, \<open>mtk_bmt_block_markbad\<close>, \<open>mtk_bmt_attach\<close>, \<open>mtk_bmt_detach\<close>), with
    its three tables: one that skips the bad blocks of a range (\<open>bbt_state\<close>), one with a pool of spare blocks
    (\<open>v2_state\<close>), and one that keeps two copies of itself and a signature on the flash (\<open>nmbm\<close>; operations
    \<open>mtk_bmt_init_nmbm\<close>, \<open>remap_block_nmbm\<close>, \<open>unmap_block_nmbm\<close>, \<open>nmbm_update_info_table\<close>).

  \<^item> \<open>mtdsplit\<close> (src/target/linux/generic/files/drivers/mtd/mtdsplit and the MTD core's loop in
    pending-6.12/400-mtd-mtdsplit-support.patch; theories \<open>MtdSplit\<close>, \<open>MtdImages\<close> for the formats
    with boot slots or a device tree, and \<open>MtdDispatch\<close>). Twenty-two parsers of the kernel, one per firmware format
    (\<open>mtdsplit_parse_seama\<close>, \<open>mtdsplit_parse_uimage\<close> and so on), read the header of an image from a
    flash partition (\<open>mtd_info\<close>), look for a root filesystem (\<open>mtd_find_rootfs_from\<close>) and return the kernel and rootfs
    partitions (\<open>mtd_partition\<close>); the core tries them in turn and adds what one of them finds (\<open>run_parsers_by_type\<close>).

  \<^item> \<open>owipcalc\<close> (src/package/net/owipcalc/src/owipcalc.c, owipcalc.h, main.c; theory \<open>OwIpcalc\<close>). A calculator that
    network scripts call: a stack of IPv4 and IPv6 prefixes (\<open>cidr\<close>, \<open>calc\<close>) and one operation per argument
    (\<open>ops\<close>, \<open>runop\<close>, \<open>ipcalc_main\<close>).

  \<^item> \<open>lmo\<close> and \<open>po2lmo\<close> (src/package/luci/modules/luci-base/src/lib/lmo.c, lmo.h: theory \<open>Lmo\<close>; po2lmo.c: theory
    \<open>Po2lmo\<close>). Translations of the web interface: the converter turns a PO file into an archive of texts with an
    index sorted by the hashes of their keys (\<open>po2lmo_main\<close>, \<open>print_msg\<close>, \<open>extract_string\<close>); the library loads
    archives into catalogues (\<open>lmo_state\<close>), and finds a text by binary search (\<open>lmo_translate_ctxt\<close>,
    \<open>lmo_translate_plural_ctxt\<close>).

  \<^bold>\<open>Theories.\<close> \<open>CLib\<close> is the prelude: C strings, number formats, tokenisers and \<open>fgets\<close>, with their equations in
  the collection \<open>cstr_simps\<close>, length bounds in \<open>buf_bounds\<close>, and the locale \<open>trimmer\<close>, which both trimming
  functions of the programs interpret. \<open>Bytes\<close> holds numbers as bytes and as decimal text. \<open>JsonC\<close> is the interface of json-c. This theory holds the properties
  that span components. The interfaces stated as locales are \<open>trimmer\<close> (a trimming function), \<open>kv_store\<close> (a
  map of variables, interpreted by the hash table), \<open>block_mapping\<close> (a table that loses no block; the lemmas
  on reading and writing through the layer are proved from it) and its extension \<open>block_permutation\<close>,
  interpreted by the table of bad blocks, \<open>bytewise\<close> (a bitwise operation that works byte by byte,
  interpreted by conjunction and disjunction), \<open>splitter\<close> and its total form \<open>total_splitter\<close> (a parser whose layouts
  fit every flash of a class of devices; interpreted by ten of the partition parsers, for the devices of a 32-bit or
  64-bit \<open>size_t\<close>, \<open>mtd_ok\<close>, or of a 64-bit one only, \<open>mtd_ok64\<close>) and \<open>registry\<close> (a list of such parsers, from
  which the loop of the MTD core is shown to be one too).

  \<^bold>\<open>How code is modelled.\<close> Structures are records, errors are values, effects are a trace or a world passed
  along; every early return is a branch. The operating system, libuci, json-c, libubus, \<open>fnmatch\<close>, \<open>qsort\<close>, the
  parser that lemon generates for plural formulas, the flash drivers, libfdt and the device tree are not part of the repository: they are parameters (records of functions), and
  what a property relies on is a hypothesis of it, stated as a definition (\<open>jsonc_doc\<close>, \<open>fnmatch_doc\<close>,
  \<open>flash_driver\<close>, \<open>qsort_doc\<close>), with a concrete instance in the witness. Integers keep their width where it matters: words
  for checksums and header fields, explicit \<open>mod\<close> for the truncations of block numbers and sizes, \<open>as_u32\<close> and \<open>as_s32\<close> where a number
  changes between signed and unsigned. The programs and the flash layer
  are taken as compiled for LP64, the partition parsers for the width \<open>size_bits\<close> of the device, 32 or 64, the image of
  \<open>nvram\<close> and the tables of \<open>BmtV2\<close> and \<open>Nmbm\<close> as little endian. A file being written is a stream: what is put into it
  reaches the file in pieces the environment chooses, and may be lost. Memory
  allocation does not fail except where a branch of the model says so.

  \<^bold>\<open>Loops and fuel.\<close> Loops over data are structural or have a \<open>termination\<close> proof. Loops the environment may keep
  going are given the environment's answers as a list (\<open>watch_loop\<close>, \<open>write_all\<close>, \<open>read_loop\<close>: one step per
  answer), so that the list is exactly as long as the run; those of reading and writing the flash layer are \<open>drive\<close>, a partial function
  whose value \<open>None\<close> means that the loop does not end, and \<open>bbt_write_read\<close> proves that over sound flash it
  ends. The loop that stores the NMBM tables until nothing has changed is a function whose termination proof shows that each
  further round has found a new bad block. The scans of the partition parsers are partial functions too: \<open>None\<close> means that they do not end, and the
  total splitters are proved to end on every well-formed device. Other bounds are constants of the source (300 connection attempts, 10 retries, buffer sizes).

  \<^bold>\<open>What is shown.\<close>

  \<^item> Composition: a ubus event runs exactly the scripts of the matching triggers, through the callback, the pipe
    and the child process (\<open>ubus_event_runs_triggers\<close>).
  \<^item> \<open>NeonUci\<close>: what a pass may start and that it starts all of it; that no change reported by inotify is lost;
    the invariant of the pending batch; manifests read back as written; refinement of the textual list of
    packages to a list of names.
  \<^item> \<open>NeonProcd\<close>: the command line of \<open>systemd-run\<close>; the meaning of conditions and triggers; the registry is
    replaced by a file closed without an error; unit names, and how far their patterns reach.
  \<^item> \<open>NeonProcdUbus\<close>: requests and answers pass the pipes complete under any partial reads and writes; pipe
    ends and children are released; the life cycle of the daemon; parsers of the release and mount files.
  \<^item> \<open>Nvram\<close>: the table-driven checksum is the bitwise one; the hash table is a finite map; variables survive
    a commit and reopening; what the command line sets it reads.
  \<^item> \<open>Bmt\<close>, \<open>BmtV2\<close> and \<open>Nmbm\<close>: the mapping is one to one and stays so under remapping; writes are read back; a failed
    attach undoes itself; storing the NMBM tables ends and touches nothing but their own blocks (\<open>nmbm_update_confined\<close>);
    and where the tables lose data.
  \<^item> \<open>MtdSplit\<close>, \<open>MtdImages\<close> and \<open>MtdDispatch\<close>: the search for a root filesystem finds the first one; six parsers (eight
    with a 64-bit \<open>size_t\<close>), and any list of them run by the core, return on every flash content with partitions that are
    disjoint and inside the device; the uImage and jImage parsers compute a reference layout; where
    the overlay starts; which boot slot is split, and how; and images on which other parsers fail.
  \<^item> \<open>OwIpcalc\<close>: containment, network and broadcast address as statements on sets of addresses, for either byte
    order of the machine; 128 bit arithmetic; when \<open>next\<close> is right; printing and parsing; the exit status.
  \<^item> \<open>Lmo\<close> and \<open>Po2lmo\<close>: what is converted is found again, for every key up to blanks; the canonical key as the
    words of a text; the pointer to the active catalogue.

  \<^bold>\<open>Not modelled.\<close> Messages on standard error and in the kernel log, the usage texts and the method tables handed
  to libubus. The splitting of nested partitions by
  mtd_add_partition itself, the Lua bindings of LuCI (ip.c, template_lmo.c) and the image tools are further candidates. The drivers of Ethernet switches and SoCs
  are register tables and hardware access, whose meaning is not in the sources; Kconfig, lemon, the hash
  functions and system headers are third-party code.
\<close>

section \<open>The ubus daemon and neon-procd together\<close>

text \<open>
  The child of a request is \<open>neon-procd\<close> itself: its standard input is read by \<open>read_stdin_all\<close>
  under a schedule of reads of its own, and it works on the files and children of \<open>pd_world\<close>.
\<close>

definition neon_procd_child :: "pd_env \<Rightarrow> jsonc \<Rightarrow> io_ev list \<Rightarrow> string \<Rightarrow> string \<Rightarrow> pd_world \<Rightarrow> child_end \<times> string \<times> pd_world" where
  "neon_procd_child env J reads verb inp w =
     (case read_stdin_all reads inp of
        Some (Inr stdin) \<Rightarrow>
          (let (rc, w') = pd_main env J stdin [verb] w
           in (case rc of Some n \<Rightarrow> CExited (nat (n mod 256)) | None \<Rightarrow> CSignaled 11,
               concat (map (\<lambda>l. l @ [newline]) (drop (length (w_out w)) (w_out w'))), w'))
      | _ \<Rightarrow> (CExited 1, [], w))"

text \<open>The JSON value of the attributes of a message.\<close>

fun blob_json :: "blob \<Rightarrow> json" where
  "blob_json (BString s) = JString s"
| "blob_json (BU32 x) = JInt (sint x)"
| "blob_json (BU64 x) = JInt (sint x)"
| "blob_json (BTable as) = JObject (map (\<lambda>(k, v). (k, blob_json v)) as)"
| "blob_json (BArray bs) = JArray (map blob_json bs)"

lemma read_stdin_all_complete:
  "no_failure evs \<Longrightarrow> length inp < progress evs \<Longrightarrow> NUL \<notin> set inp \<Longrightarrow> read_stdin_all evs inp = Some (Inr inp)"
  using read_all_complete [of evs inp] by (auto simp: read_stdin_all_def cstr_id)

lemma neon_procd_child_main:
  assumes "no_failure reads" "length inp < progress reads" "NUL \<notin> set inp"
  shows "snd (snd (neon_procd_child env J reads verb inp w)) = snd (pd_main env J inp [verb] w)"
  using read_stdin_all_complete [OF assms] by (simp add: neon_procd_child_def case_prod_unfold Let_def)

lemma feed_neon_async_child:
  assumes "pe_pipe1 pe" "pe_fork pe" "pe_fork2 pe" "no_failure (pe_writes pe)" "length json \<le> progress (pe_writes pe)"
  shows "\<exists>tr. feed_neon_async pe verb json w = Some (0, tr, snd (snd (pe_child pe verb json w)))"
  using assms write_all_total [of "pe_writes pe" json "[]"] by (simp add: child_defs)

text \<open>
  C1. A ubus event reaches the triggers. When an event of type \<open>ty\<close> arrives on ubus, the callback,
  the pipe with any partial writes and reads, and the child \<open>neon-procd event\<close> together run exactly
  the scripts of the registered triggers whose pattern matches \<open>ty\<close> and whose condition holds for the
  attributes of the event, in the order of the registry, and change nothing else. The hypotheses on the
  libraries are that blobmsg prints the message and that json-c reads that text as the same value.\<close>

theorem ubus_event_runs_triggers:
  assumes "pe_pipe1 pe" "pe_fork pe" "pe_fork2 pe" "pe_child pe = neon_procd_child env J reads"
    and "bm_format_json bm [(''type'', BString ty), (''data'', BTable attrs)] = Some json" "NUL \<notin> set json"
    and "jc_parse J json = blob_json (BTable [(''type'', BString ty), (''data'', BTable attrs)])" "ty \<noteq> []"
    and "no_failure (pe_writes pe)" "length json \<le> progress (pe_writes pe)"
    and "no_failure reads" "length json < progress reads"
    and "jsonc_doc J" "passive_children env" "e_readdir env w = Some ds" "registered env J (w_files w) trigs ds"
  shows "\<exists>tr. trigger_event_cb bm pe (Some ty) (Some attrs) w = Some (tr, w\<lparr>w_runs := w_runs w @
    concat (map (\<lambda>d. map (\<lambda>t. (tg_argv t, False)) (filter (fires env J ty (blob_json (BTable attrs))) (trigs d)))
      (filter json_entry ds))\<rparr>)"
proof -
  let ?w' = "w\<lparr>w_runs := w_runs w @
    concat (map (\<lambda>d. map (\<lambda>t. (tg_argv t, False)) (filter (fires env J ty (blob_json (BTable attrs))) (trigs d)))
      (filter json_entry ds))\<rparr>"
  let ?ev = "blob_json (BTable [(''type'', BString ty), (''data'', BTable attrs)])"
  have parse: "jc_parse J (cstr json) = ?ev" using assms(6,7) by (simp add: cstr_id)
  have ev: "jstr ?ev ''type'' = Some ty" "object_get_ex ?ev ''data'' = Some (blob_json (BTable attrs))"
    by (simp_all add: jstr_def object_get_ex_def)
  have "cmd_event env J json w = (0, ?w')"
    by (rule cmd_event_runs [OF assms(13,14) parse ev _ assms(15,16)]) simp
  then have "snd (snd (pe_child pe ''event'' json w)) = ?w'"
    using assms(4) neon_procd_child_main [OF assms(11,12,6)] by (simp add: pd_main_def)
  moreover obtain tr where
    "feed_neon_async pe ''event'' json w = Some (0, tr, snd (snd (pe_child pe ''event'' json w)))"
    using feed_neon_async_child [OF assms(1,2,3,9,10)] by blast
  ultimately show ?thesis using assms(5,8) by (simp add: trigger_event_cb_def)
qed

definition demo_proc :: "pd_world proc_env" where
  "demo_proc = \<lparr>pe_pipe1 = True, pe_pipe2 = True, pe_fork = True, pe_fork2 = True, pe_malloc = True, pe_waited = True,
     pe_writes = chunked 2, pe_reads = chunked 2, pe_child = neon_procd_child demo_env demo_jsonc (chunked 3)\<rparr>"

theorem ubus_event_runs_triggers_witness:
  "\<exists>tr. trigger_event_cb \<lparr>bm_format_json = (\<lambda>as. Some ''EV''), bm_add_json = (\<lambda>s. None)\<rparr> demo_proc (Some ''config.change'')
      (Some [(''package'', BString ''firewall'')]) demo_world =
     Some (tr, demo_world\<lparr>w_runs := [([''/etc/init.d/firewall'', ''reload''], False)]\<rparr>)"
proof -
  have fire: "concat (map (\<lambda>d. map (\<lambda>t. (tg_argv t, False))
        (filter (fires demo_env demo_jsonc ''config.change'' (blob_json (BTable [(''package'', BString ''firewall'')]))) ((\<lambda>d. [demo_trigger]) d)))
      (filter json_entry [''.'', ''..'', ''firewall.json''])) = [([''/etc/init.d/firewall'', ''reload''], False)]"
    by code_simp
  have parse: "jc_parse demo_jsonc ''EV'' = blob_json (BTable [(''type'', BString ''config.change''), (''data'', BTable [(''package'', BString ''firewall'')])])"
    by (simp add: demo_jsonc_def demo_event_data_def)
  have dir: "e_readdir demo_env demo_world = Some [''.'', ''..'', ''firewall.json'']" by (simp add: demo_env_def)
  have runs: "w_runs demo_world = []" by (simp add: demo_world_def)
  note run = ubus_event_runs_triggers [where pe = demo_proc and reads = "chunked 3" and ty = "''config.change''"
      and bm = "\<lparr>bm_format_json = (\<lambda>as. Some ''EV''), bm_add_json = (\<lambda>s. None)\<rparr>"
      and attrs = "[(''package'', BString ''firewall'')]" and json = "''EV''",
      OF _ _ _ _ _ _ parse _ _ _ _ _ demo_jsonc_doc demo_passive dir demo_registered, unfolded fire runs append_Nil]
  show ?thesis by (rule run) (simp_all add: demo_proc_def chunked_ok NUL_def)
qed

end
